(* ===== verification/Base.thy ===== *)
theory Base
  imports "HOL-Library.Word" "HOL-Library.List_Lexorder"
begin

text \<open>
  The prelude of the development: byte strings and the parts of Python's \<open>struct\<close> and
  \<open>zlib\<close> modules the engine uses, the engine's exception classes, results that carry an
  exception, and the lemmas on slices and little-endian fields that the components share.

  \<^item> A byte is an \<open>8 word\<close> and a \<open>bytes\<close> value a list of them. Byte strings compare
    lexicographically with a proper prefix below its extensions, which is the order
    \<open>HOL-Library.List_Lexorder\<close> puts on lists over the unsigned order of words.
  \<^item> Every operation that can raise returns \<open>db_error + 'a\<close>, \<open>Inl\<close> being the exception.
  \<^item> \<open>le_bytes\<close> and \<open>le_nat\<close> are struct's little-endian unsigned fields, \<open>be_bytes\<close> and
    \<open>be_nat\<close> its big-endian ones; \<open>slice\<close> is \<open>buf[a:a+n]\<close> and \<open>slice_assign\<close> is
    \<open>buf[a:b] = xs\<close>, which for a replacement of another length moves the tail, as Python does.
\<close>

unbundle bit_operations_syntax

section \<open>Errors and results\<close>

type_synonym byte = "8 word"
type_synonym bytes = "byte list"

datatype db_error =
    ChenDBError | StorageError | CorruptDatabaseError | CorruptPageError
  | ChecksumMismatchError | PageNotFoundError | RecordTooLargeError | RecordNotFoundError
  | SerializationError | SchemaMismatchError | TypeMismatchError | NullConstraintViolation
  | SchemaError | IndexingError | UniqueViolation
  | SqlError | LexError | ParseError | UnsupportedSqlError | BindingError
  | CatalogError | ExecutionError | TransactionError | EvaluationError | QueryCancelledError
  | LockTimeout | DeadlockError
  \<comment> \<open>exceptions of Python itself that the engine lets through\<close>
  | ValueError | StructError | OverflowError | IndexError | KeyError | TypeError | UnicodeEncodeError
  | RuntimeError

fun superclass :: "db_error \<Rightarrow> db_error option" where
  "superclass ChenDBError = None"
| "superclass StorageError = Some ChenDBError"
| "superclass CorruptDatabaseError = Some StorageError"
| "superclass CorruptPageError = Some StorageError"
| "superclass ChecksumMismatchError = Some CorruptPageError"
| "superclass PageNotFoundError = Some StorageError"
| "superclass RecordTooLargeError = Some StorageError"
| "superclass RecordNotFoundError = Some StorageError"
| "superclass SerializationError = Some ChenDBError"
| "superclass SchemaMismatchError = Some SerializationError"
| "superclass TypeMismatchError = Some SerializationError"
| "superclass NullConstraintViolation = Some SerializationError"
| "superclass SchemaError = Some ChenDBError"
| "superclass IndexingError = Some ChenDBError"
| "superclass UniqueViolation = Some IndexingError"
| "superclass SqlError = Some ChenDBError"
| "superclass LexError = Some SqlError"
| "superclass ParseError = Some SqlError"
| "superclass UnsupportedSqlError = Some ParseError"
| "superclass BindingError = Some SqlError"
| "superclass CatalogError = Some ChenDBError"
| "superclass ExecutionError = Some ChenDBError"
| "superclass TransactionError = Some ChenDBError"
| "superclass EvaluationError = Some ExecutionError"
| "superclass QueryCancelledError = Some ExecutionError"
| "superclass LockTimeout = Some TransactionError"
| "superclass DeadlockError = Some TransactionError"
| "superclass ValueError = None"
| "superclass StructError = None"
| "superclass OverflowError = None"
| "superclass IndexError = None"
| "superclass KeyError = None"
| "superclass TypeError = None"
| "superclass RuntimeError = None"
| "superclass UnicodeEncodeError = Some ValueError"

type_synonym 'a res = "db_error + 'a"

definition bind_res :: "'a res \<Rightarrow> ('a \<Rightarrow> 'b res) \<Rightarrow> 'b res" where
  "bind_res m f = (case m of Inl e \<Rightarrow> Inl e | Inr x \<Rightarrow> f x)"

definition guard_res :: "bool \<Rightarrow> db_error \<Rightarrow> 'a res \<Rightarrow> 'a res" where
  "guard_res ok e r = (if ok then r else Inl e)"

text \<open>
  An operation on a state that may raise. The state is returned with an exception too, since raising
  does not undo what was done before.
\<close>

type_synonym ('s, 'a) op = "'s \<Rightarrow> 's \<times> 'a res"

definition bind_op :: "('s, 'a) op \<Rightarrow> ('a \<Rightarrow> ('s, 'b) op) \<Rightarrow> ('s, 'b) op" where
  "bind_op m f s = (case m s of (s', Inl e) \<Rightarrow> (s', Inl e) | (s', Inr x) \<Rightarrow> f x s')"

definition lift_res :: "'a res \<Rightarrow> ('s, 'a) op" where
  "lift_res r s = (s, r)"

lemma bind_op_Inr:
  "bind_op m f s = (s', Inr y) \<longleftrightarrow> (\<exists>s1 x. m s = (s1, Inr x) \<and> f x s1 = (s', Inr y))"
  by (auto simp: bind_op_def split: prod.splits sum.splits)

lemma bind_op_step: "m s = (s', Inr x) \<Longrightarrow> bind_op m f s = f x s'"
  by (simp add: bind_op_def)

lemma bind_op_raise: "m s = (s', Inl e) \<Longrightarrow> bind_op m f s = (s', Inl e)"
  by (simp add: bind_op_def)

lemma bind_lift_res [simp]:
  "bind_op (lift_res (Inr x)) f = f x" "bind_op (lift_res (Inl e)) f = (\<lambda>s. (s, Inl e))"
  by (simp_all add: bind_op_def lift_res_def fun_eq_iff)

section \<open>Slices of a buffer\<close>

definition slice :: "'a list \<Rightarrow> nat \<Rightarrow> nat \<Rightarrow> 'a list" where
  "slice bs a n = take n (drop a bs)"

definition slice_assign :: "'a list \<Rightarrow> nat \<Rightarrow> nat \<Rightarrow> 'a list \<Rightarrow> 'a list" where
  "slice_assign bs a b xs = take a bs @ xs @ drop (max a b) bs"

abbreviation put :: "'a list \<Rightarrow> nat \<Rightarrow> 'a list \<Rightarrow> 'a list" where
  "put bs a xs \<equiv> slice_assign bs a (a + length xs) xs"

abbreviation zeros :: "nat \<Rightarrow> bytes" where
  "zeros n \<equiv> replicate n 0"

section \<open>Fixed-width integers\<close>

fun le_bytes :: "nat \<Rightarrow> nat \<Rightarrow> bytes" where
  "le_bytes 0 v = []"
| "le_bytes (Suc n) v = word_of_nat v # le_bytes n (v div 256)"

fun le_nat :: "bytes \<Rightarrow> nat" where
  "le_nat [] = 0"
| "le_nat (b # bs) = unat b + 256 * le_nat bs"

definition be_bytes :: "nat \<Rightarrow> nat \<Rightarrow> bytes" where
  "be_bytes n v = rev (le_bytes n v)"

definition be_nat :: "bytes \<Rightarrow> nat" where
  "be_nat bs = le_nat (rev bs)"

text \<open>
  \<open>Struct.pack_into\<close> and \<open>Struct.unpack_from\<close> for one unsigned little-endian field of
  \<open>n\<close> bytes. Both raise \<open>struct.error\<close> when the field does not lie inside the buffer, and
  packing raises it when the value does not fit the field.
\<close>

definition pack_into :: "nat \<Rightarrow> bytes \<Rightarrow> nat \<Rightarrow> nat \<Rightarrow> bytes res" where
  "pack_into n buf off v =
     guard_res (v < 256 ^ n \<and> off + n \<le> length buf) StructError
       (Inr (put buf off (le_bytes n v)))"

definition unpack_from :: "nat \<Rightarrow> bytes \<Rightarrow> nat \<Rightarrow> nat res" where
  "unpack_from n buf off =
     guard_res (off + n \<le> length buf) StructError (Inr (le_nat (slice buf off n)))"

section \<open>CRC-32\<close>

text \<open>
  \<open>zlib.crc32\<close>: the reflected CRC with polynomial \<open>0xEDB88320\<close>, initial value and final
  complement all ones.
\<close>

definition crc32_bit :: "32 word \<Rightarrow> 32 word" where
  "crc32_bit c = (if bit c 0 then drop_bit 1 c XOR 0xEDB88320 else drop_bit 1 c)"

definition crc32_byte :: "32 word \<Rightarrow> byte \<Rightarrow> 32 word" where
  "crc32_byte c b = (crc32_bit ^^ 8) (c XOR ucast b)"

definition crc32 :: "bytes \<Rightarrow> nat" where
  "crc32 bs = unat (NOT (foldl crc32_byte 0xFFFFFFFF bs))"

section \<open>Shared lemmas\<close>

named_theorems res_simps "results, pattern-matched"

lemma bind_res_simps [simp, res_simps]:
  "bind_res (Inl e) f = Inl e"
  "bind_res (Inr x) f = f x"
  by (simp_all add: bind_res_def)

lemma guard_res_simps [simp, res_simps]:
  "guard_res True e r = r"
  "guard_res False e r = Inl e"
  by (simp_all add: guard_res_def)

lemma bind_res_Inr [res_simps]:
  "bind_res m f = Inr y \<longleftrightarrow> (\<exists>x. m = Inr x \<and> f x = Inr y)"
  by (cases m) auto

lemma guard_res_Inr [res_simps]: "guard_res ok e r = Inr y \<longleftrightarrow> ok \<and> r = Inr y"
  by (simp add: guard_res_def)

lemma bind_res_cong [fundef_cong]:
  "m = m' \<Longrightarrow> (\<And>x. m' = Inr x \<Longrightarrow> f x = f' x) \<Longrightarrow> bind_res m f = bind_res m' f'"
  by (cases m') (auto simp: bind_res_def)

subsection \<open>Slices\<close>

lemma length_slice [simp]: "length (slice bs a n) = min n (length bs - a)"
  by (simp add: slice_def)

lemma slice_0 [simp]: "slice bs a 0 = []"
  by (simp add: slice_def)

lemma slice_append_left [simp]: "a + n \<le> length xs \<Longrightarrow> slice (xs @ ys) a n = slice xs a n"
  by (simp add: slice_def)

lemma slice_append_right: "length xs \<le> a \<Longrightarrow> slice (xs @ ys) a n = slice ys (a - length xs) n"
  by (simp add: slice_def)

lemma slice_all [simp]: "n = length xs \<Longrightarrow> slice xs 0 n = xs"
  by (simp add: slice_def)

lemma slice_middle: "a = length xs \<Longrightarrow> n = length ys \<Longrightarrow> slice (xs @ ys @ zs) a n = ys"
  by (simp add: slice_def)

lemma nth_slice: "i < n \<Longrightarrow> a + i < length bs \<Longrightarrow> slice bs a n ! i = bs ! (a + i)"
  by (simp add: slice_def)

lemma slice_slice: "c + m \<le> n \<Longrightarrow> slice (slice bs a n) c m = slice bs (a + c) m"
  by (simp add: slice_def drop_take add.commute min_def)

lemma slice_split: "slice bs a (n + m) = slice bs a n @ slice bs (a + n) m"
  by (simp add: slice_def take_add) (simp add: add.commute)

lemma drop_slice: "drop k (slice bs a n) = slice bs (a + k) (n - k)"
  by (simp add: slice_def drop_take add.commute)

lemma slice_assign_alt:
  "a \<le> b \<Longrightarrow> slice_assign bs a b xs = take a bs @ xs @ drop b bs"
  by (simp add: slice_assign_def)

lemma length_slice_assign [simp]:
  "a \<le> b \<Longrightarrow> b \<le> length bs \<Longrightarrow> length xs = b - a \<Longrightarrow>
   length (slice_assign bs a b xs) = length bs"
  by (simp add: slice_assign_def)

lemma slice_assign_same:
  "a \<le> b \<Longrightarrow> b \<le> length bs \<Longrightarrow> length xs = b - a \<Longrightarrow> n = b - a \<Longrightarrow>
   slice (slice_assign bs a b xs) a n = xs"
  by (simp add: slice_assign_def slice_def)

lemma slice_assign_inside:
  "a \<le> b \<Longrightarrow> b \<le> length bs \<Longrightarrow> length xs = b - a \<Longrightarrow> a \<le> c \<Longrightarrow> c + n \<le> b \<Longrightarrow>
   slice (slice_assign bs a b xs) c n = slice xs (c - a) n"
  by (simp add: slice_assign_def slice_def)

lemma slice_assign_below:
  "a \<le> b \<Longrightarrow> b \<le> length bs \<Longrightarrow> c + n \<le> a \<Longrightarrow>
   slice (slice_assign bs a b xs) c n = slice bs c n"
  by (simp add: slice_assign_def slice_def drop_take)

lemma slice_assign_above:
  "a \<le> b \<Longrightarrow> b \<le> length bs \<Longrightarrow> length xs = b - a \<Longrightarrow> b \<le> c \<Longrightarrow>
   slice (slice_assign bs a b xs) c n = slice bs c n"
  by (simp add: slice_assign_def slice_def)

lemma slice_replicate [simp]: "a + n \<le> m \<Longrightarrow> slice (replicate m x) a n = replicate n x"
  by (simp add: slice_def)

subsection \<open>Little- and big-endian fields\<close>

lemma unat_byte_less [simp]: "unat (b :: byte) < 256"
  using unsigned_less [of b, where 'a = nat] by simp

lemma le_bytes_numeral:
  "le_bytes (numeral k) v = word_of_nat v # le_bytes (pred_numeral k) (v div 256)"
  by (simp only: numeral_eq_Suc [of k] le_bytes.simps)

lemma length_le_bytes [simp]: "length (le_bytes n v) = n"
  by (induction n arbitrary: v) auto

lemma length_be_bytes [simp]: "length (be_bytes n v) = n"
  by (simp add: be_bytes_def)

lemma le_nat_bound: "le_nat bs < 256 ^ length bs"
proof (induction bs)
  case (Cons b bs)
  define p where "p = (256 :: nat) ^ length bs"
  have "unat b < 256" and "le_nat bs < p"
    using Cons by (simp_all add: p_def)
  then have "unat b + 256 * le_nat bs < 256 * p" by linarith
  then show ?case by (simp add: p_def)
qed simp

lemma le_nat_le_bytes [simp]: "le_nat (le_bytes n v) = v mod 256 ^ n"
proof (induction n arbitrary: v)
  case (Suc n)
  have "unat (word_of_nat v :: 8 word) = v mod 256"
    by (simp add: unat_of_nat)
  then show ?case
    using Suc mod_mult2_eq [of v 256 "256 ^ n"] by simp
qed simp

lemma le_bytes_le_nat [simp]: "n = length bs \<Longrightarrow> le_bytes n (le_nat bs) = bs"
proof (induction bs arbitrary: n)
  case (Cons b bs)
  have "unat b < 256" by (rule unat_byte_less)
  moreover have "(word_of_nat (unat b + 256 * le_nat bs) :: 8 word) = b"
    by (simp add: word_unat_eq_iff unat_of_nat unat_word_ariths)
  ultimately show ?case using Cons by simp
qed simp

lemma le_nat_zeros [simp]: "le_nat (replicate n 0) = 0"
  by (induction n) auto

lemma be_nat_be_bytes [simp]: "be_nat (be_bytes n v) = v mod 256 ^ n"
  by (simp add: be_nat_def be_bytes_def)

lemma be_bytes_be_nat [simp]: "n = length bs \<Longrightarrow> be_bytes n (be_nat bs) = bs"
  by (simp add: be_nat_def be_bytes_def)

lemma be_nat_bound: "be_nat bs < 256 ^ length bs"
  using le_nat_bound [of "rev bs"] by (simp add: be_nat_def)

lemma le_nat_append: "le_nat (xs @ ys) = le_nat xs + 256 ^ length xs * le_nat ys"
  by (induction xs) (auto simp: algebra_simps)

lemma be_nat_Cons: "be_nat (b # bs) = unat b * 256 ^ length bs + be_nat bs"
  by (simp add: be_nat_def le_nat_append)

text \<open>On byte strings of one length the byte order is the order of the big-endian value.\<close>

lemma be_nat_less_iff: "length xs = length ys \<Longrightarrow> xs < ys \<longleftrightarrow> be_nat xs < be_nat ys"
proof (induction xs ys rule: list_induct2)
  case (Cons x xs y ys)
  let ?p = "256 ^ length xs :: nat"
  have bx: "be_nat xs < ?p" and b_y: "be_nat ys < ?p"
    using be_nat_bound [of xs] be_nat_bound [of ys] Cons.hyps by simp_all
  have eq: "be_nat (x # xs) = unat x * ?p + be_nat xs" "be_nat (y # ys) = unat y * ?p + be_nat ys"
    using Cons.hyps by (simp_all add: be_nat_Cons)
  consider "unat x < unat y" | "unat x = unat y" | "unat y < unat x" by linarith
  then show ?case
  proof cases
    case 1
    then have "Suc (unat x) * ?p \<le> unat y * ?p" by (intro mult_le_mono1) simp
    with bx have "unat x * ?p + be_nat xs < unat y * ?p + be_nat ys" by simp
    moreover from 1 have "x < y" by (simp add: word_less_nat_alt)
    ultimately show ?thesis by (simp add: eq)
  next
    case 2
    then have "x = y" by (simp add: word_unat_eq_iff)
    with Cons.IH show ?thesis unfolding eq by simp
  next
    case 3
    then have "Suc (unat y) * ?p \<le> unat x * ?p" by (intro mult_le_mono1) simp
    with b_y have "unat y * ?p + be_nat ys < unat x * ?p + be_nat xs" by simp
    moreover from 3 have "\<not> x < y" "x \<noteq> y" by (auto simp: word_less_nat_alt)
    ultimately show ?thesis by (simp add: eq)
  qed
qed simp

lemma be_bytes_less_iff:
  "v < 256 ^ n \<Longrightarrow> w < 256 ^ n \<Longrightarrow> be_bytes n v < be_bytes n w \<longleftrightarrow> v < w"
  by (simp add: be_nat_less_iff)

lemma be_bytes_inject: "v < 256 ^ n \<Longrightarrow> w < 256 ^ n \<Longrightarrow> be_bytes n v = be_bytes n w \<longleftrightarrow> v = w"
  by (metis be_nat_be_bytes mod_less)

lemma crc32_bound: "crc32 bs < 256 ^ 4"
  using unsigned_less [of "NOT (foldl crc32_byte 0xFFFFFFFF bs)", where 'a = nat]
  by (simp add: crc32_def)

subsection \<open>Fields of a buffer\<close>

lemma pack_into_Inr [res_simps]:
  "pack_into n buf off v = Inr buf' \<longleftrightarrow>
   v < 256 ^ n \<and> off + n \<le> length buf \<and> buf' = put buf off (le_bytes n v)"
  by (auto simp: pack_into_def guard_res_def)

lemma unpack_from_Inr [res_simps]:
  "unpack_from n buf off = Inr v \<longleftrightarrow> off + n \<le> length buf \<and> v = le_nat (slice buf off n)"
  by (auto simp: unpack_from_def guard_res_def)

end
