(* ===== verification/PyFloat.thy ===== *)
theory PyFloat
  imports Base
begin

text \<open>
  Python's \<open>float\<close> and its mix with unbounded integers, as the engine uses them. A float is
  the 64-bit pattern of an IEEE-754 binary64 (\<open>struct\<close>'s \<open>d\<close> format copies that pattern).
  Every finite double is an integer multiple of \<open>2 ^ -1074\<close>, so \<open>f_num\<close> gives its exact
  value as an integer in that unit and comparisons are comparisons of integers;
  \<open>f_round\<close> rounds an exact quotient to the nearest double, ties to even, and arithmetic is
  the exact result rounded once, as IEEE-754 specifies.
\<close>

section \<open>The format\<close>

type_synonym f64 = "64 word"

definition f_neg :: "f64 \<Rightarrow> bool" where
  "f_neg w \<longleftrightarrow> 2 ^ 63 \<le> unat w"

definition f_mag :: "f64 \<Rightarrow> nat" where
  "f_mag w = unat w mod 2 ^ 63"

definition isfinite :: "f64 \<Rightarrow> bool" where
  "isfinite w \<longleftrightarrow> f_mag w < 2047 * 2 ^ 52"

definition f_isinf :: "f64 \<Rightarrow> bool" where
  "f_isinf w \<longleftrightarrow> f_mag w = 2047 * 2 ^ 52"

definition f_isnan :: "f64 \<Rightarrow> bool" where
  "f_isnan w \<longleftrightarrow> 2047 * 2 ^ 52 < f_mag w"

definition f_make :: "bool \<Rightarrow> nat \<Rightarrow> f64" where
  "f_make neg m = word_of_nat ((if neg then 2 ^ 63 else 0) + m)"

abbreviation f_zero :: f64 where "f_zero \<equiv> 0"

definition f_inf :: "bool \<Rightarrow> f64" where
  "f_inf neg = f_make neg (2047 * 2 ^ 52)"

definition f_nan :: f64 where
  "f_nan = f_make False (2047 * 2 ^ 52 + 2 ^ 51)"

text \<open>The value of a magnitude and of a signed pattern, in units of \<open>2 ^ -1074\<close>.\<close>

definition mag_int :: "nat \<Rightarrow> nat" where
  "mag_int m = (let e = m div 2 ^ 52; f = m mod 2 ^ 52
                in if e = 0 then f else (2 ^ 52 + f) * 2 ^ (e - 1))"

definition f_num :: "f64 \<Rightarrow> int" where
  "f_num w = (if f_neg w then - int (mag_int (f_mag w)) else int (mag_int (f_mag w)))"

section \<open>Rounding\<close>

fun ilog2 :: "nat \<Rightarrow> nat" where
  "ilog2 n = (if n < 2 then 0 else Suc (ilog2 (n div 2)))"

declare ilog2.simps [simp del]

definition round_half_even :: "nat \<Rightarrow> nat \<Rightarrow> nat" where
  "round_half_even p q =
     (let k = p div q; r = p mod q
      in if 2 * r < q then k else if q < 2 * r then Suc k else if even k then k else Suc k)"

text \<open>The magnitude nearest to \<open>p / q\<close> units; infinity when it lies past the last double.\<close>

definition f_round :: "nat \<Rightarrow> nat \<Rightarrow> nat" where
  "f_round p q =
     (let s = ilog2 (p div q) - 52
      in min (s * 2 ^ 52 + round_half_even p (q * 2 ^ s)) (2047 * 2 ^ 52))"

section \<open>Conversions and arithmetic\<close>

definition float_of_int :: "int \<Rightarrow> f64 res" where
  "float_of_int n =
     (let m = f_round (nat \<bar>n\<bar> * 2 ^ 1074) 1
      in if m = 2047 * 2 ^ 52 then Inl OverflowError else Inr (f_make (n < 0) m))"

definition f_uminus :: "f64 \<Rightarrow> f64" where
  "f_uminus w = f_make (\<not> f_neg w) (f_mag w)"

definition f_abs :: "f64 \<Rightarrow> f64" where
  "f_abs w = f_make False (f_mag w)"

definition f_add :: "f64 \<Rightarrow> f64 \<Rightarrow> f64" where
  "f_add a b =
     (if f_isnan a \<or> f_isnan b then f_nan
      else if f_isinf a then (if f_isinf b \<and> f_neg a \<noteq> f_neg b then f_nan else a)
      else if f_isinf b then b
      else let x = f_num a + f_num b
           in if x = 0 then f_make (f_neg a \<and> f_neg b) 0
              else f_make (x < 0) (f_round (nat \<bar>x\<bar>) 1))"

definition f_sub :: "f64 \<Rightarrow> f64 \<Rightarrow> f64" where
  "f_sub a b = f_add a (f_uminus b)"

definition f_mult :: "f64 \<Rightarrow> f64 \<Rightarrow> f64" where
  "f_mult a b =
     (let neg = (f_neg a \<noteq> f_neg b)
      in if f_isnan a \<or> f_isnan b then f_nan
         else if f_isinf a \<or> f_isinf b
              then (if f_mag a = 0 \<or> f_mag b = 0 then f_nan else f_inf neg)
         else f_make neg (f_round (nat \<bar>f_num a * f_num b\<bar>) (2 ^ 1074)))"

text \<open>Division; the engine excludes a zero divisor before it divides.\<close>

definition f_div :: "f64 \<Rightarrow> f64 \<Rightarrow> f64" where
  "f_div a b =
     (let neg = (f_neg a \<noteq> f_neg b)
      in if f_isnan a \<or> f_isnan b then f_nan
         else if f_isinf a then (if f_isinf b then f_nan else f_inf neg)
         else if f_isinf b then f_make neg 0
         else f_make neg (f_round (nat \<bar>f_num a\<bar> * 2 ^ 1074) (nat \<bar>f_num b\<bar>)))"

text \<open>\<open>a % b\<close> for non-negative \<open>a\<close> and positive \<open>b\<close>: the remainder is exact.\<close>

definition f_mod :: "f64 \<Rightarrow> f64 \<Rightarrow> f64" where
  "f_mod a b =
     (if f_isnan a \<or> f_isnan b \<or> f_isinf a then f_nan
      else if f_isinf b then a
      else f_make False (f_round (nat (f_num a mod f_num b)) 1))"

section \<open>Numbers: unbounded integers and floats\<close>

datatype num_val = IntV int | FloatV f64

fun n_isnan :: "num_val \<Rightarrow> bool" where
  "n_isnan (IntV _) = False"
| "n_isnan (FloatV w) = f_isnan w"

fun n_isinf :: "num_val \<Rightarrow> bool" where
  "n_isinf (IntV _) = False"
| "n_isinf (FloatV w) = f_isinf w"

fun n_neg :: "num_val \<Rightarrow> bool" where
  "n_neg (IntV n) = (n < 0)"
| "n_neg (FloatV w) = f_neg w"

fun n_scaled :: "num_val \<Rightarrow> int" where
  "n_scaled (IntV n) = n * 2 ^ 1074"
| "n_scaled (FloatV w) = f_num w"

text \<open>Python compares an integer with a float exactly; NaN compares with nothing.\<close>

definition num_less :: "num_val \<Rightarrow> num_val \<Rightarrow> bool" where
  "num_less a b \<longleftrightarrow> \<not> n_isnan a \<and> \<not> n_isnan b \<and>
     (if n_isinf a then n_neg a \<and> \<not> (n_isinf b \<and> n_neg b)
      else if n_isinf b then \<not> n_neg b
      else n_scaled a < n_scaled b)"

definition num_eq :: "num_val \<Rightarrow> num_val \<Rightarrow> bool" where
  "num_eq a b \<longleftrightarrow> \<not> n_isnan a \<and> \<not> n_isnan b \<and>
     (if n_isinf a \<or> n_isinf b then n_isinf a \<and> n_isinf b \<and> n_neg a = n_neg b
      else n_scaled a = n_scaled b)"

definition num_leq :: "num_val \<Rightarrow> num_val \<Rightarrow> bool" where
  "num_leq a b \<longleftrightarrow> num_less a b \<or> num_eq a b"

fun to_float :: "num_val \<Rightarrow> f64 res" where
  "to_float (IntV n) = float_of_int n"
| "to_float (FloatV w) = Inr w"

section \<open>Lemmas\<close>

lemma unat_f64_less [simp]: "unat (w :: f64) < 2 ^ 64"
  using unsigned_less [of w, where 'a = nat] by simp

lemma f_mag_less [simp]: "f_mag w < 2 ^ 63"
  by (simp add: f_mag_def)

lemma unat_f64_decomp: "unat w = (if f_neg w then 2 ^ 63 else 0) + f_mag w"
proof -
  have "unat w < 2 ^ 64" by (rule unat_f64_less)
  then show ?thesis unfolding f_neg_def f_mag_def by (auto simp: mod_if)
qed

lemma f_make_decomp [simp]: "f_make (f_neg w) (f_mag w) = w"
proof -
  have "(if f_neg w then 2 ^ 63 else 0) + f_mag w = unat w" by (simp add: unat_f64_decomp)
  then show ?thesis by (simp add: f_make_def)
qed

lemma unat_f_make: "m < 2 ^ 63 \<Longrightarrow> unat (f_make n m) = (if n then 2 ^ 63 else 0) + m"
  unfolding f_make_def unat_of_nat by simp

lemma f_neg_f_make [simp]: "m < 2 ^ 63 \<Longrightarrow> f_neg (f_make n m) = n"
  by (auto simp: f_neg_def unat_f_make)

lemma f_mag_f_make [simp]: "m < 2 ^ 63 \<Longrightarrow> f_mag (f_make n m) = m"
  by (auto simp: f_mag_def unat_f_make)

text \<open>
  The value is strictly increasing in the magnitude: within a binade by the fraction, and
  every double of one binade lies below every double of the next.
\<close>

lemma mag_int_lower: "m div 2 ^ 52 = Suc e \<Longrightarrow> 2 ^ 52 * 2 ^ e \<le> mag_int m"
  by (simp add: mag_int_def Let_def)

lemma mag_int_upper: "m div 2 ^ 52 \<le> e \<Longrightarrow> mag_int m < 2 ^ 52 * 2 ^ e"
proof -
  assume e: "m div 2 ^ 52 \<le> e"
  let ?f = "m mod 2 ^ 52"
  have f: "?f < (2 ^ 52 :: nat)" by simp
  show ?thesis
  proof (cases "m div 2 ^ 52")
    case 0
    have "(2 ^ 52 :: nat) * 1 \<le> 2 ^ 52 * 2 ^ e" by (intro mult_le_mono2) simp
    with f have "?f < 2 ^ 52 * 2 ^ e" by linarith
    then show ?thesis using 0 by (simp add: mag_int_def Let_def)
  next
    case (Suc k)
    have "(2 ^ 52 + ?f) * 2 ^ k < (2 ^ 52 + 2 ^ 52) * 2 ^ k"
      using f by (intro mult_strict_right_mono) simp_all
    also have "\<dots> = 2 ^ 52 * (2 :: nat) ^ Suc k" by simp
    also have "\<dots> \<le> 2 ^ 52 * 2 ^ e" using e Suc by (intro mult_le_mono2 power_increasing) simp_all
    finally show ?thesis using Suc by (simp add: mag_int_def Let_def)
  qed
qed

lemma mag_int_strict_mono: "m < m' \<Longrightarrow> mag_int m < mag_int m'"
proof -
  assume lt: "m < m'"
  have le: "m div 2 ^ 52 \<le> m' div 2 ^ 52" using lt by (simp add: div_le_mono)
  show ?thesis
  proof (cases "m div 2 ^ 52 = m' div 2 ^ 52")
    case True
    with lt have "m mod 2 ^ 52 < m' mod 2 ^ 52"
      by (metis div_mult_mod_eq nat_add_left_cancel_less)
    with lt show ?thesis using True by (simp add: mag_int_def Let_def)
  next
    case False
    with le obtain e where e: "m' div 2 ^ 52 = Suc e" and "m div 2 ^ 52 \<le> e"
      by (cases "m' div 2 ^ 52") auto
    with mag_int_upper [of m e] mag_int_lower [OF e] show ?thesis by linarith
  qed
qed

lemma mag_int_less_iff [simp]: "mag_int m < mag_int m' \<longleftrightarrow> m < m'"
  using mag_int_strict_mono [of m m'] mag_int_strict_mono [of m' m] by (cases m m' rule: linorder_cases) auto

lemma mag_int_eq_iff [simp]: "mag_int m = mag_int m' \<longleftrightarrow> m = m'"
  using mag_int_less_iff [of m m'] mag_int_less_iff [of m' m] by linarith

lemma mag_int_0 [simp]: "mag_int 0 = 0"
  by (simp add: mag_int_def Let_def)

lemma f_num_eq_0_iff: "f_num w = 0 \<longleftrightarrow> f_mag w = 0"
  using mag_int_eq_iff [of "f_mag w" 0] by (auto simp: f_num_def)

lemma isfinite_not_special: "isfinite w \<Longrightarrow> \<not> f_isnan w \<and> \<not> f_isinf w"
  by (simp add: isfinite_def f_isnan_def f_isinf_def)

lemma num_less_finite:
  "isfinite a \<Longrightarrow> isfinite b \<Longrightarrow> num_less (FloatV a) (FloatV b) \<longleftrightarrow> f_num a < f_num b"
  by (simp add: num_less_def isfinite_not_special)

lemma num_eq_finite:
  "isfinite a \<Longrightarrow> isfinite b \<Longrightarrow> num_eq (FloatV a) (FloatV b) \<longleftrightarrow> f_num a = f_num b"
  by (simp add: num_eq_def isfinite_not_special)

text \<open>An integer of up to 53 bits is a double: the conversion is exact.\<close>

lemma ilog2_power: "2 ^ k \<le> n \<Longrightarrow> n < 2 ^ Suc k \<Longrightarrow> ilog2 n = k"
proof (induction k arbitrary: n)
  case (Suc k)
  then have "2 ^ k \<le> n div 2" "n div 2 < 2 ^ Suc k" by auto
  with Suc.IH have "ilog2 (n div 2) = k" by blast
  moreover have "1 \<le> (2 :: nat) ^ k" by simp
  then have "\<not> n < 2" using Suc.prems(1) unfolding power_Suc by linarith
  ultimately show ?case by (subst ilog2.simps) simp
qed (simp add: ilog2.simps)

lemma round_half_even_exact: "q dvd p \<Longrightarrow> 0 < q \<Longrightarrow> round_half_even p q = p div q"
  by (auto simp: round_half_even_def)

text \<open>Rounding the exact value of a finite double gives that double back.\<close>

lemma f_round_mag_int: "m < 2047 * 2 ^ 52 \<Longrightarrow> f_round (mag_int m) 1 = m"
proof -
  assume fin: "m < 2047 * 2 ^ 52"
  define e where "e = m div 2 ^ 52"
  define f where "f = m mod 2 ^ 52"
  have m: "m = e * 2 ^ 52 + f" and f: "f < 2 ^ 52" by (simp_all add: e_def f_def)
  show ?thesis
  proof (cases e)
    case 0
    then have "mag_int m = m" using m f by (simp add: mag_int_def e_def [symmetric])
    moreover have "ilog2 m - 52 = 0"
    proof (cases "m = 0")
      case False
      then obtain k where k: "2 ^ k \<le> m" "m < 2 ^ Suc k"
        using ex_power_ivl1 [of 2 m] by auto
      then have "(2 :: nat) ^ k < 2 ^ 52" using m f 0 by (metis add.left_neutral le_less_trans mult_zero_left)
      then have "k < 52" by (metis power_less_imp_less_exp one_less_numeral_iff semiring_norm(76))
      with ilog2_power [OF k] show ?thesis by simp
    qed (simp add: ilog2.simps)
    ultimately show ?thesis using fin by (simp add: f_round_def round_half_even_exact)
  next
    case (Suc k)
    have v: "mag_int m = (2 ^ 52 + f) * 2 ^ k"
      using Suc unfolding mag_int_def Let_def e_def [symmetric] f_def [symmetric] by simp
    have "2 ^ (52 + k) \<le> mag_int m" by (simp add: v power_add)
    moreover have "mag_int m < 2 ^ Suc (52 + k)"
      using mag_int_upper [of m "Suc k"] Suc by (simp add: e_def power_add)
    ultimately have "ilog2 (mag_int m) = 52 + k" by (rule ilog2_power)
    then have "f_round (mag_int m) 1 = min (k * 2 ^ 52 + (2 ^ 52 + f)) (2047 * 2 ^ 52)"
      by (simp add: f_round_def v round_half_even_exact)
    also have "\<dots> = m" using m Suc fin by simp
    finally show ?thesis .
  qed
qed

end
