(* ===== verification/PyText.thy ===== *)
theory PyText
  imports Base
begin

text \<open>
  Python's \<open>str\<close> as a list of code points, with \<open>str.encode("utf-8")\<close> and the strict
  \<open>bytes.decode("utf-8")\<close>. Encoding raises on a surrogate code point, which a \<open>str\<close> may
  hold; decoding rejects overlong forms, surrogates and truncated sequences. The lemmas are
  the two round trips and the property index keys rest on: byte order is code-point order.
\<close>

section \<open>UTF-8\<close>

type_synonym pystr = "nat list"

definition b8 :: "nat \<Rightarrow> byte" where
  "b8 n = word_of_nat n"

definition encodable_cp :: "nat \<Rightarrow> bool" where
  "encodable_cp c \<longleftrightarrow> c < 0xD800 \<or> 0xE000 \<le> c \<and> c < 0x110000"

definition utf8_cp :: "nat \<Rightarrow> bytes" where
  "utf8_cp c =
     (if c < 0x80 then [b8 c]
      else if c < 0x800 then [b8 (0xC0 + c div 64), b8 (0x80 + c mod 64)]
      else if c < 0x10000
           then [b8 (0xE0 + c div 4096), b8 (0x80 + c div 64 mod 64), b8 (0x80 + c mod 64)]
      else [b8 (0xF0 + c div 262144), b8 (0x80 + c div 4096 mod 64),
            b8 (0x80 + c div 64 mod 64), b8 (0x80 + c mod 64)])"

fun utf8_encode :: "pystr \<Rightarrow> bytes res" where
  "utf8_encode [] = Inr []"
| "utf8_encode (c # cs) =
     (if encodable_cp c then bind_res (utf8_encode cs) (\<lambda>bs. Inr (utf8_cp c @ bs))
      else Inl UnicodeEncodeError)"

definition cont :: "byte \<Rightarrow> bool" where
  "cont b \<longleftrightarrow> 0x80 \<le> unat b \<and> unat b < 0xC0"

fun utf8_decode :: "bytes \<Rightarrow> pystr option" where
  "utf8_decode [] = Some []"
| "utf8_decode (b # bs) =
     (let n = unat b in
      if n < 0x80 then map_option ((#) n) (utf8_decode bs)
      else if n < 0xC2 then None
      else if n < 0xE0 then
        (case bs of b1 # bs' \<Rightarrow>
           if cont b1 then map_option ((#) ((n - 0xC0) * 64 + (unat b1 - 0x80))) (utf8_decode bs')
           else None
         | _ \<Rightarrow> None)
      else if n < 0xF0 then
        (case bs of b1 # b2 # bs' \<Rightarrow>
           (let c = (n - 0xE0) * 4096 + (unat b1 - 0x80) * 64 + (unat b2 - 0x80)
            in if cont b1 \<and> cont b2 \<and> 0x800 \<le> c \<and> encodable_cp c
               then map_option ((#) c) (utf8_decode bs') else None)
         | _ \<Rightarrow> None)
      else if n < 0xF5 then
        (case bs of b1 # b2 # b3 # bs' \<Rightarrow>
           (let c = (n - 0xF0) * 262144 + (unat b1 - 0x80) * 4096 + (unat b2 - 0x80) * 64
                    + (unat b3 - 0x80)
            in if cont b1 \<and> cont b2 \<and> cont b3 \<and> 0x10000 \<le> c \<and> c < 0x110000
               then map_option ((#) c) (utf8_decode bs') else None)
         | _ \<Rightarrow> None)
      else None)"

definition encodable :: "pystr \<Rightarrow> bool" where
  "encodable s \<longleftrightarrow> list_all encodable_cp s"

abbreviation utf8 :: "pystr \<Rightarrow> bytes" where
  "utf8 s \<equiv> concat (map utf8_cp s)"

section \<open>Round trips\<close>

lemma unat_b8 [simp]: "n < 256 \<Longrightarrow> unat (b8 n) = n"
  by (simp add: b8_def unat_of_nat)

lemma b8_less_iff [simp]: "m < 256 \<Longrightarrow> n < 256 \<Longrightarrow> b8 m < b8 n \<longleftrightarrow> m < n"
  by (simp add: word_less_nat_alt)

lemma b8_eq_iff [simp]: "m < 256 \<Longrightarrow> n < 256 \<Longrightarrow> b8 m = b8 n \<longleftrightarrow> m = n"
  by (simp add: word_unat_eq_iff)

lemma utf8_encode_eq: "utf8_encode s = (if encodable s then Inr (utf8 s) else Inl UnicodeEncodeError)"
  by (induction s) (auto simp: encodable_def)

lemma cont_b8 [simp]: "n < 64 \<Longrightarrow> cont (b8 (0x80 + n))"
  by (simp add: cont_def)

text \<open>Digits in base 64, and the order they induce.\<close>

lemma div_64_64: "c div 4096 = c div 64 div 64" "c div 262144 = c div 64 div 64 div 64"
  for c :: nat
  by (simp_all flip: div_mult2_eq)

lemma less_digits: "a < b \<longleftrightarrow> a div k < b div k \<or> a div k = b div k \<and> a mod k < b mod k"
  for a b k :: nat
  by (metis div_le_mono div_mult_mod_eq le_neq_implies_less less_or_eq_imp_le linorder_not_less
      nat_add_left_cancel_less)

lemma utf8_decode_cp:
  assumes "encodable_cp c"
  shows "utf8_decode (utf8_cp c @ bs) = map_option ((#) c) (utf8_decode bs)"
proof -
  have c: "c < 0x110000" using assms by (auto simp: encodable_cp_def)
  consider "c < 0x80" | "0x80 \<le> c" "c < 0x800" | "0x800 \<le> c" "c < 0x10000" | "0x10000 \<le> c"
    by linarith
  then show ?thesis
  proof cases
    case 1
    then show ?thesis by (simp add: utf8_cp_def)
  next
    case 2
    then have "c div 64 < 32" "2 \<le> c div 64" by linarith+
    with 2 show ?thesis by (simp add: utf8_cp_def)
  next
    case 3
    then have "c div 4096 < 16" by linarith
    moreover have "c div 4096 * 4096 + c div 64 mod 64 * 64 + c mod 64 = c"
      using div_mult_mod_eq [of c 64] div_mult_mod_eq [of "c div 64" 64] unfolding div_64_64
      by linarith
    ultimately show ?thesis using 3 assms by (simp add: utf8_cp_def)
  next
    case 4
    then have "c div 262144 < 5" using c by linarith
    moreover have "c div 262144 * 262144 + c div 4096 mod 64 * 4096 + c div 64 mod 64 * 64
                   + c mod 64 = c"
      using div_mult_mod_eq [of c 64] div_mult_mod_eq [of "c div 64" 64]
        div_mult_mod_eq [of "c div 64 div 64" 64] unfolding div_64_64 by linarith
    ultimately show ?thesis using 4 c by (simp add: utf8_cp_def)
  qed
qed

lemma utf8_decode_utf8 [simp]: "encodable s \<Longrightarrow> utf8_decode (utf8 s) = Some s"
  by (induction s) (simp_all add: encodable_def utf8_decode_cp)

section \<open>Byte order is code-point order\<close>

lemma utf8_cp_less:
  assumes "a < b" and "b < 0x110000"
  shows "utf8_cp a @ xs < utf8_cp b @ ys"
proof -
  have lim: "c < 0x800 \<Longrightarrow> c div 64 < 32" "c < 0x10000 \<Longrightarrow> c div 4096 < 16"
    "c < 0x110000 \<Longrightarrow> c div 262144 < 5" for c :: nat
    by linarith+
  have a: "a < 0x110000" using assms by linarith
  consider "b < 0x80" | "0x80 \<le> b" "b < 0x800" | "0x800 \<le> b" "b < 0x10000" | "0x10000 \<le> b"
    by linarith
  then show ?thesis
  proof cases
    case 1
    then show ?thesis using assms by (simp add: utf8_cp_def)
  next
    case 2
    then show ?thesis
      using assms lim(1) [of a] lim(1) [of b] less_digits [of a b 64]
      by (auto simp: utf8_cp_def)
  next
    case 3
    then show ?thesis
      using assms lim(1,2) [of a] lim(2) [of b] less_digits [of a b 64]
        less_digits [of "a div 64" "b div 64" 64]
      by (auto simp: utf8_cp_def div_64_64)
  next
    case 4
    show ?thesis
    proof (cases "a < 0x10000")
      case True
      with 4 assms lim [of a] lim(3) [of b] show ?thesis by (auto simp: utf8_cp_def)
    next
      case False
      define q r where "q = a div 64" and "r = b div 64"
      have "q div 64 div 64 < 5" "r div 64 div 64 < 5"
        using lim(3) [OF a] lim(3) [OF assms(2)] by (simp_all add: q_def r_def div_64_64)
      moreover have "q div 64 div 64 < r div 64 div 64 \<or>
          q div 64 div 64 = r div 64 div 64 \<and> (q div 64 mod 64 < r div 64 mod 64 \<or>
          q div 64 mod 64 = r div 64 mod 64 \<and> (q mod 64 < r mod 64 \<or>
          q mod 64 = r mod 64 \<and> a mod 64 < b mod 64))"
        using assms(1) less_digits [of a b 64] less_digits [of q r 64]
          less_digits [of "q div 64" "r div 64" 64] div_mult_mod_eq [of q 64] div_mult_mod_eq [of r 64]
          div_mult_mod_eq [of "q div 64" 64] div_mult_mod_eq [of "r div 64" 64]
        unfolding q_def [symmetric] r_def [symmetric] by metis
      ultimately show ?thesis
        using False 4 assms by (simp add: utf8_cp_def div_64_64 flip: q_def r_def) blast
    qed
  qed
qed

lemma utf8_cp_neq_Nil [simp]: "utf8_cp c \<noteq> []"
  by (simp add: utf8_cp_def)

lemma utf8_less: "encodable s \<Longrightarrow> encodable t \<Longrightarrow> s < t \<Longrightarrow> utf8 s < utf8 t"
proof (induction s arbitrary: t)
  case Nil
  then obtain c t' where "t = c # t'" by (cases t) auto
  moreover obtain b bs where "utf8_cp c = b # bs" by (cases "utf8_cp c") auto
  ultimately show ?case by simp
next
  case (Cons c s)
  then obtain d t' where t: "t = d # t'" by (cases t) auto
  show ?case
  proof (cases "c = d")
    case True
    with Cons t have "utf8 s < utf8 t'" by (simp add: encodable_def)
    then show ?thesis using t True by (simp add: list_less_def lexord_append_leftI)
  next
    case False
    with Cons.prems t have "c < d" by simp
    moreover have "d < 0x110000" using Cons.prems(2) t by (auto simp: encodable_def encodable_cp_def)
    ultimately show ?thesis using t by (simp add: utf8_cp_less)
  qed
qed

lemma utf8_less_iff: "encodable s \<Longrightarrow> encodable t \<Longrightarrow> utf8 s < utf8 t \<longleftrightarrow> s < t"
  using utf8_less [of s t] utf8_less [of t s] by (cases s t rule: linorder_cases) auto

end
