(* ===== verification/Types.thy ===== *)
theory Types
  imports PyFloat PyText
begin

text \<open>
  The type system and its binary codecs (\<open>engine/serialization/types.py\<close>) and the column
  and table schemas (\<open>engine/serialization/schema.py\<close>). A Python value that can reach a
  codec is a \<open>pyval\<close>. Each codec is a validate, an encode and a decode function; encode is
  applied to validated values only, as \<open>Codec.encode\<close> says, so a value of another type has
  no encoding to model. The locale \<open>codec_laws\<close> states what the record layer relies on and
  its interpretation at the end discharges the laws for the four codecs.
\<close>

section \<open>Values and types\<close>

datatype pyval = PyNone | PyInt int | PyFloat f64 | PyBool bool | PyStr pystr

datatype data_type = INTEGER | FLOAT | BOOLEAN | TEXT

definition INT64_MIN :: int where "INT64_MIN = - (2 ^ 63)"

definition INT64_MAX :: int where "INT64_MAX = 2 ^ 63 - 1"

fun sql_name :: "data_type \<Rightarrow> string" where
  "sql_name INTEGER = ''INTEGER''"
| "sql_name FLOAT = ''FLOAT''"
| "sql_name BOOLEAN = ''BOOLEAN''"
| "sql_name TEXT = ''TEXT''"

section \<open>Codecs\<close>

definition require_bytes :: "bytes \<Rightarrow> nat \<Rightarrow> nat \<Rightarrow> unit res" where
  "require_bytes buf off n = guard_res (off + n \<le> length buf) SerializationError (Inr ())"

subsection \<open>INTEGER: signed 64-bit, two's complement, little-endian\<close>

fun integer_validate :: "pyval \<Rightarrow> unit res" where
  "integer_validate (PyInt n) =
     guard_res (INT64_MIN \<le> n \<and> n \<le> INT64_MAX) TypeMismatchError (Inr ())"
| "integer_validate _ = Inl TypeMismatchError"

definition integer_encode :: "int \<Rightarrow> bytes res" where
  "integer_encode n =
     guard_res (INT64_MIN \<le> n \<and> n \<le> INT64_MAX) StructError (Inr (le_bytes 8 (nat (n mod 2 ^ 64))))"

definition int64_of_nat :: "nat \<Rightarrow> int" where
  "int64_of_nat u = (if u < 2 ^ 63 then int u else int u - 2 ^ 64)"

definition integer_decode :: "bytes \<Rightarrow> nat \<Rightarrow> (pyval \<times> nat) res" where
  "integer_decode buf off =
     bind_res (require_bytes buf off 8)
       (\<lambda>_. Inr (PyInt (int64_of_nat (le_nat (slice buf off 8))), off + 8))"

subsection \<open>FLOAT: a finite binary64\<close>

fun float_validate :: "pyval \<Rightarrow> unit res" where
  "float_validate (PyInt n) = bind_res (float_of_int n) (\<lambda>_. Inr ())"
| "float_validate (PyFloat w) = guard_res (isfinite w) TypeMismatchError (Inr ())"
| "float_validate _ = Inl TypeMismatchError"

definition float_encode :: "num_val \<Rightarrow> bytes res" where
  "float_encode x = bind_res (to_float x) (\<lambda>w. Inr (le_bytes 8 (unat w)))"

definition float_decode :: "bytes \<Rightarrow> nat \<Rightarrow> (pyval \<times> nat) res" where
  "float_decode buf off =
     bind_res (require_bytes buf off 8)
       (\<lambda>_. Inr (PyFloat (word_of_nat (le_nat (slice buf off 8))), off + 8))"

subsection \<open>BOOLEAN: one byte\<close>

fun boolean_validate :: "pyval \<Rightarrow> unit res" where
  "boolean_validate (PyBool _) = Inr ()"
| "boolean_validate _ = Inl TypeMismatchError"

definition boolean_encode :: "bool \<Rightarrow> bytes" where
  "boolean_encode b = [if b then 1 else 0]"

definition boolean_decode :: "bytes \<Rightarrow> nat \<Rightarrow> (pyval \<times> nat) res" where
  "boolean_decode buf off =
     bind_res (require_bytes buf off 1) (\<lambda>_. Inr (PyBool (buf ! off \<noteq> 0), off + 1))"

subsection \<open>TEXT: UTF-8 behind a four-byte length\<close>

fun text_validate :: "pyval \<Rightarrow> unit res" where
  "text_validate (PyStr _) = Inr ()"
| "text_validate _ = Inl TypeMismatchError"

definition text_encode :: "pystr \<Rightarrow> bytes res" where
  "text_encode s =
     bind_res (utf8_encode s)
       (\<lambda>payload. guard_res (length payload < 256 ^ 4) StructError
                    (Inr (le_bytes 4 (length payload) @ payload)))"

definition text_decode :: "bytes \<Rightarrow> nat \<Rightarrow> (pyval \<times> nat) res" where
  "text_decode buf off =
     bind_res (require_bytes buf off 4)
       (\<lambda>_. let n = le_nat (slice buf off 4); start = off + 4; last = start + n
            in guard_res (last \<le> length buf) SerializationError
                 (case utf8_decode (slice buf start n) of
                    None \<Rightarrow> Inl SerializationError
                  | Some s \<Rightarrow> Inr (PyStr s, last)))"

definition text_encoded_size :: "pystr \<Rightarrow> nat res" where
  "text_encoded_size s = bind_res (utf8_encode s) (\<lambda>bs. Inr (4 + length bs))"

subsection \<open>The registry\<close>

fun fixed_size :: "data_type \<Rightarrow> nat option" where
  "fixed_size INTEGER = Some 8"
| "fixed_size FLOAT = Some 8"
| "fixed_size BOOLEAN = Some 1"
| "fixed_size TEXT = None"

fun codec_validate :: "data_type \<Rightarrow> pyval \<Rightarrow> unit res" where
  "codec_validate INTEGER v = integer_validate v"
| "codec_validate FLOAT v = float_validate v"
| "codec_validate BOOLEAN v = boolean_validate v"
| "codec_validate TEXT v = text_validate v"

fun codec_encode :: "data_type \<Rightarrow> pyval \<Rightarrow> bytes res" where
  "codec_encode INTEGER (PyInt n) = integer_encode n"
| "codec_encode FLOAT (PyInt n) = float_encode (IntV n)"
| "codec_encode FLOAT (PyFloat w) = float_encode (FloatV w)"
| "codec_encode BOOLEAN (PyBool b) = Inr (boolean_encode b)"
| "codec_encode TEXT (PyStr s) = text_encode s"
| "codec_encode _ _ = Inl TypeMismatchError"

fun codec_decode :: "data_type \<Rightarrow> bytes \<Rightarrow> nat \<Rightarrow> (pyval \<times> nat) res" where
  "codec_decode INTEGER buf off = integer_decode buf off"
| "codec_decode FLOAT buf off = float_decode buf off"
| "codec_decode BOOLEAN buf off = boolean_decode buf off"
| "codec_decode TEXT buf off = text_decode buf off"

fun encoded_size :: "data_type \<Rightarrow> pyval \<Rightarrow> nat res" where
  "encoded_size TEXT (PyStr s) = text_encoded_size s"
| "encoded_size dt v =
     (case fixed_size dt of Some n \<Rightarrow> Inr n
      | None \<Rightarrow> bind_res (codec_encode dt v) (\<lambda>bs. Inr (length bs)))"

section \<open>Schemas\<close>

text \<open>
  \<open>casefold\<close> stands for \<open>str.casefold\<close>, whose table is the Unicode database; the schema
  code only compares its results. \<open>column_new\<close> and \<open>schema_new\<close> are the checks of the two
  dataclasses' \<open>__post_init__\<close>.
\<close>

record column =
  col_name :: pystr
  col_type :: data_type
  nullable :: bool
  primary_key :: bool

definition column_new :: "pystr \<Rightarrow> data_type \<Rightarrow> bool \<Rightarrow> bool \<Rightarrow> column res" where
  "column_new n dt nl pk =
     (if n = [] then Inl SchemaError
      else if length n > 64 then Inl SchemaError
      else if pk \<and> nl then Inl SchemaError
      else Inr \<lparr>col_name = n, col_type = dt, nullable = nl, primary_key = pk\<rparr>)"

fun no_duplicate_names :: "(pystr \<Rightarrow> pystr) \<Rightarrow> pystr set \<Rightarrow> column list \<Rightarrow> bool" where
  "no_duplicate_names casefold seen [] = True"
| "no_duplicate_names casefold seen (c # cs) =
     (let key = casefold (col_name c)
      in key \<notin> seen \<and> no_duplicate_names casefold (insert key seen) cs)"

definition schema_new :: "(pystr \<Rightarrow> pystr) \<Rightarrow> column list \<Rightarrow> column list res" where
  "schema_new casefold cols =
     (if cols = [] then Inl SchemaError
      else if \<not> no_duplicate_names casefold {} cols then Inl SchemaError
      else if 1 < length (filter primary_key cols) then Inl SchemaError
      else Inr cols)"

fun index_of_from :: "(pystr \<Rightarrow> pystr) \<Rightarrow> pystr \<Rightarrow> nat \<Rightarrow> column list \<Rightarrow> nat res" where
  "index_of_from casefold n i [] = Inl SchemaError"
| "index_of_from casefold n i (c # cs) =
     (if casefold (col_name c) = casefold n then Inr i
      else index_of_from casefold n (Suc i) cs)"

definition index_of :: "(pystr \<Rightarrow> pystr) \<Rightarrow> column list \<Rightarrow> pystr \<Rightarrow> nat res" where
  "index_of casefold cols n = index_of_from casefold n 0 cols"

definition schema_column :: "(pystr \<Rightarrow> pystr) \<Rightarrow> column list \<Rightarrow> pystr \<Rightarrow> column res" where
  "schema_column casefold cols n = bind_res (index_of casefold cols n) (\<lambda>i. Inr (cols ! i))"

definition schema_primary_key :: "column list \<Rightarrow> column option" where
  "schema_primary_key cols = find primary_key cols"

definition null_bitmap_size :: "column list \<Rightarrow> nat" where
  "null_bitmap_size cols = (length cols + 7) div 8"

definition is_fixed_width :: "column list \<Rightarrow> bool" where
  "is_fixed_width cols \<longleftrightarrow> list_all (\<lambda>c. fixed_size (col_type c) \<noteq> None) cols"

definition fixed_row_size :: "column list \<Rightarrow> nat option" where
  "fixed_row_size cols =
     (if \<not> is_fixed_width cols then None
      else Some (null_bitmap_size cols
                 + sum_list (map (\<lambda>c. case fixed_size (col_type c) of None \<Rightarrow> 0 | Some n \<Rightarrow> n) cols)))"

section \<open>The codec contract\<close>

text \<open>
  What the record layer asks of a family of codecs indexed by column type: a validated value
  that encodes is decoded back, up to \<open>norm\<close>, from any position of any buffer that holds its
  bytes there, and decoding never reads past the buffer.
\<close>

locale codec_laws =
  fixes valid :: "'t \<Rightarrow> pyval \<Rightarrow> unit res"
    and enc :: "'t \<Rightarrow> pyval \<Rightarrow> bytes res"
    and dec :: "'t \<Rightarrow> bytes \<Rightarrow> nat \<Rightarrow> (pyval \<times> nat) res"
    and esize :: "'t \<Rightarrow> pyval \<Rightarrow> nat res"
    and norm :: "'t \<Rightarrow> pyval \<Rightarrow> pyval"
  assumes dec_enc: "valid t v = Inr () \<Longrightarrow> enc t v = Inr bs \<Longrightarrow>
      dec t (pre @ bs @ post) (length pre) = Inr (norm t v, length pre + length bs)"
    and dec_bounds: "dec t buf off = Inr (v, off') \<Longrightarrow> off \<le> off' \<and> off' \<le> length buf"
    and size_enc: "valid t v = Inr () \<Longrightarrow> enc t v = Inr bs \<Longrightarrow> esize t v = Inr (length bs)"
    and norm_not_none: "valid t v = Inr () \<Longrightarrow> v \<noteq> PyNone \<and> norm t v \<noteq> PyNone"

text \<open>The value a column gives back: an integer stored in a \<open>FLOAT\<close> column comes back widened.\<close>

fun stored_value :: "data_type \<Rightarrow> pyval \<Rightarrow> pyval" where
  "stored_value FLOAT (PyInt n) =
     (case float_of_int n of Inr w \<Rightarrow> PyFloat w | Inl _ \<Rightarrow> PyInt n)"
| "stored_value _ v = v"

section \<open>Lemmas\<close>

lemma require_bytes_Inr [res_simps]:
  "require_bytes buf off n = Inr u \<longleftrightarrow> off + n \<le> length buf"
  by (auto simp: require_bytes_def guard_res_def)

lemma require_bytes_ok [simp]: "off + n \<le> length buf \<Longrightarrow> require_bytes buf off n = Inr ()"
  by (simp add: require_bytes_def)

lemma int64_roundtrip:
  assumes "INT64_MIN \<le> n" and "n \<le> INT64_MAX"
  shows "int64_of_nat (nat (n mod 2 ^ 64)) = n"
proof (cases "0 \<le> n")
  case True
  then show ?thesis using assms by (simp add: int64_of_nat_def INT64_MAX_def)
next
  case False
  have "n mod 2 ^ 64 = (n + 2 ^ 64) mod 2 ^ 64" by simp
  also have "\<dots> = n + 2 ^ 64" using assms(1) False by (intro mod_pos_pos_trivial) (simp_all add: INT64_MIN_def)
  finally show ?thesis using assms(1) False by (simp add: int64_of_nat_def INT64_MIN_def nat_less_iff)
qed

lemma integer_dec_enc:
  "integer_encode n = Inr bs \<Longrightarrow>
   integer_decode (pre @ bs @ post) (length pre) = Inr (PyInt n, length pre + length bs)"
  by (auto simp: integer_encode_def integer_decode_def guard_res_Inr slice_middle
      int64_roundtrip [simplified] nat_less_iff)

lemma float_dec_enc:
  "float_decode (pre @ le_bytes 8 (unat w) @ post) (length pre) = Inr (PyFloat w, length pre + 8)"
  using unat_f64_less [of w] by (simp add: float_decode_def slice_middle)

lemma length_boolean_encode [simp]: "length (boolean_encode b) = 1"
  by (simp add: boolean_encode_def)

lemma boolean_dec_enc:
  "boolean_decode (pre @ boolean_encode b @ post) (length pre) = Inr (PyBool b, length pre + 1)"
  by (simp add: boolean_encode_def boolean_decode_def nth_append)

lemma text_dec_enc:
  assumes "text_encode s = Inr bs"
  shows "text_decode (pre @ bs @ post) (length pre) = Inr (PyStr s, length pre + length bs)"
proof -
  from assms have enc: "encodable s" and len: "length (utf8 s) < 256 ^ 4"
    and bs: "bs = le_bytes 4 (length (utf8 s)) @ utf8 s"
    by (auto simp: text_encode_def utf8_encode_eq res_simps split: if_splits)
  have "slice (pre @ bs @ post) (length pre) 4 = le_bytes 4 (length (utf8 s))"
    by (simp add: bs slice_middle)
  moreover have "slice (pre @ bs @ post) (length pre + 4) (length (utf8 s)) = utf8 s"
    by (simp add: bs slice_append_right)
  ultimately show ?thesis using enc len by (simp add: text_decode_def bs)
qed

interpretation engine_codecs: codec_laws codec_validate codec_encode codec_decode encoded_size stored_value
proof
  fix t v bs pre post
  assume ok: "codec_validate t v = Inr ()" and enc: "codec_encode t v = Inr bs"
  show "codec_decode t (pre @ bs @ post) (length pre) = Inr (stored_value t v, length pre + length bs)"
    using ok enc
    by (cases t; cases v)
       (auto simp: integer_dec_enc text_dec_enc boolean_dec_enc float_dec_enc res_simps float_encode_def)
next
  fix t buf off v off'
  assume "codec_decode t buf off = Inr (v, off')"
  then show "off \<le> off' \<and> off' \<le> length buf"
    by (cases t) (auto simp: integer_decode_def float_decode_def boolean_decode_def text_decode_def
        res_simps Let_def split: option.splits)
next
  fix t v bs
  assume "codec_validate t v = Inr ()" and "codec_encode t v = Inr bs"
  then show "encoded_size t v = Inr (length bs)"
    by (cases t; cases v) (auto simp: integer_encode_def float_encode_def boolean_encode_def text_encode_def
        text_encoded_size_def res_simps)
next
  fix t v
  assume "codec_validate t v = Inr ()"
  then show "v \<noteq> PyNone \<and> stored_value t v \<noteq> PyNone"
    by (cases t; cases v) (auto split: sum.splits)
qed

end
