(* ===== verification/RowRecord.thy ===== *)
theory RowRecord
  imports Types
begin

text \<open>
  Rows as bytes (\<open>engine/serialization/record.py\<close>): a null bitmap followed by the encoded
  non-NULL columns, the same walk reporting where each column lies, the size estimate, and
  the eight-byte version header (\<open>xmin\<close>, \<open>xmax\<close>) that MVCC puts in front of a row. The
  properties are the round trip through \<open>encode_record\<close> and \<open>decode_record\<close>, the agreement
  of the estimate and of the inspector's layout with it, and the header laws.
\<close>

section \<open>Encoding and decoding a row\<close>

definition set_null_bit :: "bytes \<Rightarrow> nat \<Rightarrow> bytes" where
  "set_null_bit bitmap i = bitmap[i div 8 := (bitmap ! (i div 8)) OR push_bit (i mod 8) 1]"

definition is_null :: "bytes \<Rightarrow> nat \<Rightarrow> bool" where
  "is_null raw i \<longleftrightarrow> (drop_bit (i mod 8) (raw ! (i div 8))) AND 1 \<noteq> 0"

fun encode_columns ::
  "nat \<Rightarrow> column list \<Rightarrow> pyval list \<Rightarrow> bytes \<Rightarrow> bytes \<Rightarrow> (bytes \<times> bytes) res" where
  "encode_columns i (c # cs) (v # vs) bitmap parts =
     (if v = PyNone then
        (if \<not> nullable c then Inl NullConstraintViolation
         else encode_columns (Suc i) cs vs (set_null_bit bitmap i) parts)
      else bind_res (codec_validate (col_type c) v) (\<lambda>_.
           bind_res (codec_encode (col_type c) v) (\<lambda>bs.
           encode_columns (Suc i) cs vs bitmap (parts @ bs))))"
| "encode_columns i _ _ bitmap parts = Inr (bitmap, parts)"

definition encode_record :: "column list \<Rightarrow> pyval list \<Rightarrow> bytes res" where
  "encode_record cols vals =
     (if length vals \<noteq> length cols then Inl SchemaMismatchError
      else bind_res (encode_columns 0 cols vals (zeros (null_bitmap_size cols)) [])
             (\<lambda>(bitmap, parts). Inr (bitmap @ parts)))"

fun decode_columns :: "bytes \<Rightarrow> nat \<Rightarrow> nat \<Rightarrow> column list \<Rightarrow> (pyval list \<times> nat) res" where
  "decode_columns raw i off [] = Inr ([], off)"
| "decode_columns raw i off (c # cs) =
     (if is_null raw i then
        bind_res (decode_columns raw (Suc i) off cs) (\<lambda>(vs, e). Inr (PyNone # vs, e))
      else bind_res (codec_decode (col_type c) raw off) (\<lambda>(v, off').
           bind_res (decode_columns raw (Suc i) off' cs) (\<lambda>(vs, e). Inr (v # vs, e))))"

definition decode_record :: "column list \<Rightarrow> bytes \<Rightarrow> pyval list res" where
  "decode_record cols raw =
     (if length raw < null_bitmap_size cols then Inl SerializationError
      else bind_res (decode_columns raw 0 (null_bitmap_size cols) cols)
             (\<lambda>(vs, e). if e \<noteq> length raw then Inl SerializationError else Inr vs))"

section \<open>The layout the page inspector shows\<close>

record field_layout =
  fl_index :: nat
  fl_name :: pystr
  fl_type_name :: string
  fl_is_null :: bool
  fl_offset :: int
  fl_length :: nat
  fl_value :: pyval

record record_layout =
  rl_values :: "pyval list"
  rl_fields :: "field_layout list"
  rl_null_bitmap :: bytes
  rl_null_bitmap_size :: nat
  rl_total_size :: nat

fun describe_columns ::
  "bytes \<Rightarrow> nat \<Rightarrow> nat \<Rightarrow> column list \<Rightarrow> (pyval list \<times> field_layout list) res" where
  "describe_columns raw i off [] = Inr ([], [])"
| "describe_columns raw i off (c # cs) =
     (if is_null raw i then
        bind_res (describe_columns raw (Suc i) off cs) (\<lambda>(vs, fs).
          Inr (PyNone # vs,
               \<lparr>fl_index = i, fl_name = col_name c, fl_type_name = sql_name (col_type c),
                fl_is_null = True, fl_offset = -1, fl_length = 0, fl_value = PyNone\<rparr> # fs))
      else bind_res (codec_decode (col_type c) raw off) (\<lambda>(v, off').
           bind_res (describe_columns raw (Suc i) off' cs) (\<lambda>(vs, fs).
             Inr (v # vs,
                  \<lparr>fl_index = i, fl_name = col_name c, fl_type_name = sql_name (col_type c),
                   fl_is_null = False, fl_offset = int off, fl_length = off' - off,
                   fl_value = v\<rparr> # fs))))"

definition describe_record :: "column list \<Rightarrow> bytes \<Rightarrow> record_layout res" where
  "describe_record cols raw =
     (let size = null_bitmap_size cols
      in if length raw < size then Inl SerializationError
         else bind_res (describe_columns raw 0 size cols) (\<lambda>(vs, fs).
           Inr \<lparr>rl_values = vs, rl_fields = fs, rl_null_bitmap = take size raw,
                rl_null_bitmap_size = size, rl_total_size = length raw\<rparr>))"

section \<open>Size estimate\<close>

fun estimate_columns :: "column list \<Rightarrow> pyval list \<Rightarrow> nat \<Rightarrow> nat res" where
  "estimate_columns (c # cs) (v # vs) acc =
     (if v = PyNone then estimate_columns cs vs acc
      else bind_res (encoded_size (col_type c) v) (\<lambda>n. estimate_columns cs vs (acc + n)))"
| "estimate_columns [] [] acc = Inr acc"
| "estimate_columns _ _ acc = Inl ValueError" \<comment> \<open>\<open>zip(strict=True)\<close>\<close>

definition estimate_record_size :: "column list \<Rightarrow> pyval list \<Rightarrow> nat res" where
  "estimate_record_size cols vals = estimate_columns cols vals (null_bitmap_size cols)"

section \<open>Tuple headers\<close>

definition TUPLE_HEADER_SIZE :: nat where "TUPLE_HEADER_SIZE = 8"

definition NO_TRANSACTION_ID :: nat where "NO_TRANSACTION_ID = 0"

record tuple_header =
  th_xmin :: nat
  th_xmax :: nat

definition th_deleted :: "tuple_header \<Rightarrow> bool" where
  "th_deleted h \<longleftrightarrow> th_xmax h \<noteq> NO_TRANSACTION_ID"

definition add_tuple_header :: "bytes \<Rightarrow> nat \<Rightarrow> nat \<Rightarrow> bytes res" where
  "add_tuple_header payload xmin xmax =
     guard_res (xmin < 256 ^ 4 \<and> xmax < 256 ^ 4) StructError
       (Inr (le_bytes 4 xmin @ le_bytes 4 xmax @ payload))"

definition read_tuple_header :: "bytes \<Rightarrow> tuple_header res" where
  "read_tuple_header raw =
     (if length raw < TUPLE_HEADER_SIZE then Inl SerializationError
      else Inr \<lparr>th_xmin = le_nat (slice raw 0 4), th_xmax = le_nat (slice raw 4 4)\<rparr>)"

definition strip_tuple_header :: "bytes \<Rightarrow> bytes" where
  "strip_tuple_header raw = drop TUPLE_HEADER_SIZE raw"

definition set_xmax :: "bytes \<Rightarrow> nat \<Rightarrow> bytes res" where
  "set_xmax raw xmax = pack_into 4 raw 4 xmax"

section \<open>What a codec family gives the record layer\<close>

context codec_laws
begin

text \<open>A value whose bytes lie somewhere in a buffer is decoded from there.\<close>

lemma dec_at:
  assumes "valid t v = Inr ()" and "enc t v = Inr bs"
    and "off + length bs \<le> length buf" and "slice buf off (length bs) = bs"
  shows "dec t buf off = Inr (norm t v, off + length bs)"
proof -
  have "buf = take off buf @ slice buf off (length bs) @ drop (off + length bs) buf"
    by (simp add: slice_def) (metis add.commute append_take_drop_id drop_drop)
  then have "buf = take off buf @ bs @ drop (off + length bs) buf" using assms(4) by simp
  moreover have "length (take off buf) = off" using assms(3) by simp
  ultimately show ?thesis using dec_enc [OF assms(1,2)] by metis
qed

end

section \<open>Lemmas\<close>

lemma is_null_bit: "is_null raw i \<longleftrightarrow> bit (raw ! (i div 8)) (i mod 8)"
  by (simp add: is_null_def and_one_eq bit_iff_odd_drop_bit odd_iff_mod_2_eq_one)

lemma length_set_null_bit [simp]: "length (set_null_bit bm i) = length bm"
  by (simp add: set_null_bit_def)

lemma is_null_set_null_bit:
  "i div 8 < length bm \<Longrightarrow> is_null (set_null_bit bm i) j \<longleftrightarrow> is_null bm j \<or> i = j"
proof -
  assume "i div 8 < length bm"
  moreover have "i = j \<longleftrightarrow> i div 8 = j div 8 \<and> i mod 8 = j mod 8"
    by (metis div_mult_mod_eq)
  ultimately show ?thesis
    by (cases "i div 8 = j div 8")
       (auto simp: is_null_bit set_null_bit_def bit_or_iff bit_exp_iff)
qed

lemma is_null_append [simp]: "i div 8 < length xs \<Longrightarrow> is_null (xs @ ys) i = is_null xs i"
  by (simp add: is_null_def nth_append)

lemma encode_columns_prefix:
  "encode_columns i cs vs bm parts = Inr (bm', parts') \<Longrightarrow>
   length bm' = length bm \<and> (\<exists>rest. parts' = parts @ rest)"
proof (induction i cs vs bm parts rule: encode_columns.induct)
  case (1 i c cs v vs bm parts)
  then show ?case by (force split: if_splits simp: bind_res_Inr)
qed auto

lemma encode_columns_bits:
  "encode_columns i cs vs bm parts = Inr (bm', parts') \<Longrightarrow> length vs = length cs \<Longrightarrow>
   i + length cs \<le> 8 * length bm \<Longrightarrow>
   is_null bm' j \<longleftrightarrow> is_null bm j \<or> (\<exists>k < length cs. j = i + k \<and> vs ! k = PyNone)"
proof (induction i cs vs bm parts rule: encode_columns.induct)
  case (1 i c cs v vs bm parts)
  have ex: "(\<exists>k < length (c # cs). j = i + k \<and> (v # vs) ! k = PyNone) \<longleftrightarrow>
      j = i \<and> v = PyNone \<or> (\<exists>k < length cs. j = Suc i + k \<and> vs ! k = PyNone)"
    by (auto simp: less_Suc_eq_0_disj)
  show ?case
  proof (cases "v = PyNone")
    case True
    then have enc: "encode_columns (Suc i) cs vs (set_null_bit bm i) parts = Inr (bm', parts')"
      and "nullable c" using "1.prems"(1) by (auto split: if_splits)
    have "i div 8 < length bm" using "1.prems"(3) by simp
    with "1.IH"(1) [OF True _ enc] \<open>nullable c\<close> "1.prems" True show ?thesis
      unfolding ex by (auto simp: is_null_set_null_bit)
  next
    case False
    with "1.prems"(1) obtain bs where "codec_validate (col_type c) v = Inr ()"
      and "codec_encode (col_type c) v = Inr bs"
      and "encode_columns (Suc i) cs vs bm (parts @ bs) = Inr (bm', parts')"
      by (auto simp: bind_res_Inr)
    with "1.IH"(2) [OF False] "1.prems" False show ?thesis unfolding ex by auto
  qed
qed auto

lemma decode_encode_columns:
  assumes "encode_columns i cs vs bm parts = Inr (bm', parts')" and "length vs = length cs"
    and "\<And>k. k < length cs \<Longrightarrow> is_null (pre @ parts') (i + k) \<longleftrightarrow> vs ! k = PyNone"
  shows "decode_columns (pre @ parts') i (length pre + length parts) cs =
         Inr (map2 (\<lambda>c v. stored_value (col_type c) v) cs vs, length pre + length parts')"
  using assms
proof (induction i cs vs bm parts rule: encode_columns.induct)
  case (1 i c cs v vs bm parts)
  have null: "is_null (pre @ parts') i \<longleftrightarrow> v = PyNone" using "1.prems"(3) [of 0] by simp
  have rest: "is_null (pre @ parts') (Suc i + k) \<longleftrightarrow> vs ! k = PyNone" if "k < length cs" for k
    using "1.prems"(3) [of "Suc k"] that by simp
  show ?case
  proof (cases "v = PyNone")
    case True
    then have "encode_columns (Suc i) cs vs (set_null_bit bm i) parts = Inr (bm', parts')"
      and "nullable c" using "1.prems"(1) by (auto split: if_splits)
    with "1.IH"(1) [OF True] "1.prems"(2) rest null True show ?thesis
      by (simp add: split: data_type.splits)
  next
    case False
    with "1.prems"(1) obtain bs where ok: "codec_validate (col_type c) v = Inr ()"
      and bs: "codec_encode (col_type c) v = Inr bs"
      and enc: "encode_columns (Suc i) cs vs bm (parts @ bs) = Inr (bm', parts')"
      by (auto simp: bind_res_Inr)
    from encode_columns_prefix [OF enc] obtain tail where tail: "parts' = parts @ bs @ tail" by auto
    have "codec_decode (col_type c) (pre @ parts') (length pre + length parts) =
        Inr (stored_value (col_type c) v, length pre + length (parts @ bs))"
      using engine_codecs.dec_at [OF ok bs, of "length pre + length parts" "pre @ parts'"]
      by (simp add: tail slice_append_right slice_def)
    with "1.IH"(2) [OF False ok bs enc] "1.prems"(2) rest null False show ?thesis by simp
  qed
qed auto

lemma estimate_encode_columns:
  "encode_columns i cs vs bm parts = Inr (bm', parts') \<Longrightarrow> length vs = length cs \<Longrightarrow>
   estimate_columns cs vs (n + length parts) = Inr (n + length parts')"
proof (induction i cs vs bm parts rule: encode_columns.induct)
  case (1 i c cs v vs bm parts)
  show ?case
  proof (cases "v = PyNone")
    case False
    with "1.prems"(1) obtain bs where ok: "codec_validate (col_type c) v = Inr ()"
      and bs: "codec_encode (col_type c) v = Inr bs"
      and enc: "encode_columns (Suc i) cs vs bm (parts @ bs) = Inr (bm', parts')"
      by (auto simp: bind_res_Inr)
    with "1.IH"(2) [OF False ok bs enc] "1.prems"(2) False engine_codecs.size_enc [OF ok bs]
    show ?thesis by (simp add: add.assoc)
  qed (use "1" in \<open>auto split: if_splits\<close>)
qed auto

text \<open>The inspector's walk is the decoder's walk, with the offsets kept.\<close>

lemma decode_columns_mono: "decode_columns raw i off cs = Inr (vs, e) \<Longrightarrow> off \<le> e"
proof (induction raw i off cs arbitrary: vs rule: decode_columns.induct)
  case (2 raw i off c cs)
  then show ?case
    by (fastforce simp: bind_res_Inr split: if_splits dest: engine_codecs.dec_bounds)
qed simp

fun tiles :: "nat \<Rightarrow> field_layout list \<Rightarrow> nat \<Rightarrow> bool" where
  "tiles a [] b \<longleftrightarrow> a = b"
| "tiles a (f # fs) b \<longleftrightarrow>
     (if fl_is_null f then fl_length f = 0 \<and> tiles a fs b
      else fl_offset f = int a \<and> tiles (a + fl_length f) fs b)"

lemma describe_decode_columns:
  "decode_columns raw i off cs = Inr (vs, e) \<Longrightarrow>
   \<exists>fs. describe_columns raw i off cs = Inr (vs, fs) \<and> map fl_value fs = vs \<and> tiles off fs e"
proof (induction raw i off cs arbitrary: vs rule: decode_columns.induct)
  case (2 raw i off c cs)
  show ?case
  proof (cases "is_null raw i")
    case True
    with "2.prems" obtain vs' where "decode_columns raw (Suc i) off cs = Inr (vs', e)"
      and "vs = PyNone # vs'" by (auto simp: bind_res_Inr)
    with "2.IH"(1) [OF True] True show ?thesis by fastforce
  next
    case False
    with "2.prems" obtain v off' vs' where dec: "codec_decode (col_type c) raw off = Inr (v, off')"
      and cs: "decode_columns raw (Suc i) off' cs = Inr (vs', e)" and vs: "vs = v # vs'"
      by (auto simp: bind_res_Inr)
    from "2.IH"(2) [OF False dec refl cs] obtain fs where
      "describe_columns raw (Suc i) off' cs = Inr (vs', fs)" "map fl_value fs = vs'" "tiles off' fs e"
      by blast
    with False dec vs engine_codecs.dec_bounds [OF dec] show ?thesis by simp
  qed
qed simp

section \<open>Properties\<close>

text \<open>
  C6: a row that \<open>encode_record\<close> accepts is read back by \<open>decode_record\<close> value for value (an
  integer stored in a \<open>FLOAT\<close> column comes back widened), and \<open>estimate_record_size\<close> predicts
  the length of the encoding exactly.
\<close>

theorem record_roundtrip:
  assumes "encode_record cols vals = Inr raw"
  shows "decode_record cols raw = Inr (map2 (\<lambda>c v. stored_value (col_type c) v) cols vals) \<and>
         estimate_record_size cols vals = Inr (length raw)"
proof -
  let ?n = "null_bitmap_size cols"
  from assms obtain bm parts where len: "length vals = length cols" and raw: "raw = bm @ parts"
    and enc: "encode_columns 0 cols vals (zeros ?n) [] = Inr (bm, parts)"
    by (auto simp: encode_record_def bind_res_Inr split: if_splits)
  have bm: "length bm = ?n" using encode_columns_prefix [OF enc] by simp
  have room: "0 + length cols \<le> 8 * length (zeros ?n)" by (simp add: null_bitmap_size_def)
  have "is_null (bm @ parts) (0 + k) \<longleftrightarrow> vals ! k = PyNone" if "k < length cols" for k
  proof -
    have "k div 8 < length bm" "k div 8 < ?n" using that bm by (simp_all add: null_bitmap_size_def)
    with encode_columns_bits [OF enc len room, of k] that show ?thesis by (simp add: is_null_bit nth_append)
  qed
  from decode_encode_columns [OF enc len this] bm
  have "decode_columns raw 0 ?n cols = Inr (map2 (\<lambda>c v. stored_value (col_type c) v) cols vals, length raw)"
    by (simp add: raw)
  moreover have "estimate_record_size cols vals = Inr (length raw)"
    using estimate_encode_columns [OF enc len, of ?n] by (simp add: estimate_record_size_def raw bm)
  ultimately show ?thesis using bm by (simp add: decode_record_def raw)
qed

definition example_columns :: "column list" where
  "example_columns =
     [\<lparr>col_name = [105, 100], col_type = INTEGER, nullable = False, primary_key = True\<rparr>,
      \<lparr>col_name = [110], col_type = TEXT, nullable = True, primary_key = False\<rparr>,
      \<lparr>col_name = [98], col_type = BOOLEAN, nullable = True, primary_key = False\<rparr>]"

theorem record_roundtrip_witness:
  "encode_record example_columns [PyInt (-2), PyNone, PyBool True] =
     Inr [2, 254, 255, 255, 255, 255, 255, 255, 255, 1] \<and>
   decode_record example_columns [2, 254, 255, 255, 255, 255, 255, 255, 255, 1] =
     Inr [PyInt (-2), PyNone, PyBool True]"
proof -
  have enc: "encode_record example_columns [PyInt (-2), PyNone, PyBool True] =
      Inr [2, 254, 255, 255, 255, 255, 255, 255, 255, 1]"
    by (simp add: encode_record_def example_columns_def null_bitmap_size_def set_null_bit_def
        integer_encode_def boolean_encode_def INT64_MIN_def INT64_MAX_def le_bytes_numeral)
  show ?thesis using enc record_roundtrip [OF enc] by (simp add: example_columns_def)
qed

text \<open>
  whenever a record decodes, the inspector's \<open>describe_record\<close> succeeds on it, reports the
  same values, and the byte ranges it gives to the non-NULL columns follow one another without
  gap or overlap from the end of the bitmap to the end of the record.
\<close>

theorem describe_record_agrees:
  assumes "decode_record cols raw = Inr vs"
  shows "\<exists>lay. describe_record cols raw = Inr lay \<and> rl_values lay = vs \<and>
           map fl_value (rl_fields lay) = vs \<and> rl_total_size lay = length raw \<and>
           tiles (null_bitmap_size cols) (rl_fields lay) (length raw)"
proof -
  from assms have len: "\<not> length raw < null_bitmap_size cols"
    and dec: "decode_columns raw 0 (null_bitmap_size cols) cols = Inr (vs, length raw)"
    by (auto simp: decode_record_def bind_res_Inr split: if_splits)
  from describe_decode_columns [OF dec] len show ?thesis
    by (fastforce simp: describe_record_def Let_def)
qed

theorem describe_record_agrees_witness:
  "\<exists>lay. describe_record example_columns [6, 5, 0, 0, 0, 0, 0, 0, 0] = Inr lay \<and>
     rl_values lay = [PyInt 5, PyNone, PyNone]"
proof -
  have "decode_record example_columns [6, 5, 0, 0, 0, 0, 0, 0, 0] = Inr [PyInt 5, PyNone, PyNone]"
    by (simp add: decode_record_def example_columns_def null_bitmap_size_def is_null_def
        integer_decode_def slice_def int64_of_nat_def drop_bit_eq_div)
  from describe_record_agrees [OF this] show ?thesis by blast
qed

text \<open>
  A row reaches bytes only if every check passed: the arity is the schema's, no NULL stands
  in a NOT NULL column, and every other value passed its codec's validation.
\<close>

theorem encode_record_validates:
  assumes "encode_record cols vals = Inr raw"
  shows "length vals = length cols \<and>
    (\<forall>i < length cols. if vals ! i = PyNone then nullable (cols ! i)
       else codec_validate (col_type (cols ! i)) (vals ! i) = Inr ())"
proof -
  have cols: "length vs = length cs \<Longrightarrow> k < length cs \<Longrightarrow>
      (if vs ! k = PyNone then nullable (cs ! k)
       else codec_validate (col_type (cs ! k)) (vs ! k) = Inr ())"
    if "encode_columns i cs vs bm parts = Inr r" for i cs vs bm parts r k
    using that
  proof (induction i cs vs bm parts arbitrary: k rule: encode_columns.induct)
    case (1 i c cs v vs bm parts)
    then show ?case by (cases k) (auto simp: bind_res_Inr split: if_splits)
  qed auto
  from assms show ?thesis
    by (auto simp: encode_record_def bind_res_Inr split: if_splits dest: cols)
qed

theorem encode_record_validates_witness:
  "encode_record example_columns [PyInt 1, PyNone, PyNone] =
     Inr [6, 1, 0, 0, 0, 0, 0, 0, 0] \<and> \<not> nullable (example_columns ! 0) \<and> nullable (example_columns ! 1)"
proof -
  have enc: "encode_record example_columns [PyInt 1, PyNone, PyNone] = Inr [6, 1, 0, 0, 0, 0, 0, 0, 0]"
    by (simp add: encode_record_def example_columns_def null_bitmap_size_def set_null_bit_def
        integer_encode_def INT64_MIN_def INT64_MAX_def le_bytes_numeral)
  from encode_record_validates [OF enc] have "nullable (example_columns ! 1)"
    by (auto simp: example_columns_def)
  with enc show ?thesis by (simp add: example_columns_def)
qed

text \<open>
  the version header. Reading back a header gives the two transaction ids it was written
  with and stripping it gives the row; \<open>set_xmax\<close> on a row with a header changes only \<open>xmax\<close>:
  the length (so that \<open>Page.overwrite\<close> accepts it), \<open>xmin\<close> and the row's bytes are kept.
\<close>

theorem tuple_header_laws:
  assumes "add_tuple_header payload xmin xmax = Inr raw" and "x < 256 ^ 4"
  shows "read_tuple_header raw = Inr \<lparr>th_xmin = xmin, th_xmax = xmax\<rparr> \<and>
    strip_tuple_header raw = payload \<and>
    (\<exists>raw'. set_xmax raw x = Inr raw' \<and> length raw' = length raw \<and>
       read_tuple_header raw' = Inr \<lparr>th_xmin = xmin, th_xmax = x\<rparr> \<and>
       strip_tuple_header raw' = payload)"
proof -
  from assms have b: "xmin < 256 ^ 4" "xmax < 256 ^ 4"
    and raw: "raw = le_bytes 4 xmin @ le_bytes 4 xmax @ payload"
    by (auto simp: add_tuple_header_def guard_res_Inr)
  have "slice_assign raw 4 8 (le_bytes 4 x) = le_bytes 4 xmin @ le_bytes 4 x @ payload"
    by (simp add: raw slice_assign_def)
  then have "set_xmax raw x = Inr (le_bytes 4 xmin @ le_bytes 4 x @ payload)"
    using assms(2) by (simp add: set_xmax_def pack_into_def raw)
  then show ?thesis using b assms(2)
    by (simp add: raw read_tuple_header_def strip_tuple_header_def TUPLE_HEADER_SIZE_def
        slice_def)
qed

theorem tuple_header_laws_witness:
  "add_tuple_header [42] 7 0 = Inr [7, 0, 0, 0, 0, 0, 0, 0, 42] \<and>
   read_tuple_header [7, 0, 0, 0, 0, 0, 0, 0, 42] = Inr \<lparr>th_xmin = 7, th_xmax = 0\<rparr>"
proof -
  have add: "add_tuple_header [42] 7 0 = Inr [7, 0, 0, 0, 0, 0, 0, 0, 42]"
    by (simp add: add_tuple_header_def le_bytes_numeral)
  show ?thesis using add tuple_header_laws [OF add, of 9] by simp
qed

text \<open>
  validation and encoding agree for every type but \<open>TEXT\<close>: a validated value encodes, and a
  validated \<open>TEXT\<close> value encodes exactly when no code point of it is a surrogate and its UTF-8
  is shorter than 4 GiB. \<open>TextCodec.validate\<close> checks neither, although \<open>Codec.validate\<close> is
  documented to raise when a value cannot be encoded.
\<close>

theorem validated_encodes_iff:
  assumes "codec_validate dt v = Inr ()"
  shows "(\<exists>bs. codec_encode dt v = Inr bs) \<longleftrightarrow>
    (case v of PyStr s \<Rightarrow> encodable s \<and> length (utf8 s) < 256 ^ 4 | _ \<Rightarrow> True)"
  using assms
  by (cases dt; cases v)
     (auto simp: integer_encode_def float_encode_def text_encode_def utf8_encode_eq guard_res_def
       bind_res_Inr split: if_splits)

theorem validated_encodes_iff_witness:
  "codec_validate TEXT (PyStr [0xD800]) = Inr () \<and>
   \<not> (\<exists>bs. codec_encode TEXT (PyStr [0xD800]) = Inr bs)"
  using validated_encodes_iff [of TEXT "PyStr [0xD800]"] by (simp add: encodable_def encodable_cp_def)

end
