(* ===== verification/Key.thy ===== *)
theory Key
  imports Types
begin

text \<open>
  The order-preserving key encoding of the index (\<open>engine/index/key.py\<close>). A key is a tag byte
  and a payload; Python compares \<open>bytes\<close> lexicographically, which is the order of
  \<open>List_Lexorder\<close> on lists of 8-bit words. \<open>value_less\<close> and \<open>value_eq\<close> are Python's
  comparisons on two values of one column type, the reference the byte order is proved equal to.
\<close>

section \<open>Tags\<close>

definition TAG_MINUS_INFINITY :: byte where "TAG_MINUS_INFINITY = 0x00"

definition TAG_NULL :: byte where "TAG_NULL = 0x01"

definition TAG_VALUE :: byte where "TAG_VALUE = 0x02"

definition MINUS_INFINITY :: bytes where "MINUS_INFINITY = [TAG_MINUS_INFINITY]"

definition NULL_KEY :: bytes where "NULL_KEY = [TAG_NULL]"

definition SMALLEST_VALUE_KEY :: bytes where "SMALLEST_VALUE_KEY = [TAG_VALUE]"

lemmas tag_defs = TAG_MINUS_INFINITY_def TAG_NULL_def TAG_VALUE_def MINUS_INFINITY_def
  NULL_KEY_def SMALLEST_VALUE_KEY_def

section \<open>Float ordering\<close>

definition SIGN_BIT :: "64 word" where "SIGN_BIT = 0x8000000000000000"

definition ALL_ONES :: "64 word" where "ALL_ONES = 0xFFFFFFFFFFFFFFFF"

definition float_to_sortable :: "f64 \<Rightarrow> 64 word" where
  "float_to_sortable value =
     (let bits = (if num_eq (FloatV value) (FloatV 0) then 0 else value)
      in if bits AND SIGN_BIT \<noteq> 0 then bits XOR ALL_ONES else bits OR SIGN_BIT)"

definition sortable_to_float_bits :: "64 word \<Rightarrow> f64" where
  "sortable_to_float_bits sortable =
     (if sortable AND SIGN_BIT \<noteq> 0 then sortable AND NOT SIGN_BIT else sortable XOR ALL_ONES)"

section \<open>Encoding and decoding\<close>

fun encode_key :: "pyval \<Rightarrow> data_type \<Rightarrow> bytes res" where
  "encode_key PyNone dt = Inr NULL_KEY"
| "encode_key (PyInt n) INTEGER =
     guard_res (0 \<le> n + 2 ^ 63 \<and> n + 2 ^ 63 < 2 ^ 64) IndexingError
       (Inr (TAG_VALUE # be_bytes 8 (nat (n + 2 ^ 63))))"
| "encode_key (PyInt n) FLOAT =
     bind_res (float_of_int n) (\<lambda>w. Inr (TAG_VALUE # be_bytes 8 (unat (float_to_sortable w))))"
| "encode_key (PyFloat w) FLOAT = Inr (TAG_VALUE # be_bytes 8 (unat (float_to_sortable w)))"
| "encode_key (PyBool b) BOOLEAN = Inr (TAG_VALUE # [if b then 1 else 0])"
| "encode_key (PyStr s) TEXT = bind_res (utf8_encode s) (\<lambda>bs. Inr (TAG_VALUE # bs))"
| "encode_key _ _ = Inl IndexingError"

definition require_body :: "bytes \<Rightarrow> nat \<Rightarrow> unit res" where
  "require_body body n = guard_res (length body = n) SerializationError (Inr ())"

fun decode_body :: "bytes \<Rightarrow> data_type \<Rightarrow> pyval res" where
  "decode_body body INTEGER =
     bind_res (require_body body 8) (\<lambda>_. Inr (PyInt (int (be_nat body) - 2 ^ 63)))"
| "decode_body body FLOAT =
     bind_res (require_body body 8)
       (\<lambda>_. Inr (PyFloat (sortable_to_float_bits (word_of_nat (be_nat body)))))"
| "decode_body body BOOLEAN =
     bind_res (require_body body 1) (\<lambda>_. Inr (PyBool (body ! 0 \<noteq> 0)))"
| "decode_body body TEXT =
     (case utf8_decode body of Some s \<Rightarrow> Inr (PyStr s) | None \<Rightarrow> Inl SerializationError)"

definition decode_key :: "bytes \<Rightarrow> data_type \<Rightarrow> pyval res" where
  "decode_key key dt =
     (case key of
        [] \<Rightarrow> Inl SerializationError
      | tag # body \<Rightarrow>
          if tag = TAG_MINUS_INFINITY then Inl SerializationError
          else if tag = TAG_NULL then Inr PyNone
          else if tag \<noteq> TAG_VALUE then Inl SerializationError
          else decode_body body dt)"

definition is_minus_infinity :: "bytes \<Rightarrow> bool" where
  "is_minus_infinity key \<longleftrightarrow> length key = 1 \<and> key ! 0 = TAG_MINUS_INFINITY"

definition is_null_key :: "bytes \<Rightarrow> bool" where
  "is_null_key key \<longleftrightarrow> length key = 1 \<and> key ! 0 = TAG_NULL"

section \<open>The reference order\<close>

text \<open>
  The order an index must realise: NULL first, then Python's \<open><\<close> on the values of the column.
\<close>

fun value_less :: "pyval \<Rightarrow> pyval \<Rightarrow> bool" where
  "value_less PyNone v = (v \<noteq> PyNone)"
| "value_less (PyInt a) (PyInt b) = (a < b)"
| "value_less (PyFloat a) (PyFloat b) = num_less (FloatV a) (FloatV b)"
| "value_less (PyBool a) (PyBool b) = (a < b)"
| "value_less (PyStr a) (PyStr b) = (a < b)"
| "value_less _ _ = False"

fun value_eq :: "pyval \<Rightarrow> pyval \<Rightarrow> bool" where
  "value_eq PyNone v = (v = PyNone)"
| "value_eq (PyInt a) (PyInt b) = (a = b)"
| "value_eq (PyFloat a) (PyFloat b) = num_eq (FloatV a) (FloatV b)"
| "value_eq (PyBool a) (PyBool b) = (a = b)"
| "value_eq (PyStr a) (PyStr b) = (a = b)"
| "value_eq _ _ = False"

text \<open>A value of the column's type, as the record layer has validated it, or NULL.\<close>

definition keyable :: "data_type \<Rightarrow> pyval \<Rightarrow> bool" where
  "keyable dt v \<longleftrightarrow> v = PyNone \<or> codec_validate dt v = Inr ()"

text \<open>What a key gives back: the stored value, with the negative zero collapsed.\<close>

definition key_value :: "data_type \<Rightarrow> pyval \<Rightarrow> pyval" where
  "key_value dt v =
     (case stored_value dt v of
        PyFloat w \<Rightarrow> PyFloat (if num_eq (FloatV w) (FloatV 0) then 0 else w)
      | u \<Rightarrow> u)"

section \<open>Lemmas\<close>

lemma f_neg_bit: "f_neg w \<longleftrightarrow> bit w 63"
proof -
  have "unat w div 2 ^ 63 = (if f_neg w then 1 else 0)"
    using unat_f64_less [of w] unfolding f_neg_def
    by (cases "2 ^ 63 \<le> unat w") (simp_all add: div_nat_eqI)
  moreover have "bit w 63 \<longleftrightarrow> odd (unat w div 2 ^ 63)"
    by (simp add: bit_iff_odd_drop_bit drop_bit_eq_div word_arith_nat_div unat_div_distrib
        flip: bit_unsigned_iff [where 'a = nat])
  ultimately show ?thesis by simp
qed

lemma SIGN_BIT_push: "SIGN_BIT = push_bit 63 1"
  by (simp add: SIGN_BIT_def)

lemma ALL_ONES_xor [simp]: "w XOR ALL_ONES = NOT w"
proof -
  have "ALL_ONES = - 1" by (simp add: ALL_ONES_def)
  show ?thesis unfolding \<open>ALL_ONES = - 1\<close> by (rule bit.xor_one_right)
qed

lemma sign_bit_test [simp]: "w AND SIGN_BIT = 0 \<longleftrightarrow> \<not> bit w 63"
  using bit_iff_and_push_bit_not_eq_0 [of w 63] by (simp add: SIGN_BIT_push)

lemma bit_SIGN_BIT: "bit SIGN_BIT n \<longleftrightarrow> n = 63"
  unfolding SIGN_BIT_push bit_push_bit_iff bit_1_iff by auto

lemma SIGN_BIT_neq_0 [simp]: "SIGN_BIT \<noteq> 0"
  using bit_SIGN_BIT [of 63] by auto

lemma unat_flip: "unat (NOT w) = 2 ^ 64 - 1 - unat w" for w :: "64 word"
proof -
  have "NOT w = - 1 - w" by (simp add: not_eq_complement)
  then show ?thesis by (simp add: unat_sub unsigned_minus_1_eq_mask mask_eq_exp_minus_1)
qed

lemma unat_lift: "\<not> bit w 63 \<Longrightarrow> unat (w OR SIGN_BIT) = unat w + 2 ^ 63" for w :: "64 word"
proof -
  assume top: "\<not> bit w 63"
  then have "w OR SIGN_BIT = w + SIGN_BIT" using disjunctive_add_eq_or [of w SIGN_BIT] by simp
  moreover have "unat w < 2 ^ 63" using top by (simp add: f_neg_bit [symmetric] f_neg_def)
  ultimately show ?thesis by (simp add: unat_word_ariths SIGN_BIT_def)
qed

text \<open>
  The bits that are made sortable, and the two facts about the transform: it inverts, and it
  turns the order of finite doubles into the order of unsigned integers.
\<close>

abbreviation positive_zero :: "f64 \<Rightarrow> f64" where
  "positive_zero w \<equiv> (if num_eq (FloatV w) (FloatV 0) then 0 else w)"

lemma sortable_inverse [simp]: "sortable_to_float_bits (float_to_sortable w) = positive_zero w"
proof -
  have "sortable_to_float_bits (if b AND SIGN_BIT \<noteq> 0 then b XOR ALL_ONES else b OR SIGN_BIT) = b"
    for b
    by (cases "bit b 63")
       (auto simp: sortable_to_float_bits_def bit_simps bit_SIGN_BIT intro!: bit_word_eqI)
  then show ?thesis unfolding float_to_sortable_def Let_def .
qed

lemma unat_float_to_sortable:
  "isfinite w \<Longrightarrow> unat (float_to_sortable w) =
     (if f_neg w \<and> f_mag w \<noteq> 0 then 2 ^ 63 - 1 - f_mag w else 2 ^ 63 + f_mag w)"
proof -
  assume fin: "isfinite w"
  have fin0: "isfinite 0" and num0: "f_num 0 = 0"
    by (simp_all add: isfinite_def f_mag_def f_num_def)
  have zero: "num_eq (FloatV w) (FloatV 0) \<longleftrightarrow> f_mag w = 0"
    using num_eq_finite [OF fin fin0] num0 f_num_eq_0_iff by simp
  show ?thesis
  proof (cases "f_mag w = 0")
    case True
    then show ?thesis
      using unat_lift [of 0] by (simp add: float_to_sortable_def zero f_mag_def)
  next
    case False
    have "unat w = (if f_neg w then 2 ^ 63 else 0) + f_mag w" by (rule unat_f64_decomp)
    then show ?thesis using False
      by (auto simp: float_to_sortable_def zero f_neg_bit unat_flip unat_lift)
  qed
qed

lemma sortable_less_iff:
  assumes "isfinite a" and "isfinite b"
  shows "unat (float_to_sortable a) < unat (float_to_sortable b) \<longleftrightarrow> num_less (FloatV a) (FloatV b)"
    and "unat (float_to_sortable a) = unat (float_to_sortable b) \<longleftrightarrow> num_eq (FloatV a) (FloatV b)"
proof -
  have bounds: "f_mag a < 2 ^ 63" "f_mag b < 2 ^ 63" by (rule f_mag_less)+
  have pos: "mag_int m = 0 \<longleftrightarrow> m = 0" for m using mag_int_eq_iff [of m 0] by simp
  have less: "int (mag_int m) < int (mag_int n) \<longleftrightarrow> m < n"
    and eq: "int (mag_int m) = int (mag_int n) \<longleftrightarrow> m = n" for m n by simp_all
  show "unat (float_to_sortable a) < unat (float_to_sortable b) \<longleftrightarrow> num_less (FloatV a) (FloatV b)"
    using bounds pos [of "f_mag a"] pos [of "f_mag b"]
    by (auto simp: unat_float_to_sortable num_less_finite assms f_num_def)
  show "unat (float_to_sortable a) = unat (float_to_sortable b) \<longleftrightarrow> num_eq (FloatV a) (FloatV b)"
    using bounds pos [of "f_mag a"] pos [of "f_mag b"]
    by (auto simp: unat_float_to_sortable num_eq_finite assms f_num_def)
qed

lemma float_of_int_finite: "float_of_int n = Inr w \<Longrightarrow> isfinite w"
proof -
  assume ok: "float_of_int n = Inr w"
  define m where "m = f_round (nat \<bar>n\<bar> * 2 ^ 1074) 1"
  have "m \<le> 2047 * 2 ^ 52" unfolding m_def f_round_def Let_def by (rule min.cobounded2)
  moreover have "m \<noteq> 2047 * 2 ^ 52" and w: "w = f_make (n < 0) m"
    using ok unfolding float_of_int_def Let_def m_def [symmetric] by (auto split: if_splits)
  ultimately have m: "m < 2047 * 2 ^ 52" by linarith
  then have "f_mag w = m" unfolding w by (intro f_mag_f_make) simp
  with m show ?thesis unfolding isfinite_def by simp
qed

lemma sortable_key_less_iff:
  assumes "isfinite a" and "isfinite b"
  shows "be_bytes 8 (unat (float_to_sortable a)) < be_bytes 8 (unat (float_to_sortable b)) \<longleftrightarrow>
           num_less (FloatV a) (FloatV b)"
    and "be_bytes 8 (unat (float_to_sortable a)) = be_bytes 8 (unat (float_to_sortable b)) \<longleftrightarrow>
           num_eq (FloatV a) (FloatV b)"
  using sortable_less_iff [OF assms] unat_f64_less [of "float_to_sortable a"]
    unat_f64_less [of "float_to_sortable b"]
  by (simp_all add: be_bytes_less_iff be_bytes_inject)

lemma biased_key_less_iff:
  assumes "0 \<le> a + 2 ^ 63 \<and> a + 2 ^ 63 < 2 ^ 64" and "0 \<le> b + 2 ^ 63 \<and> b + 2 ^ 63 < 2 ^ 64"
  shows "be_bytes 8 (nat (a + 2 ^ 63)) < be_bytes 8 (nat (b + 2 ^ 63)) \<longleftrightarrow> a < b"
    and "be_bytes 8 (nat (a + 2 ^ 63)) = be_bytes 8 (nat (b + 2 ^ 63)) \<longleftrightarrow> a = b"
  using assms by (auto simp: be_bytes_less_iff be_bytes_inject nat_less_iff)

section \<open>Properties\<close>

lemma key_order:
  assumes "keyable dt a" and "keyable dt b"
    and "encode_key a dt = Inr ka" and "encode_key b dt = Inr kb"
  shows "(ka < kb \<longleftrightarrow> value_less (stored_value dt a) (stored_value dt b)) \<and>
         (ka = kb \<longleftrightarrow> value_eq (stored_value dt a) (stored_value dt b))"
proof (cases dt)
  case INTEGER
  then show ?thesis using assms
    by (cases a; cases b)
       (auto simp: keyable_def guard_res_Inr biased_key_less_iff [simplified] tag_defs)
next
  case FLOAT
  have fin: "keyable FLOAT v \<Longrightarrow> v \<noteq> PyNone \<Longrightarrow>
      \<exists>w. isfinite w \<and> stored_value FLOAT v = PyFloat w \<and>
        encode_key v FLOAT = Inr (TAG_VALUE # be_bytes 8 (unat (float_to_sortable w)))" for v
    by (cases v) (auto simp: keyable_def bind_res_Inr guard_res_Inr float_of_int_finite)
  show ?thesis using assms(3,4) fin [of a] fin [of b] assms(1,2) unfolding FLOAT
    by (cases "a = PyNone"; cases "b = PyNone")
       (auto simp: sortable_key_less_iff tag_defs)
next
  case BOOLEAN
  then show ?thesis using assms
    by (cases a; cases b) (auto simp: keyable_def tag_defs split: if_splits)
next
  case TEXT
  then show ?thesis using assms
    by (cases a; cases b) (auto simp: keyable_def bind_res_Inr utf8_encode_eq tag_defs
        utf8_less_iff dest: arg_cong [where f = utf8_decode] split: if_splits)
qed

text \<open>
  C2: comparing two index keys byte by byte is comparing the values they were made from: NULL
  sorts first, INTEGER, FLOAT and BOOLEAN in numeric order, TEXT in code-point order, and two
  keys are the same bytes exactly when the values are equal (so both zeros share a key).
\<close>

theorem encode_key_order:
  assumes "keyable dt a" and "keyable dt b"
    and "encode_key a dt = Inr ka" and "encode_key b dt = Inr kb"
  shows "(ka < kb \<longleftrightarrow> value_less (stored_value dt a) (stored_value dt b)) \<and>
         (ka = kb \<longleftrightarrow> value_eq (stored_value dt a) (stored_value dt b))"
  using assms by (rule key_order)

theorem encode_key_order_witness:
  "encode_key (PyInt (-1)) INTEGER = Inr [2, 127, 255, 255, 255, 255, 255, 255, 255] \<and>
   encode_key (PyInt 256) INTEGER = Inr [2, 128, 0, 0, 0, 0, 0, 1, 0] \<and>
   [2, 127, 255, 255, 255, 255, 255, 255, 255] < ([2, 128, 0, 0, 0, 0, 0, 1, 0] :: bytes)"
proof -
  have a: "encode_key (PyInt (-1)) INTEGER = Inr [2, 127, 255, 255, 255, 255, 255, 255, 255]"
    and b: "encode_key (PyInt 256) INTEGER = Inr [2, 128, 0, 0, 0, 0, 0, 1, 0]"
    by (simp_all add: be_bytes_def le_bytes_numeral TAG_VALUE_def)
  have k: "keyable INTEGER (PyInt (-1))" "keyable INTEGER (PyInt 256)"
    by (simp_all add: keyable_def INT64_MIN_def INT64_MAX_def)
  from encode_key_order [OF k a b] a b show ?thesis by simp
qed

lemma key_decodes:
  assumes "keyable dt v" and "case v of PyStr s \<Rightarrow> encodable s | _ \<Rightarrow> True"
  shows "\<exists>k. encode_key v dt = Inr k \<and> decode_key k dt = Inr (key_value dt v)"
  using assms
  by (cases v; cases dt)
     (auto simp: keyable_def decode_key_def key_value_def tag_defs require_body_def bind_res_Inr
       guard_res_Inr utf8_encode_eq INT64_MIN_def INT64_MAX_def nat_less_iff
       unat_f64_less [simplified])

text \<open>
  C31: every validated value but a TEXT with a surrogate has a key, and \<open>decode_key\<close> recovers
  from the key the value the column stores, with the negative zero read back as zero.
\<close>

theorem decode_encode_key:
  assumes "keyable dt v" and "case v of PyStr s \<Rightarrow> encodable s | _ \<Rightarrow> True"
  shows "\<exists>k. encode_key v dt = Inr k \<and> decode_key k dt = Inr (key_value dt v)"
  using assms by (rule key_decodes)

theorem decode_encode_key_witness:
  "\<exists>k. encode_key (PyStr [97, 233]) TEXT = Inr k \<and> decode_key k TEXT = Inr (PyStr [97, 233])"
  using decode_encode_key [of TEXT "PyStr [97, 233]"]
  by (simp add: keyable_def key_value_def encodable_def encodable_cp_def)

lemma key_bounds:
  assumes "encode_key v dt = Inr k"
  shows "MINUS_INFINITY < k \<and> (SMALLEST_VALUE_KEY \<le> k \<longleftrightarrow> v \<noteq> PyNone) \<and>
         (is_null_key k \<longleftrightarrow> v = PyNone) \<and> \<not> is_minus_infinity k"
  using assms
  by (cases v; cases dt)
     (auto simp: tag_defs is_null_key_def is_minus_infinity_def bind_res_Inr guard_res_Inr)

text \<open>
  the separators. Every key is above minus infinity, the NULL key is the only one below
  \<open>SMALLEST_VALUE_KEY\<close>, so a range scan anchored there leaves out exactly the NULLs, and
  \<open>is_null_key\<close> and \<open>is_minus_infinity\<close> recognise exactly their keys.
\<close>

theorem encode_key_bounds:
  assumes "encode_key v dt = Inr k"
  shows "MINUS_INFINITY < k \<and> (SMALLEST_VALUE_KEY \<le> k \<longleftrightarrow> v \<noteq> PyNone) \<and>
         (is_null_key k \<longleftrightarrow> v = PyNone) \<and> \<not> is_minus_infinity k"
  using assms by (rule key_bounds)

theorem encode_key_bounds_witness:
  "encode_key (PyStr []) TEXT = Inr SMALLEST_VALUE_KEY \<and> MINUS_INFINITY < SMALLEST_VALUE_KEY"
proof -
  have k: "encode_key (PyStr []) TEXT = Inr SMALLEST_VALUE_KEY" by (simp add: SMALLEST_VALUE_KEY_def)
  from encode_key_bounds [OF k] k show ?thesis by simp
qed

end
