(* ===== verification/Page.thy ===== *)
theory Page
  imports Base
begin

text \<open>
  The slotted page (\<open>engine/storage/page.py\<close>) and the constants it shares
  (\<open>engine/storage/constants.py\<close>). A page is its id, its buffer and its size; the header
  fields and the slot directory are read from the buffer on demand, exactly where the code
  has them. Header getters are total (a page is never shorter than its 24-byte header:
  \<open>page_new\<close> and \<open>validate_page_size\<close>); a setter or a slot access that \<open>struct\<close> refuses is
  \<open>Inl StructError\<close>. An operation that raises returns no page: its callers drop the object.
  \<open>page_ok\<close> is the layout invariant, \<open>recs\<close> the abstraction (the payload of each slot, \<open>None\<close>
  for a tombstone), and the refinement lemmas say what every operation does to \<open>recs\<close>.
\<close>

section \<open>Constants\<close>

definition DEFAULT_PAGE_SIZE :: nat where "DEFAULT_PAGE_SIZE = 4096"
definition MIN_PAGE_SIZE :: nat where "MIN_PAGE_SIZE = 256"
definition MAX_PAGE_SIZE :: nat where "MAX_PAGE_SIZE = 65536"
definition INVALID_PAGE_ID :: nat where "INVALID_PAGE_ID = 0xFFFFFFFF"
definition META_PAGE_ID :: nat where "META_PAGE_ID = 0"

datatype page_type = FREE | META | HEAP | SCHEMA | BTREE_INTERNAL | BTREE_LEAF | OVERFLOW

fun page_type_code :: "page_type \<Rightarrow> nat" where
  "page_type_code FREE = 0"
| "page_type_code META = 1"
| "page_type_code HEAP = 2"
| "page_type_code SCHEMA = 3"
| "page_type_code BTREE_INTERNAL = 4"
| "page_type_code BTREE_LEAF = 5"
| "page_type_code OVERFLOW = 6"

definition page_type_of :: "nat \<Rightarrow> page_type option" where
  "page_type_of raw =
     find (\<lambda>t. page_type_code t = raw) [FREE, META, HEAP, SCHEMA, BTREE_INTERNAL, BTREE_LEAF, OVERFLOW]"

definition PAGE_HEADER_SIZE :: nat where [simp]: "PAGE_HEADER_SIZE = 24"
definition SLOT_SIZE :: nat where [simp]: "SLOT_SIZE = 4"

text \<open>The byte offsets of the header fields.\<close>

abbreviation (input) "OFF_CHECKSUM \<equiv> (0 :: nat)"
abbreviation (input) "OFF_LSN \<equiv> (4 :: nat)"
abbreviation (input) "OFF_PAGE_TYPE \<equiv> (12 :: nat)"
abbreviation (input) "OFF_FLAGS \<equiv> (13 :: nat)"
abbreviation (input) "OFF_SLOT_COUNT \<equiv> (14 :: nat)"
abbreviation (input) "OFF_FREE_START \<equiv> (16 :: nat)"
abbreviation (input) "OFF_FREE_END \<equiv> (18 :: nat)"
abbreviation (input) "OFF_NEXT_PAGE \<equiv> (20 :: nat)"

section \<open>The page and its fields\<close>

record page =
  page_id :: nat
  buf :: bytes
  psize :: nat

definition page_new :: "nat \<Rightarrow> bytes \<Rightarrow> nat \<Rightarrow> page res" where
  "page_new pid b n =
     guard_res (length b = n) CorruptPageError (Inr \<lparr>page_id = pid, buf = b, psize = n\<rparr>)"

definition get_field :: "nat \<Rightarrow> nat \<Rightarrow> page \<Rightarrow> nat" where
  "get_field n off p = le_nat (slice (buf p) off n)"

definition set_field :: "nat \<Rightarrow> nat \<Rightarrow> nat \<Rightarrow> page \<Rightarrow> page res" where
  "set_field n off v p = bind_res (pack_into n (buf p) off v) (\<lambda>b. Inr (p\<lparr>buf := b\<rparr>))"

text \<open>\<open>self._buf[a:b] = xs\<close>, and the common case \<open>self._buf[a : a + len(xs)] = xs\<close>.\<close>

definition buf_assign :: "nat \<Rightarrow> nat \<Rightarrow> bytes \<Rightarrow> page \<Rightarrow> page" where
  "buf_assign a b xs p = p\<lparr>buf := slice_assign (buf p) a b xs\<rparr>"

definition with_data :: "nat \<Rightarrow> bytes \<Rightarrow> page \<Rightarrow> page" where
  "with_data a xs p = buf_assign a (a + length xs) xs p"

definition get_page_type :: "page \<Rightarrow> page_type res" where
  "get_page_type p =
     (case page_type_of (get_field 1 OFF_PAGE_TYPE p) of
        None \<Rightarrow> Inl CorruptPageError | Some t \<Rightarrow> Inr t)"

definition set_page_type :: "page_type \<Rightarrow> page \<Rightarrow> page res" where
  "set_page_type t = set_field 1 OFF_PAGE_TYPE (page_type_code t)"

definition get_flags :: "page \<Rightarrow> nat" where "get_flags = get_field 1 OFF_FLAGS"
definition set_flags :: "nat \<Rightarrow> page \<Rightarrow> page res" where "set_flags = set_field 1 OFF_FLAGS"
definition lsn :: "page \<Rightarrow> nat" where "lsn = get_field 8 OFF_LSN"
definition set_lsn :: "nat \<Rightarrow> page \<Rightarrow> page res" where "set_lsn = set_field 8 OFF_LSN"
definition slot_count :: "page \<Rightarrow> nat" where "slot_count = get_field 2 OFF_SLOT_COUNT"
definition set_slot_count :: "nat \<Rightarrow> page \<Rightarrow> page res" where "set_slot_count = set_field 2 OFF_SLOT_COUNT"
definition free_start :: "page \<Rightarrow> nat" where "free_start = get_field 2 OFF_FREE_START"
definition set_free_start :: "nat \<Rightarrow> page \<Rightarrow> page res" where "set_free_start = set_field 2 OFF_FREE_START"
definition free_end :: "page \<Rightarrow> nat" where "free_end = get_field 2 OFF_FREE_END"
definition set_free_end :: "nat \<Rightarrow> page \<Rightarrow> page res" where "set_free_end = set_field 2 OFF_FREE_END"
definition next_page_id :: "page \<Rightarrow> nat" where "next_page_id = get_field 4 OFF_NEXT_PAGE"
definition set_next_page_id :: "nat \<Rightarrow> page \<Rightarrow> page res" where "set_next_page_id = set_field 4 OFF_NEXT_PAGE"
definition checksum :: "page \<Rightarrow> nat" where "checksum = get_field 4 OFF_CHECKSUM"

section \<open>Checksum\<close>

definition compute_checksum :: "page \<Rightarrow> nat" where
  "compute_checksum p = crc32 (drop 4 (buf p))"

definition update_checksum :: "page \<Rightarrow> page res" where
  "update_checksum p = set_field 4 OFF_CHECKSUM (compute_checksum p) p"

definition verify_checksum :: "page \<Rightarrow> unit res" where
  "verify_checksum p = guard_res (checksum p = compute_checksum p) ChecksumMismatchError (Inr ())"

section \<open>Slot directory\<close>

definition slot_offset :: "nat \<Rightarrow> nat" where
  "slot_offset i = PAGE_HEADER_SIZE + i * SLOT_SIZE"

definition read_slot :: "page \<Rightarrow> nat \<Rightarrow> (nat \<times> nat) res" where
  "read_slot p i =
     guard_res (slot_offset i + SLOT_SIZE \<le> length (buf p)) StructError
       (Inr (le_nat (slice (buf p) (slot_offset i) 2), le_nat (slice (buf p) (slot_offset i + 2) 2)))"

definition write_slot :: "nat \<Rightarrow> nat \<Rightarrow> nat \<Rightarrow> page \<Rightarrow> page res" where
  "write_slot i off n p =
     guard_res (off < 2 ^ 16 \<and> n < 2 ^ 16 \<and> slot_offset i + SLOT_SIZE \<le> length (buf p)) StructError
       (Inr (p\<lparr>buf := put (buf p) (slot_offset i) (le_bytes 2 off @ le_bytes 2 n)\<rparr>))"

text \<open>The first tombstone among the slots \<open>i, \<dots>, i + n - 1\<close>.\<close>

fun find_dead_slot_from :: "page \<Rightarrow> nat \<Rightarrow> nat \<Rightarrow> nat option res" where
  "find_dead_slot_from p i 0 = Inr None"
| "find_dead_slot_from p i (Suc n) =
     bind_res (read_slot p i)
       (\<lambda>(off, _). if off = 0 then Inr (Some i) else find_dead_slot_from p (Suc i) n)"

definition find_dead_slot :: "page \<Rightarrow> nat option res" where
  "find_dead_slot p = find_dead_slot_from p 0 (slot_count p)"

fun read_slots :: "page \<Rightarrow> nat list \<Rightarrow> (nat \<times> nat \<times> nat) list res" where
  "read_slots p [] = Inr []"
| "read_slots p (i # is) =
     bind_res (read_slot p i) (\<lambda>s. bind_res (read_slots p is) (\<lambda>ss. Inr ((i, s) # ss)))"

definition slot_directory :: "page \<Rightarrow> (nat \<times> nat \<times> nat) list res" where
  "slot_directory p = read_slots p [0..<slot_count p]"

section \<open>Space accounting and validation\<close>

definition max_payload_size :: "page \<Rightarrow> int" where
  "max_payload_size p = int (psize p) - int PAGE_HEADER_SIZE - int SLOT_SIZE"

definition free_space :: "page \<Rightarrow> int" where
  "free_space p = int (free_end p) - int (free_start p)"

text \<open>The loop of \<open>reclaimable_space\<close>, over the slots \<open>n - 1, \<dots>, 0\<close>.\<close>

fun reclaim_loop :: "page \<Rightarrow> nat \<Rightarrow> nat \<Rightarrow> nat \<Rightarrow> bool \<Rightarrow> (nat \<times> nat) res" where
  "reclaim_loop p 0 live_bytes trailing_dead counting = Inr (live_bytes, trailing_dead)"
| "reclaim_loop p (Suc i) live_bytes trailing_dead counting =
     bind_res (read_slot p i)
       (\<lambda>(off, n). if off = 0
          then reclaim_loop p i live_bytes (if counting then trailing_dead + 1 else trailing_dead) counting
          else reclaim_loop p i (live_bytes + n) trailing_dead False)"

definition reclaimable_space :: "page \<Rightarrow> int res" where
  "reclaimable_space p =
     bind_res (reclaim_loop p (slot_count p) 0 0 True)
       (\<lambda>(live_bytes, trailing_dead).
          Inr ((int (psize p) - int (free_end p) - int live_bytes) + int (trailing_dead * SLOT_SIZE)))"

definition validate_header :: "page \<Rightarrow> unit res" where
  "validate_header p =
     (let expected = PAGE_HEADER_SIZE + slot_count p * SLOT_SIZE
      in if free_start p \<noteq> expected then Inl CorruptPageError
         else if \<not> (expected \<le> free_end p \<and> free_end p \<le> psize p) then Inl CorruptPageError
         else Inr ())"

fun validate_slots :: "page \<Rightarrow> nat list \<Rightarrow> unit res" where
  "validate_slots p [] = Inr ()"
| "validate_slots p (i # is) =
     bind_res (read_slot p i)
       (\<lambda>(off, n). if off \<noteq> 0 \<and> (off < free_end p \<or> off + n > psize p) then Inl CorruptPageError
                   else validate_slots p is)"

definition validate :: "page \<Rightarrow> unit res" where
  "validate p = bind_res (validate_header p) (\<lambda>_. validate_slots p [0..<slot_count p])"

definition validate_page_size :: "nat \<Rightarrow> unit res" where
  "validate_page_size n =
     (if \<not> (MIN_PAGE_SIZE \<le> n \<and> n \<le> MAX_PAGE_SIZE) then Inl ValueError
      else if n AND (n - 1) \<noteq> 0 then Inl ValueError
      else Inr ())"

section \<open>Construction and persistence\<close>

definition create :: "nat \<Rightarrow> page_type \<Rightarrow> nat \<Rightarrow> page res" where
  "create pid t n =
     bind_res (validate_page_size n) (\<lambda>_.
     bind_res (page_new pid (zeros n) n) (\<lambda>p.
     bind_res (set_page_type t p) (\<lambda>p.
     bind_res (set_slot_count 0 p) (\<lambda>p.
     bind_res (set_free_start PAGE_HEADER_SIZE p) (\<lambda>p.
     bind_res (set_free_end n p) (\<lambda>p.
     set_next_page_id INVALID_PAGE_ID p))))))"

definition from_bytes :: "nat \<Rightarrow> bytes \<Rightarrow> nat \<Rightarrow> bool \<Rightarrow> bool \<Rightarrow> page res" where
  "from_bytes pid raw n do_verify do_validate =
     bind_res (page_new pid raw n) (\<lambda>p.
     bind_res (if do_verify then verify_checksum p else Inr ()) (\<lambda>_.
     bind_res (if do_validate then validate_header p else Inr ()) (\<lambda>_. Inr p)))"

definition to_bytes :: "page \<Rightarrow> (bytes \<times> page) res" where
  "to_bytes p = bind_res (update_checksum p) (\<lambda>p'. Inr (buf p', p'))"

definition stamp_lsn :: "bytes \<Rightarrow> nat \<Rightarrow> bytes res" where
  "stamp_lsn raw l =
     bind_res (pack_into 8 raw OFF_LSN l) (\<lambda>b. pack_into 4 b OFF_CHECKSUM (crc32 (drop 4 b)))"

definition read_lsn :: "bytes \<Rightarrow> nat" where
  "read_lsn raw = (if length raw < PAGE_HEADER_SIZE then 0 else le_nat (slice raw OFF_LSN 8))"

section \<open>Record operations\<close>

definition space_needed_for :: "page \<Rightarrow> nat \<Rightarrow> nat res" where
  "space_needed_for p n =
     bind_res (find_dead_slot p) (\<lambda>d. Inr (if d \<noteq> None then n else n + SLOT_SIZE))"

definition would_fit :: "page \<Rightarrow> nat \<Rightarrow> bool res" where
  "would_fit p n = bind_res (space_needed_for p n) (\<lambda>k. Inr (int k \<le> free_space p))"

definition would_fit_after_compaction :: "page \<Rightarrow> nat \<Rightarrow> bool res" where
  "would_fit_after_compaction p n =
     bind_res (space_needed_for p n) (\<lambda>k.
     bind_res (reclaimable_space p) (\<lambda>r. Inr (int k \<le> free_space p + r)))"

definition insert_rec :: "page \<Rightarrow> bytes \<Rightarrow> (page \<times> nat option) res" where
  "insert_rec p payload =
     (let n = length payload
      in if int n > max_payload_size p then Inl RecordTooLargeError
         else bind_res (find_dead_slot p) (\<lambda>dead.
           let needed = (if dead \<noteq> None then n else n + SLOT_SIZE)
           in if int needed > free_space p then Inr (p, None)
              else
                let new_free_end = free_end p - n;
                    p1 = with_data new_free_end payload p
                in bind_res
                     (case dead of
                        Some i \<Rightarrow> Inr (i, p1)
                      | None \<Rightarrow>
                          bind_res (set_slot_count (slot_count p1 + 1) p1) (\<lambda>p2.
                          bind_res (set_free_start (free_start p2 + SLOT_SIZE) p2) (\<lambda>p3.
                          Inr (slot_count p1, p3))))
                     (\<lambda>(i, p3).
                        bind_res (write_slot i new_free_end n p3) (\<lambda>p4.
                        bind_res (set_free_end new_free_end p4) (\<lambda>p5. Inr (p5, Some i))))))"

definition insert_at :: "page \<Rightarrow> nat \<Rightarrow> bytes \<Rightarrow> (page \<times> bool) res" where
  "insert_at p index payload =
     (let n = length payload; count = slot_count p
      in if int n > max_payload_size p then Inl RecordTooLargeError
         else if \<not> index \<le> count then Inl CorruptPageError
         else if int (n + SLOT_SIZE) > free_space p then Inr (p, False)
         else
           let new_free_end = free_end p - n;
               p1 = with_data new_free_end payload p;
               a = slot_offset index;
               z = slot_offset count;
               p2 = buf_assign (a + SLOT_SIZE) (z + SLOT_SIZE) (slice (buf p1) a (z - a)) p1
           in bind_res (set_slot_count (count + 1) p2) (\<lambda>p3.
              bind_res (set_free_start (free_start p3 + SLOT_SIZE) p3) (\<lambda>p4.
              bind_res (write_slot index new_free_end n p4) (\<lambda>p5.
              bind_res (set_free_end new_free_end p5) (\<lambda>p6. Inr (p6, True))))))"

definition delete_at :: "page \<Rightarrow> nat \<Rightarrow> (page \<times> bool) res" where
  "delete_at p index =
     (let count = slot_count p
      in if \<not> index < count then Inr (p, False)
         else
           let a = slot_offset index;
               z = slot_offset count;
               p1 = buf_assign a (z - SLOT_SIZE) (slice (buf p) (a + SLOT_SIZE) (z - (a + SLOT_SIZE))) p
           in guard_res (SLOT_SIZE \<le> free_start p1) StructError
                (let new_free_start = free_start p1 - SLOT_SIZE;
                     p2 = with_data new_free_start (zeros SLOT_SIZE) p1
                 in bind_res (set_slot_count (count - 1) p2) (\<lambda>p3.
                    bind_res (set_free_start new_free_start p3) (\<lambda>p4. Inr (p4, True)))))"

definition clear_records :: "page \<Rightarrow> page res" where
  "clear_records p =
     (let p1 = buf_assign PAGE_HEADER_SIZE (psize p) (zeros (psize p - PAGE_HEADER_SIZE)) p
      in bind_res (set_slot_count 0 p1) (\<lambda>p2.
         bind_res (set_free_start PAGE_HEADER_SIZE p2) (\<lambda>p3. set_free_end (psize p) p3)))"

definition read_rec :: "page \<Rightarrow> nat \<Rightarrow> bytes option res" where
  "read_rec p i =
     (if \<not> i < slot_count p then Inr None
      else bind_res (read_slot p i)
        (\<lambda>(off, n). Inr (if off = 0 then None else Some (slice (buf p) off n))))"

definition overwrite :: "page \<Rightarrow> nat \<Rightarrow> bytes \<Rightarrow> (page \<times> bool) res" where
  "overwrite p i payload =
     (if \<not> i < slot_count p then Inr (p, False)
      else bind_res (read_slot p i)
        (\<lambda>(off, n). if n = 0 then Inr (p, False)
           else if length payload \<noteq> n then Inl ValueError
           else Inr (buf_assign off (off + n) payload p, True)))"

definition delete_rec :: "page \<Rightarrow> nat \<Rightarrow> (page \<times> bool) res" where
  "delete_rec p i =
     (if \<not> i < slot_count p then Inr (p, False)
      else bind_res (read_slot p i)
        (\<lambda>(off, _). if off = 0 then Inr (p, False)
           else bind_res (write_slot i 0 0 p) (\<lambda>p'. Inr (p', True))))"

fun iter_records_from :: "page \<Rightarrow> nat list \<Rightarrow> (nat \<times> bytes) list res" where
  "iter_records_from p [] = Inr []"
| "iter_records_from p (i # is) =
     bind_res (read_slot p i)
       (\<lambda>(off, n). bind_res (iter_records_from p is)
          (\<lambda>rs. Inr (if off = 0 then rs else (i, slice (buf p) off n) # rs)))"

definition iter_records :: "page \<Rightarrow> (nat \<times> bytes) list res" where
  "iter_records p = iter_records_from p [0..<slot_count p]"

definition live_record_count :: "page \<Rightarrow> nat res" where
  "live_record_count p =
     bind_res (read_slots p [0..<slot_count p]) (\<lambda>ss. Inr (length (filter (\<lambda>(_, off, _). off \<noteq> 0) ss)))"

section \<open>Compaction\<close>

text \<open>
  The placing loop of \<open>compact\<close>. A cursor below zero cannot be packed into a slot entry, so
  there the code raises.
\<close>

fun place_records :: "nat \<Rightarrow> (nat \<times> bytes) list \<Rightarrow> page \<Rightarrow> (nat \<times> page) res" where
  "place_records cursor [] p = Inr (cursor, p)"
| "place_records cursor ((i, payload) # rs) p =
     guard_res (length payload \<le> cursor) StructError
       (let c = cursor - length payload
        in bind_res (write_slot i c (length payload) (with_data c payload p))
             (\<lambda>p'. place_records c rs p'))"

text \<open>The number of slots left once the tombstones at the tail of the first \<open>n\<close> are dropped.\<close>

fun trimmed_count :: "page \<Rightarrow> nat \<Rightarrow> nat res" where
  "trimmed_count p 0 = Inr 0"
| "trimmed_count p (Suc n) =
     bind_res (read_slot p n) (\<lambda>(off, _). if off = 0 then trimmed_count p n else Inr (Suc n))"

definition trim_trailing_dead_slots :: "page \<Rightarrow> page res" where
  "trim_trailing_dead_slots p =
     bind_res (trimmed_count p (slot_count p)) (\<lambda>new_count.
       if new_count = slot_count p then Inr p
       else
         let new_free_start = PAGE_HEADER_SIZE + new_count * SLOT_SIZE
         in guard_res (new_free_start \<le> free_start p) ValueError
              (let p1 = buf_assign new_free_start (free_start p) (zeros (free_start p - new_free_start)) p
               in bind_res (set_slot_count new_count p1) (\<lambda>p2. set_free_start new_free_start p2)))"

definition compact :: "page \<Rightarrow> (page \<times> int) res" where
  "compact p =
     bind_res (iter_records p) (\<lambda>live.
       guard_res (free_end p \<le> psize p) ValueError
         (let p1 = buf_assign (free_end p) (psize p) (zeros (psize p - free_end p)) p
          in bind_res (place_records (psize p) live p1) (\<lambda>(cursor, p2).
             bind_res (set_free_end cursor p2) (\<lambda>p3.
             bind_res (trim_trailing_dead_slots p3) (\<lambda>p4.
             Inr (p4, free_space p4 - free_space p))))))"

section \<open>Invariant and abstraction\<close>

definition slot_at :: "page \<Rightarrow> nat \<Rightarrow> nat \<times> nat" where
  "slot_at p i = (le_nat (slice (buf p) (slot_offset i) 2), le_nat (slice (buf p) (slot_offset i + 2) 2))"

abbreviation slot_off :: "page \<Rightarrow> nat \<Rightarrow> nat" where "slot_off p i \<equiv> fst (slot_at p i)"
abbreviation slot_len :: "page \<Rightarrow> nat \<Rightarrow> nat" where "slot_len p i \<equiv> snd (slot_at p i)"

definition rec_at :: "page \<Rightarrow> nat \<Rightarrow> bytes option" where
  "rec_at p i = (if slot_off p i = 0 then None else Some (slice (buf p) (slot_off p i) (slot_len p i)))"

definition recs :: "page \<Rightarrow> bytes option list" where
  "recs p = map (rec_at p) [0..<slot_count p]"

definition rec_bytes :: "bytes option list \<Rightarrow> nat" where
  "rec_bytes rs = sum_list (map (\<lambda>r. case r of None \<Rightarrow> 0 | Some b \<Rightarrow> length b) rs)"

definition header_ok :: "page \<Rightarrow> bool" where
  "header_ok p \<longleftrightarrow> length (buf p) = psize p \<and> MIN_PAGE_SIZE \<le> psize p \<and> psize p < 2 ^ 16 \<and>
     free_start p = slot_offset (slot_count p) \<and> free_start p \<le> free_end p \<and> free_end p \<le> psize p"

definition slots_ok :: "page \<Rightarrow> bool" where
  "slots_ok p \<longleftrightarrow>
     (\<forall>i < slot_count p. slot_off p i = 0 \<longrightarrow> slot_len p i = 0) \<and>
     (\<forall>i < slot_count p. slot_off p i \<noteq> 0 \<longrightarrow>
        free_end p \<le> slot_off p i \<and> slot_off p i + slot_len p i \<le> psize p) \<and>
     (\<forall>i < slot_count p. \<forall>j < slot_count p. i \<noteq> j \<longrightarrow> slot_off p i \<noteq> 0 \<longrightarrow> slot_off p j \<noteq> 0 \<longrightarrow>
        slot_off p i + slot_len p i \<le> slot_off p j \<or> slot_off p j + slot_len p j \<le> slot_off p i)"

definition page_ok :: "page \<Rightarrow> bool" where
  "page_ok p \<longleftrightarrow> header_ok p \<and> slots_ok p \<and> free_end p + rec_bytes (recs p) \<le> psize p"

text \<open>
  The parts of a page that no record operation touches: identity, LSN, type, flags and the
  link to the next page.
\<close>

definition same_identity :: "page \<Rightarrow> page \<Rightarrow> bool" where
  "same_identity p p' \<longleftrightarrow> page_id p' = page_id p \<and> psize p' = psize p \<and>
     slice (buf p') 0 14 = slice (buf p) 0 14 \<and> slice (buf p') 20 4 = slice (buf p) 20 4"

text \<open>What the operations mean on the slots: the specification they are proved to refine.\<close>

fun first_dead :: "bytes option list \<Rightarrow> nat option" where
  "first_dead [] = None"
| "first_dead (r # rs) = (if r = None then Some 0 else map_option Suc (first_dead rs))"

definition spec_insert :: "bytes option list \<Rightarrow> bytes \<Rightarrow> bytes option list \<times> nat" where
  "spec_insert rs b =
     (case first_dead rs of
        Some i \<Rightarrow> (rs[i := Some b], i)
      | None \<Rightarrow> (rs @ [Some b], length rs))"

definition spec_trim :: "bytes option list \<Rightarrow> bytes option list" where
  "spec_trim rs = rev (dropWhile (\<lambda>r. r = None) (rev rs))"

definition spec_read :: "bytes option list \<Rightarrow> nat \<Rightarrow> bytes option" where
  "spec_read rs i = (if i < length rs then rs ! i else None)"

section \<open>Primitive updates\<close>

text \<open>
  Every operation is a sequence of five kinds of writes: three header fields, a slot entry and
  a run of payload bytes. Each has a pure form here and one equation per observer, collected
  in \<open>page_simps\<close>.
\<close>

named_theorems page_simps "observers of primitive page updates"

definition with_field :: "nat \<Rightarrow> nat \<Rightarrow> nat \<Rightarrow> page \<Rightarrow> page" where
  "with_field n off v p = p\<lparr>buf := put (buf p) off (le_bytes n v)\<rparr>"

abbreviation with_count :: "nat \<Rightarrow> page \<Rightarrow> page" where "with_count \<equiv> with_field 2 OFF_SLOT_COUNT"
abbreviation with_fstart :: "nat \<Rightarrow> page \<Rightarrow> page" where "with_fstart \<equiv> with_field 2 OFF_FREE_START"
abbreviation with_fend :: "nat \<Rightarrow> page \<Rightarrow> page" where "with_fend \<equiv> with_field 2 OFF_FREE_END"

definition with_slot :: "nat \<Rightarrow> nat \<Rightarrow> nat \<Rightarrow> page \<Rightarrow> page" where
  "with_slot i off n p = p\<lparr>buf := put (buf p) (slot_offset i) (le_bytes 2 off @ le_bytes 2 n)\<rparr>"

lemma buf_assign_eq: "b = a + length xs \<Longrightarrow> buf_assign a b xs p = with_data a xs p"
  by (simp add: with_data_def)

lemma slice_put_same:
  "b \<le> length bs \<Longrightarrow> b = a + length xs \<Longrightarrow> n = length xs \<Longrightarrow> slice (slice_assign bs a b xs) a n = xs"
  by (simp add: slice_assign_same)

lemma slice_put_other:
  "b \<le> length bs \<Longrightarrow> b = a + length xs \<Longrightarrow> c + n \<le> a \<or> b \<le> c \<Longrightarrow>
   slice (slice_assign bs a b xs) c n = slice bs c n"
  by (auto simp: slice_assign_below slice_assign_above)

lemma slot_offset_ge: "24 \<le> slot_offset i"
  by (simp add: slot_offset_def)

lemma slot_offset_simps [simp]:
  "slot_offset (Suc i) = slot_offset i + 4" "slot_offset 0 = 24"
  "slot_offset i \<le> slot_offset j \<longleftrightarrow> i \<le> j" "slot_offset i < slot_offset j \<longleftrightarrow> i < j"
  by (auto simp: slot_offset_def)

lemma slot_offset_disjoint: "i \<noteq> j \<Longrightarrow> slot_offset i + 4 \<le> slot_offset j \<or> slot_offset j + 4 \<le> slot_offset i"
  by (auto simp: slot_offset_def)

lemma slot_offset_next: "i < n \<Longrightarrow> slot_offset i + 4 \<le> slot_offset n"
  by (simp add: slot_offset_def)

lemma page_update_frame [page_simps]:
  "psize (with_field n f v p) = psize p" "page_id (with_field n f v p) = page_id p"
  "psize (with_slot i off len p) = psize p" "page_id (with_slot i off len p) = page_id p"
  "psize (with_data a xs p) = psize p" "page_id (with_data a xs p) = page_id p"
  by (simp_all add: with_field_def with_slot_def with_data_def buf_assign_def)

lemma page_update_length [page_simps]:
  "f + n \<le> length (buf p) \<Longrightarrow> length (buf (with_field n f v p)) = length (buf p)"
  "slot_offset i + 4 \<le> length (buf p) \<Longrightarrow> length (buf (with_slot i off len p)) = length (buf p)"
  "a + length xs \<le> length (buf p) \<Longrightarrow> length (buf (with_data a xs p)) = length (buf p)"
  by (simp_all add: with_field_def with_slot_def with_data_def buf_assign_def)

lemma get_field_with_field:
  "f + n \<le> length (buf p) \<Longrightarrow> v < 256 ^ n \<Longrightarrow> get_field n f (with_field n f v p) = v"
  "f + n \<le> length (buf p) \<Longrightarrow> g + m \<le> f \<or> f + n \<le> g \<Longrightarrow>
   get_field m g (with_field n f v p) = get_field m g p"
  by (simp_all add: get_field_def with_field_def slice_put_same slice_put_other)

lemma get_field_with_slot:
  "slot_offset i + 4 \<le> length (buf p) \<Longrightarrow> g + m \<le> 24 \<Longrightarrow>
   get_field m g (with_slot i off len p) = get_field m g p"
  using slot_offset_ge [of i]
  by (simp add: get_field_def with_slot_def slice_put_other)

lemma get_field_with_data:
  "a + length xs \<le> length (buf p) \<Longrightarrow> g + m \<le> a \<Longrightarrow>
   get_field m g (with_data a xs p) = get_field m g p"
  by (simp add: get_field_def with_data_def buf_assign_def slice_put_other)

lemmas header_defs = slot_count_def free_start_def free_end_def next_page_id_def lsn_def
  get_flags_def checksum_def

lemma header_with_field [page_simps]:
  assumes "24 \<le> length (buf p)" and "v < 2 ^ 16"
  shows "slot_count (with_count v p) = v" "slot_count (with_fstart v p) = slot_count p"
    "slot_count (with_fend v p) = slot_count p"
    "free_start (with_count v p) = free_start p" "free_start (with_fstart v p) = v"
    "free_start (with_fend v p) = free_start p"
    "free_end (with_count v p) = free_end p" "free_end (with_fstart v p) = free_end p"
    "free_end (with_fend v p) = v"
  using assms by (simp_all add: header_defs get_field_with_field)

lemma header_with_slot [page_simps]:
  assumes "slot_offset i + 4 \<le> length (buf p)"
  shows "slot_count (with_slot i off n p) = slot_count p"
    "free_start (with_slot i off n p) = free_start p" "free_end (with_slot i off n p) = free_end p"
  using assms by (simp_all add: header_defs get_field_with_slot)

lemma header_with_data [page_simps]:
  assumes "24 \<le> a" and "a + length xs \<le> length (buf p)"
  shows "slot_count (with_data a xs p) = slot_count p"
    "free_start (with_data a xs p) = free_start p" "free_end (with_data a xs p) = free_end p"
  using assms by (simp_all add: header_defs get_field_with_data)

lemma slot_at_with_field [page_simps]:
  "f + n \<le> 24 \<Longrightarrow> 24 \<le> length (buf p) \<Longrightarrow> slot_at (with_field n f v p) i = slot_at p i"
  using slot_offset_ge [of i]
  by (simp add: slot_at_def with_field_def slice_put_other)

lemma slot_at_with_slot [page_simps]:
  assumes "slot_offset j + 4 \<le> length (buf p)" and "off < 2 ^ 16" and "n < 2 ^ 16"
  shows "slot_at (with_slot j off n p) i = (if i = j then (off, n) else slot_at p i)"
proof (cases "i = j")
  case True
  have "slice (buf (with_slot j off n p)) (slot_offset j) 4 = le_bytes 2 off @ le_bytes 2 n"
    using assms by (simp add: with_slot_def slice_put_same)
  then have "slice (buf (with_slot j off n p)) (slot_offset j + k) 2 =
      slice (le_bytes 2 off @ le_bytes 2 n) k 2" if "k + 2 \<le> 4" for k
    using slice_slice [of k 2 4 "buf (with_slot j off n p)" "slot_offset j"] that by simp
  from this [of 0] this [of 2] show ?thesis using True assms
    by (simp add: slot_at_def slice_append_right)
next
  case False
  then show ?thesis using slot_offset_disjoint [OF False] assms
    by (auto simp: slot_at_def with_slot_def slice_put_other)
qed

lemma slot_at_with_data [page_simps]:
  "slot_offset i + 4 \<le> a \<Longrightarrow> a + length xs \<le> length (buf p) \<Longrightarrow> slot_at (with_data a xs p) i = slot_at p i"
  by (simp add: slot_at_def with_data_def buf_assign_def slice_put_other)

lemma data_with_field [page_simps]:
  "c + m \<le> f \<or> f + n \<le> c \<Longrightarrow> f + n \<le> length (buf p) \<Longrightarrow>
   slice (buf (with_field n f v p)) c m = slice (buf p) c m"
  by (simp add: with_field_def slice_put_other)

lemma data_with_slot [page_simps]:
  "c + m \<le> 24 \<or> slot_offset i + 4 \<le> c \<Longrightarrow> slot_offset i + 4 \<le> length (buf p) \<Longrightarrow>
   slice (buf (with_slot i off n p)) c m = slice (buf p) c m"
  using slot_offset_ge [of i] by (auto simp: with_slot_def slice_put_other)

lemma data_with_data:
  "a + length xs \<le> length (buf p) \<Longrightarrow> n = length xs \<Longrightarrow> slice (buf (with_data a xs p)) a n = xs"
  "a + length xs \<le> length (buf p) \<Longrightarrow> c + n \<le> a \<or> a + length xs \<le> c \<Longrightarrow>
   slice (buf (with_data a xs p)) c n = slice (buf p) c n"
  by (simp_all add: with_data_def buf_assign_def slice_put_same slice_put_other)

lemma set_field_ok:
  "f + n \<le> length (buf p) \<Longrightarrow> v < 256 ^ n \<Longrightarrow> set_field n f v p = Inr (with_field n f v p)"
  by (simp add: set_field_def pack_into_def with_field_def)

lemma setters_ok [page_simps]:
  assumes "24 \<le> length (buf p)" and "v < 2 ^ 16"
  shows "set_slot_count v p = Inr (with_count v p)" "set_free_start v p = Inr (with_fstart v p)"
    "set_free_end v p = Inr (with_fend v p)"
  using assms
  by (simp_all add: set_slot_count_def set_free_start_def set_free_end_def set_field_ok)

lemma write_slot_ok [page_simps]:
  "off < 2 ^ 16 \<Longrightarrow> n < 2 ^ 16 \<Longrightarrow> slot_offset i + 4 \<le> length (buf p) \<Longrightarrow>
   write_slot i off n p = Inr (with_slot i off n p)"
  by (simp add: write_slot_def with_slot_def)

lemma read_slot_ok [page_simps]:
  "slot_offset i + 4 \<le> length (buf p) \<Longrightarrow> read_slot p i = Inr (slot_at p i)"
  by (simp add: read_slot_def slot_at_def)

lemma slot_bound: "slot_off p i < 2 ^ 16" "slot_len p i < 2 ^ 16"
proof -
  have "le_nat (slice (buf p) a 2) < 2 ^ 16" for a
  proof -
    have "le_nat (slice (buf p) a 2) < 256 ^ length (slice (buf p) a 2)" by (rule le_nat_bound)
    also have "\<dots> \<le> 256 ^ 2" by (intro power_increasing) simp_all
    finally show ?thesis by simp
  qed
  then show "slot_off p i < 2 ^ 16" "slot_len p i < 2 ^ 16" unfolding slot_at_def by simp_all
qed

section \<open>Lemmas on the specification\<close>

lemma rec_bytes_simps [simp]:
  "rec_bytes [] = 0" "rec_bytes (None # rs) = rec_bytes rs" "rec_bytes (Some b # rs) = length b + rec_bytes rs"
  "rec_bytes (rs @ rs') = rec_bytes rs + rec_bytes rs'" "rec_bytes (rev rs) = rec_bytes rs"
  by (simp_all add: rec_bytes_def rev_map [symmetric])

lemma rec_bytes_take_drop: "rec_bytes (take i rs) + rec_bytes (drop i rs) = rec_bytes rs"
  by (metis append_take_drop_id rec_bytes_simps(4))

lemma rec_bytes_split: "i < length rs \<Longrightarrow>
   rec_bytes rs = rec_bytes (take i rs) + rec_bytes [rs ! i] + rec_bytes (drop (Suc i) rs)"
  by (metis append.left_neutral append_Cons id_take_nth_drop rec_bytes_simps(4) add.assoc)

lemma rec_bytes_update:
  "i < length rs \<Longrightarrow> rec_bytes (rs[i := r]) + rec_bytes [rs ! i] = rec_bytes rs + rec_bytes [r]"
  using rec_bytes_split [of i rs] rec_bytes_split [of i "rs[i := r]"] by simp

lemma first_dead_Some: "first_dead rs = Some i \<Longrightarrow> i < length rs \<and> rs ! i = None"
  by (induction rs arbitrary: i) (auto split: if_splits)

lemma first_dead_None: "first_dead rs = None \<longleftrightarrow> None \<notin> set rs"
  by (induction rs) auto

lemma spec_trim_snoc [simp]:
  "spec_trim [] = []" "spec_trim (rs @ [None]) = spec_trim rs" "spec_trim (rs @ [Some b]) = rs @ [Some b]"
  by (simp_all add: spec_trim_def)

lemma spec_trim_prefix: "\<exists>k. rs = spec_trim rs @ replicate k None"
proof (induction rs rule: rev_induct)
  case (snoc r rs)
  then show ?case
  proof (cases r)
    case None
    from snoc obtain k where "rs = spec_trim rs @ replicate k None" by blast
    then have "rs @ [None] = spec_trim rs @ replicate (Suc k) None"
      by (metis append_assoc replicate_append_same replicate_Suc)
    then show ?thesis using None by (metis spec_trim_snoc(2))
  qed (auto intro: exI [of _ 0])
qed simp

lemma rec_bytes_trim [simp]: "rec_bytes (spec_trim rs) = rec_bytes rs"
proof -
  have "rec_bytes (replicate k None) = 0" for k by (simp add: rec_bytes_def)
  then show ?thesis using spec_trim_prefix [of rs] by (metis add.right_neutral rec_bytes_simps(4))
qed

lemma spec_read_append_None [simp]: "spec_read (rs @ replicate k None) i = spec_read rs i"
  by (auto simp: spec_read_def nth_append)

lemma spec_read_trim [simp]: "spec_read (spec_trim rs) i = spec_read rs i"
proof -
  from spec_trim_prefix obtain k where "rs = spec_trim rs @ replicate k None" by blast
  then show ?thesis by (metis spec_read_append_None)
qed

section \<open>Lemmas on pages\<close>

lemma header_okD:
  assumes "header_ok p"
  shows "24 \<le> length (buf p)" "length (buf p) = psize p" "psize p < 65536"
    "free_start p = slot_offset (slot_count p)" "free_start p \<le> free_end p" "free_end p \<le> psize p"
    "i < slot_count p \<Longrightarrow> slot_offset i + 4 \<le> free_start p"
    "i < slot_count p \<Longrightarrow> slot_offset i + 4 \<le> length (buf p)"
  using assms slot_offset_next [of i "slot_count p"]
  by (auto simp: header_ok_def MIN_PAGE_SIZE_def slot_offset_def)

lemma length_recs [simp]: "length (recs p) = slot_count p"
  by (simp add: recs_def)

lemma nth_recs [simp]: "i < slot_count p \<Longrightarrow> recs p ! i = rec_at p i"
  by (simp add: recs_def)

lemma rec_at_None [simp]: "rec_at p i = None \<longleftrightarrow> slot_off p i = 0"
  by (simp add: rec_at_def)

lemma read_slot_header [simp]:
  "header_ok p \<Longrightarrow> i < slot_count p \<Longrightarrow> read_slot p i = Inr (slot_at p i)"
  by (rule read_slot_ok) (rule header_okD)

lemma find_dead_slot_from_ok:
  "header_ok p \<Longrightarrow> i + n \<le> slot_count p \<Longrightarrow>
   find_dead_slot_from p i n = Inr (map_option ((+) i) (first_dead (map (rec_at p) [i..<i + n])))"
proof (induction n arbitrary: i)
  case (Suc n)
  have "[i..<i + Suc n] = i # [Suc i..<Suc i + n]" by (simp add: upt_rec)
  with Suc.IH [of "Suc i"] Suc.prems show ?case
    by (simp add: option.map_comp comp_def split: prod.splits)
qed simp

lemma find_dead_slot_ok [simp]: "header_ok p \<Longrightarrow> find_dead_slot p = Inr (first_dead (recs p))"
  using find_dead_slot_from_ok [of p 0 "slot_count p"]
  by (cases "first_dead (recs p)") (simp_all add: find_dead_slot_def recs_def)

lemma read_rec_ok [simp]: "header_ok p \<Longrightarrow> read_rec p i = Inr (spec_read (recs p) i)"
  by (auto simp: read_rec_def spec_read_def rec_at_def split: prod.splits)

definition spec_iter :: "bytes option list \<Rightarrow> (nat \<times> bytes) list" where
  "spec_iter rs = concat (map (\<lambda>(i, r). case r of None \<Rightarrow> [] | Some b \<Rightarrow> [(i, b)]) (enumerate 0 rs))"

lemma iter_records_from_ok:
  "header_ok p \<Longrightarrow> list_all (\<lambda>i. i < slot_count p) is \<Longrightarrow>
   iter_records_from p is = Inr (concat (map (\<lambda>i. case rec_at p i of None \<Rightarrow> [] | Some b \<Rightarrow> [(i, b)]) is))"
  by (induction "is") (auto simp: rec_at_def split: prod.splits)

lemma iter_records_ok [simp]: "header_ok p \<Longrightarrow> iter_records p = Inr (spec_iter (recs p))"
  by (simp add: iter_records_def iter_records_from_ok list_all_iff spec_iter_def recs_def
      enumerate_eq_zip zip_map2 comp_def zip_same_conv_map)

lemma live_record_count_ok:
  "header_ok p \<Longrightarrow> live_record_count p = Inr (length (filter (\<lambda>r. r \<noteq> None) (recs p)))"
proof -
  assume h: "header_ok p"
  have "list_all (\<lambda>i. i < slot_count p) is \<Longrightarrow> read_slots p is = Inr (map (\<lambda>i. (i, slot_at p i)) is)" for "is"
    using h by (induction "is") auto
  from this [of "[0..<slot_count p]"] show ?thesis
    by (simp add: live_record_count_def list_all_iff recs_def filter_map comp_def split_beta rec_at_def)
qed

lemma rec_bytes_single: "page_ok p \<Longrightarrow> i < slot_count p \<Longrightarrow>
   rec_bytes [rec_at p i] = (if slot_off p i = 0 then 0 else slot_len p i)"
  by (auto simp: rec_at_def page_ok_def slots_ok_def header_ok_def)

lemma reclaim_loop_ok:
  assumes "page_ok p"
  shows "n \<le> slot_count p \<Longrightarrow>
    reclaim_loop p n lb td c = Inr (lb + rec_bytes (take n (recs p)),
      td + (if c then n - length (spec_trim (take n (recs p))) else 0))"
proof (induction n arbitrary: lb td c)
  case (Suc n)
  have h: "header_ok p" using assms by (simp add: page_ok_def)
  have rs: "take (Suc n) (recs p) = take n (recs p) @ [rec_at p n]"
    using Suc.prems by (simp add: take_Suc_conv_app_nth)
  show ?case
  proof (cases "slot_off p n = 0")
    case True
    have "length (spec_trim (take n (recs p))) \<le> n"
      using Suc.prems by (auto simp: spec_trim_def intro: order_trans [OF length_dropWhile_le])
    moreover have "take (Suc n) (recs p) = take n (recs p) @ [None]"
      using True rs by (simp add: rec_at_def)
    ultimately show ?thesis using True Suc.IH Suc.prems h
      by (simp add: case_prod_beta Suc_diff_le)
  next
    case False
    then obtain b where "rec_at p n = Some b" by (auto simp: rec_at_def)
    with False Suc.IH Suc.prems h rs rec_bytes_single [OF assms, of n] show ?thesis
      by (simp add: case_prod_beta)
  qed
qed simp

lemma reclaimable_space_ok:
  "page_ok p \<Longrightarrow> reclaimable_space p =
     Inr (int (psize p) - int (free_end p) - int (rec_bytes (recs p)) +
          4 * int (slot_count p - length (spec_trim (recs p))))"
  using reclaim_loop_ok [of p "slot_count p" 0 0 True] by (simp add: reclaimable_space_def)

text \<open>
  The layout after the directory has been rearranged: every slot of \<open>p'\<close> but \<open>i\<close> is a slot of
  \<open>p\<close>, no two the same, and slot \<open>i\<close> is dead or lies in the bytes taken from the free region.
\<close>

lemma slots_ok_remap:
  assumes "slots_ok p" and "psize p' = psize p" and "free_end p' \<le> free_end p" "free_end p \<le> psize p" "0 < free_end p'"
    and old: "\<And>j. j < slot_count p' \<Longrightarrow> j \<noteq> i \<Longrightarrow> g j < slot_count p \<and> slot_at p' j = slot_at p (g j)"
    and inj: "\<And>j k. j < slot_count p' \<Longrightarrow> k < slot_count p' \<Longrightarrow> j \<noteq> i \<Longrightarrow> k \<noteq> i \<Longrightarrow> g j = g k \<Longrightarrow> j = k"
    and new: "i < slot_count p' \<Longrightarrow> slot_at p' i = (0, 0) \<or>
        free_end p' \<le> slot_off p' i \<and> slot_off p' i + slot_len p' i \<le> free_end p"
  shows "slots_ok p'"
proof -
  have range: "free_end p \<le> slot_off p' j \<and> slot_off p' j + slot_len p' j \<le> psize p"
    if "j < slot_count p'" "j \<noteq> i" "slot_off p' j \<noteq> 0" for j
    using old [OF that(1,2)] that(3) assms(1) by (auto simp: slots_ok_def)
  have disj: "slot_off p' j + slot_len p' j \<le> slot_off p' k \<or> slot_off p' k + slot_len p' k \<le> slot_off p' j"
    if "j < slot_count p'" "k < slot_count p'" "j \<noteq> k" "slot_off p' j \<noteq> 0" "slot_off p' k \<noteq> 0" for j k
  proof (cases "j = i \<or> k = i")
    case True
    then show ?thesis using range [of j] range [of k] new that by fastforce
  next
    case False
    then show ?thesis
      using old [OF that(1)] old [OF that(2)] inj [OF that(1,2)] that(3-) assms(1)
      by (auto simp: slots_ok_def)
  qed
  show ?thesis unfolding slots_ok_def
  proof (intro conjI allI impI)
    fix j assume "j < slot_count p'" "slot_off p' j = 0"
    then show "slot_len p' j = 0"
      using old [of j] new assms(1,3,5) by (cases "j = i") (auto simp: slots_ok_def)
  next
    fix j assume j: "j < slot_count p'" "slot_off p' j \<noteq> 0"
    show "free_end p' \<le> slot_off p' j"
      using range [OF j(1) _ j(2)] new j assms(3) by (cases "j = i") auto
    show "slot_off p' j + slot_len p' j \<le> psize p'"
      using range [OF j(1) _ j(2)] new j assms(2,4) by (cases "j = i") auto
  qed (use disj in blast)
qed

text \<open>
  The rule behind the record operations: if moreover the header agrees with the directory and
  the payload bytes above the old free region are kept, the invariant holds and the records
  are those of \<open>p\<close>, rearranged by \<open>g\<close>, with the new one at \<open>i\<close>.
\<close>

lemma page_remap:
  assumes ok: "page_ok p" and len: "length (buf p') = length (buf p)" and size: "psize p' = psize p"
    and fs: "free_start p' = slot_offset (slot_count p')" "free_start p' \<le> free_end p'"
    and fe: "free_end p' \<le> free_end p"
    and data: "\<And>c n. free_end p \<le> c \<Longrightarrow> slice (buf p') c n = slice (buf p) c n"
    and old: "\<And>j. j < slot_count p' \<Longrightarrow> j \<noteq> i \<Longrightarrow> g j < slot_count p \<and> slot_at p' j = slot_at p (g j)"
    and inj: "\<And>j k. j < slot_count p' \<Longrightarrow> k < slot_count p' \<Longrightarrow> j \<noteq> i \<Longrightarrow> k \<noteq> i \<Longrightarrow> g j = g k \<Longrightarrow> j = k"
    and new: "i < slot_count p' \<Longrightarrow> slot_at p' i = (0, 0) \<or>
        free_end p' \<le> slot_off p' i \<and> slot_off p' i + slot_len p' i \<le> free_end p"
    and rs: "length rs = slot_count p'" "i < slot_count p' \<Longrightarrow> rs ! i = rec_at p' i"
      "\<And>j. j < slot_count p' \<Longrightarrow> j \<noteq> i \<Longrightarrow> rs ! j = recs p ! g j"
    and space: "free_end p' + rec_bytes rs \<le> psize p"
  shows "page_ok p' \<and> recs p' = rs"
proof -
  have so: "slots_ok p" and h: "header_ok p" using ok by (auto simp: page_ok_def)
  have "slots_ok p'"
  proof (rule slots_ok_remap [where g = g and i = i, OF so size fe])
    show "free_end p \<le> psize p" using h by (simp add: header_ok_def)
    show "0 < free_end p'" using fs slot_offset_ge [of "slot_count p'"] by linarith
  qed (fact old inj new)+
  moreover have "recs p' = rs"
  proof (rule nth_equalityI)
    fix j assume "j < length (recs p')"
    then have j: "j < slot_count p'" by simp
    show "recs p' ! j = rs ! j"
    proof (cases "j = i")
      case False
      with old [OF j] rs(3) [OF j] show ?thesis
        using so data j by (auto simp: rec_at_def slots_ok_def)
    qed (use rs(2) j in simp)
  qed (use rs in simp)
  ultimately show ?thesis
    using h len size fs fe space by (auto simp: page_ok_def header_ok_def)
qed

section \<open>Refinement: what each operation does to the records\<close>

lemma insert_rec_ok:
  assumes ok: "page_ok p" and fits: "int (length payload) \<le> max_payload_size p"
  shows "\<exists>p' r. insert_rec p payload = Inr (p', r) \<and> page_ok p' \<and> same_identity p p' \<and>
    (if int (length payload + (if first_dead (recs p) = None then 4 else 0)) \<le> free_space p
     then (recs p', r) = apsnd Some (spec_insert (recs p) payload) \<and> free_end p' = free_end p - length payload
     else p' = p \<and> r = None)"
proof (cases "int (length payload + (if first_dead (recs p) = None then 4 else 0)) \<le> free_space p")
  case False
  then show ?thesis using ok fits by (auto simp: insert_rec_def page_ok_def same_identity_def Let_def)
next
  case room: True
  define e where "e = free_end p - length payload"
  have h: "header_ok p" and so: "slots_ok p" and space: "free_end p + rec_bytes (recs p) \<le> psize p"
    using ok by (auto simp: page_ok_def)
  note hd = header_okD [OF h]
  have e: "e + length payload = free_end p"
    "free_start p + (if first_dead (recs p) = None then 4 else 0) \<le> e"
    using room hd by (auto simp: e_def free_space_def split: if_splits)
  have b: "24 \<le> length (buf p)" "e + length payload \<le> length (buf p)" "24 \<le> e" "e < 65536"
    "length payload < 65536" "slot_offset (slot_count p) \<le> e"
    using hd e by (auto simp: slot_offset_def)
  show ?thesis
  proof (cases "first_dead (recs p)")
    case None
    then have c: "slot_offset (slot_count p) + 4 \<le> e" "slot_offset (slot_count p) + 4 \<le> length (buf p)"
      "slot_count p + 1 < 65536" "free_start p + 4 < 65536"
      using e b hd by (auto simp: slot_offset_def)
    define p' where "p' = with_fend e (with_slot (slot_count p) e (length payload)
      (with_fstart (free_start p + 4) (with_count (slot_count p + 1) (with_data e payload p))))"
    have run: "insert_rec p payload = Inr (p', Some (slot_count p))"
      using fits room None h b c
      by (simp add: insert_rec_def page_simps p'_def Let_def e_def [symmetric])
    have "page_ok p' \<and> recs p' = recs p @ [Some payload]"
      using b c hd(2-6) space e so None
      by (intro page_remap [OF ok, where i = "slot_count p" and g = "\<lambda>j. j"])
         (auto simp: p'_def page_simps data_with_data rec_at_def nth_append slot_offset_next
            less_Suc_eq dest: slot_offset_next)
    moreover have "same_identity p p'" "free_end p' = e" using b c
      by (simp_all add: same_identity_def p'_def page_simps data_with_data)
    ultimately show ?thesis using run None room by (auto simp: spec_insert_def e_def)
  next
    case (Some i)
    then have i: "i < slot_count p" "slot_off p i = 0" using first_dead_Some [OF Some] by auto
    have c: "slot_offset i + 4 \<le> e" "slot_offset i + 4 \<le> length (buf p)"
      using slot_offset_next [OF i(1)] b by auto
    define p' where "p' = with_fend e (with_slot i e (length payload) (with_data e payload p))"
    have run: "insert_rec p payload = Inr (p', Some i)"
      using fits room Some h b c
      by (simp add: insert_rec_def page_simps p'_def Let_def e_def [symmetric])
    have "page_ok p' \<and> recs p' = (recs p)[i := Some payload]"
      using b c hd space e so h i rec_bytes_update [of i "recs p" "Some payload"]
      by (intro page_remap [OF ok, where i = i and g = "\<lambda>j. j"])
         (auto simp: p'_def page_simps data_with_data rec_at_def 
            dest: slot_offset_next)
    moreover have "same_identity p p'" "free_end p' = e" using b c
      by (simp_all add: same_identity_def p'_def page_simps data_with_data)
    ultimately show ?thesis using run Some room by (auto simp: spec_insert_def e_def)
  qed
qed

lemma delete_rec_ok:
  assumes ok: "page_ok p"
  shows "\<exists>p'. delete_rec p i = Inr (p', spec_read (recs p) i \<noteq> None) \<and> page_ok p' \<and> same_identity p p' \<and>
    recs p' = (recs p)[i := None] \<and> free_end p' = free_end p"
proof (cases "i < slot_count p \<and> slot_off p i \<noteq> 0")
  case False
  then have "(recs p)[i := None] = recs p"
    by (cases "i < slot_count p") (auto simp: list_update_beyond rec_at_def nth_list_update intro!: nth_equalityI)
  with False show ?thesis using ok
    by (auto simp: delete_rec_def spec_read_def page_ok_def same_identity_def split: prod.splits)
next
  case True
  have h: "header_ok p" and so: "slots_ok p" and space: "free_end p + rec_bytes (recs p) \<le> psize p"
    using ok by (auto simp: page_ok_def)
  note hd = header_okD [OF h]
  have b: "slot_offset i + 4 \<le> length (buf p)" "slot_offset i + 4 \<le> free_end p" "24 \<le> length (buf p)"
    using True hd(1,5) hd(7,8) [of i] by auto
  define p' where "p' = with_slot i 0 0 p"
  have run: "delete_rec p i = Inr (p', True)"
    using True h b by (simp add: delete_rec_def p'_def page_simps case_prod_beta)
  have "page_ok p' \<and> recs p' = (recs p)[i := None]"
    using b hd(2-6) space so True rec_bytes_update [of i "recs p" None]
    by (intro page_remap [OF ok, where i = i and g = "\<lambda>j. j"])
       (auto simp: p'_def page_simps rec_at_def)
  moreover have "same_identity p p'" "free_end p' = free_end p"
    using b by (simp_all add: same_identity_def p'_def page_simps)
  ultimately show ?thesis using run True by (auto simp: spec_read_def)
qed

lemma overwrite_ok:
  assumes ok: "page_ok p" and live: "spec_read (recs p) i = Some old"
    and len: "length payload = length old" "0 < length old"
  shows "\<exists>p'. overwrite p i payload = Inr (p', True) \<and> page_ok p' \<and> same_identity p p' \<and>
    recs p' = (recs p)[i := Some payload]"
proof -
  have h: "header_ok p" and so: "slots_ok p" and space: "free_end p + rec_bytes (recs p) \<le> psize p"
    using ok by (auto simp: page_ok_def)
  note hd = header_okD [OF h]
  define off n where "off = slot_off p i" and "n = slot_len p i"
  have i: "i < slot_count p" "off \<noteq> 0" and old: "old = slice (buf p) off n"
    using live by (auto simp: spec_read_def rec_at_def off_def n_def split: if_splits)
  have inside: "free_end p \<le> off" "off + n \<le> psize p"
    using so i by (auto simp: slots_ok_def off_def n_def)
  then have n: "length payload = n" "0 < n" using len hd(2) old by auto
  have b: "off + length payload \<le> length (buf p)" "slot_offset (slot_count p) \<le> off" "24 \<le> off"
    using inside hd(1-6) n slot_offset_ge [of "slot_count p"] by auto
  define p' where "p' = with_data off payload p"
  have run: "overwrite p i payload = Inr (p', True)"
    using i h n by (simp add: overwrite_def p'_def with_data_def buf_assign_def case_prod_beta off_def n_def)
  have slots: "slot_at p' j = slot_at p j" if "j < slot_count p" for j
    using slot_offset_next [OF that] b by (simp add: p'_def page_simps)
  have hdr: "slot_count p' = slot_count p" "free_start p' = free_start p" "free_end p' = free_end p"
    "psize p' = psize p" "length (buf p') = length (buf p)"
    using b by (simp_all add: p'_def page_simps)
  have data: "slice (buf p') off n = payload" using b n by (simp add: p'_def data_with_data)
  have "recs p' = (recs p)[i := Some payload]"
  proof (rule nth_equalityI)
    fix j assume "j < length (recs p')"
    then have j: "j < slot_count p" by (simp add: hdr)
    show "recs p' ! j = (recs p)[i := Some payload] ! j"
    proof (cases "j = i")
      case True
      then show ?thesis using j i data slots [OF j]
        by (simp add: hdr rec_at_def off_def n_def)
    next
      case False
      then have "slot_off p j \<noteq> 0 \<Longrightarrow> slot_off p j + slot_len p j \<le> off \<or> off + n \<le> slot_off p j"
        using so j i by (auto simp: slots_ok_def off_def n_def)
      then have "slot_off p j \<noteq> 0 \<Longrightarrow>
          slice (buf p') (slot_off p j) (slot_len p j) = slice (buf p) (slot_off p j) (slot_len p j)"
        using b n by (simp add: p'_def data_with_data)
      then show ?thesis using False j slots [OF j] by (auto simp: hdr rec_at_def)
    qed
  qed (simp add: hdr)
  moreover have "slots_ok p'" using so slots by (simp add: slots_ok_def hdr)
  moreover have "rec_bytes ((recs p)[i := Some payload]) = rec_bytes (recs p)"
    using rec_bytes_update [of i "recs p" "Some payload"] i len live
    by (auto simp: spec_read_def split: if_splits)
  ultimately have "page_ok p'" using h space by (simp add: page_ok_def header_ok_def hdr)
  moreover have "same_identity p p'" using b
    by (simp add: same_identity_def p'_def page_simps data_with_data)
  ultimately show ?thesis using run \<open>recs p' = _\<close> by blast
qed

text \<open>Moving \<open>k\<close> directory entries, as the ordered operations do.\<close>

lemma slot_at_move:
  assumes "A = slot_offset d" and "S = slot_offset s" and "m = 4 * k"
    and "A + m \<le> length (buf p)" and "S + m \<le> length (buf p)"
  shows "slot_at (with_data A (slice (buf p) S m) p) j =
    (if d \<le> j \<and> j < d + k then slot_at p (s + (j - d)) else slot_at p j)"
proof (cases "d \<le> j \<and> j < d + k")
  case False
  then have "slot_offset j + 4 \<le> A \<or> A + m \<le> slot_offset j"
    using assms by (auto simp: slot_offset_def)
  then show ?thesis using False assms(4,5)
    by (auto simp: slot_at_def with_data_def buf_assign_def slice_put_other)
next
  case True
  then obtain t where j: "j = d + t" and t: "t < k" by (auto simp: le_iff_add)
  have at: "slot_offset (d + t) = A + 4 * t" "slot_offset (s + t) = S + 4 * t"
    using assms by (auto simp: slot_offset_def)
  have "slice (buf (with_data A (slice (buf p) S m) p)) (A + (4 * t + r)) 2 =
      slice (buf p) (S + (4 * t + r)) 2" if "r \<le> 2" for r
  proof -
    have "slice (buf (with_data A (slice (buf p) S m) p)) (A + (4 * t + r)) 2 =
        slice (slice (buf p) S m) (4 * t + r) 2"
      using assms that t by (simp add: with_data_def buf_assign_def slice_assign_inside)
    also have "\<dots> = slice (buf p) (S + (4 * t + r)) 2"
      using assms(3) that t by (intro slice_slice) auto
    finally show ?thesis .
  qed
  from this [of 0] this [of 2] t show ?thesis by (simp add: slot_at_def j at add.assoc)
qed

lemma insert_at_ok:
  assumes ok: "page_ok p" and fits: "int (length payload) \<le> max_payload_size p"
    and index: "index \<le> slot_count p"
  shows "\<exists>p'. insert_at p index payload = Inr (p', int (length payload + 4) \<le> free_space p) \<and>
    page_ok p' \<and> same_identity p p' \<and>
    recs p' = (if int (length payload + 4) \<le> free_space p
               then take index (recs p) @ Some payload # drop index (recs p) else recs p) \<and>
    free_end p' = (if int (length payload + 4) \<le> free_space p then free_end p - length payload else free_end p)"
proof (cases "int (length payload + 4) \<le> free_space p")
  case False
  then show ?thesis using ok fits index by (auto simp: insert_at_def page_ok_def same_identity_def Let_def)
next
  case room: True
  define e where "e = free_end p - length payload"
  have h: "header_ok p" and so: "slots_ok p" and space: "free_end p + rec_bytes (recs p) \<le> psize p"
    using ok by (auto simp: page_ok_def)
  note hd = header_okD [OF h]
  have e: "e + length payload = free_end p" "free_start p + 4 \<le> e"
    using room hd by (auto simp: e_def free_space_def)
  define m where "m = slot_offset (slot_count p) - slot_offset index"
  have m: "m = 4 * (slot_count p - index)" "slot_offset index + m = slot_offset (slot_count p)"
    using index by (auto simp: m_def slot_offset_def)
  have b: "24 \<le> length (buf p)" "e + length payload \<le> length (buf p)" "24 \<le> e" "e < 65536"
    "length payload < 65536" "slot_offset (slot_count p) + 4 \<le> e"
    "slot_offset index + 4 \<le> e" "slot_offset index + 4 \<le> length (buf p)"
    "Suc (slot_count p) < 65536" "free_start p + 4 < 65536" "slot_offset index + 4 + m \<le> e"
    using hd(1-6) e m slot_offset_ge [of "slot_count p"] by (auto simp: slot_offset_def)
  define p1 where "p1 = with_data e payload p"
  define p2 where "p2 = with_data (slot_offset index + 4) (slice (buf p1) (slot_offset index) m) p1"
  have l1: "length (buf p1) = length (buf p)" using b by (simp add: p1_def page_simps)
  have b2: "buf_assign (slot_offset index + 4) (slot_offset (slot_count p) + 4)
      (slice (buf p1) (slot_offset index) m) p1 = p2"
    unfolding p2_def using b m l1 by (intro buf_assign_eq) (simp add: slot_offset_def)
  define p' where "p' = with_fend e (with_slot index e (length payload)
    (with_fstart (free_start p + 4) (with_count (Suc (slot_count p)) p2)))"
  have l2: "length (buf p2) = length (buf p)" using b l1 by (simp add: p2_def page_simps)
  have s2: "slot_at p2 j = (if index < j \<and> j \<le> slot_count p then slot_at p (j - 1) else slot_at p j)"
    if "j \<le> slot_count p" for j
  proof -
    have j1: "slot_at p1 k = slot_at p k" if "k < slot_count p" for k
      using slot_offset_next [OF that] b by (simp add: p1_def page_simps)
    have j2: "slot_at p1 (slot_count p) = slot_at p (slot_count p)" using b by (simp add: p1_def page_simps)
    show ?thesis
      using slot_at_move [of "slot_offset index + 4" "Suc index" "slot_offset index" index m "slot_count p - index" p1 j]
        that index j1 [of j] j1 [of "j - 1"] j2 b l1 m(1)
      by (cases "j = slot_count p") (auto simp: p2_def)
  qed
  have d2: "slice (buf p2) c n = slice (buf p1) c n" if "free_end p \<le> c \<or> c = e \<or> c + n \<le> 24" for c n
    using b l1 that e slot_offset_ge [of index] by (auto simp: p2_def data_with_data)
  have h2: "slot_count p2 = slot_count p" "free_start p2 = free_start p" "psize p2 = psize p"
    "page_id p2 = page_id p" "free_end p2 = free_end p"
    using b l1 slot_offset_ge [of index] by (simp_all add: p2_def p1_def page_simps)
  have run: "insert_at p index payload = Inr (p', True)"
    using fits room index b l1 l2 h2 b2
    by (simp add: insert_at_def Let_def e_def [symmetric] p1_def [symmetric] m_def [symmetric] page_simps p'_def)
  have p2_e: "slice (buf p2) e (length payload) = payload" using d2 b by (simp add: p1_def data_with_data)
  have p2_d: "slice (buf p2) c n = slice (buf p) c n" if "free_end p \<le> c \<or> c + n \<le> 24" for c n
    using d2 [of c n] b that e by (auto simp: p1_def data_with_data)
  have "page_ok p' \<and> recs p' = take index (recs p) @ Some payload # drop index (recs p)"
    using b hd(2-6) space e so l2 h2 index rec_bytes_take_drop [of index "recs p"]
    by (intro page_remap [OF ok, where i = index and g = "\<lambda>j. if j < index then j else j - 1"])
       (auto simp: p'_def page_simps p2_e p2_d s2 rec_at_def nth_append nth_Cons' min_def split: if_splits)
  moreover have "same_identity p p'" using b l2 h2
    by (simp add: same_identity_def p'_def page_simps p2_d)
  moreover have "free_end p' = e" using b l2 by (simp add: p'_def page_simps)
  ultimately show ?thesis using run room by (auto simp: e_def)
qed

lemma delete_at_ok:
  assumes ok: "page_ok p"
  shows "\<exists>p'. delete_at p index = Inr (p', index < slot_count p) \<and> page_ok p' \<and> same_identity p p' \<and>
    recs p' = take index (recs p) @ drop (Suc index) (recs p)"
proof (cases "index < slot_count p")
  case False
  then show ?thesis using ok by (auto simp: delete_at_def same_identity_def)
next
  case index: True
  have h: "header_ok p" and so: "slots_ok p" and space: "free_end p + rec_bytes (recs p) \<le> psize p"
    using ok by (auto simp: page_ok_def)
  note hd = header_okD [OF h]
  define m where "m = 4 * (slot_count p - Suc index)"
  define z where "z = slot_offset (slot_count p) - 4"
  have m: "z - slot_offset index = m" "slot_offset (slot_count p) - (slot_offset index + 4) = m"
    "slot_offset index + m = z" "z + 4 = slot_offset (slot_count p)" "24 \<le> z"
    "slot_offset (slot_count p - Suc 0) = z"
    using index by (auto simp: m_def z_def slot_offset_def)
  have b: "24 \<le> length (buf p)" "z + 4 \<le> free_end p" "z + 4 \<le> length (buf p)" "slot_count p < 65536"
    "slot_offset index + m \<le> length (buf p)" "slot_offset index + 4 + m \<le> length (buf p)" "z < 65536"
    using hd(1-6) m by (auto simp: slot_offset_def)
  define p1 where "p1 = with_data (slot_offset index) (slice (buf p) (slot_offset index + 4) m) p"
  define p2 where "p2 = with_data z (zeros 4) p1"
  define p' where "p' = with_fstart z (with_count (slot_count p - 1) p2)"
  have l1: "length (buf p1) = length (buf p)" using b by (simp add: p1_def page_simps)
  have b1: "buf_assign (slot_offset index) z (slice (buf p) (slot_offset index + 4) m) p = p1"
    unfolding p1_def using b m by (intro buf_assign_eq) simp
  have h1: "slot_count p1 = slot_count p" "free_start p1 = z + 4" "psize p1 = psize p"
    "page_id p1 = page_id p" "free_end p1 = free_end p"
    using b m hd(4) slot_offset_ge [of index] by (simp_all add: p1_def page_simps)
  have l2: "length (buf p2) = length (buf p)" using b l1 by (simp add: p2_def page_simps)
  have h2: "slot_count p2 = slot_count p" "psize p2 = psize p" "page_id p2 = page_id p"
    "free_end p2 = free_end p"
    using b l1 m h1 by (simp_all add: p2_def page_simps)
  have run: "delete_at p index = Inr (p', True)"
    using index b l1 l2 h1 b1 m(1-5)
    by (simp add: delete_at_def Let_def z_def [symmetric] p2_def [symmetric] page_simps p'_def)
  have s2: "slot_at p2 j = (if j < index then slot_at p j else slot_at p (Suc j))"
    if "j < slot_count p - 1" for j
  proof -
    have "slot_offset j + 4 \<le> z" using that by (simp add: z_def slot_offset_def)
    then have "slot_at p2 j = slot_at p1 j" using b l1 by (simp add: p2_def page_simps)
    with slot_at_move [of "slot_offset index" index "slot_offset index + 4" "Suc index" m
        "slot_count p - Suc index" p j] that index b
    show ?thesis by (auto simp: p1_def m_def)
  qed
  have d2: "slice (buf p2) c n = slice (buf p) c n" if "free_end p \<le> c \<or> c + n \<le> 24" for c n
    using b l1 that m(1-5) slot_offset_ge [of index] by (auto simp: p2_def p1_def data_with_data)
  have hp: "slot_count p' = slot_count p - Suc 0" "free_start p' = z" "free_end p' = free_end p"
    "psize p' = psize p" "length (buf p') = length (buf p)"
    using b l2 h2 by (simp_all add: p'_def page_simps)
  have sp: "slot_at p' j = slot_at p (if j < index then j else Suc j)" if "j < slot_count p'" for j
    using s2 [of j] that hp b l2 by (simp add: p'_def page_simps)
  have dp: "slice (buf p') c n = slice (buf p) c n" if "free_end p \<le> c" for c n
    using d2 [of c n] that b l2 m(5) by (simp add: p'_def page_simps)
  have "page_ok p' \<and> recs p' = take index (recs p) @ drop (Suc index) (recs p)"
  proof (rule page_remap [OF ok, where i = "slot_count p" and g = "\<lambda>j. if j < index then j else Suc j"])
    show "free_end p' + rec_bytes (take index (recs p) @ drop (Suc index) (recs p)) \<le> psize p"
      using space rec_bytes_split [of index "recs p"] index by (simp add: hp)
    show "(take index (recs p) @ drop (Suc index) (recs p)) ! j = recs p ! (if j < index then j else Suc j)"
      if "j < slot_count p'" for j
      using that index by (simp add: hp nth_append)
  qed (use b m(5,6) index in \<open>auto simp: hp sp dp split: if_splits\<close>)
  moreover have "same_identity p p'" using b l2 h2
    by (simp add: same_identity_def p'_def page_simps d2)
  ultimately show ?thesis using run index by auto
qed

subsection \<open>Compaction\<close>

abbreviation total_bytes :: "(nat \<times> bytes) list \<Rightarrow> nat" where
  "total_bytes rs \<equiv> sum_list (map (\<lambda>r. length (snd r)) rs)"

text \<open>The records \<open>rs\<close> lie one below the other under \<open>hi\<close>, and their slots say so.\<close>

fun placed :: "page \<Rightarrow> nat \<Rightarrow> (nat \<times> bytes) list \<Rightarrow> bool" where
  "placed p hi [] \<longleftrightarrow> True"
| "placed p hi ((i, b) # rs) \<longleftrightarrow> length b \<le> hi \<and> slot_at p i = (hi - length b, length b) \<and>
     slice (buf p) (hi - length b) (length b) = b \<and> placed p (hi - length b) rs"

definition only_records :: "nat \<Rightarrow> nat \<Rightarrow> (nat \<times> bytes) list \<Rightarrow> page \<Rightarrow> page \<Rightarrow> bool" where
  "only_records B hi rs p p' \<longleftrightarrow>
     slot_count p' = slot_count p \<and> free_start p' = free_start p \<and> psize p' = psize p \<and>
     page_id p' = page_id p \<and> length (buf p') = length (buf p) \<and>
     (\<forall>c n. c + n \<le> 24 \<or> hi \<le> c \<longrightarrow> slice (buf p') c n = slice (buf p) c n) \<and>
     (\<forall>j. slot_offset j + 4 \<le> B \<longrightarrow> j \<notin> fst ` set rs \<longrightarrow> slot_at p' j = slot_at p j)"

lemma place_records_ok:
  "\<forall>i \<in> fst ` set rs. slot_offset i + 4 \<le> B \<Longrightarrow> distinct (map fst rs) \<Longrightarrow> B + total_bytes rs \<le> cursor \<Longrightarrow>
   cursor \<le> length (buf p) \<Longrightarrow> length (buf p) < 2 ^ 16 \<Longrightarrow> 24 \<le> B \<Longrightarrow>
   \<exists>p'. place_records cursor rs p = Inr (cursor - total_bytes rs, p') \<and>
     only_records B cursor rs p p' \<and> placed p' cursor rs"
proof (induction rs arbitrary: cursor p)
  case Nil
  then show ?case by (auto simp: only_records_def)
next
  case (Cons r rs)
  obtain i b where r: "r = (i, b)" by (cases r)
  define c where "c = cursor - length b"
  define q where "q = with_slot i c (length b) (with_data c b p)"
  have bd: "length b \<le> cursor" "c + length b = cursor" "slot_offset i + 4 \<le> c" "24 \<le> c" "c < 65536"
    "length b < 65536" "slot_offset i + 4 \<le> length (buf p)" "slot_offset i + 4 \<le> B"
    "B + total_bytes rs \<le> c"
    using Cons.prems r by (auto simp: c_def)
  have lq: "length (buf q) = length (buf p)" using bd Cons.prems by (simp add: q_def page_simps)
  have step: "place_records cursor (r # rs) p = place_records c rs q"
    using bd Cons.prems by (simp add: r c_def [symmetric] page_simps q_def)
  have "\<exists>p'. place_records c rs q = Inr (c - total_bytes rs, p') \<and> only_records B c rs q p' \<and> placed p' c rs"
    using Cons.prems bd lq by (intro Cons.IH) (auto simp: r)
  then obtain p' where p': "place_records c rs q = Inr (c - total_bytes rs, p')"
    "only_records B c rs q p'" "placed p' c rs" by blast
  have q: "slot_count q = slot_count p" "free_start q = free_start p" "psize q = psize p" "page_id q = page_id p"
    "slot_at q i = (c, length b)" "slice (buf q) c (length b) = b"
    using bd Cons.prems by (simp_all add: q_def page_simps data_with_data)
  have qs: "slot_at q j = slot_at p j" if "j \<noteq> i" "slot_offset j + 4 \<le> B" for j
    using bd that Cons.prems by (simp add: q_def page_simps)
  have qd: "slice (buf q) d n = slice (buf p) d n" if "d + n \<le> 24 \<or> cursor \<le> d" for d n
    using bd that Cons.prems by (auto simp: q_def page_simps data_with_data)
  have "i \<notin> fst ` set rs" using Cons.prems(2) r by auto
  then have "placed p' cursor (r # rs)"
    using p' bd q by (simp add: r c_def [symmetric] only_records_def)
  moreover have "only_records B cursor (r # rs) p p'"
    using p'(2) q qs qd bd lq by (auto simp: only_records_def r)
  ultimately show ?case using step p' by (auto simp: c_def r)
qed

lemma placed_range:
  "placed p hi rs \<Longrightarrow> (i, b) \<in> set rs \<Longrightarrow>
   slot_at p i = (slot_off p i, length b) \<and> slice (buf p) (slot_off p i) (length b) = b \<and>
   hi \<le> slot_off p i + total_bytes rs \<and> slot_off p i + length b \<le> hi"
  by (induction p hi rs rule: placed.induct) (fastforce simp: le_diff_conv)+

lemma placed_disjoint:
  "placed p hi rs \<Longrightarrow> distinct (map fst rs) \<Longrightarrow> (i, b) \<in> set rs \<Longrightarrow> (j, c) \<in> set rs \<Longrightarrow> i \<noteq> j \<Longrightarrow>
   slot_off p i + length b \<le> slot_off p j \<or> slot_off p j + length c \<le> slot_off p i"
proof (induction p hi rs rule: placed.induct)
  case (2 p hi k d rs)
  then show ?case using placed_range [of p "hi - length d" rs] by auto
qed simp

lemma set_spec_iter: "(i, b) \<in> set (spec_iter rs) \<longleftrightarrow> i < length rs \<and> rs ! i = Some b"
  by (force simp: spec_iter_def in_set_enumerate_eq split: option.splits)

lemma spec_iter_Nil [simp]: "spec_iter [] = []"
  by (simp add: spec_iter_def)

lemma spec_iter_append:
  "spec_iter (rs @ [r]) = spec_iter rs @ (case r of None \<Rightarrow> [] | Some b \<Rightarrow> [(length rs, b)])"
  by (auto simp: spec_iter_def enumerate_append_eq split: option.splits)

lemma distinct_spec_iter: "distinct (map fst (spec_iter rs))"
  by (induction rs rule: rev_induct)
     (auto simp: spec_iter_append set_spec_iter split: option.splits)

lemma total_bytes_spec_iter [simp]: "total_bytes (spec_iter rs) = rec_bytes rs"
  by (induction rs rule: rev_induct) (auto simp: spec_iter_append split: option.splits)

lemma trimmed_count_ok:
  "header_ok p \<Longrightarrow> n \<le> slot_count p \<Longrightarrow> trimmed_count p n = Inr (length (spec_trim (take n (recs p))))"
proof (induction n)
  case (Suc n)
  then have "take (Suc n) (recs p) = take n (recs p) @ [rec_at p n]"
    by (simp add: take_Suc_conv_app_nth)
  with Suc show ?case
    by (cases "rec_at p n") (auto simp: rec_at_def split: if_splits prod.splits)
qed simp

lemma trim_ok:
  assumes ok: "page_ok p"
  shows "\<exists>p'. trim_trailing_dead_slots p = Inr p' \<and> page_ok p' \<and> same_identity p p' \<and>
    recs p' = spec_trim (recs p) \<and> free_end p' = free_end p"
proof -
  define A where "A = spec_trim (recs p)"
  define n where "n = length A"
  have h: "header_ok p" and so: "slots_ok p" and space: "free_end p + rec_bytes (recs p) \<le> psize p"
    using ok by (auto simp: page_ok_def)
  note hd = header_okD [OF h]
  obtain k where k: "recs p = A @ replicate k None" using spec_trim_prefix A_def by blast
  have "take n (recs p) = A" unfolding k n_def by simp
  then have trim: "spec_trim (recs p) = take n (recs p)" by (simp add: A_def)
  have n: "n \<le> slot_count p" using arg_cong [OF k, of length] by (simp add: n_def)
  have count: "trimmed_count p (slot_count p) = Inr n" using trimmed_count_ok [OF h] by (simp add: n_def A_def)
  show ?thesis
  proof (cases "n = slot_count p")
    case True
    then show ?thesis using ok count trim
      by (auto simp: trim_trailing_dead_slots_def same_identity_def)
  next
    case False
    define p1 where "p1 = with_data (slot_offset n) (zeros (free_start p - slot_offset n)) p"
    define p' where "p' = with_fstart (slot_offset n) (with_count n p1)"
    have b: "slot_offset n \<le> free_start p" "free_start p \<le> length (buf p)" "24 \<le> length (buf p)"
      "slot_offset n < 65536" "n < 65536" "24 \<le> slot_offset n"
      using hd(1-6) n slot_offset_ge [of n] by (auto simp: slot_offset_def)
    have p1: "buf_assign (24 + n * 4) (free_start p) (zeros (free_start p - (24 + n * 4))) p = p1"
      unfolding p1_def using b by (subst buf_assign_eq) (simp_all add: slot_offset_def)
    have run: "trim_trailing_dead_slots p = Inr p'"
      using False count b p1
      by (simp add: trim_trailing_dead_slots_def Let_def slot_offset_def [symmetric])
        (simp add: p1_def p'_def page_simps slot_offset_def)
    have s: "slot_at p1 j = slot_at p j" if "j < n" for j
      using slot_offset_next [OF that] b by (simp add: p1_def page_simps)
    have "page_ok p' \<and> recs p' = take n (recs p)"
      using b hd(2,3,5,6) n space so trim rec_bytes_trim [of "recs p"]
      by (intro page_remap [OF ok, where i = "slot_count p" and g = "\<lambda>j. j"])
         (auto simp: p'_def page_simps p1_def data_with_data dest: slot_offset_next)
    moreover have "same_identity p p'" "free_end p' = free_end p"
      using b by (simp_all add: same_identity_def p'_def page_simps p1_def data_with_data)
    ultimately show ?thesis using run trim by auto
  qed
qed

text \<open>After the placing loop every slot has its record back, packed against the end of the page.\<close>

lemma compact_placed:
  assumes ok: "page_ok p"
  defines "live \<equiv> spec_iter (recs p)"
  assumes only: "only_records (free_start p) (psize p) live p1 p2" and placed: "placed p2 (psize p) live"
    and p1: "slot_count p1 = slot_count p" "free_start p1 = free_start p" "psize p1 = psize p"
      "length (buf p1) = length (buf p)" "\<And>j. j < slot_count p \<Longrightarrow> slot_at p1 j = slot_at p j"
    and p3: "p3 = with_fend (psize p - rec_bytes (recs p)) p2"
  shows "page_ok p3 \<and> recs p3 = recs p"
proof -
  have h: "header_ok p" and so: "slots_ok p" and space: "free_end p + rec_bytes (recs p) \<le> psize p"
    using ok by (auto simp: page_ok_def)
  note hd = header_okD [OF h]
  have f: "24 \<le> length (buf p2)" "psize p < 65536" using hd only p1 by (auto simp: only_records_def)
  have h3: "slot_count p3 = slot_count p" "free_start p3 = free_start p" "psize p3 = psize p"
    "length (buf p3) = psize p" "free_end p3 = psize p - rec_bytes (recs p)" "slot_at p3 j = slot_at p2 j" for j
    using only f p1 hd(2) by (simp_all add: p3 page_simps only_records_def)
  have dead: "slot_at p3 j = (0, 0)" if "j < slot_count p" "slot_off p j = 0" for j
  proof -
    have "j \<notin> fst ` set live" using that by (auto simp: live_def set_spec_iter rec_at_def)
    with that only p1(5) hd(7) [of j] so show ?thesis
      by (simp add: h3 only_records_def slots_ok_def prod_eq_iff)
  qed
  have live: "slot_at p3 j = (slot_off p3 j, length b)" "slice (buf p3) (slot_off p3 j) (length b) = b"
      "psize p \<le> slot_off p3 j + rec_bytes (recs p)" "slot_off p3 j + length b \<le> psize p" "slot_off p3 j \<noteq> 0"
    if "j < slot_count p" "rec_at p j = Some b" for j b
  proof -
    have "(j, b) \<in> set live" using that by (simp add: live_def set_spec_iter)
    from placed_range [OF placed this] have r: "slot_at p2 j = (slot_off p2 j, length b)"
      "slice (buf p2) (slot_off p2 j) (length b) = b" "psize p \<le> slot_off p2 j + rec_bytes (recs p)"
      "slot_off p2 j + length b \<le> psize p" by (auto simp: live_def)
    then have "24 \<le> slot_off p2 j" using space hd(1-6) slot_offset_ge [of "slot_count p"] by linarith
    with r f show "slot_at p3 j = (slot_off p3 j, length b)" "slice (buf p3) (slot_off p3 j) (length b) = b"
      "psize p \<le> slot_off p3 j + rec_bytes (recs p)" "slot_off p3 j + length b \<le> psize p" "slot_off p3 j \<noteq> 0"
      by (auto simp: h3(6) p3 page_simps)
  qed
  have at: "rec_at p3 j = rec_at p j" if "j < slot_count p" for j
  proof (cases "rec_at p j")
    case None
    then have "slot_off p j = 0" by simp
    then show ?thesis using dead [OF that] by (simp add: rec_at_def)
  next
    case (Some b)
    from live [OF that Some] Some show ?thesis by (simp add: rec_at_def prod_eq_iff)
  qed
  then have recs: "recs p3 = recs p" by (simp add: recs_def h3)
  have "slots_ok p3" unfolding slots_ok_def h3(1,3,5)
  proof (intro conjI allI impI)
    fix i assume i: "i < slot_count p" and "slot_off p3 i = 0"
    then show "slot_len p3 i = 0" using dead [OF i] live(5) [OF i] by (cases "rec_at p i") auto
  next
    fix i assume i: "i < slot_count p" and "slot_off p3 i \<noteq> 0"
    then obtain b where b: "rec_at p i = Some b" using dead [OF i] by (cases "rec_at p i") auto
    from live [OF i b] show "psize p - rec_bytes (recs p) \<le> slot_off p3 i" "slot_off p3 i + slot_len p3 i \<le> psize p"
      by (auto simp: prod_eq_iff)
    fix j assume j: "j < slot_count p" "i \<noteq> j" "slot_off p3 j \<noteq> 0"
    then obtain c where c: "rec_at p j = Some c" using dead [OF j(1)] by (cases "rec_at p j") auto
    from placed_disjoint [OF placed _ _ _ j(2), of b c] i j(1) b c live(1) [OF i b] live(1) [OF j(1) c]
    show "slot_off p3 i + slot_len p3 i \<le> slot_off p3 j \<or> slot_off p3 j + slot_len p3 j \<le> slot_off p3 i"
      by (auto simp: live_def distinct_spec_iter set_spec_iter h3(6) prod_eq_iff)
  qed
  moreover have "free_start p \<le> psize p - rec_bytes (recs p)" using hd(5) space by linarith
  ultimately show ?thesis using h recs space by (simp add: page_ok_def header_ok_def h3)
qed

lemma compact_ok:
  assumes ok: "page_ok p"
  shows "\<exists>p' r. compact p = Inr (p', r) \<and> page_ok p' \<and> same_identity p p' \<and>
    recs p' = spec_trim (recs p) \<and> free_end p' = psize p - rec_bytes (recs p) \<and>
    r = free_space p' - free_space p \<and> reclaimable_space p = Inr r"
proof -
  have h: "header_ok p" and so: "slots_ok p" and space: "free_end p + rec_bytes (recs p) \<le> psize p"
    using ok by (auto simp: page_ok_def)
  note hd = header_okD [OF h]
  have fe: "24 \<le> free_end p" "24 \<le> free_start p"
    using hd(4,5) slot_offset_ge [of "slot_count p"] by auto
  define p1 where "p1 = with_data (free_end p) (zeros (psize p - free_end p)) p"
  have p1_eq: "buf_assign (free_end p) (psize p) (zeros (psize p - free_end p)) p = p1"
    unfolding p1_def using hd by (intro buf_assign_eq) simp
  have h1: "slot_count p1 = slot_count p" "free_start p1 = free_start p" "psize p1 = psize p" "page_id p1 = page_id p"
    "length (buf p1) = length (buf p)" using hd(2,6) fe by (simp_all add: p1_def page_simps)
  have s1: "slot_at p1 j = slot_at p j" if "j < slot_count p" for j
    using hd(2,5,6) hd(7) [OF that] by (simp add: p1_def page_simps)
  have d1: "slice (buf p1) c n = slice (buf p) c n" if "c + n \<le> 24" for c n
    using hd(2,6) fe that by (simp add: p1_def data_with_data)
  have "\<exists>p2. place_records (psize p) (spec_iter (recs p)) p1 = Inr (psize p - rec_bytes (recs p), p2) \<and>
      only_records (free_start p) (psize p) (spec_iter (recs p)) p1 p2 \<and> placed p2 (psize p) (spec_iter (recs p))"
  proof -
    have "\<forall>i \<in> fst ` set (spec_iter (recs p)). slot_offset i + 4 \<le> free_start p"
      using hd(7) by (auto simp: set_spec_iter)
    from place_records_ok [OF this distinct_spec_iter, of "psize p" p1] hd(2,3,5) fe h1 space
    show ?thesis by simp
  qed
  then obtain p2 where place: "place_records (psize p) (spec_iter (recs p)) p1 = Inr (psize p - rec_bytes (recs p), p2)"
    and only: "only_records (free_start p) (psize p) (spec_iter (recs p)) p1 p2"
    and placed: "placed p2 (psize p) (spec_iter (recs p))" by blast
  define p3 where "p3 = with_fend (psize p - rec_bytes (recs p)) p2"
  have p3: "page_ok p3" "recs p3 = recs p"
    using compact_placed [OF ok only placed _ _ _ _ _ p3_def] h1 s1 by auto
  have len2: "24 \<le> length (buf p2)" "psize p < 65536" using only h1 hd(1,3) by (auto simp: only_records_def)
  have p3': "same_identity p p3" "free_end p3 = psize p - rec_bytes (recs p)"
    using only h1 d1 len2 by (auto simp: same_identity_def p3_def page_simps only_records_def)
  from trim_ok [OF p3(1)] obtain p' where p': "trim_trailing_dead_slots p3 = Inr p'" "page_ok p'"
    "same_identity p3 p'" "recs p' = spec_trim (recs p)" "free_end p' = free_end p3" by (auto simp: p3(2))
  have run: "compact p = Inr (p', free_space p' - free_space p)"
    using h hd(6) p1_eq place len2 p'(1)
    by (simp add: compact_def Let_def page_simps p3_def [symmetric])
  have "slot_count p' = length (spec_trim (recs p))" using arg_cong [OF p'(4), of length] by simp
  moreover have "free_start p' = slot_offset (slot_count p')" using p'(2) by (simp add: page_ok_def header_ok_def)
  moreover have "length (spec_trim (recs p)) \<le> slot_count p"
    using spec_trim_prefix [of "recs p"]
    by (metis length_append length_recs le_add1)
  ultimately have "reclaimable_space p = Inr (free_space p' - free_space p)"
    using reclaimable_space_ok [OF ok] p'(5) p3'(2) space hd(4)
    by (simp add: free_space_def slot_offset_def of_nat_diff)
  then show ?thesis using run p' p3' by (auto simp: same_identity_def)
qed

subsection \<open>Construction, clearing and persistence\<close>

lemma recs_empty: "slot_count p = 0 \<Longrightarrow> recs p = [] \<and> slots_ok p"
  by (simp add: recs_def slots_ok_def)

lemma clear_records_ok:
  assumes ok: "page_ok p"
  shows "\<exists>p'. clear_records p = Inr p' \<and> page_ok p' \<and> same_identity p p' \<and> recs p' = [] \<and> free_end p' = psize p"
proof -
  have h: "header_ok p" using ok by (simp add: page_ok_def)
  note hd = header_okD [OF h]
  define p1 where "p1 = with_data 24 (zeros (psize p - 24)) p"
  define p' where "p' = with_fend (psize p) (with_fstart 24 (with_count 0 p1))"
  have p1: "buf_assign 24 (psize p) (zeros (psize p - 24)) p = p1"
    unfolding p1_def using hd(1,2) by (intro buf_assign_eq) simp
  have l1: "length (buf p1) = length (buf p)" using hd(1,2) by (simp add: p1_def page_simps)
  have run: "clear_records p = Inr p'"
    using hd(1-3) p1 l1 by (simp add: clear_records_def Let_def page_simps p'_def)
  have hp: "slot_count p' = 0" "free_start p' = 24" "free_end p' = psize p" "psize p' = psize p"
    "length (buf p') = length (buf p)"
    using hd(1-3) l1 by (simp_all add: p'_def page_simps) (simp add: p1_def page_simps)
  have "same_identity p p'" using hd(1-3) l1
    by (simp add: same_identity_def p'_def page_simps) (simp add: p1_def page_simps data_with_data)
  moreover have "page_ok p'"
    using recs_empty [OF hp(1)] h by (simp add: page_ok_def header_ok_def hp MIN_PAGE_SIZE_def)
  ultimately show ?thesis using run hp recs_empty by blast
qed

lemma page_type_of_code [simp]: "page_type_of (page_type_code t) = Some t"
  by (cases t) (simp_all add: page_type_of_def)

lemma page_type_code_less: "page_type_code t < 256"
  by (cases t) simp_all

lemma create_ok:
  assumes size: "validate_page_size n = Inr ()" and n: "n < 65536"
  shows "\<exists>p. create pid t n = Inr p \<and> page_ok p \<and> recs p = [] \<and> page_id p = pid \<and> psize p = n \<and>
    get_page_type p = Inr t \<and> next_page_id p = INVALID_PAGE_ID \<and> free_space p = int n - 24"
proof -
  have lo: "256 \<le> n" using size by (auto simp: validate_page_size_def MIN_PAGE_SIZE_def split: if_splits)
  define p0 where "p0 = \<lparr>page_id = pid, buf = zeros n, psize = n\<rparr>"
  define p1 where "p1 = with_field 1 OFF_PAGE_TYPE (page_type_code t) p0"
  define p2 where "p2 = with_fend n (with_fstart 24 (with_count 0 p1))"
  define p where "p = with_field 4 OFF_NEXT_PAGE INVALID_PAGE_ID p2"
  note t = page_type_code_less [of t]
  have l: "length (buf p0) = n" "length (buf p1) = n" "length (buf p2) = n" "length (buf p) = n"
    using lo by (simp_all add: p0_def p1_def p2_def p_def page_simps)
  have run: "create pid t n = Inr p"
    using size lo n l(1-3) t
    by (simp add: create_def page_new_def p0_def [symmetric] set_page_type_def set_field_ok p1_def
        page_simps set_next_page_id_def INVALID_PAGE_ID_def p_def p2_def)
  have hp: "slot_count p = 0" "free_start p = 24" "free_end p = n" "psize p = n" "page_id p = pid"
    "next_page_id p = INVALID_PAGE_ID"
    using lo n l by (simp_all add: p_def p2_def p1_def p0_def header_defs get_field_with_field page_simps INVALID_PAGE_ID_def)
  have "get_field 1 OFF_PAGE_TYPE p = page_type_code t"
    using lo n l t by (simp add: p_def p2_def p1_def get_field_with_field page_simps)
  then have "get_page_type p = Inr t" by (simp add: get_page_type_def)
  moreover have "page_ok p"
    using recs_empty [OF hp(1)] lo n by (simp add: page_ok_def header_ok_def hp l MIN_PAGE_SIZE_def)
  ultimately show ?thesis using run hp recs_empty by (auto simp: free_space_def)
qed

lemma update_checksum_ok:
  assumes "24 \<le> length (buf p)"
  shows "update_checksum p = Inr (with_field 4 0 (compute_checksum p) p)"
    "checksum (with_field 4 0 (compute_checksum p) p) = compute_checksum (with_field 4 0 (compute_checksum p) p)"
proof -
  let ?p = "with_field 4 0 (compute_checksum p) p"
  have bound: "compute_checksum p < 256 ^ 4" unfolding compute_checksum_def by (rule crc32_bound)
  then show "update_checksum p = Inr ?p" using assms unfolding update_checksum_def by (intro set_field_ok) auto
  have "drop 4 (buf ?p) = drop 4 (buf p)" using assms by (simp add: with_field_def slice_assign_def)
  then have "compute_checksum ?p = compute_checksum p" by (simp add: compute_checksum_def)
  moreover have "checksum ?p = compute_checksum p"
    unfolding checksum_def using assms bound by (intro get_field_with_field) auto
  ultimately show "checksum ?p = compute_checksum ?p" by simp
qed

section \<open>The slot store interface\<close>

text \<open>
  What the layers above a slotted page rely on: a slot id names one record until that record is
  deleted. \<open>run_ops\<close> is any history of the four operations the heap performs on its pages.
\<close>

datatype page_op = OpInsert bytes | OpDelete nat | OpOverwrite nat bytes | OpCompact

fun touches :: "nat \<Rightarrow> page_op \<Rightarrow> bool" where
  "touches i (OpDelete j) \<longleftrightarrow> i = j"
| "touches i (OpOverwrite j _) \<longleftrightarrow> i = j"
| "touches i _ \<longleftrightarrow> False"

fun run_op ::
  "('p \<Rightarrow> bytes \<Rightarrow> ('p \<times> nat option) res) \<Rightarrow> ('p \<Rightarrow> nat \<Rightarrow> ('p \<times> bool) res) \<Rightarrow>
   ('p \<Rightarrow> nat \<Rightarrow> bytes \<Rightarrow> ('p \<times> bool) res) \<Rightarrow> ('p \<Rightarrow> ('p \<times> int) res) \<Rightarrow> page_op \<Rightarrow> 'p \<Rightarrow> 'p res" where
  "run_op ins del ovw cmp (OpInsert b) p = bind_res (ins p b) (\<lambda>(p', _). Inr p')"
| "run_op ins del ovw cmp (OpDelete i) p = bind_res (del p i) (\<lambda>(p', _). Inr p')"
| "run_op ins del ovw cmp (OpOverwrite i b) p = bind_res (ovw p i b) (\<lambda>(p', _). Inr p')"
| "run_op ins del ovw cmp OpCompact p = bind_res (cmp p) (\<lambda>(p', _). Inr p')"

fun run_ops where
  "run_ops step [] p = Inr p"
| "run_ops step (op # ops) p = bind_res (step op p) (run_ops step ops)"

locale slot_store =
  fixes inv :: "'p \<Rightarrow> bool" and contents :: "'p \<Rightarrow> bytes option list"
    and ins :: "'p \<Rightarrow> bytes \<Rightarrow> ('p \<times> nat option) res"
    and del :: "'p \<Rightarrow> nat \<Rightarrow> ('p \<times> bool) res"
    and ovw :: "'p \<Rightarrow> nat \<Rightarrow> bytes \<Rightarrow> ('p \<times> bool) res"
    and cmp :: "'p \<Rightarrow> ('p \<times> int) res"
  assumes ins_law: "inv p \<Longrightarrow> ins p b = Inr (p', r) \<Longrightarrow> inv p' \<and>
      (case r of None \<Rightarrow> contents p' = contents p
       | Some i \<Rightarrow> spec_read (contents p) i = None \<and> spec_read (contents p') i = Some b \<and>
           (\<forall>j. j \<noteq> i \<longrightarrow> spec_read (contents p') j = spec_read (contents p) j))"
    and del_law: "inv p \<Longrightarrow> del p i = Inr (p', d) \<Longrightarrow> inv p' \<and> spec_read (contents p') i = None \<and>
      (\<forall>j. j \<noteq> i \<longrightarrow> spec_read (contents p') j = spec_read (contents p) j)"
    and ovw_law: "inv p \<Longrightarrow> ovw p i b = Inr (p', d) \<Longrightarrow> inv p' \<and>
      (\<forall>j. j \<noteq> i \<longrightarrow> spec_read (contents p') j = spec_read (contents p) j)"
    and cmp_law: "inv p \<Longrightarrow> cmp p = Inr (p', k) \<Longrightarrow> inv p' \<and>
      (\<forall>j. spec_read (contents p') j = spec_read (contents p) j)"
begin

lemma run_op_stable:
  assumes "inv p" and "run_op ins del ovw cmp op p = Inr p'"
    and "spec_read (contents p) i = Some b" and "\<not> touches i op"
  shows "inv p' \<and> spec_read (contents p') i = Some b"
proof (cases op)
  case (OpInsert c)
  with assms obtain r where ins: "ins p c = Inr (p', r)" by (auto simp: bind_res_Inr)
  with ins_law [OF assms(1) ins] assms(3) show ?thesis
    by (cases r) (auto, metis option.distinct(1))
next
  case (OpDelete j)
  with assms obtain r where "del p j = Inr (p', r)" by (auto simp: bind_res_Inr)
  from del_law [OF assms(1) this] OpDelete assms show ?thesis by auto
next
  case (OpOverwrite j c)
  with assms obtain r where "ovw p j c = Inr (p', r)" by (auto simp: bind_res_Inr)
  from ovw_law [OF assms(1) this] OpOverwrite assms show ?thesis by auto
next
  case OpCompact
  with assms obtain r where "cmp p = Inr (p', r)" by (auto simp: bind_res_Inr)
  from cmp_law [OF assms(1) this] assms show ?thesis by auto
qed

lemma run_ops_stable:
  "inv p \<Longrightarrow> run_ops (run_op ins del ovw cmp) ops p = Inr p' \<Longrightarrow> spec_read (contents p) i = Some b \<Longrightarrow>
   list_all (\<lambda>op. \<not> touches i op) ops \<Longrightarrow> inv p' \<and> spec_read (contents p') i = Some b"
  by (induction ops arbitrary: p) (auto simp: bind_res_Inr dest: run_op_stable)

end

lemma spec_insert_read:
  "spec_insert rs b = (rs', i) \<Longrightarrow> spec_read rs i = None \<and> spec_read rs' i = Some b \<and>
     (\<forall>j. j \<noteq> i \<longrightarrow> spec_read rs' j = spec_read rs j)"
  by (auto simp: spec_insert_def spec_read_def nth_append dest: first_dead_Some split: option.splits)

interpretation page_slots: slot_store page_ok recs insert_rec delete_rec overwrite compact
proof
  fix p b p' r
  assume ok: "page_ok p" and ins: "insert_rec p b = Inr (p', r)"
  then have fits: "int (length b) \<le> max_payload_size p" by (auto simp: insert_rec_def Let_def split: if_splits)
  obtain rs i where "spec_insert (recs p) b = (rs, i)" by fastforce
  with insert_rec_ok [OF ok fits] ins spec_insert_read [of "recs p" b rs i]
  show "page_ok p' \<and>
      (case r of None \<Rightarrow> recs p' = recs p
       | Some i \<Rightarrow> spec_read (recs p) i = None \<and> spec_read (recs p') i = Some b \<and>
           (\<forall>j. j \<noteq> i \<longrightarrow> spec_read (recs p') j = spec_read (recs p) j))"
    by (auto split: if_splits)
next
  fix p i p' d
  assume "page_ok p" and "delete_rec p i = Inr (p', d)"
  with delete_rec_ok [of p i] show "page_ok p' \<and> spec_read (recs p') i = None \<and>
      (\<forall>j. j \<noteq> i \<longrightarrow> spec_read (recs p') j = spec_read (recs p) j)"
    by (auto simp: spec_read_def)
next
  fix p i b p' d
  assume ok: "page_ok p" and ovw: "overwrite p i b = Inr (p', d)"
  show "page_ok p' \<and> (\<forall>j. j \<noteq> i \<longrightarrow> spec_read (recs p') j = spec_read (recs p) j)"
  proof (cases d)
    case False
    then show ?thesis using ok ovw
      by (auto simp: overwrite_def bind_res_Inr split: if_splits prod.splits)
  next
    case True
    have h: "header_ok p" and so: "slots_ok p" using ok by (auto simp: page_ok_def)
    from True ovw h have i: "i < slot_count p" "slot_len p i \<noteq> 0" "length b = slot_len p i"
      by (auto simp: overwrite_def case_prod_beta split: if_splits)
    then have live: "slot_off p i \<noteq> 0" "slot_off p i + slot_len p i \<le> length (buf p)"
      using so h by (auto simp: slots_ok_def header_ok_def)
    then have "spec_read (recs p) i = Some (slice (buf p) (slot_off p i) (slot_len p i))"
      using i by (simp add: spec_read_def rec_at_def)
    from overwrite_ok [OF ok this, of b] i live ovw show ?thesis by (auto simp: spec_read_def)
  qed
next
  fix p p' k
  assume "page_ok p" and "compact p = Inr (p', k)"
  with compact_ok [of p] show "page_ok p' \<and> (\<forall>j. spec_read (recs p') j = spec_read (recs p) j)" by auto
qed

section \<open>Properties\<close>

lemma sample_page:
  "\<exists>p. create 7 HEAP 256 = Inr p \<and> page_ok p \<and> recs p = [] \<and> psize p = 256 \<and> free_space p = 232"
proof -
  have "validate_page_size 256 = Inr ()"
    by (simp add: validate_page_size_def MIN_PAGE_SIZE_def MAX_PAGE_SIZE_def)
  from create_ok [OF this, of 7 HEAP] show ?thesis by auto
qed

lemma free_space_eq: "page_ok p \<Longrightarrow> free_space p = int (free_end p) - 24 - 4 * int (length (recs p))"
  by (simp add: free_space_def page_ok_def header_ok_def slot_offset_def)



text \<open>
  the two lookups agree with the slots: \<open>read\<close> returns the payload of a live slot and
  nothing for a tombstone or an unknown slot, \<open>delete\<close> reports whether the slot was live and
  leaves it dead with every other record kept, and \<open>overwrite\<close> of a live non-empty record by a
  payload of the same length replaces just that record.
\<close>

theorem read_delete_overwrite_refine:
  assumes "page_ok p"
  shows "read_rec p i = Inr (spec_read (recs p) i) \<and>
    (\<exists>p'. delete_rec p i = Inr (p', spec_read (recs p) i \<noteq> None) \<and> page_ok p' \<and> same_identity p p' \<and>
       recs p' = (recs p)[i := None]) \<and>
    (\<forall>old payload. spec_read (recs p) i = Some old \<and> length payload = length old \<and> old \<noteq> [] \<longrightarrow>
       (\<exists>p'. overwrite p i payload = Inr (p', True) \<and> page_ok p' \<and> same_identity p p' \<and>
         recs p' = (recs p)[i := Some payload]))"
proof (intro conjI allI impI)
  show "read_rec p i = Inr (spec_read (recs p) i)" using assms by (simp add: page_ok_def)
  show "\<exists>p'. delete_rec p i = Inr (p', spec_read (recs p) i \<noteq> None) \<and> page_ok p' \<and> same_identity p p' \<and>
      recs p' = (recs p)[i := None]" using delete_rec_ok [OF assms, of i] by blast
  fix old payload :: bytes
  assume "spec_read (recs p) i = Some old \<and> length payload = length old \<and> old \<noteq> []"
  then show "\<exists>p'. overwrite p i payload = Inr (p', True) \<and> page_ok p' \<and> same_identity p p' \<and>
      recs p' = (recs p)[i := Some payload]" using overwrite_ok [OF assms, of i old payload] by auto
qed

theorem read_delete_overwrite_refine_witness:
  "\<exists>p. create 7 HEAP 256 = Inr p \<and> read_rec p 0 = Inr None \<and> (\<exists>p'. delete_rec p 0 = Inr (p', False))"
proof -
  from sample_page obtain p where p: "create 7 HEAP 256 = Inr p" "page_ok p" "recs p = []" by blast
  from read_delete_overwrite_refine [OF p(2), of 0] p show ?thesis by (auto simp: spec_read_def)
qed

text \<open>
  C26: compaction. It never raises on a valid page, keeps every slot id and its payload, drops
  only the tombstones at the tail, leaves the records packed against the end of the page, and
  returns exactly the number of bytes that \<open>reclaimable_space\<close> had announced.
\<close>

theorem compact_refines:
  assumes "page_ok p"
  shows "\<exists>p' r. compact p = Inr (p', r) \<and> page_ok p' \<and> same_identity p p' \<and>
    recs p' = spec_trim (recs p) \<and> (\<forall>i. spec_read (recs p') i = spec_read (recs p) i) \<and>
    free_end p' = psize p - rec_bytes (recs p) \<and>
    r = free_space p' - free_space p \<and> reclaimable_space p = Inr r"
  using compact_ok [OF assms] by fastforce

theorem compact_refines_witness:
  "\<exists>p p'. create 7 HEAP 256 = Inr p \<and> compact p = Inr (p', 0) \<and> recs p' = []"
proof -
  from sample_page obtain p where p: "create 7 HEAP 256 = Inr p" "page_ok p" "recs p = []"
    "psize p = 256" "free_space p = 232" by blast
  from compact_refines [OF p(2)] obtain p' r where c: "compact p = Inr (p', r)" "page_ok p'"
    "recs p' = []" "free_end p' = 256" "r = free_space p' - free_space p"
    using p by (auto simp: spec_trim_def)
  from free_space_eq [OF c(2)] c p show ?thesis by auto
qed

text \<open>
  C27: record ids stay valid. Through any sequence of inserts, deletes, overwrites and
  compactions that does not delete or overwrite slot \<open>i\<close> itself, slot \<open>i\<close> keeps its payload.
\<close>

theorem record_id_stability:
  assumes "page_ok p" and "run_ops (run_op insert_rec delete_rec overwrite compact) ops p = Inr p'"
    and "read_rec p i = Inr (Some b)" and "list_all (\<lambda>op. \<not> touches i op) ops"
  shows "page_ok p' \<and> read_rec p' i = Inr (Some b)"
proof -
  have "spec_read (recs p) i = Some b" using assms(1,3) by (simp add: page_ok_def)
  from page_slots.run_ops_stable [OF assms(1,2) this assms(4)] show ?thesis by (simp add: page_ok_def)
qed

theorem record_id_stability_witness:
  "\<exists>p p' q. create 7 HEAP 256 = Inr p \<and> insert_rec p [5] = Inr (p', Some 0) \<and>
     run_ops (run_op insert_rec delete_rec overwrite compact) [OpDelete 3, OpCompact] p' = Inr q \<and>
     read_rec q 0 = Inr (Some [5])"
proof -
  from sample_page obtain p where p: "create 7 HEAP 256 = Inr p" "page_ok p" "recs p = []" "psize p = 256"
    "free_space p = 232" by blast
  from insert_rec_ok [OF p(2), of "[5]"] p obtain p' where
    p': "insert_rec p [5] = Inr (p', Some 0)" "page_ok p'" "recs p' = [Some [5]]"
    by (auto simp: max_payload_size_def spec_insert_def)
  from delete_rec_ok [OF p'(2), of 3] obtain p2 d where d: "delete_rec p' 3 = Inr (p2, d)" "page_ok p2" by blast
  from compact_ok [OF d(2)] obtain q r where q: "compact p2 = Inr (q, r)" by blast
  have run: "run_ops (run_op insert_rec delete_rec overwrite compact) [OpDelete 3, OpCompact] p' = Inr q"
    using d q by simp
  have "read_rec p' 0 = Inr (Some [5])" using p' by (simp add: page_ok_def spec_read_def)
  from record_id_stability [OF p'(2) run this] p p' run show ?thesis by auto
qed

text \<open>
  the ordered operations of index pages. \<open>insert_at\<close> puts the payload at the given position
  and shifts the later records up by one, or reports that it does not fit; \<open>delete_at\<close> removes
  one position and shifts the later records down; neither loses or reorders another record.
\<close>

theorem ordered_slots_refine:
  assumes "page_ok p" and "int (length payload) \<le> max_payload_size p" and "index \<le> length (recs p)"
  shows "(\<exists>p'. insert_at p index payload = Inr (p', int (length payload + 4) \<le> free_space p) \<and>
      page_ok p' \<and> same_identity p p' \<and>
      recs p' = (if int (length payload + 4) \<le> free_space p
                 then take index (recs p) @ Some payload # drop index (recs p) else recs p)) \<and>
    (\<exists>p'. delete_at p k = Inr (p', k < length (recs p)) \<and> page_ok p' \<and> same_identity p p' \<and>
      recs p' = take k (recs p) @ drop (Suc k) (recs p))"
  using insert_at_ok [OF assms(1,2), of index] delete_at_ok [OF assms(1), of k] assms(3) unfolding length_recs by blast

theorem ordered_slots_refine_witness:
  "\<exists>p p'. create 7 BTREE_LEAF 256 = Inr p \<and> insert_at p 0 [9] = Inr (p', True) \<and> recs p' = [Some [9]]"
proof -
  have "validate_page_size 256 = Inr ()"
    by (simp add: validate_page_size_def MIN_PAGE_SIZE_def MAX_PAGE_SIZE_def)
  from create_ok [OF this, of 7 BTREE_LEAF] obtain p where p: "create 7 BTREE_LEAF 256 = Inr p"
    "page_ok p" "recs p = []" "psize p = 256" "free_space p = 232" by auto
  from ordered_slots_refine [OF p(2), of "[9]" 0 0] p show ?thesis by (auto simp: max_payload_size_def)
qed

text \<open>
  how good the heap's prediction is. After compacting a valid page, an insert succeeds
  exactly when the payload and, unless a tombstone that is not at the tail is left to reuse, a
  slot entry fit in the free and reclaimable bytes; \<open>would_fit_after_compaction\<close> counts no slot
  entry as soon as any tombstone exists, so when all of them are at the tail, where compaction
  drops them, it answers yes for payloads up to four bytes too long.
\<close>

theorem compaction_prediction:
  assumes "page_ok p" and "int (length b) \<le> max_payload_size p"
  shows "\<exists>p' p'' r s. compact p = Inr (p', r) \<and> insert_rec p' b = Inr (p'', s) \<and>
    (s \<noteq> None \<longleftrightarrow>
       int (length b + (if first_dead (spec_trim (recs p)) = None then 4 else 0)) \<le> free_space p + r) \<and>
    would_fit_after_compaction p (length b) =
      Inr (int (length b + (if first_dead (recs p) = None then 4 else 0)) \<le> free_space p + r)"
proof -
  from compact_ok [OF assms(1)] obtain p' r where c: "compact p = Inr (p', r)" "page_ok p'"
    "same_identity p p'" "recs p' = spec_trim (recs p)" "r = free_space p' - free_space p"
    "reclaimable_space p = Inr r" by blast
  have fits: "int (length b) \<le> max_payload_size p'"
    using assms(2) c(3) by (simp add: max_payload_size_def same_identity_def)
  obtain rs i where "spec_insert (recs p') b = (rs, i)" by fastforce
  with insert_rec_ok [OF c(2) fits] c(4,5) obtain p'' s where "insert_rec p' b = Inr (p'', s)"
    "s \<noteq> None \<longleftrightarrow> int (length b + (if first_dead (spec_trim (recs p)) = None then 4 else 0)) \<le> free_space p + r"
    by (auto split: if_splits)
  moreover have "would_fit_after_compaction p (length b) =
      Inr (int (length b + (if first_dead (recs p) = None then 4 else 0)) \<le> free_space p + r)"
    using assms(1) c(6) by (simp add: would_fit_after_compaction_def space_needed_for_def page_ok_def)
  ultimately show ?thesis using c(1) by blast
qed

text \<open>The witness: one live and one trailing dead record on a 256-byte page, and a payload of 126 bytes.\<close>

lemma trailing_tombstone_page:
  "\<exists>p. page_ok p \<and> recs p = [Some (zeros 100), None] \<and> psize p = 256 \<and> free_space p = 24"
proof -
  from sample_page obtain p where p: "page_ok p" "recs p = []" "psize p = 256" "free_space p = 232" by blast
  from insert_rec_ok [OF p(1), of "zeros 100"] p obtain p1 where p1: "page_ok p1" "psize p1 = 256"
    "recs p1 = [Some (zeros 100)]" "free_end p1 = free_end p - 100"
    by (auto simp: max_payload_size_def spec_insert_def same_identity_def)
  have fe1: "free_end p = 256" "free_space p1 = 128"
    using free_space_eq [OF p(1)] free_space_eq [OF p1(1)] p p1 by auto
  from insert_rec_ok [OF p1(1), of "zeros 100"] p1 fe1 obtain p2 where p2: "page_ok p2" "psize p2 = 256"
    "recs p2 = [Some (zeros 100), Some (zeros 100)]" "free_end p2 = 56"
    by (auto simp: max_payload_size_def spec_insert_def same_identity_def)
  from delete_rec_ok [OF p2(1), of 1] p2 obtain q where "page_ok q" "psize q = 256"
    "recs q = [Some (zeros 100), None]" "free_end q = 56" by (auto simp: same_identity_def)
  moreover from this have "free_space q = 24" using free_space_eq [of q] by simp
  ultimately show ?thesis by blast
qed

theorem compaction_prediction_witness:
  "\<exists>p p' p'' r. page_ok p \<and> would_fit_after_compaction p 126 = Inr True \<and>
     compact p = Inr (p', r) \<and> insert_rec p' (zeros 126) = Inr (p'', None)"
proof -
  from trailing_tombstone_page obtain p where p: "page_ok p" "recs p = [Some (zeros 100), None]"
    "psize p = 256" "free_space p = 24" by blast
  have "slot_count p = 2" using arg_cong [OF p(2), of length] by simp
  then have r: "reclaimable_space p = Inr 104"
    using reclaimable_space_ok [OF p(1)] free_space_eq [OF p(1)] p by (simp add: spec_trim_def)
  have "compact p = Inr (p', r) \<Longrightarrow> r = 104" for p' r using compact_ok [OF p(1)] r by auto
  with compaction_prediction [OF p(1), of "zeros 126"] p show ?thesis
    by (fastforce simp: max_payload_size_def spec_trim_def)
qed

text \<open>
  C28: what \<open>to_bytes\<close> writes, \<open>from_bytes\<close> with both checks on reads back: the checksum and the
  header validate, and the page that comes back holds the same records, type and links. The full
  slot walk of \<open>validate\<close> passes on it too.
\<close>

theorem to_bytes_from_bytes:
  assumes "page_ok p"
  shows "\<exists>raw p'. to_bytes p = Inr (raw, p') \<and> length raw = psize p \<and>
    from_bytes (page_id p) raw (psize p) True True = Inr p' \<and>
    page_ok p' \<and> recs p' = recs p \<and> drop 4 (buf p') = drop 4 (buf p) \<and> validate p' = Inr ()"
proof -
  have h: "header_ok p" and so: "slots_ok p" using assms by (auto simp: page_ok_def)
  note hd = header_okD [OF h]
  define q where "q = with_field 4 0 (compute_checksum p) p"
  have run: "to_bytes p = Inr (buf q, q)" using update_checksum_ok(1) [OF hd(1)] by (simp add: to_bytes_def q_def)
  have hq: "slot_count q = slot_count p" "free_start q = free_start p" "free_end q = free_end p"
    "psize q = psize p" "page_id q = page_id p" "length (buf q) = psize p" "slot_at q i = slot_at p i" for i
    using hd(1,2) by (simp_all add: q_def header_defs get_field_with_field page_simps)
  have dq: "slice (buf q) c n = slice (buf p) c n" if "4 \<le> c" for c n
    using that hd(1) by (simp add: q_def page_simps)
  have "rec_at q i = rec_at p i" if "i < slot_count p" for i
    using that so hd(4,5) slot_offset_ge [of "slot_count p"] by (auto simp: rec_at_def hq dq slots_ok_def)
  then have recs: "recs q = recs p" by (simp add: recs_def hq)
  have ok: "page_ok q" using assms recs by (simp add: page_ok_def header_ok_def slots_ok_def hq)
  have "drop 4 (buf q) = drop 4 (buf p)" using hd(1) by (simp add: q_def with_field_def slice_assign_def)
  moreover have "verify_checksum q = Inr ()"
    using update_checksum_ok(2) [OF hd(1)] by (simp add: verify_checksum_def q_def)
  moreover have vh: "validate_header q = Inr ()"
    using hd by (simp add: validate_header_def hq slot_offset_def)
  moreover have "page_new (page_id p) (buf q) (psize p) = Inr q"
    using hq(4-6) by (cases q) (simp add: page_new_def)
  moreover have "validate_slots q is = Inr ()" if "list_all (\<lambda>i. i < slot_count q) is" for "is"
    using that ok by (induction "is") (auto simp: page_ok_def slots_ok_def split: prod.splits)
  then have "validate q = Inr ()" using vh by (simp add: validate_def list_all_iff)
  ultimately show ?thesis using run ok recs hq(6)
    by (intro exI [of _ "buf q"] exI [of _ q]) (simp add: from_bytes_def)
qed

theorem to_bytes_from_bytes_witness:
  "\<exists>p raw p'. create 7 HEAP 256 = Inr p \<and> to_bytes p = Inr (raw, p') \<and> length raw = 256 \<and> recs p' = []"
proof -
  from sample_page obtain p where p: "create 7 HEAP 256 = Inr p" "page_ok p" "recs p = []" "psize p = 256"
    by blast
  from to_bytes_from_bytes [OF p(2)] p show ?thesis by auto
qed

text \<open>
  \<open>Page.create\<close> succeeds on every page size that \<open>validate_page_size\<close> accepts except the
  largest, \<open>MAX_PAGE_SIZE\<close> itself, where the initial \<open>free_end\<close> does not fit its 16-bit field and
  the constructor raises \<open>struct.error\<close>. The new page is valid, empty, of the type asked for, not
  linked to another, and all of it but the header is free.
\<close>

theorem create_empty:
  assumes "validate_page_size n = Inr ()"
  shows "if n = MAX_PAGE_SIZE then create pid t n = Inl StructError
    else \<exists>p. create pid t n = Inr p \<and> page_ok p \<and> recs p = [] \<and> page_id p = pid \<and> psize p = n \<and>
      get_page_type p = Inr t \<and> next_page_id p = INVALID_PAGE_ID \<and> free_space p = int n - 24"
proof (cases "n = MAX_PAGE_SIZE")
  case False
  then have "n < 65536" using assms
    by (auto simp: validate_page_size_def MAX_PAGE_SIZE_def split: if_splits)
  from create_ok [OF assms this] False show ?thesis by simp
next
  case True
  define p0 where "p0 = \<lparr>page_id = pid, buf = zeros n, psize = n\<rparr>"
  define p1 where "p1 = with_field 1 OFF_PAGE_TYPE (page_type_code t) p0"
  have l: "length (buf p0) = 65536" "length (buf p1) = 65536"
    using True by (simp_all add: p0_def p1_def MAX_PAGE_SIZE_def page_simps)
  have "page_new pid (zeros n) n = Inr p0" by (simp add: page_new_def p0_def)
  moreover have "set_page_type t p0 = Inr p1"
    using l page_type_code_less [of t] by (simp add: set_page_type_def set_field_ok p1_def)
  moreover have "set_free_end n q = Inl StructError" for q
    using True by (simp add: set_free_end_def set_field_def pack_into_def MAX_PAGE_SIZE_def)
  ultimately show ?thesis using True assms l by (simp add: create_def page_simps)
qed

theorem create_empty_witness:
  "validate_page_size 65536 = Inr () \<and> create 3 HEAP 65536 = Inl StructError"
proof -
  have v: "validate_page_size 65536 = Inr ()"
    by (simp add: validate_page_size_def MIN_PAGE_SIZE_def MAX_PAGE_SIZE_def)
  from create_empty [OF v, of 3 HEAP] v show ?thesis by (simp add: MAX_PAGE_SIZE_def)
qed

lemma stamp_lsn_ok:
  assumes "24 \<le> length raw" and "l < 2 ^ 64"
  shows "\<exists>raw'. stamp_lsn raw l = Inr raw' \<and> length raw' = length raw \<and> read_lsn raw' = l \<and>
    le_nat (slice raw' 0 4) = crc32 (drop 4 raw') \<and> drop 12 raw' = drop 12 raw"
proof -
  define b where "b = slice_assign raw 4 12 (le_bytes 8 l)"
  define c where "c = crc32 (drop 4 b)"
  define r where "r = slice_assign b 0 4 (le_bytes 4 c)"
  have lb: "length b = length raw" "length r = length raw" using assms(1) by (simp_all add: b_def r_def)
  have c: "c < 256 ^ 4" unfolding c_def by (rule crc32_bound)
  have run: "stamp_lsn raw l = Inr r"
    using assms lb c by (simp add: stamp_lsn_def pack_into_def b_def [symmetric] c_def [symmetric] r_def)
  have "slice r 4 8 = le_bytes 8 l" using assms lb
    by (simp add: r_def slice_put_other) (simp add: b_def slice_put_same)
  moreover have "drop 4 r = drop 4 b" using assms lb by (simp add: r_def slice_assign_def)
  moreover have "slice r 0 4 = le_bytes 4 c" using assms lb by (simp add: r_def slice_put_same)
  moreover have "drop 12 r = drop 12 raw" using assms(1) by (simp add: r_def b_def slice_assign_def)
  ultimately show ?thesis using run lb assms c by (auto simp: read_lsn_def c_def)
qed

text \<open>
  Stamping an encoded page with an LSN. \<open>read_lsn\<close> reads the stamp back, the checksum is the
  one of the stamped bytes, and everything past the LSN field is unchanged.
\<close>

theorem stamp_lsn_laws:
  assumes "24 \<le> length raw" and "l < 2 ^ 64"
  shows "\<exists>raw'. stamp_lsn raw l = Inr raw' \<and> length raw' = length raw \<and> read_lsn raw' = l \<and>
    le_nat (slice raw' 0 4) = crc32 (drop 4 raw') \<and> drop 12 raw' = drop 12 raw"
  by (rule stamp_lsn_ok [OF assms])

theorem stamp_lsn_laws_witness:
  "\<exists>raw'. stamp_lsn (zeros 256) 5000 = Inr raw' \<and> read_lsn raw' = 5000"
  using stamp_lsn_laws [of "zeros 256" 5000] by auto

end
