(* ===== verification/Snapshot.thy ===== *)
theory Snapshot
  imports RowRecord
begin

text \<open>
  Snapshots and row visibility (\<open>engine/concurrency/snapshot.py\<close>) and the dead-version test
  of vacuum (\<open>_is_dead\<close> in \<open>engine/database.py\<close>). Transaction ids are naturals, 0 meaning no
  transaction; a snapshot's active set is a finite set of ids. \<open>VisibilityStats\<close> is the
  counting variant of \<open>visible\<close>.
\<close>

datatype isolation_level = READ_COMMITTED | REPEATABLE_READ

definition per_statement :: "isolation_level \<Rightarrow> bool" where
  "per_statement l \<longleftrightarrow> l = READ_COMMITTED"

definition DEFAULT_ISOLATION :: isolation_level where "DEFAULT_ISOLATION = READ_COMMITTED"

record snapshot =
  s_xmin :: nat
  s_xmax :: nat
  s_active :: "nat set"
  s_frozen_xid :: nat
  s_owner :: nat

definition take_snapshot :: "nat \<Rightarrow> nat set \<Rightarrow> nat \<Rightarrow> nat \<Rightarrow> snapshot" where
  "take_snapshot next_xid running frozen owner =
     \<lparr>s_xmin = (if running \<noteq> {} then Min running else next_xid), s_xmax = next_xid,
      s_active = running, s_frozen_xid = frozen, s_owner = owner\<rparr>"

definition sees :: "snapshot \<Rightarrow> nat \<Rightarrow> bool" where
  "sees s xid \<longleftrightarrow>
     (if xid = NO_TRANSACTION_ID then False
      else if xid = s_owner s then True
      else if xid < s_frozen_xid s then True
      else if xid \<ge> s_xmax s then False
      else xid \<notin> s_active s)"

definition visible :: "tuple_header \<Rightarrow> snapshot \<Rightarrow> bool" where
  "visible h s \<longleftrightarrow> (if \<not> sees s (th_xmin h) then False else \<not> sees s (th_xmax h))"

record visibility_stats =
  checked :: nat
  returned :: nat
  skipped_invisible :: nat
  skipped_deleted :: nat
  dead_rows :: nat

definition note_visible :: "visibility_stats \<Rightarrow> tuple_header \<Rightarrow> snapshot \<Rightarrow> visibility_stats \<times> bool" where
  "note_visible st h s =
     (let st = st\<lparr>checked := checked st + 1\<rparr>
      in if \<not> sees s (th_xmin h) then (st\<lparr>skipped_invisible := skipped_invisible st + 1\<rparr>, False)
         else if sees s (th_xmax h) then (st\<lparr>skipped_deleted := skipped_deleted st + 1\<rparr>, False)
         else (st\<lparr>returned := returned st + 1\<rparr>, True))"

definition is_dead :: "tuple_header \<Rightarrow> nat \<Rightarrow> bool" where
  "is_dead h horizon \<longleftrightarrow> th_deleted h \<and> th_xmax h < horizon"

section \<open>Lemmas\<close>

lemma sees_simps [simp]:
  "\<not> sees s 0" "s_owner s \<noteq> 0 \<Longrightarrow> sees s (s_owner s)"
  by (simp_all add: sees_def NO_TRANSACTION_ID_def)

lemma sees_taken:
  "sees (take_snapshot n R f owner) x \<longleftrightarrow>
     x \<noteq> 0 \<and> (x = owner \<or> x < f \<or> x < n \<and> x \<notin> R)"
  by (auto simp: sees_def take_snapshot_def NO_TRANSACTION_ID_def)

text \<open>A snapshot whose \<open>xmin\<close> is above an id has seen that id finish.\<close>

lemma sees_below_xmin:
  assumes "finite R" and "R \<subseteq> {..<n}" and "x \<noteq> 0" and "x < s_xmin (take_snapshot n R f owner)"
  shows "sees (take_snapshot n R f owner) x"
proof (cases "R = {}")
  case False
  then have "x < Min R" using assms(4) by (simp add: take_snapshot_def)
  moreover have "Min R < n" using Min_in [OF assms(1) False] assms(2) by blast
  ultimately have "x < n" "x \<notin> R" using assms(1) by (auto dest: Min_le leD)
  then show ?thesis using assms(3) by (simp add: sees_taken)
qed (use assms in \<open>simp add: sees_taken\<close>, simp add: take_snapshot_def)

lemma note_visible_visible [simp]: "snd (note_visible st h s) = visible h s"
  by (simp add: note_visible_def visible_def Let_def)

end
