(* ===== verification/Undo.thy ===== *)
theory Undo
  imports Base
begin

text \<open>
  The undo log of one transaction (\<open>engine/transaction/undo.py\<close>): whole-page before-images,
  the first one of each page only, up to \<open>MAX_UNDO_BYTES\<close>. Pages live in a store, a function
  from page ids to bytes, which stands for what \<open>apply\<close> writes to and \<open>current\<close> reads from.
\<close>

definition MAX_UNDO_BYTES :: nat where "MAX_UNDO_BYTES = 64 * 1024 * 1024"

record undo_record =
  sequence :: nat
  ur_page_id :: nat
  before_image :: bytes
  reason :: string

record undo_log =
  u_records :: "undo_record list"
  captured :: "nat set"
  u_bytes :: nat
  overflowed :: bool

definition undo_new :: undo_log where
  "undo_new = \<lparr>u_records = [], captured = {}, u_bytes = 0, overflowed = False\<rparr>"

definition undo_has :: "undo_log \<Rightarrow> nat \<Rightarrow> bool" where
  "undo_has u pid \<longleftrightarrow> pid \<in> captured u"

definition capture :: "undo_log \<Rightarrow> nat \<Rightarrow> bytes \<Rightarrow> string \<Rightarrow> undo_log \<times> bool" where
  "capture u pid img why =
     (if pid \<in> captured u then (u, False)
      else
        let u = u\<lparr>captured := insert pid (captured u)\<rparr>
        in if u_bytes u + length img > MAX_UNDO_BYTES then (u\<lparr>overflowed := True\<rparr>, False)
           else (u\<lparr>u_records := u_records u @
                     [\<lparr>sequence = length (u_records u), ur_page_id = pid, before_image = img, reason = why\<rparr>],
                   u_bytes := u_bytes u + length img\<rparr>, True))"

definition rewind :: "undo_log \<Rightarrow> undo_record list" where
  "rewind u = rev (u_records u)"

definition page_count :: "undo_log \<Rightarrow> nat" where
  "page_count u = length (u_records u)"

definition bytes_held :: "undo_log \<Rightarrow> nat" where
  "bytes_held u = u_bytes u"

definition undo_clear :: "undo_log \<Rightarrow> undo_log" where
  "undo_clear u = u\<lparr>u_records := [], captured := {}, u_bytes := 0, overflowed := False\<rparr>"

section \<open>The invariant\<close>

type_synonym pages = "nat \<Rightarrow> bytes"

definition undo_ok :: "undo_log \<Rightarrow> bool" where
  "undo_ok u \<longleftrightarrow>
     distinct (map ur_page_id (u_records u)) \<and>
     map sequence (u_records u) = [0..<length (u_records u)] \<and>
     ur_page_id ` set (u_records u) \<subseteq> captured u \<and>
     (\<not> overflowed u \<longrightarrow> ur_page_id ` set (u_records u) = captured u) \<and>
     u_bytes u = sum_list (map (\<lambda>r. length (before_image r)) (u_records u)) \<and>
     u_bytes u \<le> MAX_UNDO_BYTES"

lemma undo_ok_new [simp]: "undo_ok undo_new"
  by (simp add: undo_ok_def undo_new_def)

lemma undo_ok_clear [simp]: "undo_ok (undo_clear u)"
  by (simp add: undo_ok_def undo_clear_def)

lemma capture_ok: "undo_ok u \<Longrightarrow> undo_ok (fst (capture u pid img why))"
  by (auto simp: undo_ok_def capture_def Let_def)

lemma capture_captured: "captured (fst (capture u pid img why)) = insert pid (captured u)"
  by (auto simp: capture_def Let_def)

lemma capture_overflow_mono: "overflowed u \<Longrightarrow> overflowed (fst (capture u pid img why))"
  by (auto simp: capture_def Let_def)

section \<open>Writing through the hook, and rewinding\<close>

text \<open>One page write of a transaction, \<open>(page, new bytes)\<close>: capture the current image, then write.\<close>

definition logged_write :: "nat \<times> bytes \<Rightarrow> undo_log \<times> pages \<Rightarrow> undo_log \<times> pages" where
  "logged_write w s =
     (case w of (pid, new) \<Rightarrow> case s of (u, pg) \<Rightarrow> (fst (capture u pid (pg pid) ''''), pg(pid := new)))"

definition restore :: "undo_record list \<Rightarrow> pages \<Rightarrow> pages" where
  "restore rs pg = fold (\<lambda>r pg. pg(ur_page_id r := before_image r)) rs pg"

text \<open>The records of \<open>u\<close> hold the images of \<open>pg0\<close>, and only captured pages differ from \<open>pg0\<close>.\<close>

definition undo_covers :: "pages \<Rightarrow> undo_log \<Rightarrow> pages \<Rightarrow> bool" where
  "undo_covers pg0 u pg \<longleftrightarrow> undo_ok u \<and>
     (\<forall>r \<in> set (u_records u). before_image r = pg0 (ur_page_id r)) \<and>
     (\<forall>pid. pid \<notin> captured u \<longrightarrow> pg pid = pg0 pid)"

lemma undo_covers_write:
  "undo_covers pg0 u pg \<Longrightarrow> logged_write w (u, pg) = (u', pg') \<Longrightarrow> undo_covers pg0 u' pg'"
proof -
  assume c: "undo_covers pg0 u pg" and w: "logged_write w (u, pg) = (u', pg')"
  obtain pid new where "w = (pid, new)" by (cases w)
  with w have u': "u' = fst (capture u pid (pg pid) '''')" and pg': "pg' = pg(pid := new)"
    by (auto simp: logged_write_def)
  have "undo_ok u'" using c by (simp add: undo_covers_def u' capture_ok)
  moreover have "captured u' = insert pid (captured u)" by (simp add: u' capture_captured)
  moreover have "\<forall>r \<in> set (u_records u'). before_image r = pg0 (ur_page_id r)"
    using c by (auto simp: undo_covers_def u' capture_def Let_def)
  ultimately show ?thesis using c by (auto simp: undo_covers_def pg')
qed

lemma restore_notin: "pid \<notin> ur_page_id ` set rs \<Longrightarrow> restore rs pg pid = pg pid"
  unfolding restore_def by (induction rs arbitrary: pg) auto

lemma restore_in:
  "distinct (map ur_page_id rs) \<Longrightarrow> r \<in> set rs \<Longrightarrow> restore rs pg (ur_page_id r) = before_image r"
proof (induction rs arbitrary: pg)
  case (Cons q rs)
  then show ?case
    using restore_notin [of "ur_page_id q" rs] by (cases "r \<in> set rs") (auto simp: restore_def)
qed simp

lemma restore_covered:
  assumes "undo_covers pg0 u pg" and "\<not> overflowed u"
  shows "restore (rewind u) pg = pg0"
proof
  fix pid
  have d: "distinct (map ur_page_id (rewind u))" and cov: "ur_page_id ` set (rewind u) = captured u"
    using assms by (auto simp: undo_covers_def undo_ok_def rewind_def rev_map [symmetric])
  show "restore (rewind u) pg pid = pg0 pid"
  proof (cases "pid \<in> captured u")
    case True
    then obtain r where "r \<in> set (rewind u)" "pid = ur_page_id r" unfolding cov [symmetric] by blast
    with restore_in [OF d] assms(1) show ?thesis by (auto simp: undo_covers_def rewind_def)
  next
    case False
    with restore_notin [of pid "rewind u"] cov assms(1) show ?thesis by (simp add: undo_covers_def)
  qed
qed

section \<open>Properties\<close>

text \<open>
  whatever a transaction writes, in any order and however often, as long as its log has not
  overflowed, writing the before-images back newest first gives every page its original bytes.
  The log holds at most one image per page it wrote and never more than \<open>MAX_UNDO_BYTES\<close>.
\<close>

theorem rewind_restores:
  assumes "fold logged_write ws (undo_new, pg0) = (u, pg)"
  shows "(\<not> overflowed u \<longrightarrow> restore (rewind u) pg = pg0) \<and>
    captured u = fst ` set ws \<and> page_count u \<le> card (fst ` set ws) \<and>
    bytes_held u = sum_list (map (\<lambda>r. length (before_image r)) (u_records u)) \<and> bytes_held u \<le> MAX_UNDO_BYTES"
proof -
  have "undo_covers pg0 u' pg' \<and> captured u' = captured u0 \<union> fst ` set ws"
    if "undo_covers pg0 u0 pg1" "fold logged_write ws (u0, pg1) = (u', pg')" for u0 pg1 u' pg' ws
    using that
  proof (induction ws arbitrary: u0 pg1)
    case (Cons w ws)
    obtain u1 pg2 where w: "logged_write w (u0, pg1) = (u1, pg2)" by fastforce
    then have "captured u1 = insert (fst w) (captured u0)"
      by (cases w) (auto simp: logged_write_def capture_captured)
    with Cons.IH [OF undo_covers_write [OF Cons.prems(1) w]] Cons.prems(2) w show ?case by auto
  qed auto
  moreover have "undo_covers pg0 undo_new pg0" by (simp add: undo_covers_def) (simp add: undo_new_def)
  ultimately have cov: "undo_covers pg0 u pg" and "captured u = captured undo_new \<union> fst ` set ws"
    using assms by blast+
  then have cap: "captured u = fst ` set ws" by (simp add: undo_new_def)
  have ok: "undo_ok u" using cov by (simp add: undo_covers_def)
  have "page_count u = card (ur_page_id ` set (u_records u))"
    using ok distinct_card [of "map ur_page_id (u_records u)"] by (simp add: undo_ok_def page_count_def)
  also have "\<dots> \<le> card (captured u)" using ok by (intro card_mono) (auto simp: cap undo_ok_def)
  finally show ?thesis using restore_covered [OF cov] ok cap by (simp add: undo_ok_def bytes_held_def)
qed

theorem rewind_restores_witness:
  "(let (u, pg) = fold logged_write [(4, [1]), (9, [2]), (4, [3])] (undo_new, \<lambda>_. [7])
    in pg 4 = [3] \<and> page_count u = 2 \<and> restore (rewind u) pg = (\<lambda>_. [7]))"
proof -
  obtain u pg where run: "fold logged_write [(4, [1]), (9, [2]), (4, [3])] (undo_new, \<lambda>_. [7]) = (u, pg)"
    by fastforce
  then have "\<not> overflowed u" "pg 4 = [3]" "page_count u = 2"
    by (auto simp: logged_write_def capture_def undo_new_def MAX_UNDO_BYTES_def page_count_def Let_def)
  with rewind_restores [OF run] run show ?thesis by simp
qed

end
