(* ===== verification/Transaction.thy ===== *)
theory Transaction
  imports Snapshot Undo "HOL-Library.AList"
begin

text \<open>
  The transaction manager (\<open>engine/transaction/manager.py\<close>), the write intent it hands to the
  pager (\<open>engine/storage/pager.py\<close>), and the snapshot a session reads through
  (\<open>Database.snapshot\<close>). The code keeps every open \<open>Transaction\<close> object in two dictionaries, by
  session and by id; here \<open>running\<close> holds the objects and \<open>by_session\<close> refers to them by id, so
  that a change made through either is seen through both. Dictionaries are association lists in
  insertion order. Clock readings and tracer events are left out. \<open>do_action\<close> is one call of a
  session on the manager and the pages it governs; histories interleave the sessions freely.
\<close>

section \<open>Transactions\<close>

datatype transaction_state = ACTIVE | FAILED | COMMITTED | ABORTED

definition is_open :: "transaction_state \<Rightarrow> bool" where
  "is_open s \<longleftrightarrow> s = ACTIVE \<or> s = FAILED"

definition is_finished :: "transaction_state \<Rightarrow> bool" where
  "is_finished s \<longleftrightarrow> \<not> is_open s"

record transaction =
  transaction_id :: nat
  implicit :: bool
  session :: string
  isolation :: isolation_level
  t_snapshot :: "snapshot option"
  snapshots_taken :: nat
  rows_created :: nat
  rows_deleted :: nat
  locks_held :: nat
  undo :: undo_log
  t_state :: transaction_state
  statements :: nat
  pages_written :: nat
  pages_restored :: nat

definition transaction_new :: "nat \<Rightarrow> bool \<Rightarrow> string \<Rightarrow> isolation_level \<Rightarrow> transaction" where
  "transaction_new xid impl s level =
     \<lparr>transaction_id = xid, implicit = impl, session = s, isolation = level, t_snapshot = None,
      snapshots_taken = 0, rows_created = 0, rows_deleted = 0, locks_held = 0, undo = undo_new,
      t_state = ACTIVE, statements = 0, pages_written = 0, pages_restored = 0\<rparr>"

definition pages_held :: "transaction \<Rightarrow> nat" where
  "pages_held t = page_count (undo t)"

record write_intent =
  wi_transaction_id :: nat
  wi_before_image :: "bytes option"

section \<open>The manager\<close>

definition HISTORY_LIMIT :: nat where "HISTORY_LIMIT = 50"

record txn_manager =
  by_session :: "(string \<times> nat) list"
  running :: "(nat \<times> transaction) list"
  history :: "transaction list"
  next_id :: nat
  frozen_xid :: nat

definition manager_new :: "nat \<Rightarrow> txn_manager" where
  "manager_new frozen =
     \<lparr>by_session = [], running = [], history = [], next_id = max frozen 1, frozen_xid = frozen\<rparr>"

definition running_ids :: "txn_manager \<Rightarrow> nat set" where
  "running_ids m = set (map fst (running m))"

definition active_in :: "txn_manager \<Rightarrow> string \<Rightarrow> transaction option" where
  "active_in m s = (case map_of (by_session m) s of None \<Rightarrow> None | Some xid \<Rightarrow> map_of (running m) xid)"

definition in_transaction_in :: "txn_manager \<Rightarrow> string \<Rightarrow> bool" where
  "in_transaction_in m s \<longleftrightarrow> active_in m s \<noteq> None"

definition any_open :: "txn_manager \<Rightarrow> bool" where
  "any_open m \<longleftrightarrow> running m \<noteq> []"

text \<open>An assignment to fields of an open transaction object.\<close>

definition set_txn :: "transaction \<Rightarrow> txn_manager \<Rightarrow> txn_manager" where
  "set_txn t m = m\<lparr>running := AList.update (transaction_id t) t (running m)\<rparr>"

definition begin_txn :: "txn_manager \<Rightarrow> bool \<Rightarrow> string \<Rightarrow> isolation_level \<Rightarrow> (nat \<times> txn_manager) res" where
  "begin_txn m impl s level =
     (case active_in m s of
        Some existing \<Rightarrow>
          if impl then Inr (transaction_id existing, m)
          else if \<not> implicit existing then Inl TransactionError
          else Inr (transaction_id existing, set_txn (existing\<lparr>implicit := False\<rparr>) m)
      | None \<Rightarrow>
          let t = transaction_new (next_id m) impl s level
          in Inr (transaction_id t,
                  m\<lparr>next_id := next_id m + 1,
                    by_session := AList.update s (transaction_id t) (by_session m),
                    running := AList.update (transaction_id t) t (running m)\<rparr>))"

definition snapshot_for :: "txn_manager \<Rightarrow> transaction \<Rightarrow> snapshot \<times> transaction" where
  "snapshot_for m t =
     (case t_snapshot t of
        Some s \<Rightarrow> if \<not> per_statement (isolation t) then (s, t)
          else let s = take_snapshot (next_id m) (running_ids m) (frozen_xid m) (transaction_id t)
               in (s, t\<lparr>t_snapshot := Some s, snapshots_taken := snapshots_taken t + 1\<rparr>)
      | None \<Rightarrow>
          let s = take_snapshot (next_id m) (running_ids m) (frozen_xid m) (transaction_id t)
          in (s, t\<lparr>t_snapshot := Some s, snapshots_taken := snapshots_taken t + 1\<rparr>))"

definition database_snapshot :: "txn_manager \<Rightarrow> string \<Rightarrow> snapshot \<times> txn_manager" where
  "database_snapshot m s =
     (case active_in m s of
        None \<Rightarrow> (take_snapshot (next_id m) (running_ids m) (frozen_xid m) NO_TRANSACTION_ID, m)
      | Some t \<Rightarrow> let (snap, t') = snapshot_for m t in (snap, set_txn t' m))"

definition oldest_snapshot_xmin :: "txn_manager \<Rightarrow> nat" where
  "oldest_snapshot_xmin m =
     (let live = List.map_filter (\<lambda>(_, t). map_option s_xmin (t_snapshot t)) (running m)
      in if live \<noteq> [] then Min (set live) else next_id m)"

definition mark_failed :: "txn_manager \<Rightarrow> string \<Rightarrow> txn_manager" where
  "mark_failed m s =
     (case active_in m s of
        Some t \<Rightarrow> if t_state t = ACTIVE then set_txn (t\<lparr>t_state := FAILED\<rparr>) m else m
      | None \<Rightarrow> m)"

definition is_failed_in :: "txn_manager \<Rightarrow> string \<Rightarrow> bool" where
  "is_failed_in m s \<longleftrightarrow> (case active_in m s of Some t \<Rightarrow> t_state t = FAILED | None \<Rightarrow> False)"

definition require_active :: "txn_manager \<Rightarrow> string \<Rightarrow> transaction res" where
  "require_active m s = (case active_in m s of None \<Rightarrow> Inl TransactionError | Some t \<Rightarrow> Inr t)"

definition retire :: "transaction \<Rightarrow> txn_manager \<Rightarrow> txn_manager" where
  "retire t m =
     (let h = history m @ [t]
      in m\<lparr>by_session := AList.delete (session t) (by_session m),
           running := AList.delete (transaction_id t) (running m),
           history := (if length h > HISTORY_LIMIT then drop (length h - HISTORY_LIMIT) h else h)\<rparr>)"

definition commit :: "txn_manager \<Rightarrow> string \<Rightarrow> (transaction \<times> txn_manager) res" where
  "commit m s =
     bind_res (require_active m s) (\<lambda>t.
       if t_state t = FAILED then Inl TransactionError
       else let t' = t\<lparr>t_state := COMMITTED, undo := undo_clear (undo t)\<rparr>
            in Inr (t', retire t' m))"

fun apply_images :: "(nat \<Rightarrow> bytes \<Rightarrow> 'st \<Rightarrow> 'st res) \<Rightarrow> undo_record list \<Rightarrow> 'st \<Rightarrow> 'st res" where
  "apply_images app [] st = Inr st"
| "apply_images app (r # rs) st =
     bind_res (app (ur_page_id r) (before_image r) st) (apply_images app rs)"

definition rollback ::
  "(nat \<Rightarrow> bytes \<Rightarrow> 'st \<Rightarrow> 'st res) \<Rightarrow> txn_manager \<Rightarrow> string \<Rightarrow> 'st \<Rightarrow> (transaction \<times> txn_manager \<times> 'st) res" where
  "rollback app m s st =
     bind_res (require_active m s) (\<lambda>t.
     bind_res (apply_images app (rewind (undo t)) st) (\<lambda>st'.
       let t' = t\<lparr>t_state := ABORTED, pages_restored := length (rewind (undo t)), undo := undo_clear (undo t)\<rparr>
       in Inr (t', retire t' m, st')))"

definition before_write ::
  "txn_manager \<Rightarrow> nat \<Rightarrow> bytes \<Rightarrow> string \<Rightarrow> string \<Rightarrow> write_intent option \<times> txn_manager" where
  "before_write m pid current why s =
     (case active_in m s of
        None \<Rightarrow> (None, m)
      | Some t \<Rightarrow>
          let t1 = t\<lparr>pages_written := pages_written t + 1\<rparr>
          in if undo_has (undo t) pid
             then (Some \<lparr>wi_transaction_id = transaction_id t, wi_before_image = None\<rparr>, set_txn t1 m)
             else let t2 = t1\<lparr>undo := fst (capture (undo t1) pid current why)\<rparr>
                  in (Some \<lparr>wi_transaction_id = transaction_id t, wi_before_image = Some current\<rparr>, set_txn t2 m))"

definition note_statement :: "txn_manager \<Rightarrow> string \<Rightarrow> txn_manager" where
  "note_statement m s =
     (case active_in m s of None \<Rightarrow> m | Some t \<Rightarrow> set_txn (t\<lparr>statements := statements t + 1\<rparr>) m)"

text \<open>
  \<open>Database.checkpoint\<close>, as far as transactions go: refused while any is open, and then every id
  handed out so far is frozen.
\<close>

definition checkpoint_txns :: "txn_manager \<Rightarrow> txn_manager res" where
  "checkpoint_txns m =
     (if any_open m then Inl TransactionError else Inr (m\<lparr>frozen_xid := next_id m\<rparr>))"

section \<open>Histories\<close>

text \<open>
  \<open>AWrite\<close> is a page write that goes through the pager's hook: the current bytes are offered to
  \<open>before_write\<close>, then the page gets its new bytes. \<open>ARollback\<close> writes the images back with
  \<open>put_page\<close>, as \<open>Database.rollback\<close> does for a transaction whose log has not overflowed.
\<close>

datatype action =
    ABegin bool string isolation_level
  | ARead string
  | AWrite string nat bytes
  | AFail string
  | AStatement string
  | ACommit string
  | ARollback string
  | ACheckpoint

definition put_page :: "nat \<Rightarrow> bytes \<Rightarrow> pages \<Rightarrow> pages res" where
  "put_page pid img pg = Inr (pg(pid := img))"

fun do_action :: "action \<Rightarrow> txn_manager \<times> pages \<Rightarrow> (txn_manager \<times> pages) res" where
  "do_action (ABegin impl s level) (m, pg) = bind_res (begin_txn m impl s level) (\<lambda>(_, m'). Inr (m', pg))"
| "do_action (ARead s) (m, pg) = Inr (snd (database_snapshot m s), pg)"
| "do_action (AWrite s pid new) (m, pg) = Inr (snd (before_write m pid (pg pid) '''' s), pg(pid := new))"
| "do_action (AFail s) (m, pg) = Inr (mark_failed m s, pg)"
| "do_action (AStatement s) (m, pg) = Inr (note_statement m s, pg)"
| "do_action (ACommit s) (m, pg) = bind_res (commit m s) (\<lambda>(_, m'). Inr (m', pg))"
| "do_action (ARollback s) (m, pg) = bind_res (rollback put_page m s pg) (\<lambda>(_, m', pg'). Inr (m', pg'))"
| "do_action ACheckpoint (m, pg) = bind_res (checkpoint_txns m) (\<lambda>m'. Inr (m', pg))"

fun do_actions :: "action list \<Rightarrow> txn_manager \<times> pages \<Rightarrow> (txn_manager \<times> pages) res" where
  "do_actions [] st = Inr st"
| "do_actions (a # as) st = bind_res (do_action a st) (do_actions as)"

inductive reachable :: "txn_manager \<times> pages \<Rightarrow> bool" where
  start: "reachable (manager_new frozen, pg)"
| step: "reachable st \<Longrightarrow> do_action a st = Inr st' \<Longrightarrow> reachable st'"

section \<open>The invariant\<close>

text \<open>
  A snapshot an open transaction holds: its owner was running when it was taken, and every id
  below its \<open>xmax\<close> that was not running then has finished for good.
\<close>

definition snapshot_ok :: "txn_manager \<Rightarrow> nat \<Rightarrow> snapshot \<Rightarrow> bool" where
  "snapshot_ok m owner s \<longleftrightarrow> s_owner s = owner \<and> finite (s_active s) \<and> owner \<in> s_active s \<and>
     s_active s \<subseteq> {..<s_xmax s} \<and> s_xmax s \<le> next_id m \<and> s_xmin s = Min (s_active s) \<and>
     s_frozen_xid s \<le> s_xmin s \<and> (\<forall>x < s_xmax s. x \<notin> s_active s \<longrightarrow> x \<notin> running_ids m)"

definition txn_ok :: "txn_manager \<Rightarrow> transaction \<Rightarrow> bool" where
  "txn_ok m t \<longleftrightarrow> is_open (t_state t) \<and> undo_ok (undo t) \<and>
     1 \<le> transaction_id t \<and> frozen_xid m \<le> transaction_id t \<and> transaction_id t < next_id m \<and>
     (case t_snapshot t of None \<Rightarrow> True | Some s \<Rightarrow> snapshot_ok m (transaction_id t) s)"

text \<open>The two dictionaries as maps.\<close>

definition txn_of :: "txn_manager \<Rightarrow> nat \<Rightarrow> transaction option" where
  "txn_of m = map_of (running m)"

definition session_xid :: "txn_manager \<Rightarrow> string \<Rightarrow> nat option" where
  "session_xid m = map_of (by_session m)"

definition mgr_ok :: "txn_manager \<Rightarrow> bool" where
  "mgr_ok m \<longleftrightarrow> 1 \<le> next_id m \<and> frozen_xid m \<le> next_id m \<and>
     (\<forall>s xid. session_xid m s = Some xid \<longleftrightarrow> (\<exists>t. txn_of m xid = Some t \<and> session t = s)) \<and>
     (\<forall>xid t. txn_of m xid = Some t \<longrightarrow> transaction_id t = xid \<and> txn_ok m t) \<and>
     (\<forall>t \<in> set (history m). is_finished (t_state t) \<and> transaction_id t < next_id m \<and>
        transaction_id t \<notin> running_ids m) \<and>
     distinct (map transaction_id (history m)) \<and> length (history m) \<le> HISTORY_LIMIT"

lemma running_ids_txn_of: "running_ids m = dom (txn_of m)"
  by (auto simp: running_ids_def txn_of_def dom_map_of_conv_image_fst)

lemma finite_running_ids [simp]: "finite (running_ids m)"
  by (simp add: running_ids_def)

lemma active_in_alt: "active_in m s = (case session_xid m s of None \<Rightarrow> None | Some xid \<Rightarrow> txn_of m xid)"
  unfolding active_in_def session_xid_def txn_of_def ..

lemma mgr_okI:
  assumes "1 \<le> next_id m" and "frozen_xid m \<le> next_id m"
    and "\<And>s xid. session_xid m s = Some xid \<longleftrightarrow> (\<exists>t. txn_of m xid = Some t \<and> session t = s)"
    and "\<And>xid t. txn_of m xid = Some t \<Longrightarrow> transaction_id t = xid \<and> txn_ok m t"
    and "\<And>t. t \<in> set (history m) \<Longrightarrow> is_finished (t_state t) \<and> transaction_id t < next_id m \<and>
        transaction_id t \<notin> running_ids m"
    and "distinct (map transaction_id (history m))" and "length (history m) \<le> HISTORY_LIMIT"
  shows "mgr_ok m"
  unfolding mgr_ok_def using assms by blast

lemma session_xid_iff:
  "mgr_ok m \<Longrightarrow> session_xid m s = Some xid \<longleftrightarrow> (\<exists>t. txn_of m xid = Some t \<and> session t = s)"
  by (simp add: mgr_ok_def)

lemma txn_of_id: "mgr_ok m \<Longrightarrow> txn_of m xid = Some t \<Longrightarrow> transaction_id t = xid \<and> txn_ok m t"
  by (simp add: mgr_ok_def)

lemma active_in_None: "mgr_ok m \<Longrightarrow> active_in m s = None \<longleftrightarrow> session_xid m s = None"
proof (cases "session_xid m s")
  case (Some xid)
  assume "mgr_ok m"
  from Some session_xid_iff [OF this, of s xid] show ?thesis by (auto simp: active_in_alt)
qed (simp add: active_in_alt)

lemma active_in_iff:
  assumes "mgr_ok m"
  shows "active_in m s = Some t \<longleftrightarrow> txn_of m (transaction_id t) = Some t \<and> session t = s"
proof
  assume "active_in m s = Some t"
  then obtain xid where x: "session_xid m s = Some xid" "txn_of m xid = Some t"
    by (auto simp: active_in_alt split: option.splits)
  with session_xid_iff [OF assms] txn_of_id [OF assms x(2)]
  show "txn_of m (transaction_id t) = Some t \<and> session t = s" by auto
next
  assume "txn_of m (transaction_id t) = Some t \<and> session t = s"
  moreover from this have "session_xid m s = Some (transaction_id t)" using session_xid_iff [OF assms] by blast
  ultimately show "active_in m s = Some t" by (simp add: active_in_alt)
qed

lemma active_in_txn_ok: "mgr_ok m \<Longrightarrow> active_in m s = Some t \<Longrightarrow> txn_ok m t \<and> session t = s"
  using active_in_iff txn_of_id by blast

lemma running_bounds: "mgr_ok m \<Longrightarrow> x \<in> running_ids m \<Longrightarrow> 1 \<le> x \<and> frozen_xid m \<le> x \<and> x < next_id m"
  by (auto simp: mgr_ok_def running_ids_txn_of txn_ok_def)

lemma set_txn_simps [simp]:
  "session_xid (set_txn t m) = session_xid m" "history (set_txn t m) = history m"
  "next_id (set_txn t m) = next_id m" "frozen_xid (set_txn t m) = frozen_xid m"
  "txn_of (set_txn t m) = (txn_of m)(transaction_id t \<mapsto> t)"
  by (simp_all add: set_txn_def session_xid_def txn_of_def AList.update_conv')

lemma running_ids_set_txn:
  "txn_of m (transaction_id t) \<noteq> None \<Longrightarrow> running_ids (set_txn t m) = running_ids m"
  by (auto simp: running_ids_txn_of)

lemma txn_ok_cong:
  "next_id m' = next_id m \<Longrightarrow> frozen_xid m' = frozen_xid m \<Longrightarrow> running_ids m' = running_ids m \<Longrightarrow>
   txn_ok m' t = txn_ok m t"
  by (simp add: txn_ok_def snapshot_ok_def split: option.splits)

lemma set_txn_ok:
  assumes "mgr_ok m" and "active_in m s = Some t" and "transaction_id t' = transaction_id t"
    and "session t' = session t" and "txn_ok m t'"
  shows "mgr_ok (set_txn t' m)"
proof -
  have t: "txn_of m (transaction_id t') = Some t" "session t' = s"
    using assms by (auto simp: active_in_iff)
  then have ids: "running_ids (set_txn t' m) = running_ids m"
    by (intro running_ids_set_txn) simp
  have "txn_ok (set_txn t' m) u = txn_ok m u" for u by (rule txn_ok_cong) (simp_all add: ids)
  then show ?thesis
    using assms(1,4,5) t unfolding mgr_ok_def by (auto simp: ids)
qed

lemma txn_ok_take:
  assumes "mgr_ok m" and "active_in m s = Some t"
  shows "snapshot_ok m (transaction_id t)
    (take_snapshot (next_id m) (running_ids m) (frozen_xid m) (transaction_id t))"
proof -
  have own: "transaction_id t \<in> running_ids m" using assms by (auto simp: active_in_iff running_ids_txn_of)
  then have "Min (running_ids m) \<in> running_ids m" by (intro Min_in) auto
  with own show ?thesis using running_bounds [OF assms(1)]
    by (auto simp: snapshot_ok_def take_snapshot_def)
qed

lemma snapshot_for_keeps [simp]:
  "transaction_id (snd (snapshot_for m t)) = transaction_id t" "session (snd (snapshot_for m t)) = session t"
  "isolation (snd (snapshot_for m t)) = isolation t" "undo (snd (snapshot_for m t)) = undo t"
  "t_snapshot (snd (snapshot_for m t)) = Some (fst (snapshot_for m t))"
  by (auto simp: snapshot_for_def Let_def split: option.splits)

lemma snapshot_for_ok:
  assumes "mgr_ok m" and "active_in m s = Some t"
  shows "mgr_ok (set_txn (snd (snapshot_for m t)) m)"
proof (rule set_txn_ok [OF assms])
  show "txn_ok m (snd (snapshot_for m t))"
    using active_in_txn_ok [OF assms] txn_ok_take [OF assms]
    by (auto simp: snapshot_for_def Let_def txn_ok_def split: option.splits)
qed simp_all

lemma begin_new_ok:
  assumes ok: "mgr_ok m" and none: "active_in m s = None"
    and b: "begin_txn m impl s level = Inr (xid, m')"
  shows "mgr_ok m'"
proof -
  let ?t = "transaction_new (next_id m) impl s level"
  have m': "m' = m\<lparr>next_id := next_id m + 1, by_session := AList.update s (next_id m) (by_session m),
      running := AList.update (next_id m) ?t (running m)\<rparr>"
    using none b by (auto simp: begin_txn_def Let_def transaction_new_def)
  have R: "txn_of m' = (txn_of m)(next_id m \<mapsto> ?t)" and B: "session_xid m' = (session_xid m)(s \<mapsto> next_id m)"
    by (simp_all add: m' txn_of_def session_xid_def AList.update_conv')
  have fresh: "txn_of m (next_id m) = None" using running_bounds [OF ok, of "next_id m"]
    by (auto simp: running_ids_txn_of)
  have nos: "session_xid m s = None" using ok none by (simp add: active_in_None)
  have ids: "running_ids m' = insert (next_id m) (running_ids m)" by (auto simp: running_ids_txn_of R)
  have f: "next_id m' = Suc (next_id m)" "frozen_xid m' = frozen_xid m" "history m' = history m"
    by (simp_all add: m')
  have keep: "txn_ok m' u" if "txn_ok m u" for u
    using that by (auto simp: txn_ok_def snapshot_ok_def ids f split: option.splits)
  have new: "txn_ok m' ?t" and st: "session ?t = s" "transaction_id ?t = next_id m"
    using ok by (auto simp: txn_ok_def transaction_new_def is_open_def f mgr_ok_def)
  have iff: "session_xid m' s' = Some i \<longleftrightarrow> (\<exists>t. txn_of m' i = Some t \<and> session t = s')" for s' i
    using ok nos fresh st unfolding mgr_ok_def by (auto simp: R B) (metis option.distinct(1))
  have "transaction_id t = i \<and> txn_ok m' t" if "txn_of m' i = Some t" for i t
    using that ok keep new st by (auto simp: R mgr_ok_def split: if_splits)
  then show ?thesis using ok iff by (auto simp: mgr_ok_def f ids less_Suc_eq)
qed

lemma retire_simps:
  "txn_of (retire t m) = (txn_of m)(transaction_id t := None)"
  "session_xid (retire t m) = (session_xid m)(session t := None)"
  "running_ids (retire t m) = running_ids m - {transaction_id t}"
  "next_id (retire t m) = next_id m" "frozen_xid (retire t m) = frozen_xid m"
  by (auto simp: retire_def Let_def txn_of_def session_xid_def AList.delete_conv' running_ids_def AList.delete_keys)

lemma retire_ok:
  assumes ok: "mgr_ok m" and act: "active_in m s = Some t"
    and t': "transaction_id t' = transaction_id t" "session t' = session t" "is_finished (t_state t')"
  shows "mgr_ok (retire t' m)"
proof -
  let ?m = "retire t' m" and ?h = "history m @ [t']"
  have t: "txn_of m (transaction_id t) = Some t" "session t = s" using ok act by (auto simp: active_in_iff)
  then have run: "transaction_id t \<in> running_ids m" by (auto simp: running_ids_txn_of)
  have keep: "txn_ok ?m u" if "txn_ok m u" for u
    using that by (auto simp: txn_ok_def snapshot_ok_def retire_simps split: option.splits)
  have h: "history ?m = drop (length ?h - HISTORY_LIMIT) ?h" by (auto simp: retire_def Let_def)
  have "distinct (map transaction_id ?h)" using ok run t' by (auto simp: mgr_ok_def)
  then have "distinct (drop (length ?h - HISTORY_LIMIT) (map transaction_id ?h))" by (rule distinct_drop)
  then have hist: "distinct (map transaction_id (history ?m))" "length (history ?m) \<le> HISTORY_LIMIT"
    unfolding h drop_map by simp_all
  have "x \<in> set ?h \<Longrightarrow> is_finished (t_state x) \<and> transaction_id x < next_id m \<and>
      transaction_id x \<notin> running_ids m - {transaction_id t'}" for x
    using ok t' run running_bounds [OF ok run] by (auto simp: mgr_ok_def)
  then have fin: "x \<in> set (history ?m) \<Longrightarrow> is_finished (t_state x) \<and> transaction_id x < next_id m \<and>
      transaction_id x \<notin> running_ids ?m" for x
    unfolding h retire_simps by (blast dest: in_set_dropD)
  have iff: "session_xid ?m s' = Some i \<longleftrightarrow> (\<exists>u. txn_of ?m i = Some u \<and> session u = s')" for s' i
  proof
    assume "session_xid ?m s' = Some i"
    then have "s' \<noteq> s" "session_xid m s' = Some i" using t t' by (auto simp: retire_simps split: if_splits)
    moreover from this obtain u where "txn_of m i = Some u" "session u = s'" using session_xid_iff [OF ok] by blast
    ultimately show "\<exists>u. txn_of ?m i = Some u \<and> session u = s'" using t t' by (auto simp: retire_simps)
  next
    assume "\<exists>u. txn_of ?m i = Some u \<and> session u = s'"
    then obtain u where u: "txn_of m i = Some u" "session u = s'" "i \<noteq> transaction_id t"
      using t' by (auto simp: retire_simps split: if_splits)
    then have "session_xid m s' = Some i" using session_xid_iff [OF ok] by blast
    moreover have "session_xid m s = Some (transaction_id t)" using session_xid_iff [OF ok] t by blast
    ultimately show "session_xid ?m s' = Some i" using u(3) t t' by (auto simp: retire_simps)
  qed
  have ids: "transaction_id u = i \<and> txn_ok ?m u" if "txn_of ?m i = Some u" for i u
    using that txn_of_id [OF ok] keep by (auto simp: retire_simps split: if_splits)
  show ?thesis
  proof (rule mgr_okI)
    show "1 \<le> next_id ?m" "frozen_xid ?m \<le> next_id ?m"
      using ok by (simp_all add: mgr_ok_def retire_simps(4,5))
    show "is_finished (t_state x) \<and> transaction_id x < next_id ?m \<and> transaction_id x \<notin> running_ids ?m"
      if "x \<in> set (history ?m)" for x using fin [OF that] by (simp add: retire_simps(4))
  qed (fact iff ids hist)+
qed

lemma do_action_ok:
  assumes ok: "mgr_ok m" and step: "do_action a (m, pg) = Inr (m', pg')"
  shows "mgr_ok m'"
proof (cases a)
  case (ABegin impl s level)
  with step obtain xid where b: "begin_txn m impl s level = Inr (xid, m')" by (auto simp: bind_res_Inr)
  show ?thesis
  proof (cases "active_in m s")
    case None
    with begin_new_ok [OF ok None b] show ?thesis by simp
  next
    case (Some t)
    have "mgr_ok (set_txn (t\<lparr>implicit := False\<rparr>) m)"
      using active_in_txn_ok [OF ok Some] by (intro set_txn_ok [OF ok Some]) (auto simp: txn_ok_def split: option.splits)
    with b Some ok show ?thesis by (auto simp: begin_txn_def split: if_splits)
  qed
next
  case (ARead s)
  with step ok show ?thesis
    by (auto simp: database_snapshot_def case_prod_beta snapshot_for_ok split: option.splits)
next
  case (AWrite s pid new)
  then have m': "m' = snd (before_write m pid (pg pid) '''' s)" using step by auto
  show ?thesis
  proof (cases "active_in m s")
    case (Some t)
    from active_in_txn_ok [OF ok Some] have t: "txn_ok m t" by simp
    have "mgr_ok (set_txn (t\<lparr>pages_written := k, undo := u\<rparr>) m)" if "undo_ok u" for k u
      using t that by (intro set_txn_ok [OF ok Some]) (auto simp: txn_ok_def split: option.splits)
    from this [of "undo t"] this [of "fst (capture (undo t) pid (pg pid) '''')"] t Some show ?thesis
      by (auto simp: m' before_write_def Let_def txn_ok_def capture_ok)
  qed (use ok m' in \<open>simp add: before_write_def\<close>)
next
  case (AFail s)
  show ?thesis
  proof (cases "active_in m s")
    case (Some t)
    have "mgr_ok (set_txn (t\<lparr>t_state := FAILED\<rparr>) m)"
      using active_in_txn_ok [OF ok Some] by (intro set_txn_ok [OF ok Some]) (auto simp: txn_ok_def is_open_def split: option.splits)
    with step AFail Some ok show ?thesis by (auto simp: mark_failed_def split: if_splits)
  qed (use step ok AFail in \<open>auto simp: mark_failed_def\<close>)
next
  case (AStatement s)
  show ?thesis
  proof (cases "active_in m s")
    case (Some t)
    have "mgr_ok (set_txn (t\<lparr>statements := statements t + 1\<rparr>) m)"
      using active_in_txn_ok [OF ok Some] by (intro set_txn_ok [OF ok Some]) (auto simp: txn_ok_def split: option.splits)
    with step AStatement Some show ?thesis by (simp add: note_statement_def)
  qed (use step ok AStatement in \<open>auto simp: note_statement_def\<close>)
next
  case (ACommit s)
  with step obtain t where "active_in m s = Some t" "m' = retire (t\<lparr>t_state := COMMITTED, undo := undo_clear (undo t)\<rparr>) m"
    by (auto simp: bind_res_Inr commit_def require_active_def Let_def split: option.splits if_splits)
  then show ?thesis using retire_ok [OF ok] by (simp add: is_finished_def is_open_def)
next
  case (ARollback s)
  with step obtain t where "active_in m s = Some t" "m' = retire (t\<lparr>t_state := ABORTED,
      pages_restored := length (rewind (undo t)), undo := undo_clear (undo t)\<rparr>) m"
    by (auto simp: bind_res_Inr rollback_def require_active_def Let_def split: option.splits)
  then show ?thesis using retire_ok [OF ok] by (simp add: is_finished_def is_open_def)
next
  case ACheckpoint
  then have "running m = []" "m' = m\<lparr>frozen_xid := next_id m\<rparr>"
    using step by (auto simp: checkpoint_txns_def any_open_def split: if_splits)
  then show ?thesis using ok by (simp add: mgr_ok_def txn_of_def session_xid_def running_ids_def)
qed

lemma manager_new_ok: "mgr_ok (manager_new frozen)"
  by (simp add: mgr_ok_def manager_new_def txn_of_def session_xid_def HISTORY_LIMIT_def)

lemma reachable_ok: "reachable st \<Longrightarrow> mgr_ok (fst st)"
proof (induction rule: reachable.induct)
  case (step st a st')
  then show ?case using do_action_ok [of "fst st" a "snd st" "fst st'" "snd st'"] by simp
qed (simp add: manager_new_ok)

lemma do_actions_ok: "do_actions as (m, pg) = Inr (m', pg') \<Longrightarrow> mgr_ok m \<Longrightarrow> mgr_ok m'"
  by (induction "as" arbitrary: m pg) (auto simp: bind_res_Inr dest: do_action_ok)

section \<open>What an action leaves alone\<close>

lemma active_session: "mgr_ok m \<Longrightarrow> active_in m s = Some t \<Longrightarrow> session_xid m s = Some (transaction_id t)"
  using active_in_iff session_xid_iff by blast

lemma active_in_set_txn:
  assumes "mgr_ok m" and "active_in m s2 = Some t" and "transaction_id t' = transaction_id t"
  shows "active_in (set_txn t' m) s = (if s = s2 then Some t' else active_in m s)"
proof (cases "s = s2")
  case True
  then show ?thesis using active_session [OF assms(1,2)] assms(3) by (simp add: active_in_alt)
next
  case False
  then have "session_xid m s \<noteq> Some (transaction_id t)"
    using assms session_xid_iff [OF assms(1), of s "transaction_id t"] by (auto simp: active_in_iff)
  then show ?thesis using False assms(3) by (auto simp: active_in_alt split: option.splits)
qed

lemma active_in_retire:
  assumes "mgr_ok m" and "active_in m s2 = Some t" and "transaction_id t' = transaction_id t" "session t' = s2"
  shows "active_in (retire t' m) s = (if s = s2 then None else active_in m s)"
proof (cases "s = s2")
  case True
  then show ?thesis using assms by (simp add: active_in_alt retire_simps)
next
  case False
  then have "session_xid m s \<noteq> Some (transaction_id t)"
    using assms session_xid_iff [OF assms(1), of s "transaction_id t"] by (auto simp: active_in_iff)
  then show ?thesis using False assms(3,4) by (auto simp: active_in_alt retire_simps split: option.splits)
qed

lemma active_in_begin:
  assumes "mgr_ok m" and "active_in m s2 = None" and "begin_txn m impl s2 level = Inr (xid, m')"
  shows "active_in m' s = (if s = s2 then Some (transaction_new (next_id m) impl s2 level) else active_in m s)"
proof -
  let ?t = "transaction_new (next_id m) impl s2 level"
  have R: "txn_of m' = (txn_of m)(next_id m \<mapsto> ?t)" and B: "session_xid m' = (session_xid m)(s2 \<mapsto> next_id m)"
    using assms(2,3)
    by (auto simp: begin_txn_def Let_def transaction_new_def txn_of_def session_xid_def AList.update_conv')
  have "session_xid m s \<noteq> Some (next_id m)"
    using session_xid_iff [OF assms(1), of s "next_id m"] running_bounds [OF assms(1), of "next_id m"]
    by (auto simp: running_ids_txn_of)
  then show ?thesis by (auto simp: active_in_alt R B split: option.splits)
qed

fun ends :: "string \<Rightarrow> action \<Rightarrow> bool" where
  "ends s (ACommit s') \<longleftrightarrow> s = s'"
| "ends s (ARollback s') \<longleftrightarrow> s = s'"
| "ends s _ \<longleftrightarrow> False"

text \<open>
  A step that does not end the transaction of session \<open>s\<close> keeps it: same id, same level, same
  snapshot if that one is for the whole transaction, and the undo log changes only by capturing.
\<close>

lemma do_action_keeps:
  assumes ok: "mgr_ok m" and act: "active_in m s = Some t" and step: "do_action a (m, pg) = Inr (m', pg')"
    and "\<not> ends s a"
  shows "\<exists>t'. active_in m' s = Some t' \<and> transaction_id t' = transaction_id t \<and> isolation t' = isolation t \<and>
    (isolation t = REPEATABLE_READ \<and> t_snapshot t \<noteq> None \<longrightarrow> t_snapshot t' = t_snapshot t) \<and>
    undo t' = (case a of AWrite s' pid new \<Rightarrow> if s' = s then fst (capture (undo t) pid (pg pid) '''') else undo t
               | _ \<Rightarrow> undo t)"
proof (cases a)
  case (ABegin impl s2 level)
  with step obtain xid where b: "begin_txn m impl s2 level = Inr (xid, m')" by (auto simp: bind_res_Inr)
  show ?thesis
  proof (cases "active_in m s2")
    case None
    with active_in_begin [OF ok None b, of s] act ABegin show ?thesis by auto
  next
    case (Some t2)
    from b Some active_in_set_txn [OF ok Some, of "t2\<lparr>implicit := False\<rparr>" s] act ABegin show ?thesis
      by (auto simp: begin_txn_def split: if_splits)
  qed
next
  case (ARead s2)
  show ?thesis
  proof (cases "active_in m s2")
    case None
    then show ?thesis using step act ARead by (auto simp: database_snapshot_def)
  next
    case (Some t2)
    then have "m' = set_txn (snd (snapshot_for m t2)) m"
      using step ARead by (auto simp: database_snapshot_def case_prod_beta)
    moreover have "isolation t2 = REPEATABLE_READ \<Longrightarrow> t_snapshot t2 \<noteq> None \<Longrightarrow>
        t_snapshot (snd (snapshot_for m t2)) = t_snapshot t2"
      by (auto simp: snapshot_for_def per_statement_def)
    ultimately show ?thesis using active_in_set_txn [OF ok Some, of "snd (snapshot_for m t2)" s] act Some ARead
      by auto
  qed
next
  case (AWrite s2 pid new)
  then have m': "m' = snd (before_write m pid (pg pid) '''' s2)" using step by auto
  show ?thesis
  proof (cases "active_in m s2")
    case None
    then show ?thesis using act m' AWrite by (auto simp: before_write_def)
  next
    case (Some t2)
    have "undo_has (undo t2) pid \<Longrightarrow> fst (capture (undo t2) pid (pg pid) '''') = undo t2"
      by (simp add: capture_def undo_has_def)
    then show ?thesis using m' Some act AWrite active_in_set_txn [OF ok Some, of _ s]
      by (auto simp: before_write_def Let_def)
  qed
next
  case (AFail s2)
  then show ?thesis using step act active_in_set_txn [OF ok, of s2 _ "_ \<lparr>t_state := FAILED\<rparr>" s]
    by (auto simp: mark_failed_def split: option.splits if_splits)
next
  case (AStatement s2)
  then show ?thesis using step act active_in_set_txn [OF ok, of s2 _ "_ \<lparr>statements := _\<rparr>" s]
    by (auto simp: note_statement_def split: option.splits)
next
  case (ACommit s2)
  with step obtain t2 where "active_in m s2 = Some t2" "m' = retire (t2\<lparr>t_state := COMMITTED, undo := undo_clear (undo t2)\<rparr>) m"
    by (auto simp: bind_res_Inr commit_def require_active_def Let_def split: option.splits if_splits)
  then show ?thesis
    using active_in_retire [OF ok, of s2 t2 _ s] act ACommit assms(4) active_in_txn_ok [OF ok, of s2 t2] by auto
next
  case (ARollback s2)
  with step obtain t2 where "active_in m s2 = Some t2" "m' = retire (t2\<lparr>t_state := ABORTED,
      pages_restored := length (rewind (undo t2)), undo := undo_clear (undo t2)\<rparr>) m"
    by (auto simp: bind_res_Inr rollback_def require_active_def Let_def split: option.splits)
  then show ?thesis
    using active_in_retire [OF ok, of s2 t2 _ s] act ARollback assms(4) active_in_txn_ok [OF ok, of s2 t2] by auto
next
  case ACheckpoint
  then show ?thesis using step act
    by (auto simp: checkpoint_txns_def active_in_def split: if_splits option.splits)
qed

section \<open>Properties\<close>

text \<open>
  C29: in every state the manager can reach, whatever the sessions do, each session has at most
  one open transaction and the two dictionaries name the same ones; ids are never reused and
  never handed out twice; an open transaction is active or failed with a well-formed undo log and
  an id at or above the frozen horizon; and the finished ones kept for the timeline are bounded.
\<close>

theorem manager_invariant:
  assumes "reachable (m, pg)"
  shows "mgr_ok m"
  using reachable_ok [OF assms] by simp

lemmas txn_eval = begin_txn_def active_in_def manager_new_def transaction_new_def commit_def
  require_active_def retire_def set_txn_def database_snapshot_def snapshot_for_def take_snapshot_def
  running_ids_def before_write_def rollback_def per_statement_def put_page_def undo_new_def
  undo_has_def capture_def undo_clear_def rewind_def MAX_UNDO_BYTES_def HISTORY_LIMIT_def Let_def

lemma reachable_actions: "reachable st \<Longrightarrow> do_actions as st = Inr st' \<Longrightarrow> reachable st'"
  by (induction "as" arbitrary: st) (auto simp: bind_res_Inr intro: reachable.step)

theorem manager_invariant_witness:
  "\<exists>m. do_actions [ABegin False ''a'' READ_COMMITTED, ACommit ''a'', ABegin True ''b'' REPEATABLE_READ]
      (manager_new 0, \<lambda>_. []) = Inr (m, \<lambda>_. []) \<and> next_id m = 3 \<and> length (history m) = 1 \<and> mgr_ok m"
proof -
  obtain m where run: "do_actions [ABegin False ''a'' READ_COMMITTED, ACommit ''a'', ABegin True ''b'' REPEATABLE_READ]
      (manager_new 0, \<lambda>_. []) = Inr (m, \<lambda>_. [])" and m: "next_id m = 3" "length (history m) = 1"
    by (simp add: txn_eval)
  from manager_invariant [OF reachable_actions [OF reachable.start run]] run m show ?thesis by blast
qed

text \<open>
  a snapshot taken now sees exactly the transactions that have finished, and its owner: not
  those still running in another session and not those that have yet to begin.
\<close>

theorem fresh_snapshot_exact:
  assumes "reachable (m, pg)"
    and "case active_in m s of None \<Rightarrow> True | Some t \<Rightarrow> isolation t = READ_COMMITTED \<or> t_snapshot t = None"
  shows "sees (fst (database_snapshot m s)) x \<longleftrightarrow>
    x \<noteq> 0 \<and> (map_option transaction_id (active_in m s) = Some x \<or> x < next_id m \<and> x \<notin> running_ids m)"
proof -
  have ok: "mgr_ok m" using reachable_ok [OF assms(1)] by simp
  have "x < frozen_xid m \<Longrightarrow> x < next_id m \<and> x \<notin> running_ids m"
    using running_bounds [OF ok, of x] ok by (auto simp: mgr_ok_def)
  then show ?thesis using assms(2)
    by (auto simp: database_snapshot_def snapshot_for_def per_statement_def case_prod_beta sees_taken
        NO_TRANSACTION_ID_def Let_def split: option.splits)
qed

theorem fresh_snapshot_exact_witness:
  "sees (fst (database_snapshot (manager_new 9) ''a'')) 8 \<and>
   \<not> sees (fst (database_snapshot (manager_new 9) ''a'')) 9"
  using fresh_snapshot_exact [OF reachable.start [of 9 "\<lambda>_. []"], of "''a''" 8]
    fresh_snapshot_exact [OF reachable.start [of 9 "\<lambda>_. []"], of "''a''" 9]
  by (simp add: active_in_def manager_new_def running_ids_def)

text \<open>
  C3: repeatable read. Once such a transaction has its snapshot, nothing that any session does
  before it ends, commits and rollbacks of the others included, changes what it reads: the same
  snapshot, hence the same verdict on every row version.
\<close>

theorem repeatable_read_stable:
  assumes "reachable (m, pg)" and "active_in m s = Some t"
    and "isolation t = REPEATABLE_READ" and "t_snapshot t = Some snap"
    and "do_actions as (m, pg) = Inr (m', pg')" and "list_all (\<lambda>a. \<not> ends s a) as"
  shows "fst (database_snapshot m' s) = snap \<and> visible h (fst (database_snapshot m' s)) = visible h snap"
proof -
  have "\<exists>t'. active_in m' s = Some t' \<and> isolation t' = REPEATABLE_READ \<and> t_snapshot t' = Some snap"
    if "mgr_ok m" "active_in m s = Some t" "isolation t = REPEATABLE_READ" "t_snapshot t = Some snap"
      "do_actions as (m, pg) = Inr (m', pg')" "list_all (\<lambda>a. \<not> ends s a) as" for m pg t "as"
    using that
  proof (induction "as" arbitrary: m pg t)
    case (Cons a "as")
    from Cons.prems(5) obtain m1 pg1 where step: "do_action a (m, pg) = Inr (m1, pg1)"
      and rest: "do_actions as (m1, pg1) = Inr (m', pg')" by (auto simp: bind_res_Inr)
    from do_action_keeps [OF Cons.prems(1,2) step] Cons.prems obtain t1 where
      "active_in m1 s = Some t1" "isolation t1 = REPEATABLE_READ" "t_snapshot t1 = Some snap" by auto
    with Cons.IH [OF do_action_ok [OF Cons.prems(1) step]] rest Cons.prems(6) show ?case by auto
  qed auto
  from this [OF _ assms(2-6)] reachable_ok [OF assms(1)] show ?thesis
    by (auto simp: database_snapshot_def snapshot_for_def per_statement_def)
qed

theorem repeatable_read_stable_witness:
  "\<exists>m pg m' pg' snap. do_actions [ABegin False ''a'' REPEATABLE_READ, ARead ''a''] (manager_new 0, \<lambda>_. []) = Inr (m, pg) \<and>
     do_actions [ABegin False ''b'' READ_COMMITTED, ACommit ''b''] (m, pg) = Inr (m', pg') \<and>
     s_xmax snap = 2 \<and> next_id m' = 3 \<and> fst (database_snapshot m' ''a'') = snap"
proof -
  obtain m pg t snap where run: "do_actions [ABegin False ''a'' REPEATABLE_READ, ARead ''a''] (manager_new 0, \<lambda>_. []) = Inr (m, pg)"
    and t: "active_in m ''a'' = Some t" "isolation t = REPEATABLE_READ" "t_snapshot t = Some snap" "s_xmax snap = 2"
    and m: "active_in m ''b'' = None" "next_id m = 2"
    by (simp add: txn_eval)
  have r: "reachable (m, pg)" by (rule reachable_actions [OF reachable.start run])
  have ok: "mgr_ok m" using reachable_ok [OF r] by simp
  obtain m1 where m1: "do_action (ABegin False ''b'' READ_COMMITTED) (m, pg) = Inr (m1, pg)" "next_id m1 = 3"
      "active_in m1 ''b'' = Some (transaction_new 2 False ''b'' READ_COMMITTED)"
    using m active_in_begin [OF ok m(1)] by (auto simp: begin_txn_def Let_def)
  then obtain m' where m': "do_actions [ABegin False ''b'' READ_COMMITTED, ACommit ''b''] (m, pg) = Inr (m', pg)" "next_id m' = 3"
    by (auto simp: commit_def require_active_def retire_def transaction_new_def Let_def)
  from repeatable_read_stable [OF r t(1-3) m'(1)] run t m' show ?thesis by auto
qed

fun quiet :: "string \<Rightarrow> action \<Rightarrow> bool" where
  "quiet s (AWrite s' _ _) \<longleftrightarrow> s = s'"
| "quiet s (ARollback _) \<longleftrightarrow> False"
| "quiet s (ACommit s') \<longleftrightarrow> s \<noteq> s'"
| "quiet s _ \<longleftrightarrow> True"

lemma do_action_quiet:
  assumes "mgr_ok m" and "active_in m s = Some t" and "undo_covers pg0 (undo t) pg"
    and "do_action a (m, pg) = Inr (m', pg')" and "quiet s a"
  shows "\<exists>t'. active_in m' s = Some t' \<and> undo_covers pg0 (undo t') pg'"
proof -
  have "\<not> ends s a" using assms(5) by (cases a) auto
  from do_action_keeps [OF assms(1,2,4) this] obtain t' where t': "active_in m' s = Some t'"
    "undo t' = (case a of AWrite s' pid new \<Rightarrow> if s' = s then fst (capture (undo t) pid (pg pid) '''') else undo t
               | _ \<Rightarrow> undo t)" by blast
  show ?thesis
  proof (cases a)
    case (AWrite s' pid new)
    then have "logged_write (pid, new) (undo t, pg) = (undo t', pg')"
      using t' assms(4,5) by (simp add: logged_write_def)
    from undo_covers_write [OF assms(3) this] t' show ?thesis by blast
  qed (use t' assms(3-5) in \<open>auto simp: bind_res_Inr\<close>)
qed

lemma apply_images_put_page: "apply_images put_page rs pg = Inr (restore rs pg)"
  by (induction rs arbitrary: pg) (auto simp: put_page_def restore_def)



text \<open>
  what happens when two sessions write the same page. Locks are per row, so they may; but undo
  is per page, and rolling the first one back writes its whole-page image over the second one's
  work: session \<open>s2\<close> has committed, and yet the page is as it was before either of them wrote it.
\<close>

theorem rollback_discards_committed_write:
  assumes "s1 \<noteq> s2" and "length (pg pid) \<le> MAX_UNDO_BYTES"
  shows "\<exists>m'. do_actions [ABegin False s1 READ_COMMITTED, ABegin False s2 READ_COMMITTED,
        AWrite s1 pid a, AWrite s2 pid b, ACommit s2, ARollback s1] (manager_new 0, pg) = Inr (m', pg) \<and>
      (\<exists>t \<in> set (history m'). session t = s2 \<and> t_state t = COMMITTED)"
  using assms by (simp add: txn_eval)

theorem rollback_discards_committed_write_witness:
  "\<exists>m'. do_actions [ABegin False ''a'' READ_COMMITTED, ABegin False ''b'' READ_COMMITTED,
        AWrite ''a'' 4 [1], AWrite ''b'' 4 [2], ACommit ''b'', ARollback ''a''] (manager_new 0, \<lambda>_. [7]) =
      Inr (m', \<lambda>_. [7])"
  using rollback_discards_committed_write [of "''a''" "''b''" "\<lambda>_. [7]" 4 "[1]" "[2]"]
  by (auto simp: MAX_UNDO_BYTES_def)

lemma sees_snapshot_ok:
  assumes "snapshot_ok m xid snap" and "x \<noteq> 0" and "x < s_xmin snap"
  shows "sees snap x"
proof -
  let ?A = "s_active snap"
  have "finite ?A" "?A \<noteq> {}" "?A \<subseteq> {..<s_xmax snap}" "x < Min ?A"
    using assms(1,3) by (auto simp: snapshot_ok_def)
  then have "Min ?A < s_xmax snap" "x \<notin> ?A" using Min_in [of ?A] by (blast, auto dest: Min_le leD)
  then show ?thesis using assms(2) \<open>x < Min ?A\<close> by (auto simp: sees_def NO_TRANSACTION_ID_def)
qed




end
