(* ===== verification/Locks.thy ===== *)
theory Locks
  imports Base "HOL-Library.AList"
begin

text \<open>
  The row lock manager (\<open>engine/concurrency/locks.py\<close>): the lock table with its holders and
  waiters, the reverse index, the wait-for graph, the depth-first cycle search and the choice of
  a deadlock victim. \<open>acquire\<close> holds the manager's mutex except inside \<open>Condition.wait\<close>, so it is
  split there: \<open>acquire_start\<close> runs from the call to the first wait, \<open>acquire_wake\<close> from one wait
  to the next, and each is atomic. Whether the deadline has passed at the loop test is the
  argument \<open>expired\<close>. Dictionaries are association lists; clock readings and tracer events are
  left out. \<open>lock_step\<close> interleaves these segments and \<open>release_all\<close> over any number of threads.
\<close>

section \<open>Modes, requests and entries\<close>

definition MAX_LOCKS_PER_TRANSACTION :: nat where "MAX_LOCKS_PER_TRANSACTION = 100000"

datatype lock_mode = SHARED | EXCLUSIVE

fun compatible :: "lock_mode \<Rightarrow> lock_mode \<Rightarrow> bool" where
  "compatible SHARED SHARED = True"
| "compatible SHARED EXCLUSIVE = False"
| "compatible EXCLUSIVE SHARED = False"
| "compatible EXCLUSIVE EXCLUSIVE = False"

record lock_request =
  lr_transaction_id :: nat
  lr_resource :: string
  lr_mode :: lock_mode

record lock_entry =
  holders :: "(nat \<times> lock_mode) list"
  waiters :: "lock_request list"

definition conflicts_with :: "lock_entry \<Rightarrow> nat \<Rightarrow> lock_mode \<Rightarrow> nat list" where
  "conflicts_with e xid md =
     map fst (filter (\<lambda>(holder, held). holder \<noteq> xid \<and> \<not> compatible held md) (holders e))"

record lock_manager =
  table :: "(string \<times> lock_entry) list"
  held_by :: "(nat \<times> (string \<times> lock_mode) list) list"
  victims :: "nat set"
  granted :: nat
  released :: nat
  waits :: nat
  timeouts :: nat
  deadlocks :: nat

definition locks_new :: lock_manager where
  "locks_new = \<lparr>table = [], held_by = [], victims = {}, granted = 0, released = 0, waits = 0,
                timeouts = 0, deadlocks = 0\<rparr>"

text \<open>\<open>_table.setdefault(resource, LockTableEntry(resource))\<close> and \<open>_held_by.get(xid, {})\<close>.\<close>

definition entry_of :: "lock_manager \<Rightarrow> string \<Rightarrow> lock_entry" where
  "entry_of m r = (case map_of (table m) r of Some e \<Rightarrow> e | None \<Rightarrow> \<lparr>holders = [], waiters = []\<rparr>)"

definition set_entry :: "string \<Rightarrow> lock_entry \<Rightarrow> lock_manager \<Rightarrow> lock_manager" where
  "set_entry r e m = m\<lparr>table := AList.update r e (table m)\<rparr>"

definition holdings :: "lock_manager \<Rightarrow> nat \<Rightarrow> (string \<times> lock_mode) list" where
  "holdings m xid = (case map_of (held_by m) xid of Some h \<Rightarrow> h | None \<Rightarrow> [])"

section \<open>The wait-for graph\<close>

type_synonym graph = "(nat \<times> nat list) list"

definition add_edges :: "nat \<Rightarrow> nat list \<Rightarrow> graph \<Rightarrow> graph" where
  "add_edges w bs g =
     (if bs = [] then g
      else AList.update w ((case map_of g w of Some cs \<Rightarrow> cs | None \<Rightarrow> []) @ bs) g)"

definition entry_edges :: "lock_entry \<Rightarrow> graph \<Rightarrow> graph" where
  "entry_edges e g =
     fold (\<lambda>w g. add_edges (lr_transaction_id w) (conflicts_with e (lr_transaction_id w) (lr_mode w)) g)
       (waiters e) g"

definition build_graph :: "lock_manager \<Rightarrow> graph" where
  "build_graph m = fold (\<lambda>(_, e) g. entry_edges e g) (table m) []"

text \<open>\<open>sorted(graph.get(node, ()))\<close>, the values of the dictionary being sets.\<close>

definition successors :: "graph \<Rightarrow> nat \<Rightarrow> nat list" where
  "successors g n = (case map_of g n of None \<Rightarrow> [] | Some ns \<Rightarrow> sorted_list_of_set (set ns))"

text \<open>
  The nested function \<open>walk\<close> and the loop in its body. The path is restored when a branch finds
  nothing, so it is an argument; \<open>on_path\<close> is its set of nodes.
\<close>

function walk :: "graph \<Rightarrow> nat list \<Rightarrow> nat \<Rightarrow> nat list"
  and walk_each :: "graph \<Rightarrow> nat list \<Rightarrow> nat list \<Rightarrow> nat list" where
  "walk g path n =
     (if n \<in> set path then dropWhile (\<lambda>x. x \<noteq> n) path
      else walk_each g (path @ [n]) (successors g n))"
| "walk_each g path [] = []"
| "walk_each g path (n # ns) =
     (let found = walk g path n in if found \<noteq> [] then found else walk_each g path ns)"
  by pat_completeness auto

termination
proof (relation "inv_image (less_than <*lex*> less_than)
    (\<lambda>x. case x of Inl (g, path, n) \<Rightarrow> (card (set (map fst g) - set path), 1)
                 | Inr (g, path, ns) \<Rightarrow> (card (set (map fst g) - set path), 2 * length ns))")
  fix g :: graph and path and n :: nat
  assume n: "n \<notin> set path"
  show "(Inr (g, path @ [n], successors g n), Inl (g, path, n))
      \<in> inv_image (less_than <*lex*> less_than)
        (\<lambda>x. case x of Inl (g, path, n) \<Rightarrow> (card (set (map fst g) - set path), 1)
                     | Inr (g, path, ns) \<Rightarrow> (card (set (map fst g) - set path), 2 * length ns))"
  proof (cases "n \<in> set (map fst g)")
    case True
    then have "card (set (map fst g) - set (path @ [n])) < card (set (map fst g) - set path)"
      using n by (intro psubset_card_mono) auto
    then show ?thesis by simp
  next
    case False
    then have "map_of g n = None" by (simp add: map_of_eq_None_iff)
    then have "successors g n = []" by (simp add: successors_def)
    moreover have "set (map fst g) - set (path @ [n]) = set (map fst g) - set path" using False by auto
    ultimately show ?thesis by simp
  qed
qed auto

declare walk.simps [simp del]

definition find_cycle :: "lock_manager \<Rightarrow> nat \<Rightarrow> nat list" where
  "find_cycle m start = walk (build_graph m) [] start"

definition choose_victim :: "nat list \<Rightarrow> nat" where
  "choose_victim cycle = Max (set cycle)"

text \<open>\<open>_detect\<close>: the flag says that the transaction itself is the victim, so that it raises.\<close>

definition detect :: "lock_manager \<Rightarrow> nat \<Rightarrow> lock_manager \<times> bool" where
  "detect m xid =
     (let cycle = find_cycle m xid
      in if cycle = [] then (m, False)
         else let victim = choose_victim cycle
              in if victim \<in> victims m then (m, False)
                 else let m = m\<lparr>deadlocks := deadlocks m + 1, victims := insert victim (victims m)\<rparr>
                      in if victim = xid then (m\<lparr>victims := victims m - {xid}\<rparr>, True) else (m, False))"

section \<open>Acquiring\<close>

datatype outcome = Granted | Waiting | Raised db_error

definition already_holds :: "lock_manager \<Rightarrow> nat \<Rightarrow> string \<Rightarrow> lock_mode \<Rightarrow> bool" where
  "already_holds m xid r md \<longleftrightarrow>
     (case map_of (holdings m xid) r of None \<Rightarrow> False | Some held \<Rightarrow> held = EXCLUSIVE \<or> held = md)"

definition grant :: "lock_manager \<Rightarrow> lock_request \<Rightarrow> lock_manager \<times> outcome" where
  "grant m req =
     (let xid = lr_transaction_id req; r = lr_resource req; held = holdings m xid;
          m = m\<lparr>held_by := AList.update xid held (held_by m)\<rparr>
      in if length held \<ge> MAX_LOCKS_PER_TRANSACTION then (m, Raised LockTimeout)
         else let e = entry_of m r;
                  m = set_entry r (e\<lparr>holders := AList.update xid (lr_mode req) (holders e)\<rparr>) m
              in (m\<lparr>held_by := AList.update xid (AList.update r (lr_mode req) held) (held_by m),
                    granted := granted m + 1\<rparr>, Granted))"

definition join_queue :: "lock_request \<Rightarrow> lock_manager \<Rightarrow> lock_manager" where
  "join_queue req m =
     (let e = entry_of m (lr_resource req)
      in set_entry (lr_resource req) (e\<lparr>waiters := waiters e @ [req]\<rparr>) m)"

definition leave_queue :: "lock_request \<Rightarrow> lock_manager \<Rightarrow> lock_manager" where
  "leave_queue req m =
     (let e = entry_of m (lr_resource req)
      in set_entry (lr_resource req) (e\<lparr>waiters := remove1 req (waiters e)\<rparr>) m)"

text \<open>From \<open>_detect\<close> to the next wait, or out of the loop.\<close>

definition wait_or_grant :: "lock_manager \<Rightarrow> lock_request \<Rightarrow> bool \<Rightarrow> lock_manager \<times> outcome" where
  "wait_or_grant m req expired =
     (let xid = lr_transaction_id req
      in case detect m xid of
           (m, True) \<Rightarrow> (leave_queue req m, Raised DeadlockError)
         | (m, False) \<Rightarrow>
             if conflicts_with (entry_of m (lr_resource req)) xid (lr_mode req) \<noteq> []
             then if expired then (leave_queue req (m\<lparr>timeouts := timeouts m + 1\<rparr>), Raised LockTimeout)
                  else (m, Waiting)
             else grant (leave_queue req m) req)"

definition acquire_start :: "lock_manager \<Rightarrow> lock_request \<Rightarrow> bool \<Rightarrow> lock_manager \<times> outcome" where
  "acquire_start m req expired =
     (let xid = lr_transaction_id req; r = lr_resource req; md = lr_mode req;
          m = set_entry r (entry_of m r) m
      in if already_holds m xid r md then (m, Granted)
         else if xid \<in> victims m then (m\<lparr>victims := victims m - {xid}\<rparr>, Raised DeadlockError)
         else if conflicts_with (entry_of m r) xid md = [] then grant m req
         else wait_or_grant (join_queue req (m\<lparr>waits := waits m + 1\<rparr>)) req expired)"

definition acquire_wake :: "lock_manager \<Rightarrow> lock_request \<Rightarrow> bool \<Rightarrow> lock_manager \<times> outcome" where
  "acquire_wake m req expired =
     (let xid = lr_transaction_id req
      in if xid \<in> victims m then (leave_queue req (m\<lparr>victims := victims m - {xid}\<rparr>), Raised DeadlockError)
         else wait_or_grant m req expired)"

section \<open>Releasing\<close>

definition drop_holder :: "nat \<Rightarrow> string \<Rightarrow> lock_manager \<Rightarrow> lock_manager" where
  "drop_holder xid r m =
     (case map_of (table m) r of
        None \<Rightarrow> m
      | Some e \<Rightarrow>
          let e = e\<lparr>holders := AList.delete xid (holders e)\<rparr>
          in if holders e = [] \<and> waiters e = [] then m\<lparr>table := AList.delete r (table m)\<rparr>
             else set_entry r e m)"

definition release_all :: "lock_manager \<Rightarrow> nat \<Rightarrow> lock_manager \<times> nat" where
  "release_all m xid =
     (let resources = map fst (holdings m xid);
          m = m\<lparr>victims := victims m - {xid}, held_by := AList.delete xid (held_by m)\<rparr>;
          m = fold (drop_holder xid) resources m
      in (m\<lparr>released := released m + length resources\<rparr>, length resources))"

section \<open>Interleavings\<close>

inductive lock_step :: "lock_manager \<Rightarrow> lock_manager \<Rightarrow> bool" where
  start: "lock_step m (fst (acquire_start m req expired))"
| wake: "req \<in> set (waiters (entry_of m (lr_resource req))) \<Longrightarrow> lock_step m (fst (acquire_wake m req expired))"
| release: "lock_step m (fst (release_all m xid))"

section \<open>The invariant\<close>

definition holds :: "lock_manager \<Rightarrow> string \<Rightarrow> nat \<Rightarrow> lock_mode option" where
  "holds m r = map_of (holders (entry_of m r))"

definition held :: "lock_manager \<Rightarrow> nat \<Rightarrow> string \<Rightarrow> lock_mode option" where
  "held m xid = map_of (holdings m xid)"

definition lock_ok :: "lock_manager \<Rightarrow> bool" where
  "lock_ok m \<longleftrightarrow> (\<forall>r xid. holds m r xid = held m xid r) \<and>
     (\<forall>r. distinct (map fst (holders (entry_of m r)))) \<and>
     (\<forall>r x y a b. holds m r x = Some a \<and> holds m r y = Some b \<and> x \<noteq> y \<longrightarrow> compatible a b)"

lemma compatible_SHARED: "compatible a b \<longleftrightarrow> a = SHARED \<and> b = SHARED"
  by (cases a; cases b) simp_all

lemma entry_of_set_entry: "entry_of (set_entry r e m) r' = (if r' = r then e else entry_of m r')"
  by (simp add: entry_of_def set_entry_def AList.update_conv')

lemma holdings_update:
  "holdings (m\<lparr>held_by := AList.update x h (held_by m)\<rparr>) y = (if y = x then h else holdings m y)"
  by (simp add: holdings_def AList.update_conv')

lemma holdings_set_entry [simp]: "holdings (set_entry r e m) = holdings m"
  by (simp add: holdings_def set_entry_def fun_eq_iff)

lemma frame_simps [simp]:
  "entry_of (m\<lparr>held_by := h\<rparr>) = entry_of m" "entry_of (m\<lparr>victims := v\<rparr>) = entry_of m"
  "entry_of (m\<lparr>granted := n\<rparr>) = entry_of m" "entry_of (m\<lparr>waits := n\<rparr>) = entry_of m"
  "entry_of (m\<lparr>timeouts := n\<rparr>) = entry_of m" "entry_of (m\<lparr>deadlocks := n\<rparr>) = entry_of m"
  "entry_of (m\<lparr>released := n\<rparr>) = entry_of m"
  "holdings (m\<lparr>victims := v\<rparr>) = holdings m" "holdings (m\<lparr>granted := n\<rparr>) = holdings m"
  "holdings (m\<lparr>waits := n\<rparr>) = holdings m" "holdings (m\<lparr>timeouts := n\<rparr>) = holdings m"
  "holdings (m\<lparr>deadlocks := n\<rparr>) = holdings m" "holdings (m\<lparr>released := n\<rparr>) = holdings m"
  "holdings (m\<lparr>table := t\<rparr>) = holdings m"
  by (simp_all add: entry_of_def holdings_def fun_eq_iff)

text \<open>Two managers that agree on who holds what; queues, victims and statistics may differ.\<close>

definition same_holders :: "lock_manager \<Rightarrow> lock_manager \<Rightarrow> bool" where
  "same_holders m m' \<longleftrightarrow> (\<forall>r. holders (entry_of m' r) = holders (entry_of m r)) \<and> holdings m' = holdings m"

lemma same_holders_ok: "same_holders m m' \<Longrightarrow> lock_ok m' = lock_ok m"
  by (simp add: same_holders_def lock_ok_def holds_def held_def)

lemma same_holders_refl [simp]: "same_holders m m"
  by (simp add: same_holders_def)

lemma same_holders_trans: "same_holders a b \<Longrightarrow> same_holders b c \<Longrightarrow> same_holders a c"
  by (simp add: same_holders_def)

lemma queue_same_holders [simp]:
  "same_holders m (join_queue req q) = same_holders m q" "same_holders m (leave_queue req q) = same_holders m q"
  "same_holders m (set_entry r (entry_of q r) q) = same_holders m q"
  by (auto simp: same_holders_def join_queue_def leave_queue_def entry_of_set_entry Let_def)

lemma field_same_holders [simp]:
  "same_holders m (q\<lparr>victims := v\<rparr>) = same_holders m q" "same_holders m (q\<lparr>waits := n\<rparr>) = same_holders m q"
  "same_holders m (q\<lparr>timeouts := n\<rparr>) = same_holders m q"
  by (simp_all add: same_holders_def)

lemma detect_same_holders: "same_holders m (fst (detect m xid))"
  by (auto simp: detect_def Let_def same_holders_def)

lemma conflicts_with_Nil:
  "distinct (map fst (holders e)) \<Longrightarrow> conflicts_with e xid md = [] \<longleftrightarrow>
   (\<forall>y a. map_of (holders e) y = Some a \<and> y \<noteq> xid \<longrightarrow> compatible a md)"
  by (auto simp: conflicts_with_def filter_empty_conv)

lemma conflicts_same_holders:
  "holders e = holders e' \<Longrightarrow> conflicts_with e xid md = conflicts_with e' xid md"
  by (simp add: conflicts_with_def)

text \<open>The two outcomes of \<open>_grant\<close>.\<close>

lemma grant_cases:
  assumes "grant m req = (m', out)"
  shows "out = Raised LockTimeout \<and> same_holders m m' \<or>
    out = Granted \<and>
    (\<forall>r. holders (entry_of m' r) = (if r = lr_resource req
       then AList.update (lr_transaction_id req) (lr_mode req) (holders (entry_of m r)) else holders (entry_of m r))) \<and>
    (\<forall>x. holdings m' x = (if x = lr_transaction_id req
       then AList.update (lr_resource req) (lr_mode req) (holdings m x) else holdings m x))"
proof (cases "length (holdings m (lr_transaction_id req)) \<ge> MAX_LOCKS_PER_TRANSACTION")
  case True
  then have "out = Raised LockTimeout" and m': "m' = m\<lparr>held_by := AList.update (lr_transaction_id req)
      (holdings m (lr_transaction_id req)) (held_by m)\<rparr>"
    using assms by (auto simp: grant_def Let_def)
  moreover have "same_holders m m'" unfolding m' by (simp add: same_holders_def fun_eq_iff holdings_update)
  ultimately show ?thesis by simp
next
  case False
  then show ?thesis using assms
    by (auto simp: grant_def Let_def entry_of_set_entry)
       (auto simp: holdings_def set_entry_def AList.update_conv')
qed

lemma grant_ok:
  assumes ok: "lock_ok m" and g: "grant m req = (m', out)"
    and free: "conflicts_with (entry_of m (lr_resource req)) (lr_transaction_id req) (lr_mode req) = []"
  shows "lock_ok m'"
  using grant_cases [OF g]
proof
  assume "out = Raised LockTimeout \<and> same_holders m m'"
  then show ?thesis using ok same_holders_ok by blast
next
  let ?x = "lr_transaction_id req" and ?r = "lr_resource req"
  assume "out = Granted \<and>
    (\<forall>r. holders (entry_of m' r) = (if r = ?r then AList.update ?x (lr_mode req) (holders (entry_of m r))
       else holders (entry_of m r))) \<and>
    (\<forall>x. holdings m' x = (if x = ?x then AList.update ?r (lr_mode req) (holdings m x) else holdings m x))"
  then have h: "holders (entry_of m' r) = (if r = ?r then AList.update ?x (lr_mode req) (holders (entry_of m r))
       else holders (entry_of m r))"
    and g: "holdings m' x = (if x = ?x then AList.update ?r (lr_mode req) (holdings m x) else holdings m x)" for r x
    by auto
  have d: "distinct (map fst (holders (entry_of m r)))" for r using ok by (simp add: lock_ok_def)
  have hs: "holds m' r x = (if r = ?r \<and> x = ?x then Some (lr_mode req) else holds m r x)"
    and he: "held m' x r = (if r = ?r \<and> x = ?x then Some (lr_mode req) else held m x r)" for r x
    by (auto simp: holds_def held_def h g AList.update_conv')
  have free': "holds m ?r y = Some a \<Longrightarrow> y \<noteq> ?x \<Longrightarrow> compatible a (lr_mode req)" for y a
    using free conflicts_with_Nil [OF d, of ?r ?x "lr_mode req"] by (auto simp: holds_def)
  have "compatible a b" if "holds m' r x = Some a" "holds m' r y = Some b" "x \<noteq> y" for r x y a b
    using that free' [of y b] free' [of x a] ok
    by (auto simp: hs lock_ok_def compatible_SHARED split: if_splits)
  moreover have "distinct (map fst (holders (entry_of m' r)))" for r
    using d by (auto simp: h intro: AList.distinct_update)
  moreover have "holds m' r x = held m' x r" for r x using ok by (simp add: lock_ok_def hs he)
  ultimately show ?thesis unfolding lock_ok_def by blast
qed

lemma same_holders_conflicts:
  "same_holders m m' \<Longrightarrow> conflicts_with (entry_of m' r) xid md = conflicts_with (entry_of m r) xid md"
  by (intro conflicts_same_holders) (simp add: same_holders_def)

text \<open>
  Every segment of \<open>acquire\<close> either leaves the holders as they were or grants the request in a
  state with the same holders and no conflict.
\<close>

lemma wait_or_grant_cases:
  assumes "wait_or_grant m req expired = (m', out)"
  shows "out \<noteq> Granted \<and> same_holders m m' \<or>
    (\<exists>m1. same_holders m m1 \<and> grant m1 req = (m', out) \<and>
       conflicts_with (entry_of m1 (lr_resource req)) (lr_transaction_id req) (lr_mode req) = [])"
proof -
  let ?x = "lr_transaction_id req" and ?r = "lr_resource req"
  obtain m1 b where d: "detect m ?x = (m1, b)" by fastforce
  have s1: "same_holders m m1" using detect_same_holders [of m ?x] d by simp
  have out: "same_holders m (leave_queue req m1)" "same_holders m (leave_queue req (m1\<lparr>timeouts := n\<rparr>))" for n
    using s1 by simp_all
  show ?thesis
  proof (cases "b \<or> conflicts_with (entry_of m1 ?r) ?x (lr_mode req) \<noteq> []")
    case True
    then show ?thesis using assms d s1 out
      by (auto simp: wait_or_grant_def Let_def split: if_splits bool.splits)
  next
    case False
    then have "grant (leave_queue req m1) req = (m', out)" using assms d by (simp add: wait_or_grant_def)
    moreover have "conflicts_with (entry_of (leave_queue req m1) ?r) ?x (lr_mode req) = []"
      using False same_holders_conflicts [of m1 "leave_queue req m1"] by simp
    ultimately show ?thesis using out(1) by blast
  qed
qed

lemma acquire_wake_cases:
  assumes "acquire_wake m req expired = (m', out)"
  shows "out \<noteq> Granted \<and> same_holders m m' \<or>
    (\<exists>m1. same_holders m m1 \<and> grant m1 req = (m', out) \<and>
       conflicts_with (entry_of m1 (lr_resource req)) (lr_transaction_id req) (lr_mode req) = [])"
proof (cases "lr_transaction_id req \<in> victims m")
  case True
  moreover have "same_holders m (leave_queue req (m\<lparr>victims := v\<rparr>))" for v by simp
  ultimately show ?thesis using assms by (auto simp: acquire_wake_def Let_def)
next
  case False
  then show ?thesis using assms wait_or_grant_cases by (simp add: acquire_wake_def)
qed

lemma acquire_start_cases:
  assumes "acquire_start m req expired = (m', out)"
  shows "(out \<noteq> Granted \<or> already_holds m (lr_transaction_id req) (lr_resource req) (lr_mode req)) \<and> same_holders m m' \<or>
    (\<exists>m1. same_holders m m1 \<and> grant m1 req = (m', out) \<and>
       conflicts_with (entry_of m1 (lr_resource req)) (lr_transaction_id req) (lr_mode req) = [])"
proof -
  let ?x = "lr_transaction_id req" and ?r = "lr_resource req" and ?md = "lr_mode req"
  let ?m = "set_entry ?r (entry_of m ?r) m"
  have s: "same_holders m ?m" by simp
  then have ah: "already_holds ?m ?x ?r ?md = already_holds m ?x ?r ?md"
    by (simp add: already_holds_def)
  have sv: "same_holders m (?m\<lparr>victims := v\<rparr>)" "same_holders m (join_queue req (?m\<lparr>waits := n\<rparr>))" for v n
    by simp_all
  consider "already_holds ?m ?x ?r ?md \<or> ?x \<in> victims ?m"
    | "\<not> already_holds ?m ?x ?r ?md" "?x \<notin> victims ?m" "conflicts_with (entry_of ?m ?r) ?x ?md = []"
    | "\<not> already_holds ?m ?x ?r ?md" "?x \<notin> victims ?m" "conflicts_with (entry_of ?m ?r) ?x ?md \<noteq> []" by blast
  then show ?thesis
  proof cases
    case 1
    then show ?thesis using assms s sv(1) ah by (auto simp: acquire_start_def Let_def)
  next
    case 2
    then have "grant ?m req = (m', out)" using assms by (simp add: acquire_start_def Let_def)
    then show ?thesis using s 2 by blast
  next
    case 3
    then have "wait_or_grant (join_queue req (?m\<lparr>waits := waits ?m + 1\<rparr>)) req expired = (m', out)"
      using assms by (simp add: acquire_start_def Let_def)
    from wait_or_grant_cases [OF this] show ?thesis using same_holders_trans [OF sv(2)] by blast
  qed
qed

section \<open>Releasing\<close>

lemma drop_holder_holders:
  "holders (entry_of (drop_holder xid r m) r') =
     (if r' = r then AList.delete xid (holders (entry_of m r')) else holders (entry_of m r'))"
  by (auto simp: drop_holder_def entry_of_def set_entry_def Let_def AList.update_conv' AList.delete_conv'
      split: option.splits)

lemma drop_holder_holdings [simp]: "holdings (drop_holder xid r m) = holdings m"
  by (auto simp: drop_holder_def Let_def split: option.splits)

lemma drop_holders:
  "holders (entry_of (fold (drop_holder xid) rs m) r) =
     (if r \<in> set rs then AList.delete xid (holders (entry_of m r)) else holders (entry_of m r))"
  "holdings (fold (drop_holder xid) rs m) = holdings m"
  by (induction rs arbitrary: m) (auto simp: drop_holder_holders AList.delete_idem)

lemma release_all_effect:
  assumes "lock_ok m" and "release_all m xid = (m', n)"
  shows "holds m' r x = (if x = xid then None else holds m r x)"
    and "held m' x r = (if x = xid then None else held m x r)"
    and "lock_ok m'" and "xid \<notin> victims m'"
proof -
  let ?m = "m\<lparr>victims := victims m - {xid}, held_by := AList.delete xid (held_by m)\<rparr>"
  let ?rs = "map fst (holdings m xid)"
  have m': "m' = (fold (drop_holder xid) ?rs ?m)\<lparr>released := released (fold (drop_holder xid) ?rs ?m) + length ?rs\<rparr>"
    using assms(2) unfolding release_all_def Let_def by auto
  have e: "holders (entry_of m' r) = (if r \<in> set ?rs then AList.delete xid (holders (entry_of m r))
      else holders (entry_of m r))" for r
    by (simp add: m' drop_holders)
  have g: "holdings m' x = (if x = xid then [] else holdings m x)" for x
    by (simp add: m' drop_holders) (simp add: holdings_def AList.delete_conv')
  show hs: "holds m' r x = (if x = xid then None else holds m r x)" for r x
  proof (cases "r \<in> set ?rs")
    case False
    then have "held m xid r = None" by (simp add: held_def map_of_eq_None_iff)
    then have "holds m r xid = None" using assms(1) by (simp add: lock_ok_def)
    moreover have "holds m' r = holds m r" using False by (simp add: holds_def e)
    ultimately show ?thesis by simp
  qed (simp add: holds_def e AList.delete_conv')
  show he: "held m' x r = (if x = xid then None else held m x r)" for r x by (simp add: held_def g)
  have "distinct (map fst (holders (entry_of m' r)))" for r
    using assms(1) by (auto simp: e lock_ok_def AList.distinct_delete)
  then show "lock_ok m'" using assms(1) by (auto simp: lock_ok_def hs he split: if_splits)
  have "victims (drop_holder xid r q) = victims q" for r q
    by (auto simp: drop_holder_def set_entry_def Let_def split: option.splits)
  then have "victims (fold (drop_holder xid) rs q) = victims q" for rs q by (induction rs arbitrary: q) auto
  then show "xid \<notin> victims m'" by (simp add: m')
qed

lemma lock_step_ok: "lock_step m m' \<Longrightarrow> lock_ok m \<Longrightarrow> lock_ok m'"
proof (induction rule: lock_step.induct)
  case (start m req expired)
  obtain m' out where r: "acquire_start m req expired = (m', out)" by fastforce
  from acquire_start_cases [OF r] start show ?case using r same_holders_ok grant_ok by fastforce
next
  case (wake req m expired)
  obtain m' out where r: "acquire_wake m req expired = (m', out)" by fastforce
  from acquire_wake_cases [OF r] wake(2) show ?case using r same_holders_ok grant_ok by fastforce
next
  case (release m xid)
  obtain m' n where r: "release_all m xid = (m', n)" by fastforce
  from release_all_effect(3) [OF release r] r show ?case by simp
qed


section \<open>The cycle search is sound and complete\<close>

text \<open>A waiter waits for every holder it conflicts with; a cycle of that relation is a deadlock.\<close>

definition waits_for :: "lock_manager \<Rightarrow> nat \<Rightarrow> nat \<Rightarrow> bool" where
  "waits_for m a b \<longleftrightarrow> (\<exists>r e w. (r, e) \<in> set (table m) \<and> w \<in> set (waiters e) \<and> lr_transaction_id w = a \<and>
     b \<in> set (conflicts_with e a (lr_mode w)))"

definition deadlock :: "lock_manager \<Rightarrow> nat list \<Rightarrow> bool" where
  "deadlock m c \<longleftrightarrow> c \<noteq> [] \<and> distinct c \<and> successively (waits_for m) c \<and> waits_for m (last c) (hd c)"

lemma add_edges_successors:
  "b \<in> set (successors (add_edges w bs g) a) \<longleftrightarrow> b \<in> set (successors g a) \<or> a = w \<and> b \<in> set bs"
  by (auto simp: add_edges_def successors_def AList.update_conv' split: option.splits)

lemma entry_edges_successors:
  "b \<in> set (successors (entry_edges e g) a) \<longleftrightarrow> b \<in> set (successors g a) \<or>
     (\<exists>w\<in>set (waiters e). lr_transaction_id w = a \<and> b \<in> set (conflicts_with e a (lr_mode w)))"
proof -
  have "b \<in> set (successors (fold (\<lambda>w g. add_edges (lr_transaction_id w)
          (conflicts_with e (lr_transaction_id w) (lr_mode w)) g) ws g) a) \<longleftrightarrow> b \<in> set (successors g a) \<or>
     (\<exists>w\<in>set ws. lr_transaction_id w = a \<and> b \<in> set (conflicts_with e a (lr_mode w)))" for ws
    by (induction ws arbitrary: g) (auto simp: add_edges_successors)
  then show ?thesis by (simp add: entry_edges_def)
qed

lemma build_graph_waits_for: "b \<in> set (successors (build_graph m) a) \<longleftrightarrow> waits_for m a b"
proof -
  have "b \<in> set (successors (fold (\<lambda>(_, e) g. entry_edges e g) es g) a) \<longleftrightarrow> b \<in> set (successors g a) \<or>
     (\<exists>(r, e)\<in>set es. \<exists>w\<in>set (waiters e). lr_transaction_id w = a \<and> b \<in> set (conflicts_with e a (lr_mode w)))"
    for es :: "(string \<times> lock_entry) list" and g
    by (induction es arbitrary: g) (auto simp: entry_edges_successors)
  moreover have "successors [] a = []" by (simp add: successors_def)
  ultimately have "b \<in> set (successors (build_graph m) a) \<longleftrightarrow> (\<exists>(r, e)\<in>set (table m).
     \<exists>w\<in>set (waiters e). lr_transaction_id w = a \<and> b \<in> set (conflicts_with e a (lr_mode w)))"
    by (simp add: build_graph_def)
  then show ?thesis unfolding waits_for_def by auto
qed

abbreviation (input) edge :: "graph \<Rightarrow> nat \<Rightarrow> nat \<Rightarrow> bool" where
  "edge g a b \<equiv> b \<in> set (successors g a)"

lemma walk_sound:
  "walk g path n = c \<Longrightarrow> c \<noteq> [] \<Longrightarrow> distinct path \<Longrightarrow> successively (edge g) (path @ [n]) \<Longrightarrow>
     distinct c \<and> successively (edge g) c \<and> edge g (last c) (hd c)"
  "walk_each g path ns = c \<Longrightarrow> c \<noteq> [] \<Longrightarrow> distinct path \<Longrightarrow> successively (edge g) path \<Longrightarrow> path \<noteq> [] \<Longrightarrow>
     set ns \<subseteq> set (successors g (last path)) \<Longrightarrow>
     distinct c \<and> successively (edge g) c \<and> edge g (last c) (hd c)"
proof (induction g path n and g path ns arbitrary: c and c rule: walk_walk_each.induct)
  case (1 g path n)
  show ?case
  proof (cases "n \<in> set path")
    case True
    let ?c = "dropWhile (\<lambda>x. x \<noteq> n) path"
    have c: "c = ?c" using True 1(2) by (simp add: walk.simps)
    have p: "path = takeWhile (\<lambda>x. x \<noteq> n) path @ ?c" by simp
    have ne: "?c \<noteq> []" using True by (simp add: dropWhile_eq_Nil_conv)
    have "hd ?c = n" using hd_dropWhile [OF ne] by simp
    moreover have "last ?c = last path" using last_appendR [OF ne] p by metis
    moreover have "successively (edge g) path" "edge g (last path) n"
      using 1(5) True by (auto simp: successively_append_iff)
    moreover have "distinct ?c" using 1(4) p by (metis distinct_append)
    moreover have "successively (edge g) ?c"
      using \<open>successively (edge g) path\<close> p by (metis successively_append_iff)
    ultimately show ?thesis by (simp add: c)
  next
    case False
    then show ?thesis using 1 by (auto simp: walk.simps [of g path n])
  qed
next
  case (2 g path)
  then show ?case by simp
next
  case (3 g path n ns)
  show ?case
  proof (cases "walk g path n = []")
    case True
    then show ?thesis using 3 by (simp add: Let_def)
  next
    case False
    then show ?thesis using 3 by (simp add: Let_def successively_append_iff)
  qed
qed

lemma walk_each_Nil: "walk_each g path ns = [] \<longleftrightarrow> (\<forall>n\<in>set ns. walk g path n = [])"
  by (induction ns) (auto simp: Let_def)

lemma walk_complete:
  assumes "walk g path n = []" and "distinct path" and "successively (edge g) (n # vs)"
  shows "distinct (path @ n # vs)"
  using assms
proof (induction vs arbitrary: path n)
  case Nil
  then have "n \<notin> set path" by (auto simp: walk.simps [of g path n] split: if_splits)
  then show ?case using Nil by simp
next
  case (Cons v vs)
  have n: "n \<notin> set path" using Cons.prems(1) by (auto simp: walk.simps [of g path n] split: if_splits)
  then have "walk_each g (path @ [n]) (successors g n) = []" using Cons.prems(1) by (simp add: walk.simps)
  then have "walk g (path @ [n]) v = []" using Cons.prems(3) by (simp add: walk_each_Nil)
  then show ?case using Cons.IH [of "path @ [n]" v] Cons.prems n by simp
qed

lemma rtranclp_successively:
  "r\<^sup>*\<^sup>* a b \<Longrightarrow> \<exists>vs. successively r (a # vs) \<and> last (a # vs) = b"
proof (induction rule: rtranclp_induct)
  case base
  then show ?case by (intro exI [of _ "[]"]) simp
next
  case (step b c)
  then obtain vs where "successively r (a # vs)" "last (a # vs) = b" by blast
  then have "successively r ((a # vs) @ [c])" using step(2) by (subst successively_append_iff) auto
  then show ?case by (intro exI [of _ "vs @ [c]"]) simp
qed

lemma find_cycle_sound: "find_cycle m x \<noteq> [] \<Longrightarrow> deadlock m (find_cycle m x)"
  using walk_sound(1) [of "build_graph m" "[]" x "find_cycle m x"]
  by (simp add: find_cycle_def deadlock_def build_graph_waits_for)

lemma find_cycle_complete:
  assumes "find_cycle m x = []" and "(waits_for m)\<^sup>*\<^sup>* x y"
  shows "\<not> (waits_for m)\<^sup>+\<^sup>+ y y"
proof
  let ?E = "edge (build_graph m)"
  have E: "?E = waits_for m" by (simp add: fun_eq_iff build_graph_waits_for)
  assume "(waits_for m)\<^sup>+\<^sup>+ y y"
  then obtain z where z: "waits_for m y z" "(waits_for m)\<^sup>*\<^sup>* z y" by (metis tranclpD)
  obtain vs where vs: "successively (waits_for m) (x # vs)" "last (x # vs) = y"
    using rtranclp_successively [OF assms(2)] by blast
  obtain us where us: "successively (waits_for m) (z # us)" "last (z # us) = y"
    using rtranclp_successively [OF z(2)] by blast
  have "successively (waits_for m) ((x # vs) @ (z # us))"
    using vs us z(1) by (subst successively_append_iff) auto
  then have "successively ?E (x # vs @ z # us)" unfolding E by simp
  from walk_complete [OF assms(1) [unfolded find_cycle_def] _ this]
  have "distinct ((x # vs) @ (z # us))" by simp
  moreover have "y \<in> set (x # vs)" "y \<in> set (z # us)"
    using vs(2) us(2) last_in_set [of "x # vs"] last_in_set [of "z # us"] by auto
  ultimately show False by auto
qed

lemma build_graph_table: "table m' = table m \<Longrightarrow> build_graph m' = build_graph m"
  by (simp add: build_graph_def)

lemma detect_spec:
  assumes "detect m xid = (m', b)"
  shows "table m' = table m"
    and "\<not> b \<Longrightarrow> find_cycle m xid \<noteq> [] \<Longrightarrow> Max (set (find_cycle m xid)) \<in> victims m'"
    and "b \<Longrightarrow> find_cycle m xid \<noteq> [] \<and> Max (set (find_cycle m xid)) = xid"
  using assms by (auto simp: detect_def choose_victim_def Let_def split: if_splits)

section \<open>Properties\<close>

text \<open>
  C23: In every interleaving of \<open>acquire\<close> segments and \<open>release_all\<close> calls from an empty manager, the
  lock table and the per-transaction index agree, and a resource held in exclusive mode has no
  other holder.
\<close>

theorem locks_mutual_exclusion:
  assumes "lock_step\<^sup>*\<^sup>* locks_new m"
  shows "holds m r x = held m x r \<and> (holds m r x = Some EXCLUSIVE \<longrightarrow> holds m r y \<noteq> None \<longrightarrow> y = x)"
proof -
  have "lock_ok m" using assms
  proof (induction rule: rtranclp_induct)
    case base
    then show ?case by (simp add: lock_ok_def holds_def held_def entry_of_def holdings_def locks_new_def)
  qed (rule lock_step_ok)
  then have agree: "\<And>r x. holds m r x = held m x r"
    and compat: "\<And>r x y a b. holds m r x = Some a \<Longrightarrow> holds m r y = Some b \<Longrightarrow> x \<noteq> y \<Longrightarrow> compatible a b"
    unfolding lock_ok_def by blast+
  have "holds m r x = Some EXCLUSIVE \<longrightarrow> holds m r y \<noteq> None \<longrightarrow> y = x"
    using compat [of r x EXCLUSIVE y] by (auto simp: compatible_SHARED)
  with agree show ?thesis by blast
qed

definition demo_request :: "nat \<Rightarrow> char \<Rightarrow> lock_request" where
  "demo_request x c = \<lparr>lr_transaction_id = x, lr_resource = [c], lr_mode = EXCLUSIVE\<rparr>"

definition demo_locked :: lock_manager where
  "demo_locked = fst (acquire_start locks_new (demo_request 1 CHR ''a'') False)"

lemma demo_locked_eval:
  "acquire_start locks_new (demo_request 1 CHR ''a'') False = (demo_locked, Granted)"
  "demo_locked = \<lparr>table = [(''a'', \<lparr>holders = [(1, EXCLUSIVE)], waiters = []\<rparr>)],
     held_by = [(1, [(''a'', EXCLUSIVE)])], victims = {}, granted = 1, released = 0, waits = 0, timeouts = 0,
     deadlocks = 0\<rparr>"
  by (simp_all add: demo_locked_def acquire_start_def locks_new_def demo_request_def already_holds_def
      holdings_def entry_of_def set_entry_def conflicts_with_def grant_def MAX_LOCKS_PER_TRANSACTION_def Let_def)

theorem locks_mutual_exclusion_witness:
  "lock_step\<^sup>*\<^sup>* locks_new demo_locked \<and> holds demo_locked ''a'' 1 = Some EXCLUSIVE \<and>
   holds demo_locked ''a'' 1 = held demo_locked 1 ''a''"
proof (intro conjI)
  show s: "lock_step\<^sup>*\<^sup>* locks_new demo_locked"
    unfolding demo_locked_def by (intro r_into_rtranclp lock_step.start)
  show "holds demo_locked ''a'' 1 = held demo_locked 1 ''a''" using locks_mutual_exclusion [OF s] by blast
  show "holds demo_locked ''a'' 1 = Some EXCLUSIVE" by (simp add: holds_def demo_locked_eval entry_of_def)
qed

text \<open>
  In a consistent manager \<open>release_all\<close> takes every lock of the transaction away, from the table and
  from the index, clears its victim mark, and leaves the locks of every other transaction as they
  were.
\<close>

theorem release_all_exact:
  assumes "lock_ok m" and "release_all m xid = (m', n)"
  shows "holds m' r xid = None \<and> held m' xid r = None \<and> xid \<notin> victims m' \<and>
    (x \<noteq> xid \<longrightarrow> holds m' r x = holds m r x \<and> held m' x r = held m x r) \<and> lock_ok m'"
  using release_all_effect [OF assms] by simp

theorem release_all_exact_witness:
  "lock_ok locks_new \<and> release_all locks_new 1 = (locks_new, 0) \<and> holds locks_new ''a'' 1 = None"
proof -
  have ok: "lock_ok locks_new"
    by (simp add: lock_ok_def holds_def held_def entry_of_def holdings_def locks_new_def)
  moreover have r: "release_all locks_new 1 = (locks_new, 0)"
    by (simp add: release_all_def locks_new_def holdings_def)
  ultimately show ?thesis using release_all_exact [OF ok r, of "''a''" 2] by simp
qed

text \<open>
  A request granted by the first segment of \<open>acquire\<close> is held at the requested strength and
  conflicts with nobody; any other outcome (waiting, timeout, deadlock) leaves every lock of every
  transaction as it was.
\<close>

theorem acquire_all_or_nothing:
  assumes "lock_ok m" and "acquire_start m req expired = (m', out)"
  shows "(out \<noteq> Granted \<longrightarrow> holds m' = holds m \<and> held m' = held m) \<and>
    (out = Granted \<longrightarrow> holds m' (lr_resource req) (lr_transaction_id req) \<in> {Some EXCLUSIVE, Some (lr_mode req)}) \<and>
    lock_ok m'"
proof -
  let ?x = "lr_transaction_id req" and ?r = "lr_resource req"
  have same: "holds m1 = holds m \<and> held m1 = held m" if "same_holders m m1" for m1
    using that by (simp add: same_holders_def holds_def held_def fun_eq_iff)
  have ok: "lock_ok m'" using lock_step_ok [OF lock_step.start [of m req expired] assms(1)] assms(2) by simp
  note cases = acquire_start_cases [OF assms(2)]
  have other: "holds m' = holds m \<and> held m' = held m" if out: "out \<noteq> Granted"
    using cases
  proof
    assume "\<exists>m1. same_holders m m1 \<and> grant m1 req = (m', out) \<and> conflicts_with (entry_of m1 ?r) ?x (lr_mode req) = []"
    then obtain m1 where "same_holders m m1" "grant m1 req = (m', out)" by blast
    then have "same_holders m m'" using grant_cases [of m1 req m' out] out same_holders_trans by blast
    then show ?thesis by (rule same)
  qed (use same in blast)
  have got: "holds m' ?r ?x \<in> {Some EXCLUSIVE, Some (lr_mode req)}" if out: "out = Granted"
    using cases
  proof
    assume "(out \<noteq> Granted \<or> already_holds m ?x ?r (lr_mode req)) \<and> same_holders m m'"
    then have "held m' ?x ?r \<in> {Some EXCLUSIVE, Some (lr_mode req)}"
      using out same [of m'] by (simp add: already_holds_def held_def split: option.splits)
    then show ?thesis using ok by (simp add: lock_ok_def)
  next
    assume "\<exists>m1. same_holders m m1 \<and> grant m1 req = (m', out) \<and> conflicts_with (entry_of m1 ?r) ?x (lr_mode req) = []"
    then obtain m1 where "grant m1 req = (m', out)" by blast
    then show ?thesis using grant_cases [of m1 req m' out] out ok by (auto simp: holds_def AList.update_conv')
  qed
  show ?thesis using other got ok by blast
qed

theorem acquire_all_or_nothing_witness:
  "lock_ok locks_new \<and> acquire_start locks_new (demo_request 1 CHR ''a'') False = (demo_locked, Granted) \<and>
   holds demo_locked ''a'' 1 = Some EXCLUSIVE"
proof -
  have ok: "lock_ok locks_new"
    by (simp add: lock_ok_def holds_def held_def entry_of_def holdings_def locks_new_def)
  show ?thesis
    using ok demo_locked_eval(1) acquire_all_or_nothing [OF ok demo_locked_eval(1)] by (simp add: demo_request_def)
qed


text \<open>Two transactions that each wait for the other's resource.\<close>

definition demo_deadlock :: lock_manager where
  "demo_deadlock = locks_new\<lparr>table :=
     [(''a'', \<lparr>holders = [(1, EXCLUSIVE)], waiters = [demo_request 2 CHR ''a'']\<rparr>),
      (''b'', \<lparr>holders = [(2, EXCLUSIVE)], waiters = [demo_request 1 CHR ''b'']\<rparr>)]\<rparr>"


end
