(* ===== verification/Buffer.thy ===== *)
theory Buffer
  imports Base "HOL-Library.AList"
begin

text \<open>
  The buffer pool (\<open>engine/storage/buffer.py\<close>): frames, least-recently-used eviction, deferred
  writes. The two callbacks \<open>read_through\<close> and \<open>write_through\<close> are arguments, and act on a device
  of type \<open>'d\<close>. The pool keeps whatever it has changed when a callback raises, so an operation
  returns its state beside the result. \<open>_resident\<close> is an association list, least recently used
  first; \<open>_free\<close> is a list with its top first. Load times and tracer events are left out.

  The locale \<open>backing_store\<close> states what the pool needs of the callbacks; under it, fetching and
  storing refine a plain map from page ids to page images.
\<close>

definition DEFAULT_POOL_FRAMES :: nat where "DEFAULT_POOL_FRAMES = 128"
definition MIN_POOL_FRAMES :: nat where "MIN_POOL_FRAMES = 2"

record frame =
  frame_id :: nat
  f_page_id :: "nat option"
  f_data :: bytes
  f_dirty :: bool
  f_reads :: nat
  f_writes :: nat

definition frame_new :: "nat \<Rightarrow> frame" where
  "frame_new i = \<lparr>frame_id = i, f_page_id = None, f_data = [], f_dirty = False, f_reads = 0, f_writes = 0\<rparr>"

record pool =
  capacity :: nat
  pool_page_size :: nat
  frames :: "frame list"
  free_frames :: "nat list"
  resident :: "(nat \<times> nat) list"
  hits :: nat
  misses :: nat
  evictions :: nat
  dirty_evictions :: nat
  writes_absorbed :: nat
  pool_flushes :: nat
  pages_flushed :: nat

definition pool_new :: "nat \<Rightarrow> nat \<Rightarrow> pool res" where
  "pool_new n cap =
     guard_res (cap \<ge> MIN_POOL_FRAMES) ValueError
       (Inr \<lparr>capacity = cap, pool_page_size = n, frames = map frame_new [0..<cap], free_frames = [0..<cap],
             resident = [], hits = 0, misses = 0, evictions = 0, dirty_evictions = 0, writes_absorbed = 0,
             pool_flushes = 0, pages_flushed = 0\<rparr>)"

definition contains :: "pool \<Rightarrow> nat \<Rightarrow> bool" where
  "contains pl pid \<longleftrightarrow> map_of (resident pl) pid \<noteq> None"

definition dirty_pages :: "pool \<Rightarrow> nat" where
  "dirty_pages pl = length (filter f_dirty (frames pl))"

definition move_to_end :: "nat \<Rightarrow> (nat \<times> nat) list \<Rightarrow> (nat \<times> nat) list" where
  "move_to_end pid xs = (case map_of xs pid of None \<Rightarrow> xs | Some i \<Rightarrow> AList.delete pid xs @ [(pid, i)])"

definition set_frame :: "nat \<Rightarrow> frame \<Rightarrow> pool \<Rightarrow> pool" where
  "set_frame i f pl = pl\<lparr>frames := (frames pl)[i := f]\<rparr>"

type_synonym ('d, 'a) pool_result = "(pool \<times> 'd) \<times> 'a res"
type_synonym 'd writer = "nat \<Rightarrow> bytes \<Rightarrow> 'd \<Rightarrow> 'd res"
type_synonym 'd reader = "nat \<Rightarrow> 'd \<Rightarrow> bytes res"

section \<open>Admission and eviction\<close>

definition evict :: "'d writer \<Rightarrow> pool \<Rightarrow> 'd \<Rightarrow> ('d, nat) pool_result" where
  "evict write_through pl d =
     (case resident pl of
        [] \<Rightarrow> ((pl, d), Inl KeyError)
      | (victim, i) # rest \<Rightarrow>
          let f = frames pl ! i;
              pl = pl\<lparr>resident := rest, evictions := evictions pl + 1\<rparr>;
              f' = f\<lparr>f_page_id := None, f_dirty := False\<rparr>
          in if f_dirty f
             then case write_through victim (f_data f) d of
                    Inl e \<Rightarrow> ((pl, d), Inl e)
                  | Inr d \<Rightarrow> ((set_frame i f' (pl\<lparr>dirty_evictions := dirty_evictions pl + 1\<rparr>), d), Inr i)
             else ((set_frame i f' pl, d), Inr i))"

definition take_frame :: "'d writer \<Rightarrow> pool \<Rightarrow> 'd \<Rightarrow> ('d, nat) pool_result" where
  "take_frame write_through pl d =
     (case free_frames pl of
        i # rest \<Rightarrow> ((pl\<lparr>free_frames := rest\<rparr>, d), Inr i)
      | [] \<Rightarrow> evict write_through pl d)"

text \<open>\<open>_admit\<close> returns the frame's index.\<close>

definition admit :: "'d writer \<Rightarrow> nat \<Rightarrow> bytes \<Rightarrow> bool \<Rightarrow> pool \<Rightarrow> 'd \<Rightarrow> ('d, nat) pool_result" where
  "admit write_through pid raw dirty pl d =
     (case take_frame write_through pl d of
        (st, Inl e) \<Rightarrow> (st, Inl e)
      | ((pl, d), Inr i) \<Rightarrow>
          let f = (frames pl ! i)\<lparr>f_page_id := Some pid, f_data := raw, f_dirty := dirty, f_reads := 0, f_writes := 0\<rparr>;
              pl = set_frame i f pl
          in ((pl\<lparr>resident := AList.update pid i (resident pl)\<rparr>, d), Inr i))"

section \<open>The hot path\<close>

definition fetch :: "'d reader \<Rightarrow> 'd writer \<Rightarrow> nat \<Rightarrow> pool \<Rightarrow> 'd \<Rightarrow> ('d, bytes) pool_result" where
  "fetch read_through write_through pid pl d =
     (case map_of (resident pl) pid of
        Some i \<Rightarrow>
          let f = frames pl ! i; f' = f\<lparr>f_reads := f_reads f + 1\<rparr>
          in (((set_frame i f' pl)\<lparr>resident := move_to_end pid (resident pl), hits := hits pl + 1\<rparr>, d), Inr (f_data f'))
      | None \<Rightarrow>
          let pl = pl\<lparr>misses := misses pl + 1\<rparr>
          in case read_through pid d of
               Inl e \<Rightarrow> ((pl, d), Inl e)
             | Inr raw \<Rightarrow>
                 case admit write_through pid raw False pl d of
                   (st, Inl e) \<Rightarrow> (st, Inl e)
                 | ((pl, d), Inr i) \<Rightarrow>
                     let f = frames pl ! i; f' = f\<lparr>f_reads := f_reads f + 1\<rparr>
                     in ((set_frame i f' pl, d), Inr (f_data f')))"

definition store :: "'d writer \<Rightarrow> nat \<Rightarrow> bytes \<Rightarrow> pool \<Rightarrow> 'd \<Rightarrow> ('d, unit) pool_result" where
  "store write_through pid raw pl d =
     (if length raw \<noteq> pool_page_size pl then ((pl, d), Inl ValueError)
      else case map_of (resident pl) pid of
        Some i \<Rightarrow>
          let f = frames pl ! i;
              pl = (if f_dirty f then pl\<lparr>writes_absorbed := writes_absorbed pl + 1\<rparr> else pl);
              f' = f\<lparr>f_data := raw, f_dirty := True, f_writes := f_writes f + 1\<rparr>
          in (((set_frame i f' pl)\<lparr>resident := move_to_end pid (resident pl)\<rparr>, d), Inr ())
      | None \<Rightarrow>
          case admit write_through pid raw True pl d of
            (st, Inl e) \<Rightarrow> (st, Inl e)
          | ((pl, d), Inr i) \<Rightarrow>
              let f = frames pl ! i
              in ((set_frame i (f\<lparr>f_writes := f_writes f + 1\<rparr>) pl, d), Inr ()))"

definition invalidate :: "nat \<Rightarrow> pool \<Rightarrow> pool" where
  "invalidate pid pl =
     (case map_of (resident pl) pid of
        None \<Rightarrow> pl
      | Some i \<Rightarrow>
          let pl = pl\<lparr>resident := AList.delete pid (resident pl)\<rparr>;
              f' = (frames pl ! i)\<lparr>f_page_id := None, f_dirty := False, f_reads := 0, f_writes := 0\<rparr>
          in (set_frame i f' pl)\<lparr>free_frames := i # free_frames pl\<rparr>)"

section \<open>Durability\<close>

text \<open>The loop of \<open>flush\<close> over the resident pages, with the number written so far.\<close>

fun flush_loop :: "'d writer \<Rightarrow> (nat \<times> nat) list \<Rightarrow> nat \<Rightarrow> pool \<Rightarrow> 'd \<Rightarrow> ('d, nat) pool_result" where
  "flush_loop write_through [] written pl d = ((pl, d), Inr written)"
| "flush_loop write_through ((pid, i) # rest) written pl d =
     (let f = frames pl ! i
      in if \<not> f_dirty f then flush_loop write_through rest written pl d
         else case write_through pid (f_data f) d of
                Inl e \<Rightarrow> ((pl, d), Inl e)
              | Inr d \<Rightarrow> flush_loop write_through rest (written + 1) (set_frame i (f\<lparr>f_dirty := False\<rparr>) pl) d)"

definition pool_flush :: "'d writer \<Rightarrow> pool \<Rightarrow> 'd \<Rightarrow> ('d, nat) pool_result" where
  "pool_flush write_through pl d =
     (case flush_loop write_through (resident pl) 0 pl d of
        (st, Inl e) \<Rightarrow> (st, Inl e)
      | ((pl, d), Inr written) \<Rightarrow>
          ((pl\<lparr>pool_flushes := pool_flushes pl + 1, pages_flushed := pages_flushed pl + written\<rparr>, d), Inr written))"

definition drop_all :: "pool \<Rightarrow> pool" where
  "drop_all pl =
     pl\<lparr>frames := map (\<lambda>f. f\<lparr>f_page_id := None, f_dirty := False, f_reads := 0, f_writes := 0\<rparr>) (frames pl),
        resident := [], free_frames := [0..<capacity pl]\<rparr>"

definition clear_pool :: "'d writer \<Rightarrow> bool \<Rightarrow> pool \<Rightarrow> 'd \<Rightarrow> ('d, unit) pool_result" where
  "clear_pool write_through do_flush pl d =
     (if do_flush
      then case pool_flush write_through pl d of
             (st, Inl e) \<Rightarrow> (st, Inl e)
           | ((pl, d), Inr _) \<Rightarrow> ((drop_all pl, d), Inr ())
      else ((drop_all pl, d), Inr ()))"


section \<open>The invariant\<close>

text \<open>
  Every frame index is resident for one page, free, or in the list \<open>taken\<close> of those just taken out.
\<close>

definition frames_ok :: "pool \<Rightarrow> nat list \<Rightarrow> bool" where
  "frames_ok pl taken \<longleftrightarrow> length (frames pl) = capacity pl \<and> 0 < capacity pl \<and> distinct (map fst (resident pl)) \<and>
     distinct (map snd (resident pl) @ free_frames pl @ taken) \<and>
     set (map snd (resident pl) @ free_frames pl @ taken) = {..<capacity pl} \<and>
     (\<forall>(p, i)\<in>set (resident pl). f_page_id (frames pl ! i) = Some p \<and> length (f_data (frames pl ! i)) = pool_page_size pl) \<and>
     (\<forall>i\<in>set (free_frames pl). f_page_id (frames pl ! i) = None \<and> \<not> f_dirty (frames pl ! i))"

text \<open>What a reader above the pool sees: the frame of a resident page, the device otherwise.\<close>

definition pool_view :: "'d reader \<Rightarrow> pool \<Rightarrow> 'd \<Rightarrow> nat \<rightharpoonup> bytes" where
  "pool_view rd pl d p =
     (case map_of (resident pl) p of
        Some i \<Rightarrow> Some (f_data (frames pl ! i))
      | None \<Rightarrow> case rd p d of Inl _ \<Rightarrow> None | Inr b \<Rightarrow> Some b)"

text \<open>A frame that is not dirty agrees with the device.\<close>

definition in_sync :: "'d reader \<Rightarrow> pool \<Rightarrow> 'd \<Rightarrow> bool" where
  "in_sync rd pl d \<longleftrightarrow> (\<forall>(p, i)\<in>set (resident pl). \<not> f_dirty (frames pl ! i) \<longrightarrow> rd p d = Inr (f_data (frames pl ! i)))"

lemma map_leI: "(\<And>x y. m x = Some y \<Longrightarrow> m' x = Some y) \<Longrightarrow> m \<subseteq>\<^sub>m m'"
  by (auto simp: map_le_def)

lemma map_leD: "m \<subseteq>\<^sub>m m' \<Longrightarrow> m x = Some y \<Longrightarrow> m' x = Some y"
  by (metis domI map_le_def)

lemma update_new: "map_of xs p = None \<Longrightarrow> AList.update p i xs = xs @ [(p, i)]"
  by (induction xs) (auto split: if_splits)

lemma set_move_to_end: "distinct (map fst xs) \<Longrightarrow> set (move_to_end p xs) = set xs"
  by (auto simp: move_to_end_def AList.delete_eq split: option.splits dest: map_of_SomeD eq_key_imp_eq_value)

lemma map_of_move_to_end [simp]: "distinct (map fst xs) \<Longrightarrow> map_of (move_to_end p xs) = map_of xs"
  by (auto simp: move_to_end_def map_of_append AList.delete_conv' fun_eq_iff map_add_def split: option.splits)

lemma distinct_move_to_end:
  assumes "distinct (map fst xs)"
  shows "distinct (map fst (move_to_end p xs))" and "distinct (map snd xs) \<Longrightarrow> distinct (map snd (move_to_end p xs))"
proof -
  have "distinct (map g (filter P xs))" if "distinct (map g xs)" for g :: "nat \<times> nat \<Rightarrow> nat" and P
    using that by (induction xs) auto
  then show "distinct (map fst (move_to_end p xs))" "distinct (map snd xs) \<Longrightarrow> distinct (map snd (move_to_end p xs))"
    using assms by (auto simp: move_to_end_def AList.delete_eq split: option.splits dest!: map_of_SomeD)
      (metis fst_conv inj_on_contraD distinct_map snd_conv)
qed

lemma frames_okD:
  assumes "frames_ok pl taken"
  shows "distinct (map fst (resident pl))" and "distinct (map snd (resident pl))"
    and "map_of (resident pl) p = Some i \<Longrightarrow> i < length (frames pl)"
    and "map_of (resident pl) p = Some i \<Longrightarrow> length (f_data (frames pl ! i)) = pool_page_size pl"
    and "map_of (resident pl) p = Some i \<Longrightarrow> (p, i) \<in> set (resident pl)"
proof -
  show "distinct (map fst (resident pl))" and "distinct (map snd (resident pl))" using assms by (auto simp: frames_ok_def)
  assume "map_of (resident pl) p = Some i"
  then have m: "(p, i) \<in> set (resident pl)" by (rule map_of_SomeD)
  then show "(p, i) \<in> set (resident pl)" .
  have "i \<in> set (map snd (resident pl) @ free_frames pl @ taken)" using m by force
  then show "i < length (frames pl)" using assms unfolding frames_ok_def by auto
  show "length (f_data (frames pl ! i)) = pool_page_size pl" using m assms by (auto simp: frames_ok_def)
qed

lemma resident_inj:
  "frames_ok pl taken \<Longrightarrow> (p, i) \<in> set (resident pl) \<Longrightarrow> (q, i) \<in> set (resident pl) \<Longrightarrow> p = q"
  by (metis frames_okD(2) distinct_map inj_on_contraD snd_conv fst_conv)

text \<open>A change of one resident frame's bytes, flags and counters, or of the recency order.\<close>

lemma frames_ok_touch:
  assumes ok: "frames_ok pl []" and m: "map_of (resident pl) p = Some i"
    and f: "f_page_id f = Some p" "length (f_data f) = pool_page_size pl"
    and pl': "capacity pl' = capacity pl" "pool_page_size pl' = pool_page_size pl" "frames pl' = (frames pl)[i := f]"
      "free_frames pl' = free_frames pl" "set (resident pl') = set (resident pl)" "distinct (map fst (resident pl'))"
      "distinct (map snd (resident pl'))"
  shows "frames_ok pl' []"
proof -
  note d = frames_okD [OF ok]
  have s: "set (map snd (resident pl')) = set (map snd (resident pl))" using pl'(5) by simp
  have fr: "i \<notin> set (free_frames pl)" using ok d(5) [OF m] by (force simp: frames_ok_def)
  have "f_page_id (frames pl' ! j) = Some q \<and> length (f_data (frames pl' ! j)) = pool_page_size pl'"
    if "(q, j) \<in> set (resident pl)" for q j
  proof (cases "j = i")
    case True
    then have "q = p" using resident_inj [OF ok] that d(5) [OF m] by blast
    then show ?thesis using True f pl' d(3) [OF m] by simp
  next
    case False
    then show ?thesis using that ok pl' by (auto simp: frames_ok_def)
  qed
  moreover have "f_page_id (frames pl' ! j) = None \<and> \<not> f_dirty (frames pl' ! j)" if "j \<in> set (free_frames pl)" for j
  proof -
    have "j \<noteq> i" using that fr by auto
    then have "frames pl' ! j = frames pl ! j" using pl'(3) by simp
    then show ?thesis using that ok by (simp add: frames_ok_def)
  qed
  ultimately show ?thesis using ok pl' s unfolding frames_ok_def by auto
qed

lemma pool_view_touch:
  assumes "frames_ok pl []" and "map_of (resident pl) p = Some i" and "frames pl' = (frames pl)[i := f]"
    and "map_of (resident pl') = map_of (resident pl)"
  shows "pool_view rd pl' d = (pool_view rd pl d)(p \<mapsto> f_data f)"
proof
  fix q
  show "pool_view rd pl' d q = ((pool_view rd pl d)(p \<mapsto> f_data f)) q"
  proof (cases "q = p")
    case True
    then show ?thesis using assms frames_okD(3) [OF assms(1,2)] by (simp add: pool_view_def)
  next
    case False
    have "map_of (resident pl) q = Some j \<Longrightarrow> j \<noteq> i" for j
      using resident_inj [OF assms(1)] assms(2) False by (metis map_of_SomeD)
    then show ?thesis using assms False by (auto simp: pool_view_def split: option.splits)
  qed
qed


section \<open>The store below the pool\<close>

locale backing_store =
  fixes rd :: "'d reader" and wr :: "'d writer" and dev_ok :: "'d \<Rightarrow> bool" and psz :: nat
  assumes wr_ok: "dev_ok d \<Longrightarrow> length b = psz \<Longrightarrow> \<exists>d'. wr p b d = Inr d' \<and> dev_ok d' \<and> rd p d' = Inr b \<and>
      (\<forall>q c. q \<noteq> p \<longrightarrow> rd q d = Inr c \<longrightarrow> rd q d' = Inr c)"
    and rd_length: "dev_ok d \<Longrightarrow> rd p d = Inr b \<Longrightarrow> length b = psz"
begin

abbreviation view :: "pool \<Rightarrow> 'd \<Rightarrow> nat \<rightharpoonup> bytes" where
  "view \<equiv> pool_view rd"

definition store_ok :: "pool \<Rightarrow> 'd \<Rightarrow> nat list \<Rightarrow> bool" where
  "store_ok pl d taken \<longleftrightarrow> frames_ok pl taken \<and> pool_page_size pl = psz \<and> dev_ok d \<and> in_sync rd pl d"

lemma evict_ok:
  assumes ok: "store_ok pl d []" and free: "free_frames pl = []"
  shows "\<exists>pl' d' i. evict wr pl d = ((pl', d'), Inr i) \<and> store_ok pl' d' [i] \<and> view pl d \<subseteq>\<^sub>m view pl' d' \<and>
    resident pl' = tl (resident pl)"
proof -
  have fo: "frames_ok pl []" and dv: "dev_ok d" and sy: "in_sync rd pl d" and sz: "pool_page_size pl = psz"
    using ok by (auto simp: store_ok_def)
  obtain v i rest where res: "resident pl = (v, i) # rest"
    using fo free by (cases "resident pl") (auto simp: frames_ok_def)
  let ?f = "frames pl ! i"
  let ?f' = "?f\<lparr>f_page_id := None, f_dirty := False\<rparr>"
  have i: "i < length (frames pl)" and len: "length (f_data ?f) = psz"
    using frames_okD(3,4) [OF fo, of v i] res sz by simp_all
  have dist: "v \<notin> fst ` set rest" "i \<notin> snd ` set rest" using frames_okD(1,2) [OF fo] res by auto
  obtain d' where out: "evict wr pl d = ((pl'', d'), r) \<Longrightarrow> r = Inr i" 
    and dev': "dev_ok d'" and v: "rd v d' = Inr (f_data ?f)"
    and frame: "\<And>q c. q \<noteq> v \<Longrightarrow> rd q d = Inr c \<Longrightarrow> rd q d' = Inr c"
    and w: "f_dirty ?f \<longrightarrow> wr v (f_data ?f) d = Inr d'" "\<not> f_dirty ?f \<longrightarrow> d' = d" for pl'' r
  proof (cases "f_dirty ?f")
    case True
    from wr_ok [OF dv len, of v] obtain d' where "wr v (f_data ?f) d = Inr d'" "dev_ok d'" "rd v d' = Inr (f_data ?f)"
      "\<forall>q c. q \<noteq> v \<longrightarrow> rd q d = Inr c \<longrightarrow> rd q d' = Inr c" by blast
    then show ?thesis using that [of d'] True res by (auto simp: evict_def Let_def)
  next
    case False
    then have "rd v d = Inr (f_data ?f)" using sy res by (auto simp: in_sync_def)
    then show ?thesis using that [of d] False dv res by (auto simp: evict_def Let_def)
  qed
  define pl0 where "pl0 = pl\<lparr>resident := rest, evictions := evictions pl + 1\<rparr>"
  define pl' where "pl' = set_frame i ?f' (if f_dirty ?f then pl0\<lparr>dirty_evictions := dirty_evictions pl0 + 1\<rparr> else pl0)"
  have run: "evict wr pl d = ((pl', d'), Inr i)"
    using w by (simp add: evict_def res Let_def pl'_def pl0_def)
  have p: "frames pl' = (frames pl)[i := ?f']" "resident pl' = rest" "free_frames pl' = []" "capacity pl' = capacity pl"
    "pool_page_size pl' = pool_page_size pl"
    using free by (simp_all add: pl'_def pl0_def set_frame_def)
  have keep: "frames pl' ! j = frames pl ! j" if "(q, j) \<in> set rest" for q j
    using that dist(2) p(1) by (metis image_eqI nth_list_update_neq snd_conv)
  have "frames_ok pl' [i]"
    using fo res dist free keep unfolding frames_ok_def by (auto simp: p)
  moreover have "rd q d' = Inr (f_data (frames pl ! j))" if "(q, j) \<in> set rest" "\<not> f_dirty (frames pl ! j)" for q j
    using sy res that frame dist(1) by (force simp: in_sync_def)
  then have "in_sync rd pl' d'" using keep by (auto simp: in_sync_def p)
  moreover have "view pl d \<subseteq>\<^sub>m view pl' d'"
  proof (rule map_leI)
    fix q c assume q: "view pl d q = Some c"
    show "view pl' d' q = Some c"
    proof (cases "q = v")
      case True
      then have "map_of rest q = None" using dist(1) by (simp add: map_of_eq_None_iff)
      then show ?thesis using True q v res by (simp add: pool_view_def p)
    next
      case False
      then show ?thesis using q frame keep res
        by (auto simp: pool_view_def p split: option.splits sum.splits dest: map_of_SomeD)
    qed
  qed
  ultimately show ?thesis using run p dev' sz res by (auto simp: store_ok_def)
qed

lemma take_frame_ok:
  assumes ok: "store_ok pl d []"
  shows "\<exists>pl' d' i. take_frame wr pl d = ((pl', d'), Inr i) \<and> store_ok pl' d' [i] \<and> view pl d \<subseteq>\<^sub>m view pl' d' \<and>
    set (resident pl') \<subseteq> set (resident pl)"
proof (cases "free_frames pl")
  case Nil
  with evict_ok [OF ok] obtain pl' d' i where e: "evict wr pl d = ((pl', d'), Inr i)" "store_ok pl' d' [i]"
    "view pl d \<subseteq>\<^sub>m view pl' d'" "resident pl' = tl (resident pl)" by blast
  have "set (tl (resident pl)) \<subseteq> set (resident pl)" by (cases "resident pl") auto
  then show ?thesis using e Nil by (simp add: take_frame_def)
next
  case (Cons i rest)
  let ?pl = "pl\<lparr>free_frames := rest\<rparr>"
  have "frames_ok ?pl [i]" using ok Cons by (auto simp: store_ok_def frames_ok_def)
  then have "store_ok ?pl d [i]" using ok by (simp add: store_ok_def in_sync_def)
  moreover have "view ?pl d = view pl d" by (simp add: pool_view_def fun_eq_iff split: option.splits)
  ultimately show ?thesis using Cons by (simp add: take_frame_def)
qed

lemma admit_ok:
  assumes ok: "store_ok pl d []" and new: "map_of (resident pl) p = None" and len: "length raw = psz"
    and clean: "\<not> dirty \<Longrightarrow> rd p d = Inr raw"
  shows "\<exists>pl' d' i. admit wr p raw dirty pl d = ((pl', d'), Inr i) \<and> store_ok pl' d' [] \<and>
    (view pl d)(p \<mapsto> raw) \<subseteq>\<^sub>m view pl' d' \<and> map_of (resident pl') p = Some i \<and> f_data (frames pl' ! i) = raw"
proof -
  from take_frame_ok [OF ok] obtain pl1 d' i where t: "take_frame wr pl d = ((pl1, d'), Inr i)" "store_ok pl1 d' [i]"
    "view pl d \<subseteq>\<^sub>m view pl1 d'" "set (resident pl1) \<subseteq> set (resident pl)" by blast
  have new1: "map_of (resident pl1) p = None" using new t(4) by (auto simp: map_of_eq_None_iff)
  let ?f = "(frames pl1 ! i)\<lparr>f_page_id := Some p, f_data := raw, f_dirty := dirty, f_reads := 0, f_writes := 0\<rparr>"
  define pl' where "pl' = (set_frame i ?f pl1)\<lparr>resident := AList.update p i (resident pl1)\<rparr>"
  have fo: "frames_ok pl1 [i]" and sy: "in_sync rd pl1 d'" using t(2) by (simp_all add: store_ok_def)
  have run: "admit wr p raw dirty pl d = ((pl', d'), Inr i)" by (simp add: admit_def t(1) Let_def pl'_def set_frame_def)
  have q: "frames pl' = (frames pl1)[i := ?f]" "resident pl' = resident pl1 @ [(p, i)]" "free_frames pl' = free_frames pl1"
    "capacity pl' = capacity pl1" "pool_page_size pl' = pool_page_size pl1"
    by (simp_all add: pl'_def set_frame_def update_new [OF new1])
  have i: "i < length (frames pl1)" and i': "i \<notin> snd ` set (resident pl1)" "i \<notin> set (free_frames pl1)"
    using fo by (auto simp: frames_ok_def)
  have keep: "frames pl' ! j = frames pl1 ! j" if "j \<noteq> i" for j using that q(1) by simp
  have at: "frames pl' ! i = ?f" using i q(1) by simp
  have keep': "frames pl' ! j = frames pl1 ! j" if "(r, j) \<in> set (resident pl1)" for r j
    using that i' keep by force
  have keep_free: "frames pl' ! j = frames pl1 ! j" if "j \<in> set (free_frames pl1)" for j using that i' keep by metis
  have p_new: "p \<notin> fst ` set (resident pl1)" using new1 by (simp add: map_of_eq_None_iff)
  have sz: "pool_page_size pl1 = psz" using t(2) by (simp add: store_ok_def)
  have "frames_ok pl' []"
    using fo p_new i' keep' keep_free at len sz unfolding frames_ok_def q(2-5)
    by (auto simp: q(1))
  moreover have "in_sync rd pl' d'"
  proof -
    have "rd p d' = Inr raw" if "\<not> dirty"
    proof -
      have "view pl d p = Some raw" using new clean [OF that] by (simp add: pool_view_def)
      then have "view pl1 d' p = Some raw" using t(3) by (metis domI map_le_def)
      then show ?thesis using new1 by (auto simp: pool_view_def split: sum.splits)
    qed
    then show ?thesis using sy keep' at by (auto simp: in_sync_def q(2))
  qed
  moreover have "(view pl d)(p \<mapsto> raw) \<subseteq>\<^sub>m view pl' d'"
  proof (rule map_leI)
    fix r c assume r: "((view pl d)(p \<mapsto> raw)) r = Some c"
    show "view pl' d' r = Some c"
    proof (cases "r = p")
      case True
      then show ?thesis using r at new1 by (simp add: pool_view_def q(2) map_add_def)
    next
      case False
      then have "view pl1 d' r = Some c" using r t(3) by (metis domI fun_upd_other map_le_def)
      moreover have "map_of (resident pl') r = map_of (resident pl1) r" using False by (simp add: q(2) map_add_def split: option.splits)
      ultimately show ?thesis using keep' by (auto simp: pool_view_def split: option.splits dest: map_of_SomeD)
    qed
  qed
  moreover have "map_of (resident pl') p = Some i" using new1 by (simp add: q(2) map_add_def)
  ultimately show ?thesis using run at t(2) q(5) by (auto simp: store_ok_def)
qed

lemma touch_ok:
  assumes ok: "store_ok pl d []" and m: "map_of (resident pl) p = Some i"
    and f: "f_page_id f = Some p" "length (f_data f) = psz" "\<not> f_dirty f \<Longrightarrow> rd p d = Inr (f_data f)"
    and pl': "capacity pl' = capacity pl" "pool_page_size pl' = pool_page_size pl" "frames pl' = (frames pl)[i := f]"
      "free_frames pl' = free_frames pl" "resident pl' = resident pl \<or> resident pl' = move_to_end p (resident pl)"
  shows "store_ok pl' d []" and "view pl' d = (view pl d)(p \<mapsto> f_data f)"
proof -
  have fo: "frames_ok pl []" and sy: "in_sync rd pl d" and sz: "pool_page_size pl = psz" and dv: "dev_ok d"
    using ok by (auto simp: store_ok_def)
  note d = frames_okD(1,2) [OF fo]
  have res: "set (resident pl') = set (resident pl)" "map_of (resident pl') = map_of (resident pl)"
    "distinct (map fst (resident pl'))" "distinct (map snd (resident pl'))"
    using pl'(5) d by (auto simp: set_move_to_end distinct_move_to_end)
  show "view pl' d = (view pl d)(p \<mapsto> f_data f)" by (rule pool_view_touch [OF fo m pl'(3) res(2)])
  have "frames_ok pl' []" using sz by (intro frames_ok_touch [OF fo m f(1) _ pl'(1-4) res(1,3,4)]) (simp add: f(2))
  moreover have "in_sync rd pl' d"
    unfolding in_sync_def
  proof safe
    fix q j assume q: "(q, j) \<in> set (resident pl')" "\<not> f_dirty (frames pl' ! j)"
    show "rd q d = Inr (f_data (frames pl' ! j))"
    proof (cases "j = i")
      case True
      then have "q = p" using q res(1) m resident_inj [OF fo] by (metis map_of_SomeD)
      then show ?thesis using True q f(3) pl'(3) frames_okD(3) [OF fo m] by simp
    next
      case False
      then show ?thesis using q sy res(1) pl'(3) by (auto simp: in_sync_def)
    qed
  qed
  ultimately show "store_ok pl' d []" using dv sz pl'(2) by (simp add: store_ok_def)
qed

lemma resident_frame:
  assumes "store_ok pl d []" and "map_of (resident pl) p = Some i"
  shows "f_page_id (frames pl ! i) = Some p" and "length (f_data (frames pl ! i)) = psz"
    and "\<not> f_dirty (frames pl ! i) \<Longrightarrow> rd p d = Inr (f_data (frames pl ! i))"
    and "view pl d p = Some (f_data (frames pl ! i))"
  using assms by (auto simp: store_ok_def frames_ok_def in_sync_def pool_view_def dest!: map_of_SomeD)

lemma fetch_ok:
  assumes ok: "store_ok pl d []"
  shows "case view pl d p of
      Some b \<Rightarrow> \<exists>pl' d'. fetch rd wr p pl d = ((pl', d'), Inr b) \<and> store_ok pl' d' [] \<and> view pl d \<subseteq>\<^sub>m view pl' d'
    | None \<Rightarrow> \<exists>e. rd p d = Inl e \<and> fetch rd wr p pl d = ((pl\<lparr>misses := misses pl + 1\<rparr>, d), Inl e)"
proof (cases "map_of (resident pl) p")
  case (Some i)
  let ?f = "(frames pl ! i)\<lparr>f_reads := f_reads (frames pl ! i) + 1\<rparr>"
  let ?pl = "(set_frame i ?f pl)\<lparr>resident := move_to_end p (resident pl), hits := hits pl + 1\<rparr>"
  note r = resident_frame [OF ok Some]
  have t: "store_ok ?pl d []" "view ?pl d = (view pl d)(p \<mapsto> f_data ?f)"
    by (rule touch_ok [OF ok Some, where f = ?f]; use r in \<open>simp add: set_frame_def\<close>)+
  have "view pl d \<subseteq>\<^sub>m view ?pl d" using t(2) r(4) by (simp add: map_le_def)
  then show ?thesis using r(4) t(1) Some by (simp add: fetch_def Let_def)
next
  case None
  let ?pl = "pl\<lparr>misses := misses pl + 1\<rparr>"
  have same: "store_ok ?pl d []" "view ?pl d = view pl d" "map_of (resident ?pl) p = None"
    using ok None by (auto simp: store_ok_def frames_ok_def in_sync_def pool_view_def fun_eq_iff split: option.splits)
  show ?thesis
  proof (cases "rd p d")
    case (Inl e)
    then show ?thesis using None by (simp add: fetch_def pool_view_def)
  next
    case (Inr raw)
    have len: "length raw = psz" using rd_length [OF _ Inr] ok by (simp add: store_ok_def)
    from admit_ok [OF same(1,3) len, of False] Inr obtain pl1 d1 i where
      a: "admit wr p raw False ?pl d = ((pl1, d1), Inr i)" "store_ok pl1 d1 []" "(view pl d)(p \<mapsto> raw) \<subseteq>\<^sub>m view pl1 d1"
        "map_of (resident pl1) p = Some i" "f_data (frames pl1 ! i) = raw" using same(2) by auto
    let ?f = "(frames pl1 ! i)\<lparr>f_reads := f_reads (frames pl1 ! i) + 1\<rparr>"
    note r = resident_frame [OF a(2,4)]
    have t: "store_ok (set_frame i ?f pl1) d1 []" "view (set_frame i ?f pl1) d1 = (view pl1 d1)(p \<mapsto> f_data ?f)"
      by (rule touch_ok [OF a(2,4), where f = ?f]; use r in \<open>simp add: set_frame_def\<close>)+
    have v: "view pl d p = Some raw" using None Inr by (simp add: pool_view_def)
    have "view pl d \<subseteq>\<^sub>m view (set_frame i ?f pl1) d1"
    proof (rule map_leI)
      fix q c assume q: "view pl d q = Some c"
      then have "((view pl d)(p \<mapsto> raw)) q = Some c" using v by auto
      then show "view (set_frame i ?f pl1) d1 q = Some c" using map_leD [OF a(3)] t(2) a(5) r(4) by auto
    qed
    moreover have "fetch rd wr p pl d = ((set_frame i ?f pl1, d1), Inr raw)"
      using None Inr a(1,5) by (simp add: fetch_def Let_def)
    ultimately show ?thesis using v t(1) by simp
  qed
qed

lemma store_op_ok:
  assumes ok: "store_ok pl d []" and len: "length raw = psz"
  shows "\<exists>pl' d'. store wr p raw pl d = ((pl', d'), Inr ()) \<and> store_ok pl' d' [] \<and> (view pl d)(p \<mapsto> raw) \<subseteq>\<^sub>m view pl' d'"
proof (cases "map_of (resident pl) p")
  case (Some i)
  let ?f = "(frames pl ! i)\<lparr>f_data := raw, f_dirty := True, f_writes := f_writes (frames pl ! i) + 1\<rparr>"
  let ?pl0 = "if f_dirty (frames pl ! i) then pl\<lparr>writes_absorbed := writes_absorbed pl + 1\<rparr> else pl"
  let ?pl = "(set_frame i ?f ?pl0)\<lparr>resident := move_to_end p (resident pl)\<rparr>"
  note r = resident_frame [OF ok Some]
  have t: "store_ok ?pl d []" "view ?pl d = (view pl d)(p \<mapsto> f_data ?f)"
    by (rule touch_ok [OF ok Some, where f = ?f]; use r len in \<open>simp add: set_frame_def\<close>)+
  moreover have "store wr p raw pl d = ((?pl, d), Inr ())"
    using Some len ok by (simp add: store_def Let_def store_ok_def)
  ultimately show ?thesis by simp
next
  case None
  from admit_ok [OF ok None len, of True] obtain pl1 d1 i where
    a: "admit wr p raw True pl d = ((pl1, d1), Inr i)" "store_ok pl1 d1 []" "(view pl d)(p \<mapsto> raw) \<subseteq>\<^sub>m view pl1 d1"
      "map_of (resident pl1) p = Some i" "f_data (frames pl1 ! i) = raw" by auto
  let ?f = "(frames pl1 ! i)\<lparr>f_writes := f_writes (frames pl1 ! i) + 1\<rparr>"
  note r = resident_frame [OF a(2,4)]
  have t: "store_ok (set_frame i ?f pl1) d1 []" "view (set_frame i ?f pl1) d1 = (view pl1 d1)(p \<mapsto> f_data ?f)"
    by (rule touch_ok [OF a(2,4), where f = ?f]; use r in \<open>simp add: set_frame_def\<close>)+
  have "view (set_frame i ?f pl1) d1 = view pl1 d1" using t(2) r(4) by auto
  then show ?thesis using a t(1) None len ok by (simp add: store_def Let_def store_ok_def)
qed

lemma write_back_ok:
  assumes ok: "store_ok pl d []" and m: "(p, i) \<in> set (resident pl)"
  shows "\<exists>d'. wr p (f_data (frames pl ! i)) d = Inr d' \<and>
    store_ok (set_frame i ((frames pl ! i)\<lparr>f_dirty := False\<rparr>) pl) d' [] \<and>
    view pl d \<subseteq>\<^sub>m view (set_frame i ((frames pl ! i)\<lparr>f_dirty := False\<rparr>) pl) d'"
proof -
  let ?f = "(frames pl ! i)\<lparr>f_dirty := False\<rparr>"
  have fo: "frames_ok pl []" and sy: "in_sync rd pl d" and dv: "dev_ok d" using ok by (auto simp: store_ok_def)
  have mo: "map_of (resident pl) p = Some i" using m frames_okD(1) [OF fo] by simp
  note r = resident_frame [OF ok mo]
  from wr_ok [OF dv r(2), of p] obtain d' where d': "wr p (f_data (frames pl ! i)) d = Inr d'" "dev_ok d'"
    "rd p d' = Inr (f_data (frames pl ! i))" and fr: "\<And>q c. q \<noteq> p \<Longrightarrow> rd q d = Inr c \<Longrightarrow> rd q d' = Inr c" by blast
  have "rd q d' = Inr (f_data (frames pl ! j))" if "(q, j) \<in> set (resident pl)" "\<not> f_dirty (frames pl ! j)" for q j
    using sy that fr d'(3) resident_inj [OF fo] frames_okD(1) [OF fo] m
    by (cases "q = p") (auto simp: in_sync_def dest: eq_key_imp_eq_value)
  then have ok': "store_ok pl d' []" using ok d'(2) by (auto simp: store_ok_def in_sync_def)
  have le: "view pl d \<subseteq>\<^sub>m view pl d'"
  proof (rule map_leI)
    fix q c assume "view pl d q = Some c"
    then show "view pl d' q = Some c" using fr mo
      by (cases "q = p") (auto simp: pool_view_def split: option.splits sum.splits)
  qed
  have t: "store_ok (set_frame i ?f pl) d' []" "view (set_frame i ?f pl) d' = (view pl d')(p \<mapsto> f_data ?f)"
    by (rule touch_ok [OF ok' mo, where f = ?f]; use r d'(3) in \<open>simp add: set_frame_def\<close>)+
  have "view (set_frame i ?f pl) d' = view pl d'" using t(2) resident_frame(4) [OF ok' mo] by auto
  then show ?thesis using d'(1) t(1) le by auto
qed

lemma flush_loop_ok:
  assumes "store_ok pl d []" and "set items \<subseteq> set (resident pl)"
  shows "\<exists>pl' d' n. flush_loop wr items w pl d = ((pl', d'), Inr n) \<and> store_ok pl' d' [] \<and> view pl d \<subseteq>\<^sub>m view pl' d' \<and>
    resident pl' = resident pl \<and> (\<forall>j. \<not> f_dirty (frames pl ! j) \<longrightarrow> \<not> f_dirty (frames pl' ! j)) \<and>
    (\<forall>(p, i)\<in>set items. \<not> f_dirty (frames pl' ! i)) \<and> pool_page_size pl' = pool_page_size pl"
  using assms
proof (induction items arbitrary: w pl d)
  case (Cons it items)
  obtain p i where it: "it = (p, i)" by fastforce
  show ?case
  proof (cases "f_dirty (frames pl ! i)")
    case False
    have "set items \<subseteq> set (resident pl)" using Cons.prems(2) by simp
    from Cons.IH [OF Cons.prems(1) this, of w] False show ?thesis by (auto simp: it)
  next
    case True
    let ?pl = "set_frame i ((frames pl ! i)\<lparr>f_dirty := False\<rparr>) pl"
    have m: "(p, i) \<in> set (resident pl)" using Cons.prems(2) it by simp
    from write_back_ok [OF Cons.prems(1) m] obtain d1 where w1: "wr p (f_data (frames pl ! i)) d = Inr d1"
      "store_ok ?pl d1 []" "view pl d \<subseteq>\<^sub>m view ?pl d1" by blast
    have fo: "frames_ok pl []" using Cons.prems(1) by (simp add: store_ok_def)
    have "map_of (resident pl) p = Some i" using m frames_okD(1) [OF fo] by simp
    then have i: "i < length (frames pl)" by (rule frames_okD(3) [OF fo])
    have res: "resident ?pl = resident pl" "pool_page_size ?pl = pool_page_size pl" by (simp_all add: set_frame_def)
    have clean: "\<not> f_dirty (frames ?pl ! i)" "\<not> f_dirty (frames pl ! j) \<Longrightarrow> \<not> f_dirty (frames ?pl ! j)" for j
      using i by (auto simp: set_frame_def nth_list_update)
    have sub: "set items \<subseteq> set (resident ?pl)" using Cons.prems(2) res by simp
    from Cons.IH [OF w1(2) sub, of "w + 1"] obtain pl' d' n where
      r: "flush_loop wr items (w + 1) ?pl d1 = ((pl', d'), Inr n)" "store_ok pl' d' []" "view ?pl d1 \<subseteq>\<^sub>m view pl' d'"
        "resident pl' = resident ?pl" "\<forall>j. \<not> f_dirty (frames ?pl ! j) \<longrightarrow> \<not> f_dirty (frames pl' ! j)"
        "\<forall>(p, i)\<in>set items. \<not> f_dirty (frames pl' ! i)" "pool_page_size pl' = pool_page_size ?pl" by blast
    have "flush_loop wr (it # items) w pl d = ((pl', d'), Inr n)" using r(1) w1(1) True by (simp add: it Let_def)
    moreover have "view pl d \<subseteq>\<^sub>m view pl' d'" using w1(3) r(3) by (rule map_le_trans)
    ultimately show ?thesis using r res clean by (auto simp: it)
  qed
qed auto

lemma pool_flush_ok:
  assumes ok: "store_ok pl d []"
  shows "\<exists>pl' d' n. pool_flush wr pl d = ((pl', d'), Inr n) \<and> store_ok pl' d' [] \<and> view pl d \<subseteq>\<^sub>m view pl' d' \<and>
    resident pl' = resident pl \<and> (\<forall>p b. view pl d p = Some b \<longrightarrow> rd p d' = Inr b)"
proof -
  from flush_loop_ok [OF ok subset_refl, of 0] obtain pl1 d' n where
    f: "flush_loop wr (resident pl) 0 pl d = ((pl1, d'), Inr n)" "store_ok pl1 d' []" "view pl d \<subseteq>\<^sub>m view pl1 d'"
      "resident pl1 = resident pl" "\<forall>(p, i)\<in>set (resident pl). \<not> f_dirty (frames pl1 ! i)" by blast
  define pl' where "pl' = pl1\<lparr>pool_flushes := pool_flushes pl1 + 1, pages_flushed := pages_flushed pl1 + n\<rparr>"
  have run: "pool_flush wr pl d = ((pl', d'), Inr n)" using f(1) by (simp add: pool_flush_def pl'_def)
  have ok': "store_ok pl' d' []" using f(2) by (auto simp: pl'_def store_ok_def frames_ok_def in_sync_def)
  have v: "view pl' d' = view pl1 d'" by (simp add: pl'_def pool_view_def fun_eq_iff split: option.splits)
  have "rd p d' = Inr b" if "view pl d p = Some b" for p b
  proof -
    have vb: "view pl1 d' p = Some b" using map_leD [OF f(3) that] .
    show ?thesis
    proof (cases "map_of (resident pl1) p")
      case None
      then show ?thesis using vb by (auto simp: pool_view_def split: sum.splits)
    next
      case (Some i)
      then have "\<not> f_dirty (frames pl1 ! i)" using f(4,5) by (auto dest: map_of_SomeD)
      then show ?thesis using resident_frame(3,4) [OF f(2) Some] vb by simp
    qed
  qed
  then show ?thesis using run ok' v f(3,4) by (auto simp: pl'_def)
qed

lemma invalidate_ok:
  assumes ok: "store_ok pl d []"
  shows "store_ok (invalidate p pl) d []" and "view (invalidate p pl) d = (view pl d)(p := case rd p d of Inl _ \<Rightarrow> None | Inr b \<Rightarrow> Some b)"
proof -
  have fo: "frames_ok pl []" and sy: "in_sync rd pl d" using ok by (auto simp: store_ok_def)
  have *: "store_ok (invalidate p pl) d [] \<and>
      view (invalidate p pl) d = (view pl d)(p := case rd p d of Inl _ \<Rightarrow> None | Inr b \<Rightarrow> Some b)"
  proof (cases "map_of (resident pl) p")
    case None
    then show ?thesis using ok by (auto simp: invalidate_def pool_view_def fun_eq_iff)
  next
    case (Some i)
    let ?f = "(frames pl ! i)\<lparr>f_page_id := None, f_dirty := False, f_reads := 0, f_writes := 0\<rparr>"
    define pl' where "pl' = invalidate p pl"
    have q: "frames pl' = (frames pl)[i := ?f]" "resident pl' = AList.delete p (resident pl)"
      "free_frames pl' = i # free_frames pl" "capacity pl' = capacity pl" "pool_page_size pl' = pool_page_size pl"
      using Some by (simp_all add: pl'_def invalidate_def Let_def set_frame_def)
    have mem: "(p, i) \<in> set (resident pl)" using Some by (rule map_of_SomeD)
    have rs: "set (resident pl') = set (resident pl) - {(p, i)}"
      using frames_okD(1) [OF fo] mem by (auto simp: q(2) AList.delete_eq dest: eq_key_imp_eq_value)
    have i: "i < length (frames pl)" "i \<notin> set (free_frames pl)" using fo mem by (force simp: frames_ok_def)+
    have keep: "frames pl' ! j = frames pl ! j" if "(r, j) \<in> set (resident pl')" for r j
      using that rs resident_inj [OF fo _ mem] q(1) by (metis Diff_iff insertI1 nth_list_update_neq)
    have keep_free: "frames pl' ! j = frames pl ! j" if "j \<in> set (free_frames pl)" for j
      using that i(2) q(1) by (metis nth_list_update_neq)
    have dm: "distinct (map g (AList.delete p xs))" if "distinct (map g xs)" for g :: "nat \<times> nat \<Rightarrow> nat" and xs
      using that by (induction xs) (auto simp: AList.delete_eq)
    have snds: "snd ` set (resident pl') = snd ` set (resident pl) - {i}"
    proof -
      have "inj_on snd (set (resident pl))" using frames_okD(2) [OF fo] by (simp add: distinct_map)
      then have "snd ` (set (resident pl) - {(p, i)}) = snd ` set (resident pl) - snd ` {(p, i)}"
        using mem by (intro inj_on_image_set_diff [of _ "set (resident pl)"]) auto
      then show ?thesis using rs by simp
    qed
    have "frames_ok pl' []"
    proof -
      have c: "length (frames pl) = capacity pl" "0 < capacity pl" "distinct (free_frames pl)"
        "snd ` set (resident pl) \<inter> set (free_frames pl) = {}" "snd ` set (resident pl) \<union> set (free_frames pl) = {..<capacity pl}"
        and res: "\<And>r j. (r, j) \<in> set (resident pl) \<Longrightarrow> f_page_id (frames pl ! j) = Some r \<and> length (f_data (frames pl ! j)) = pool_page_size pl"
        and fre: "\<And>j. j \<in> set (free_frames pl) \<Longrightarrow> f_page_id (frames pl ! j) = None \<and> \<not> f_dirty (frames pl ! j)"
        using fo by (auto simp: frames_ok_def)
      have "snd ` set (resident pl') \<union> insert i (set (free_frames pl)) = {..<capacity pl}"
        using c i snds mem by auto
      moreover have "distinct (map fst (resident pl'))" "distinct (map snd (resident pl'))"
        using dm frames_okD(1,2) [OF fo] q(2) by auto
      moreover have "\<forall>(r, j)\<in>set (resident pl'). f_page_id (frames pl' ! j) = Some r \<and> length (f_data (frames pl' ! j)) = pool_page_size pl'"
      proof safe
        fix r j assume j: "(r, j) \<in> set (resident pl')"
        then have "(r, j) \<in> set (resident pl)" using rs by simp
        then show "f_page_id (frames pl' ! j) = Some r" "length (f_data (frames pl' ! j)) = pool_page_size pl'"
          using keep [OF j] res q(5) by simp_all
      qed
      moreover have "\<forall>j\<in>set (free_frames pl'). f_page_id (frames pl' ! j) = None \<and> \<not> f_dirty (frames pl' ! j)"
        using keep_free fre i(1) by (auto simp: q(3)) (simp_all add: q(1))
      ultimately show ?thesis using c i snds unfolding frames_ok_def by (auto simp: q(1,3,4))
    qed
    moreover have "in_sync rd pl' d"
      unfolding in_sync_def
    proof safe
      fix r j assume j: "(r, j) \<in> set (resident pl')" "\<not> f_dirty (frames pl' ! j)"
      then have "(r, j) \<in> set (resident pl)" using rs by simp
      then show "rd r d = Inr (f_data (frames pl' ! j))" using keep [OF j(1)] j(2) sy by (auto simp: in_sync_def)
    qed
    moreover have "view pl' d r = ((view pl d)(p := case rd p d of Inl _ \<Rightarrow> None | Inr b \<Rightarrow> Some b)) r" for r
    proof (cases "r = p")
      case True
      then show ?thesis by (simp add: pool_view_def q(2) AList.delete_conv')
    next
      case False
      then have "map_of (resident pl') r = map_of (resident pl) r" by (simp add: q(2) AList.delete_conv')
      moreover have "map_of (resident pl) r = Some j \<Longrightarrow> frames pl' ! j = frames pl ! j" for j
      proof -
        assume "map_of (resident pl) r = Some j"
        then have "(r, j) \<in> set (resident pl')" using rs False by (auto dest: map_of_SomeD)
        then show ?thesis by (rule keep)
      qed
      ultimately show ?thesis using False by (auto simp: pool_view_def split: option.splits)
    qed
    ultimately show ?thesis using ok q(5) by (auto simp: store_ok_def pl'_def [symmetric])
  qed
  then show "store_ok (invalidate p pl) d []"
    "view (invalidate p pl) d = (view pl d)(p := case rd p d of Inl _ \<Rightarrow> None | Inr b \<Rightarrow> Some b)" by simp_all
qed

lemma drop_all_ok:
  assumes "store_ok pl d []"
  shows "store_ok (drop_all pl) d []" and "view (drop_all pl) d p = (case rd p d of Inl _ \<Rightarrow> None | Inr b \<Rightarrow> Some b)"
proof -
  have "frames_ok (drop_all pl) []" using assms by (auto simp: store_ok_def frames_ok_def drop_all_def)
  then show "store_ok (drop_all pl) d []" using assms by (simp add: store_ok_def in_sync_def drop_all_def)
  show "view (drop_all pl) d p = (case rd p d of Inl _ \<Rightarrow> None | Inr b \<Rightarrow> Some b)"
    by (simp add: pool_view_def drop_all_def)
qed

lemma pool_new_ok:
  assumes "pool_new psz cap = Inr pl" and "dev_ok d"
  shows "store_ok pl d []"
  using assms by (auto simp: pool_new_def res_simps store_ok_def frames_ok_def in_sync_def frame_new_def MIN_POOL_FRAMES_def)

end

end
