(* ===== verification/WalRecord.thy ===== *)
theory WalRecord
  imports Base
begin

text \<open>
  Log records (\<open>engine/wal/record.py\<close>): the 44-byte header, the two page images and the checksum
  in front. Decoding yields \<open>None\<close> for everything that is not a whole, intact record at its own
  position in the stream.
\<close>

datatype record_type = UPDATE | COMMIT | ABORT | CHECKPOINT

fun record_type_code :: "record_type \<Rightarrow> nat" where
  "record_type_code UPDATE = 1"
| "record_type_code COMMIT = 2"
| "record_type_code ABORT = 3"
| "record_type_code CHECKPOINT = 4"

definition record_type_of :: "nat \<Rightarrow> record_type option" where
  "record_type_of v = find (\<lambda>t. record_type_code t = v) [UPDATE, COMMIT, ABORT, CHECKPOINT]"

definition RECORD_HEADER_SIZE :: nat where [simp]: "RECORD_HEADER_SIZE = 44"
definition NO_TRANSACTION :: nat where "NO_TRANSACTION = 0"
definition MAX_IMAGE_BYTES :: nat where "MAX_IMAGE_BYTES = 2 ^ 20"

record log_record =
  r_lsn :: nat
  r_prev_lsn :: nat
  r_transaction_id :: nat
  r_type :: record_type
  r_page_id :: nat
  r_before_image :: bytes
  r_after_image :: bytes

definition record_size :: "log_record \<Rightarrow> nat" where
  "record_size r = RECORD_HEADER_SIZE + length (r_before_image r) + length (r_after_image r)"

definition end_lsn :: "log_record \<Rightarrow> nat" where
  "end_lsn r = r_lsn r + record_size r"

definition has_undo :: "log_record \<Rightarrow> bool" where
  "has_undo r \<longleftrightarrow> r_before_image r \<noteq> []"

text \<open>Everything after the checksum: the header fields from offset 4 on, then the images.\<close>

definition record_body :: "log_record \<Rightarrow> bytes" where
  "record_body r =
     le_bytes 8 (r_lsn r) @ le_bytes 8 (r_prev_lsn r) @ le_bytes 8 (r_transaction_id r) @
     le_bytes 1 (record_type_code (r_type r)) @ le_bytes 1 0 @ le_bytes 2 0 @
     le_bytes 4 (r_page_id r) @ le_bytes 4 (length (r_before_image r)) @ le_bytes 4 (length (r_after_image r)) @
     r_before_image r @ r_after_image r"

definition record_to_bytes :: "log_record \<Rightarrow> bytes res" where
  "record_to_bytes r =
     guard_res (r_lsn r < 256 ^ 8 \<and> r_prev_lsn r < 256 ^ 8 \<and> r_transaction_id r < 256 ^ 8 \<and>
         r_page_id r < 256 ^ 4 \<and> length (r_before_image r) < 256 ^ 4 \<and> length (r_after_image r) < 256 ^ 4)
       StructError (Inr (le_bytes 4 (crc32 (record_body r)) @ record_body r))"

definition decode_log_record :: "bytes \<Rightarrow> nat \<Rightarrow> nat \<Rightarrow> log_record option" where
  "decode_log_record raw offset base =
     (if offset + RECORD_HEADER_SIZE > length raw then None
      else
        let field = (\<lambda>n off. le_nat (slice raw (offset + off) n));
            checksum = field 4 0; lsn = field 8 4; prev_lsn = field 8 12; txn = field 8 20;
            type_value = field 1 28; pid = field 4 32; before_len = field 4 36; after_len = field 4 40;
            body = offset + RECORD_HEADER_SIZE; stop = body + before_len + after_len
        in if before_len > MAX_IMAGE_BYTES \<or> after_len > MAX_IMAGE_BYTES then None
           else if stop > length raw then None
           else if crc32 (slice raw (offset + 4) (stop - (offset + 4))) \<noteq> checksum then None
           else if lsn \<noteq> base + offset then None
           else case record_type_of type_value of
                  None \<Rightarrow> None
                | Some t \<Rightarrow> Some \<lparr>r_lsn = lsn, r_prev_lsn = prev_lsn, r_transaction_id = txn, r_type = t,
                    r_page_id = pid, r_before_image = slice raw body before_len,
                    r_after_image = slice raw (body + before_len) after_len\<rparr>)"

section \<open>Lemmas\<close>

lemma record_type_of_code [simp]: "record_type_of (record_type_code t) = Some t"
  by (cases t) (simp_all add: record_type_of_def)

lemma record_type_code_less [simp]: "record_type_code t < 256"
  by (cases t) simp_all

lemma record_size_pos: "0 < record_size r"
  by (simp add: record_size_def)

lemma length_record_body: "length (record_body r) + 4 = record_size r"
  by (simp add: record_body_def record_size_def)

lemma record_to_bytes_length: "record_to_bytes r = Inr enc \<Longrightarrow> length enc = record_size r"
  using length_record_body [of r] by (auto simp: record_to_bytes_def res_simps)

text \<open>The header fields of an encoded record, wherever it sits in a buffer.\<close>

lemma slice_in_context: "slice (pre @ xs) (length pre + k) n = slice xs k n"
  by (simp add: slice_append_right)

lemma record_fields:
  assumes "record_to_bytes r = Inr enc"
  shows "le_nat (slice enc 0 4) = crc32 (record_body r)" and "le_nat (slice enc 4 8) = r_lsn r"
    and "le_nat (slice enc 12 8) = r_prev_lsn r" and "le_nat (slice enc 20 8) = r_transaction_id r"
    and "le_nat (slice enc 28 1) = record_type_code (r_type r)" and "le_nat (slice enc 32 4) = r_page_id r"
    and "le_nat (slice enc 36 4) = length (r_before_image r)" and "le_nat (slice enc 40 4) = length (r_after_image r)"
    and "drop 4 enc = record_body r"
    and "drop 44 enc = r_before_image r @ r_after_image r"
proof -
  have enc: "enc = le_bytes 4 (crc32 (record_body r)) @ record_body r" and
    b: "r_lsn r < 256 ^ 8" "r_prev_lsn r < 256 ^ 8" "r_transaction_id r < 256 ^ 8"
      "r_page_id r < 256 ^ 4" "length (r_before_image r) < 256 ^ 4" "length (r_after_image r) < 256 ^ 4"
    using assms by (auto simp: record_to_bytes_def res_simps)
  define c where "c = crc32 (record_body r)"
  have c: "c < 256 ^ 4" unfolding c_def by (rule crc32_bound)
  note e = enc [folded c_def, unfolded record_body_def]
  show "le_nat (slice enc 0 4) = crc32 (record_body r)" using c by (simp add: e slice_def c_def [symmetric])
  show "le_nat (slice enc 4 8) = r_lsn r" using b by (simp add: e slice_def)
  show "le_nat (slice enc 12 8) = r_prev_lsn r" using b by (simp add: e slice_def)
  show "le_nat (slice enc 20 8) = r_transaction_id r" using b by (simp add: e slice_def)
  show "le_nat (slice enc 28 1) = record_type_code (r_type r)"
    using record_type_code_less [of "r_type r"] by (simp add: e slice_def del: le_bytes.simps One_nat_def)
  show "le_nat (slice enc 32 4) = r_page_id r" using b by (simp add: e slice_def)
  show "le_nat (slice enc 36 4) = length (r_before_image r)" using b by (simp add: e slice_def)
  show "le_nat (slice enc 40 4) = length (r_after_image r)" using b by (simp add: e slice_def)
  show "drop 4 enc = record_body r" by (simp add: enc)
  show "drop 44 enc = r_before_image r @ r_after_image r" by (simp add: e)
qed

text \<open>A record that fits the decoder's sanity bound.\<close>

definition image_ok :: "log_record \<Rightarrow> bool" where
  "image_ok r \<longleftrightarrow> length (r_before_image r) \<le> MAX_IMAGE_BYTES \<and> length (r_after_image r) \<le> MAX_IMAGE_BYTES"

lemma slice_enc_in:
  assumes "k + n \<le> length enc"
  shows "slice (pre @ enc @ post) (length pre + k) n = slice enc k n"
  using assms slice_in_context [of pre "enc @ post" k n] by simp

lemma decode_record_to_bytes:
  assumes "record_to_bytes r = Inr enc" and "image_ok r" and "r_lsn r = base + length pre"
  shows "decode_log_record (pre @ enc @ post) (length pre) base = Some r"
proof -
  let ?raw = "pre @ enc @ post"
  note f = record_fields [OF assms(1)]
  have len: "length enc = 44 + length (r_before_image r) + length (r_after_image r)"
    using record_to_bytes_length [OF assms(1)] by (simp add: record_size_def)
  have fld: "slice ?raw (length pre + k) n = slice enc k n" if "k + n \<le> 44" for k n
    using that len by (intro slice_enc_in) simp
  have crc: "slice ?raw (length pre + 4) (length enc - 4) = record_body r"
    using slice_enc_in [of 4 "length enc - 4" enc pre post] f(9) [symmetric] len by (simp add: slice_def)
  have d: "slice enc (44 + k) n = slice (r_before_image r @ r_after_image r) k n" for k n
    by (simp add: slice_def f(10) [symmetric] add.commute flip: drop_drop)
  have before: "slice ?raw (length pre + 44) (length (r_before_image r)) = r_before_image r"
    using slice_enc_in [of 44 "length (r_before_image r)" enc pre post] d [of 0] len by simp
  have after: "slice ?raw (length pre + 44 + length (r_before_image r)) (length (r_after_image r)) = r_after_image r"
    using slice_enc_in [of "44 + length (r_before_image r)" "length (r_after_image r)" enc pre post]
      d [of "length (r_before_image r)" "length (r_after_image r)"] len
    by (simp add: add.assoc) (simp add: slice_def)
  have stop: "length pre + 44 + length (r_before_image r) + length (r_after_image r) - (length pre + 4) = length enc - 4"
    using len by simp
  show ?thesis
    unfolding decode_log_record_def Let_def
    using assms(2,3) fld [of 0 4] fld [of 4 8] fld [of 12 8] fld [of 20 8] fld [of 28 1] fld [of 32 4]
      fld [of 36 4] fld [of 40 4] f(1-8) crc before after stop len
    by (simp add: image_ok_def)
qed

text \<open>A record cut short anywhere decodes to nothing.\<close>

lemma decode_short: "length raw < offset + 44 \<Longrightarrow> decode_log_record raw offset base = None"
  by (simp add: decode_log_record_def)

lemma decode_torn:
  assumes "record_to_bytes r = Inr enc" and "k < length enc"
  shows "decode_log_record (pre @ take k enc) (length pre) base = None"
proof (cases "k < 44")
  case True
  then show ?thesis by (intro decode_short) simp
next
  case False
  note f = record_fields [OF assms(1)]
  have len: "length enc = 44 + length (r_before_image r) + length (r_after_image r)"
    using record_to_bytes_length [OF assms(1)] by (simp add: record_size_def)
  have fld: "slice (pre @ take k enc) (length pre + j) n = slice enc j n" if "j + n \<le> 44" for j n
    using that False assms(2) slice_in_context [of pre "take k enc" j n]
    by (simp add: slice_def drop_take min_def)
  show ?thesis
    using assms(2) False fld [of 36 4] fld [of 40 4] f(7,8) len
    by (simp add: decode_log_record_def Let_def)
qed

text \<open>A position that does not hold its own LSN decodes to nothing.\<close>

lemma decode_wrong_lsn:
  "le_nat (slice raw (offset + 4) 8) \<noteq> base + offset \<Longrightarrow> decode_log_record raw offset base = None"
  by (simp add: decode_log_record_def Let_def)

lemma decode_log_record_size:
  "decode_log_record raw offset base = Some r \<Longrightarrow> offset + record_size r \<le> length raw"
  by (auto simp: decode_log_record_def Let_def record_size_def split: if_splits option.splits)

end
