(* ===== verification/WalLog.thy ===== *)
theory WalLog
  imports WalRecord
begin

text \<open>
  The write-ahead log (\<open>engine/wal/log.py\<close>): staging, coalescing, flushing, the forward scan and
  truncation. The log file is the list of bytes the operating system holds for it; the file
  position is always its end, since \<open>__init__\<close> seeks there, \<open>read_all\<close> reads to the end and
  truncation seeks to 0. What \<open>fsync\<close> adds to that is not modelled beyond its counter. An
  operation that raises does so before it changes the log.
\<close>

record wal_log =
  base_lsn :: nat
  w_buffer :: "bytes list"
  buffer_bytes :: nat
  buffer_tail :: "log_record option"
  w_closed :: bool
  w_file :: bytes
  flushed_lsn :: nat
  last_lsn_of :: "nat \<rightharpoonup> nat"
  sync_on_commit :: bool
  records_appended :: nat
  bytes_appended :: nat
  w_flushes :: nat
  w_syncs :: nat
  records_coalesced :: nat
  checkpoints :: nat
  bytes_reclaimed :: nat

definition wal_open :: "nat \<Rightarrow> bytes \<Rightarrow> wal_log" where
  "wal_open base file =
     \<lparr>base_lsn = base, w_buffer = [], buffer_bytes = 0, buffer_tail = None, w_closed = False, w_file = file,
      flushed_lsn = base + length file, last_lsn_of = Map.empty, sync_on_commit = True, records_appended = 0,
      bytes_appended = 0, w_flushes = 0, w_syncs = 0, records_coalesced = 0, checkpoints = 0, bytes_reclaimed = 0\<rparr>"

definition next_lsn :: "wal_log \<Rightarrow> nat" where
  "next_lsn l = flushed_lsn l + buffer_bytes l"

definition set_sync_policy :: "bool \<Rightarrow> wal_log \<Rightarrow> wal_log" where
  "set_sync_policy b l = l\<lparr>sync_on_commit := b\<rparr>"

definition wal_append ::
  "wal_log \<Rightarrow> record_type \<Rightarrow> nat \<Rightarrow> nat \<Rightarrow> bytes \<Rightarrow> bytes \<Rightarrow> (log_record \<times> wal_log) res" where
  "wal_append l t txn pid before after =
     (if w_closed l then Inl ValueError
      else
        let r = \<lparr>r_lsn = next_lsn l, r_prev_lsn = (case last_lsn_of l txn of None \<Rightarrow> 0 | Some p \<Rightarrow> p),
                 r_transaction_id = txn, r_type = t, r_page_id = pid, r_before_image = before, r_after_image = after\<rparr>
        in bind_res (record_to_bytes r) (\<lambda>encoded.
             Inr (r, l\<lparr>w_buffer := w_buffer l @ [encoded], buffer_bytes := buffer_bytes l + length encoded,
               buffer_tail := Some r,
               last_lsn_of := (if txn \<noteq> NO_TRANSACTION then (last_lsn_of l)(txn \<mapsto> r_lsn r) else last_lsn_of l),
               records_appended := records_appended l + 1, bytes_appended := bytes_appended l + record_size r\<rparr>)))"

definition supersedes :: "wal_log \<Rightarrow> nat \<Rightarrow> nat \<Rightarrow> log_record option" where
  "supersedes l txn pid =
     (case buffer_tail l of
        None \<Rightarrow> None
      | Some tail \<Rightarrow> if r_type tail = UPDATE \<and> r_page_id tail = pid \<and> r_transaction_id tail = txn then Some tail else None)"

text \<open>\<open>after_image_for\<close> is the pager's callback, which stamps the page with the LSN it is given.\<close>

definition append_update ::
  "wal_log \<Rightarrow> nat \<Rightarrow> nat \<Rightarrow> bytes \<Rightarrow> (nat \<Rightarrow> bytes res) \<Rightarrow> (log_record \<times> wal_log) res" where
  "append_update l txn pid before after_image_for =
     (if w_closed l then Inl ValueError
      else case supersedes l txn pid of
        None \<Rightarrow> bind_res (after_image_for (next_lsn l)) (\<lambda>after. wal_append l UPDATE txn pid before after)
      | Some tail \<Rightarrow>
          bind_res (after_image_for (r_lsn tail)) (\<lambda>after.
            let r = \<lparr>r_lsn = r_lsn tail, r_prev_lsn = r_prev_lsn tail, r_transaction_id = txn, r_type = UPDATE,
                     r_page_id = pid, r_before_image = r_before_image tail, r_after_image = after\<rparr>
            in bind_res (record_to_bytes r) (\<lambda>encoded.
                 Inr (r, l\<lparr>buffer_bytes := buffer_bytes l + length encoded - length (last (w_buffer l)),
                   w_buffer := butlast (w_buffer l) @ [encoded], buffer_tail := Some r,
                   records_coalesced := records_coalesced l + 1\<rparr>))))"

definition wal_flush :: "bool \<Rightarrow> wal_log \<Rightarrow> wal_log res" where
  "wal_flush sync l =
     (if w_closed l then Inl ValueError
      else
        let l1 = (if w_buffer l \<noteq> []
                  then let payload = concat (w_buffer l)
                       in l\<lparr>w_buffer := [], buffer_bytes := 0, buffer_tail := None, w_file := w_file l @ payload,
                            flushed_lsn := flushed_lsn l + length payload, w_flushes := w_flushes l + 1\<rparr>
                  else l)
        in Inr (if sync then l1\<lparr>w_syncs := w_syncs l1 + 1\<rparr> else l1))"

definition wal_commit :: "wal_log \<Rightarrow> nat \<Rightarrow> (log_record \<times> wal_log) res" where
  "wal_commit l txn =
     bind_res (wal_append l COMMIT txn 0 [] []) (\<lambda>(r, l1).
     bind_res (wal_flush (sync_on_commit l1) l1) (\<lambda>l2.
       Inr (r, l2\<lparr>last_lsn_of := (last_lsn_of l2)(txn := None)\<rparr>)))"

definition wal_abort :: "wal_log \<Rightarrow> nat \<Rightarrow> (log_record \<times> wal_log) res" where
  "wal_abort l txn =
     bind_res (wal_append l ABORT txn 0 [] []) (\<lambda>(r, l1).
       Inr (r, l1\<lparr>last_lsn_of := (last_lsn_of l1)(txn := None)\<rparr>))"

definition flush_through :: "wal_log \<Rightarrow> nat \<Rightarrow> wal_log res" where
  "flush_through l lsn = (if lsn > flushed_lsn l then wal_flush False l else Inr l)"

text \<open>The loop of \<open>read_all\<close>.\<close>

function scan :: "bytes \<Rightarrow> nat \<Rightarrow> nat \<Rightarrow> log_record list \<times> bool" where
  "scan raw base offset =
     (if offset < length raw
      then case decode_log_record raw offset base of
             None \<Rightarrow> ([], True)
           | Some r \<Rightarrow> let (rs, truncated) = scan raw base (offset + record_size r) in (r # rs, truncated)
      else ([], False))"
  by pat_completeness auto

termination
  by (relation "measure (\<lambda>(raw, base, offset). length raw - offset)")
     (use record_size_pos in \<open>auto intro: diff_less_mono2\<close>)

declare scan.simps [simp del]

definition read_all :: "wal_log \<Rightarrow> (log_record list \<times> bool) res" where
  "read_all l = (if w_closed l then Inl ValueError else Inr (scan (w_file l) (base_lsn l) 0))"

text \<open>
  \<open>checkpoint\<close> runs the pager's \<open>flush_pages\<close> first; by then the log may have grown, so the
  model takes the log as it is after that call.
\<close>

definition wal_checkpoint :: "wal_log \<Rightarrow> (log_record \<times> wal_log) res" where
  "wal_checkpoint l =
     bind_res (wal_append l CHECKPOINT NO_TRANSACTION 0 [] []) (\<lambda>(r, l1).
     bind_res (wal_flush True l1) (\<lambda>l2.
       Inr (r, l2\<lparr>w_file := [], buffer_tail := None, base_lsn := flushed_lsn l2, last_lsn_of := Map.empty,
                  checkpoints := checkpoints l2 + 1,
                  bytes_reclaimed := bytes_reclaimed l2 + (flushed_lsn l2 - base_lsn l2)\<rparr>)))"

definition wal_reset :: "wal_log \<Rightarrow> nat \<Rightarrow> wal_log res" where
  "wal_reset l base =
     (if w_closed l then Inl ValueError
      else Inr (l\<lparr>w_buffer := [], buffer_bytes := 0, buffer_tail := None, w_file := [], base_lsn := base,
                  flushed_lsn := base, last_lsn_of := Map.empty\<rparr>))"

definition wal_abandon :: "wal_log \<Rightarrow> wal_log" where
  "wal_abandon l =
     (if w_closed l then l else l\<lparr>w_buffer := [], buffer_bytes := 0, buffer_tail := None, w_closed := True\<rparr>)"

definition wal_close :: "wal_log \<Rightarrow> wal_log res" where
  "wal_close l = (if w_closed l then Inr l else bind_res (wal_flush True l) (\<lambda>l1. Inr (l1\<lparr>w_closed := True\<rparr>)))"


section \<open>The invariant\<close>

definition enc :: "log_record \<Rightarrow> bytes" where
  "enc r = (case record_to_bytes r of Inl _ \<Rightarrow> [] | Inr b \<Rightarrow> b)"

definition record_ok :: "log_record \<Rightarrow> bool" where
  "record_ok r \<longleftrightarrow> record_to_bytes r = Inr (enc r) \<and> image_ok r"

text \<open>Records that follow one another in the stream from position \<open>base\<close>.\<close>

fun chained :: "nat \<Rightarrow> log_record list \<Rightarrow> bool" where
  "chained base [] \<longleftrightarrow> True"
| "chained base (r # rs) \<longleftrightarrow> r_lsn r = base \<and> record_ok r \<and> chained (base + record_size r) rs"

abbreviation stream :: "log_record list \<Rightarrow> bytes" where
  "stream rs \<equiv> concat (map enc rs)"

text \<open>An open log whose file holds the records \<open>old\<close> and whose buffer the records \<open>staged\<close>.\<close>

definition wal_ok :: "wal_log \<Rightarrow> log_record list \<Rightarrow> log_record list \<Rightarrow> bool" where
  "wal_ok l old staged \<longleftrightarrow> \<not> w_closed l \<and> w_file l = stream old \<and> w_buffer l = map enc staged \<and>
     chained (base_lsn l) (old @ staged) \<and> flushed_lsn l = base_lsn l + length (stream old) \<and>
     buffer_bytes l = length (stream staged) \<and>
     buffer_tail l = (if staged = [] then None else Some (last staged))"

lemma length_enc [simp]: "record_ok r \<Longrightarrow> length (enc r) = record_size r"
  by (auto simp: record_ok_def record_to_bytes_length)

lemma chained_append: "chained base (rs @ rs') \<longleftrightarrow> chained base rs \<and> chained (base + length (stream rs)) rs'"
  by (induction rs arbitrary: base) (auto simp: add.assoc)

lemma chained_ok: "chained base rs \<Longrightarrow> r \<in> set rs \<Longrightarrow> record_ok r"
  by (induction rs arbitrary: base) auto

lemma wal_ok_next_lsn: "wal_ok l old staged \<Longrightarrow> next_lsn l = base_lsn l + length (stream (old @ staged))"
  by (simp add: wal_ok_def next_lsn_def)

lemma decode_enc:
  "record_ok r \<Longrightarrow> r_lsn r = base + length pre \<Longrightarrow> decode_log_record (pre @ enc r @ post) (length pre) base = Some r"
  by (auto simp: record_ok_def intro: decode_record_to_bytes)

lemma scan_stream:
  assumes "chained (base + length pre) rs"
  shows "scan (pre @ stream rs @ tail) base (length pre) =
    (let (rs', t) = scan (pre @ stream rs @ tail) base (length (pre @ stream rs)) in (rs @ rs', t))"
  using assms
proof (induction rs arbitrary: pre)
  case (Cons r rs)
  let ?raw = "pre @ enc r @ stream rs @ tail"
  have r: "record_ok r" "r_lsn r = base + length pre" using Cons.prems by simp_all
  have "0 < record_size r" by (rule record_size_pos)
  then have lt: "length pre < length ?raw" using r by simp
  have step: "scan ?raw base (length pre) =
      (let (rs', t) = scan ?raw base (length pre + record_size r) in (r # rs', t))"
    using lt decode_enc [OF r, of "stream rs @ tail"] by (subst scan.simps) simp
  have "scan ((pre @ enc r) @ stream rs @ tail) base (length (pre @ enc r)) =
      (let (rs', t) = scan ((pre @ enc r) @ stream rs @ tail) base (length ((pre @ enc r) @ stream rs)) in (rs @ rs', t))"
    using Cons.prems r by (intro Cons.IH) (simp add: add.assoc)
  then show ?case using r by (simp add: step Let_def split: prod.splits)
qed simp

lemma scan_end: "offset \<ge> length raw \<Longrightarrow> scan raw base offset = ([], False)"
  by (subst scan.simps) simp

lemma scan_whole: "chained base rs \<Longrightarrow> scan (stream rs) base 0 = (rs, False)"
  using scan_stream [of base "[]" rs "[]"] by (simp add: scan_end)

lemma scan_torn:
  assumes "chained base (rs @ [r])" and "0 < k" and "k < record_size r"
  shows "scan (stream rs @ take k (enc r)) base 0 = (rs, True)"
proof -
  let ?raw = "stream rs @ take k (enc r)"
  have r: "record_ok r" using assms(1) by (simp add: chained_append)
  then have "decode_log_record ?raw (length (stream rs)) base = None"
    using decode_torn [of r "enc r" k "stream rs" base] assms(3) by (simp add: record_ok_def)
  then have "scan ?raw base (length (stream rs)) = ([], True)"
    using assms(2,3) r by (subst scan.simps) simp
  then show ?thesis using scan_stream [of base "[]" rs "take k (enc r)"] assms(1) by (simp add: chained_append)
qed

section \<open>What the operations do to the log\<close>

lemma wal_open_ok: "chained base rs \<Longrightarrow> wal_ok (wal_open base (stream rs)) rs []"
  by (simp add: wal_open_def wal_ok_def)

lemma wal_append_ok:
  assumes "wal_ok l old staged" and "wal_append l t txn pid before after = Inr (r, l')"
    and "length before \<le> MAX_IMAGE_BYTES" and "length after \<le> MAX_IMAGE_BYTES"
  shows "wal_ok l' old (staged @ [r])" and "base_lsn l' = base_lsn l" and "sync_on_commit l' = sync_on_commit l"
    and "r_lsn r = next_lsn l" and "r_transaction_id r = txn" and "r_type r = t" and "r_page_id r = pid"
    and "r_before_image r = before" and "r_after_image r = after" and "w_file l' = w_file l"
    and "flushed_lsn l' = flushed_lsn l"
proof -
  have open': "\<not> w_closed l" using assms(1) by (simp add: wal_ok_def)
  define r0 where "r0 = \<lparr>r_lsn = next_lsn l, r_prev_lsn = (case last_lsn_of l txn of None \<Rightarrow> 0 | Some p \<Rightarrow> p),
    r_transaction_id = txn, r_type = t, r_page_id = pid, r_before_image = before, r_after_image = after\<rparr>"
  obtain e where e: "record_to_bytes r0 = Inr e" and r: "r = r0"
    and l': "l' = l\<lparr>w_buffer := w_buffer l @ [e], buffer_bytes := buffer_bytes l + length e, buffer_tail := Some r0,
       last_lsn_of := (if txn \<noteq> NO_TRANSACTION then (last_lsn_of l)(txn \<mapsto> r_lsn r0) else last_lsn_of l),
       records_appended := records_appended l + 1, bytes_appended := bytes_appended l + record_size r0\<rparr>"
    using assms(2) open' unfolding wal_append_def Let_def r0_def [symmetric] by (auto simp: res_simps)
  have "enc r = e" "record_ok r" using e r assms(3,4) by (auto simp: enc_def record_ok_def image_ok_def r0_def)
  moreover have "r_lsn r = next_lsn l" by (simp add: r r0_def)
  ultimately show "wal_ok l' old (staged @ [r])"
    using assms(1) by (auto simp: wal_ok_def l' r chained_append next_lsn_def add.assoc)
qed (use assms(1,2) in \<open>auto simp: wal_append_def wal_ok_def Let_def res_simps\<close>)

lemma wal_append_succeeds:
  assumes "wal_ok l old staged" and "next_lsn l < 256 ^ 8" and "txn < 256 ^ 8" and "pid < 256 ^ 4"
    and "\<And>p. last_lsn_of l txn = Some p \<Longrightarrow> p < 256 ^ 8"
    and "length before \<le> MAX_IMAGE_BYTES" and "length after \<le> MAX_IMAGE_BYTES"
  shows "\<exists>r l'. wal_append l t txn pid before after = Inr (r, l')"
  using assms by (auto simp: wal_append_def wal_ok_def record_to_bytes_def MAX_IMAGE_BYTES_def guard_res_def Let_def
      split: option.splits)

lemma wal_flush_ok:
  assumes "wal_ok l old staged" and "wal_flush s l = Inr l'"
  shows "wal_ok l' (old @ staged) []" and "base_lsn l' = base_lsn l" and "next_lsn l' = next_lsn l"
    and "last_lsn_of l' = last_lsn_of l"
  using assms by (auto simp: wal_flush_def wal_ok_def next_lsn_def Let_def split: if_splits)

lemma wal_flush_succeeds: "wal_ok l old staged \<Longrightarrow> \<exists>l'. wal_flush s l = Inr l'"
  by (simp add: wal_flush_def wal_ok_def Let_def)

lemma wal_ok_last_lsn_of [simp]: "wal_ok (l\<lparr>last_lsn_of := m\<rparr>) old staged = wal_ok l old staged"
  by (simp add: wal_ok_def)

lemma supersedes_Some:
  assumes "wal_ok l old staged" and "supersedes l txn pid = Some tail"
  shows "\<exists>front. staged = front @ [tail]" and "r_type tail = UPDATE" and "r_page_id tail = pid" and "r_transaction_id tail = txn"
  using assms by (auto simp: supersedes_def wal_ok_def split: option.splits if_splits)
    (metis append_butlast_last_id)

text \<open>The two cases of \<open>append_update\<close>.\<close>

lemma append_update_replaces:
  assumes ok: "wal_ok l old (front @ [tail])" and s: "supersedes l txn pid = Some tail"
    and a: "append_update l txn pid before img = Inr (r, l')" and after: "length (r_after_image r) \<le> MAX_IMAGE_BYTES"
  shows "wal_ok l' old (front @ [r])" and "base_lsn l' = base_lsn l" and "img (r_lsn r) = Inr (r_after_image r)"
    and "r_page_id r = pid" and "r_transaction_id r = txn" and "r_type r = UPDATE" and "r_lsn r = r_lsn tail"
    and "r_before_image r = r_before_image tail"
proof -
  have open': "\<not> w_closed l" using ok by (simp add: wal_ok_def)
  obtain i e where i: "img (r_lsn tail) = Inr i"
    and r: "r = \<lparr>r_lsn = r_lsn tail, r_prev_lsn = r_prev_lsn tail, r_transaction_id = txn, r_type = UPDATE,
              r_page_id = pid, r_before_image = r_before_image tail, r_after_image = i\<rparr>"
    and e: "record_to_bytes r = Inr e"
    and l': "l' = l\<lparr>buffer_bytes := buffer_bytes l + length e - length (last (w_buffer l)),
         w_buffer := butlast (w_buffer l) @ [e], buffer_tail := Some r,
         records_coalesced := records_coalesced l + 1\<rparr>"
    using a open' s by (auto simp: append_update_def Let_def res_simps)
  have tl: "record_ok tail" "r_lsn tail = base_lsn l + length (stream (old @ front))"
    using ok by (simp_all add: wal_ok_def chained_append)
  then have "record_ok r" "enc r = e" using e after by (auto simp: enc_def record_ok_def image_ok_def r)
  then show "wal_ok l' old (front @ [r])" using ok tl by (simp add: wal_ok_def l' chained_append butlast_append r)
  show "base_lsn l' = base_lsn l" "img (r_lsn r) = Inr (r_after_image r)" "r_page_id r = pid" "r_transaction_id r = txn"
    "r_type r = UPDATE" "r_lsn r = r_lsn tail" "r_before_image r = r_before_image tail"
    using i by (simp_all add: r l')
qed

lemma append_update_ok:
  assumes ok: "wal_ok l old staged" and a: "append_update l txn pid before img = Inr (r, l')"
    and before: "length before \<le> MAX_IMAGE_BYTES" and after: "length (r_after_image r) \<le> MAX_IMAGE_BYTES"
  shows "\<exists>front. wal_ok l' old (front @ [r]) \<and> base_lsn l' = base_lsn l \<and> img (r_lsn r) = Inr (r_after_image r) \<and>
    r_page_id r = pid \<and> r_transaction_id r = txn \<and> r_type r = UPDATE \<and>
    (front = staged \<and> r_before_image r = before \<or>
     (\<exists>tail. staged = front @ [tail] \<and> r_page_id tail = pid \<and> r_transaction_id tail = txn \<and> r_type tail = UPDATE \<and>
       r_lsn tail = r_lsn r \<and> r_before_image tail = r_before_image r))"
proof (cases "supersedes l txn pid")
  case None
  have open': "\<not> w_closed l" using ok by (simp add: wal_ok_def)
  obtain i where i: "img (next_lsn l) = Inr i" and ap: "wal_append l UPDATE txn pid before i = Inr (r, l')"
    using a open' None by (auto simp: append_update_def res_simps)
  have "r_after_image r = i" using ap open' by (auto simp: wal_append_def Let_def res_simps)
  note w = wal_append_ok [OF ok ap before, unfolded this [symmetric], OF after]
  show ?thesis using w i \<open>r_after_image r = i\<close> by (intro exI [of _ staged]) simp
next
  case (Some tail)
  from supersedes_Some [OF ok Some] obtain front where t: "staged = front @ [tail]" "r_type tail = UPDATE"
    "r_page_id tail = pid" "r_transaction_id tail = txn" by blast
  show ?thesis using append_update_replaces [OF ok [unfolded t(1)] Some a after] t by (intro exI [of _ front]) simp
qed

lemma wal_commit_ok:
  assumes "wal_ok l old staged" and "wal_commit l txn = Inr (r, l')"
  shows "wal_ok l' (old @ staged @ [r]) []" and "base_lsn l' = base_lsn l" and "r_type r = COMMIT"
    and "r_transaction_id r = txn" and "r_lsn r = next_lsn l"
proof -
  from assms(2) obtain l1 l2 where a: "wal_append l COMMIT txn 0 [] [] = Inr (r, l1)"
    and f: "wal_flush (sync_on_commit l1) l1 = Inr l2" and l': "l' = l2\<lparr>last_lsn_of := (last_lsn_of l2)(txn := None)\<rparr>"
    by (auto simp: wal_commit_def res_simps)
  note w = wal_append_ok [OF assms(1) a]
  show "wal_ok l' (old @ staged @ [r]) []" "base_lsn l' = base_lsn l" "r_type r = COMMIT" "r_transaction_id r = txn"
    "r_lsn r = next_lsn l"
    using w wal_flush_ok [OF w(1) f] by (simp_all add: l')
qed

lemma read_all_ok: "wal_ok l old staged \<Longrightarrow> read_all l = Inr (old, False)"
  using scan_whole by (simp add: wal_ok_def read_all_def chained_append)


lemma record_okI:
  "r_lsn r < 256 ^ 8 \<Longrightarrow> r_prev_lsn r < 256 ^ 8 \<Longrightarrow> r_transaction_id r < 256 ^ 8 \<Longrightarrow> r_page_id r < 256 ^ 4 \<Longrightarrow>
   image_ok r \<Longrightarrow> record_ok r"
  by (auto simp: record_ok_def enc_def record_to_bytes_def image_ok_def MAX_IMAGE_BYTES_def guard_res_def)

section \<open>Properties\<close>

text \<open>
  C33: The forward scan recovers the log. Of a log file that was cut short at any byte of its last
  record, \<open>read_all\<close> returns every record before it, in order and unchanged; it returns the last
  one too exactly when the cut lost nothing, and it reports a truncated tail exactly when some but
  not all bytes of the last record are there.
\<close>

theorem wal_scan_recovers:
  assumes "chained base (rs @ [r])" and "k \<le> record_size r"
  shows "scan (stream rs @ take k (enc r)) base 0 =
    (if k = record_size r then (rs @ [r], False) else (rs, 0 < k))"
proof -
  have r: "record_ok r" and rs: "chained base rs" using assms(1) by (simp_all add: chained_append)
  consider "k = record_size r" | "k = 0" "k < record_size r" | "0 < k" "k < record_size r"
    using assms(2) by linarith
  then show ?thesis
  proof cases
    case 1
    then show ?thesis using scan_whole [OF assms(1)] r by simp
  next
    case 2
    then show ?thesis using scan_whole [OF rs] by simp
  next
    case 3
    then show ?thesis using scan_torn [OF assms(1)] by simp
  qed
qed

definition demo_commit :: log_record where
  "demo_commit = \<lparr>r_lsn = 10, r_prev_lsn = 0, r_transaction_id = 7, r_type = COMMIT, r_page_id = 0,
     r_before_image = [], r_after_image = []\<rparr>"

lemma demo_commit_chained: "chained 10 [demo_commit]"
  by (auto simp: demo_commit_def image_ok_def intro: record_okI)

theorem wal_scan_recovers_witness:
  "chained 10 ([] @ [demo_commit]) \<and> scan (take 20 (enc demo_commit)) 10 0 = ([], True) \<and>
   scan (take 44 (enc demo_commit)) 10 0 = ([demo_commit], False)"
proof -
  have c: "chained 10 ([] @ [demo_commit])" using demo_commit_chained by simp
  have s: "record_size demo_commit = 44" by (simp add: record_size_def demo_commit_def)
  show ?thesis using c wal_scan_recovers [OF c, of 20] wal_scan_recovers [OF c, of 44] s by simp
qed

text \<open>
  C34: A commit makes the log of the transaction durable. After \<open>commit\<close> the file holds, and a log
  opened afterwards on the same file reads back, every record appended before it, then the commit
  record, with nothing left in memory only.
\<close>

theorem commit_durable:
  assumes "wal_ok l old staged" and "wal_commit l txn = Inr (r, l')"
  shows "read_all (wal_open (base_lsn l') (w_file l')) = Inr (old @ staged @ [r], False) \<and>
    r_type r = COMMIT \<and> r_transaction_id r = txn \<and> r_lsn r = next_lsn l \<and> wal_ok l' (old @ staged @ [r]) []"
proof -
  note w = wal_commit_ok [OF assms]
  have "w_file l' = stream (old @ staged @ [r])" "chained (base_lsn l') (old @ staged @ [r])"
    using w(1) by (simp_all add: wal_ok_def)
  then have "wal_ok (wal_open (base_lsn l') (w_file l')) (old @ staged @ [r]) []"
    using wal_open_ok by metis
  then show ?thesis using read_all_ok w by blast
qed

theorem commit_durable_witness:
  "\<exists>l'. wal_ok (wal_open 10 []) [] [] \<and> wal_commit (wal_open 10 []) 7 = Inr (demo_commit, l') \<and>
     read_all (wal_open 10 (w_file l')) = Inr ([demo_commit], False)"
proof -
  have ok: "wal_ok (wal_open 10 []) [] []" using wal_open_ok [of 10 "[]"] by simp
  have "record_to_bytes demo_commit = Inr (enc demo_commit)" using demo_commit_chained by (simp add: record_ok_def)
  then obtain l' where c: "wal_commit (wal_open 10 []) 7 = Inr (demo_commit, l')" "base_lsn l' = 10"
    by (simp add: wal_commit_def wal_append_def wal_open_def wal_flush_def next_lsn_def demo_commit_def NO_TRANSACTION_def
        Let_def)
  show ?thesis using commit_durable [OF ok c(1)] c ok by auto
qed

text \<open>
  Logging a page change. \<open>append_update\<close> leaves the log with one record more, or, when the last
  staged record is an update of the same page by the same transaction, with that record replaced by
  one that keeps its LSN and its before-image. Either way the image that is logged carries the LSN
  of its own record, and nothing else in the log changes.
\<close>

theorem append_update_coalesces:
  assumes "wal_ok l old staged" and "append_update l txn pid before img = Inr (r, l')"
    and "length before \<le> MAX_IMAGE_BYTES" and "length (r_after_image r) \<le> MAX_IMAGE_BYTES"
  shows "\<exists>front. wal_ok l' old (front @ [r]) \<and> img (r_lsn r) = Inr (r_after_image r) \<and>
    r_page_id r = pid \<and> r_transaction_id r = txn \<and>
    (front = staged \<and> r_before_image r = before \<or>
     (\<exists>tail. staged = front @ [tail] \<and> r_page_id tail = pid \<and> r_transaction_id tail = txn \<and>
       r_lsn tail = r_lsn r \<and> r_before_image tail = r_before_image r))"
  using append_update_ok [OF assms] by blast

definition demo_update :: "nat \<Rightarrow> log_record" where
  "demo_update b = \<lparr>r_lsn = 0, r_prev_lsn = 0, r_transaction_id = 7, r_type = UPDATE, r_page_id = 3,
     r_before_image = [9], r_after_image = [word_of_nat b]\<rparr>"

lemma demo_update_ok: "record_ok (demo_update b)"
  by (rule record_okI) (simp_all add: demo_update_def image_ok_def MAX_IMAGE_BYTES_def)

lemma demo_update_append:
  "\<exists>l1. append_update (wal_open 0 []) 7 3 [9] (\<lambda>_. Inr [1]) = Inr (demo_update 1, l1) \<and> wal_ok l1 [] [demo_update 1]"
proof -
  have e: "record_to_bytes (demo_update 1) = Inr (enc (demo_update 1))" using demo_update_ok by (simp add: record_ok_def)
  have ok: "wal_ok (wal_open 0 []) [] []" using wal_open_ok [of 0 "[]"] by simp
  obtain l1 where a: "append_update (wal_open 0 []) 7 3 [9] (\<lambda>_. Inr [1]) = Inr (demo_update 1, l1)"
    using e by (simp add: append_update_def supersedes_def wal_append_def wal_open_def next_lsn_def NO_TRANSACTION_def
        demo_update_def Let_def)
  from append_update_ok [OF ok a] have "wal_ok l1 [] [demo_update 1]"
    by (auto simp: MAX_IMAGE_BYTES_def demo_update_def)
  with a show ?thesis by blast
qed

theorem append_update_coalesces_witness:
  "\<exists>l1 l2. append_update (wal_open 0 []) 7 3 [9] (\<lambda>_. Inr [1]) = Inr (demo_update 1, l1) \<and>
     append_update l1 7 3 [] (\<lambda>_. Inr [2]) = Inr (demo_update 2, l2) \<and> wal_ok l2 [] [demo_update 2]"
proof -
  obtain l1 where a: "append_update (wal_open 0 []) 7 3 [9] (\<lambda>_. Inr [1]) = Inr (demo_update 1, l1)"
    and ok: "wal_ok l1 [] [demo_update 1]" using demo_update_append by blast
  have e: "record_to_bytes (demo_update 2) = Inr (enc (demo_update 2))" using demo_update_ok by (simp add: record_ok_def)
  have "supersedes l1 7 3 = Some (demo_update 1)" "\<not> w_closed l1"
    using ok by (simp_all add: supersedes_def wal_ok_def demo_update_def)
  then obtain l2 where b: "append_update l1 7 3 [] (\<lambda>_. Inr [2]) = Inr (demo_update 2, l2)"
    using e by (simp add: append_update_def demo_update_def Let_def)
  have "wal_ok l2 [] [demo_update 2]"
    using append_update_coalesces [OF ok b] by (auto simp: MAX_IMAGE_BYTES_def demo_update_def Cons_eq_append_conv)
  with a b show ?thesis by blast
qed

text \<open>
  The write-ahead rule, as the code has it. Before a page goes to the database file the pool asks
  \<open>flush_through\<close> for the page's LSN. When the record that carries this LSN is staged and is not
  the first staged one, the whole buffer reaches the file, this record included. But an LSN is the
  position where a record starts, so the first staged record has exactly \<open>flushed_lsn\<close>, the
  comparison \<open>lsn > flushed_lsn\<close> fails, and the page goes out while its record is still in memory.
\<close>

theorem flush_through_rule:
  assumes "wal_ok l old (front @ r # rest)" and "flush_through l (r_lsn r) = Inr l'"
  shows "read_all l' = Inr (if front = [] then old else old @ front @ r # rest, False)"
proof -
  have c: "chained (base_lsn l) (old @ front @ r # rest)" "flushed_lsn l = base_lsn l + length (stream old)"
    using assms(1) by (simp_all add: wal_ok_def)
  then have r: "r_lsn r = flushed_lsn l + length (stream front)" by (simp add: chained_append)
  have "front \<noteq> [] \<Longrightarrow> 0 < length (stream front)"
    using c(1) record_size_pos [of "hd front"] by (cases front) (simp_all add: chained_append)
  then have "r_lsn r > flushed_lsn l \<longleftrightarrow> front \<noteq> []" using r by auto
  then show ?thesis
    using assms(2) read_all_ok [OF assms(1)] read_all_ok [OF wal_flush_ok(1) [OF assms(1)]]
    by (auto simp: flush_through_def split: if_splits)
qed

theorem flush_through_rule_witness:
  "\<exists>l1. wal_ok l1 [] [demo_update 1] \<and> flush_through l1 (r_lsn (demo_update 1)) = Inr l1 \<and>
     read_all l1 = Inr ([], False)"
proof -
  obtain l1 where ok: "wal_ok l1 [] ([] @ demo_update 1 # [])" using demo_update_append by auto
  then have f: "flush_through l1 (r_lsn (demo_update 1)) = Inr l1"
    by (simp add: flush_through_def wal_ok_def demo_update_def)
  from flush_through_rule [OF ok f] ok f show ?thesis by auto
qed

text \<open>
  A torn first record hides everything that follows. When a crash leaves a log file of four bytes,
  the scan finds no record, so recovery has nothing to do and does not reset the log; records are
  then appended after the torn bytes, and although \<open>commit\<close> succeeds, the next scan still finds
  nothing: the committed work cannot be recovered.
\<close>

theorem torn_head_hides_commits:
  assumes "length torn = 4" and "wal_commit (wal_open 0 torn) txn = Inr (r, l')"
  shows "read_all (wal_open 0 torn) = Inr ([], True) \<and> read_all (wal_open 0 (w_file l')) = Inr ([], True)"
proof -
  have first: "read_all (wal_open 0 torn) = Inr ([], True)"
    using assms(1) by (simp add: read_all_def wal_open_def scan.simps [of torn] decode_short)
  from assms obtain e where e: "record_to_bytes r = Inr e" and f: "w_file l' = torn @ e" and "r_lsn r = 4"
    by (auto simp: wal_commit_def wal_append_def wal_flush_def wal_open_def next_lsn_def Let_def res_simps)
  have len: "44 \<le> length e" using record_to_bytes_length [OF e] by (simp add: record_size_def)
  have "slice (torn @ e) 4 8 = slice e 0 4 @ slice e 4 4"
    using slice_in_context [of torn e 0 8] assms(1) slice_split [of e 0 4 4] by simp
  moreover have "slice e 4 4 = slice (slice e 4 8) 0 4" by (simp add: slice_slice)
  moreover have "slice e 4 8 = le_bytes 8 4"
    using record_fields(2) [OF e] \<open>r_lsn r = 4\<close> le_bytes_le_nat [of 8 "slice e 4 8"] len by simp
  ultimately have "le_nat (slice (torn @ e) 4 8) = le_nat (slice e 0 4) + 256 ^ 4 * 4"
    using len by (simp add: le_nat_append) (simp add: slice_def le_bytes_numeral)
  then have "decode_log_record (torn @ e) 0 0 = None" by (intro decode_wrong_lsn) simp
  then have "scan (torn @ e) 0 0 = ([], True)" using len by (subst scan.simps) auto
  then show ?thesis using first by (simp add: read_all_def wal_open_def f)
qed

theorem torn_head_hides_commits_witness:
  "\<exists>r l'. wal_commit (wal_open 0 [1, 2, 3, 4]) 7 = Inr (r, l') \<and> read_all (wal_open 0 (w_file l')) = Inr ([], True)"
proof -
  let ?l = "wal_open 0 [1, 2, 3, 4]"
  obtain r l1 where "wal_append ?l COMMIT 7 0 [] [] = Inr (r, l1)"
    by (simp add: wal_append_def wal_open_def record_to_bytes_def next_lsn_def Let_def)
  moreover from this have "\<not> w_closed l1" by (auto simp: wal_append_def wal_open_def Let_def res_simps)
  ultimately obtain l' where "wal_commit ?l 7 = Inr (r, l')" by (simp add: wal_commit_def wal_flush_def Let_def)
  then show ?thesis using torn_head_hides_commits [of "[1, 2, 3, 4]" 7] by auto
qed

end
