(* ===== verification/Meta.thy ===== *)
theory Meta
  imports Page
begin

text \<open>
  The meta page (\<open>engine/storage/meta.py\<close>): page 0, a fixed 88-byte header with its own checksum,
  held decoded in memory and encoded on every write. The rest of the page is zero.
\<close>

definition MAGIC :: bytes where
  "MAGIC = map (\<lambda>c. word_of_nat (of_char c)) ''ChenDB Format 1'' @ [0]"

definition FORMAT_VERSION :: nat where "FORMAT_VERSION = 5"
definition META_HEADER_SIZE :: nat where [simp]: "META_HEADER_SIZE = 88"

record meta_page =
  m_page_size :: nat
  m_page_count :: nat
  m_format_version :: nat
  m_free_list_head :: nat
  m_tables_first :: nat
  m_tables_last :: nat
  m_columns_first :: nat
  m_columns_last :: nat
  m_indexes_first :: nat
  m_indexes_last :: nat
  m_next_object_id :: nat
  m_lsn :: nat
  m_checkpoint_lsn :: nat
  m_next_xid :: nat
  m_flags :: nat

definition meta_new :: "nat \<Rightarrow> nat \<Rightarrow> meta_page" where
  "meta_new n count =
     \<lparr>m_page_size = n, m_page_count = count, m_format_version = FORMAT_VERSION,
      m_free_list_head = INVALID_PAGE_ID, m_tables_first = INVALID_PAGE_ID, m_tables_last = INVALID_PAGE_ID,
      m_columns_first = INVALID_PAGE_ID, m_columns_last = INVALID_PAGE_ID, m_indexes_first = INVALID_PAGE_ID,
      m_indexes_last = INVALID_PAGE_ID, m_next_object_id = 0, m_lsn = 0, m_checkpoint_lsn = 0, m_next_xid = 0,
      m_flags = 0\<rparr>"

text \<open>The 32-bit fields between the magic and the LSN, and the header up to the checksum.\<close>

definition meta_words :: "meta_page \<Rightarrow> nat list" where
  "meta_words m =
     [m_format_version m, m_page_size m, m_page_count m, m_free_list_head m, m_tables_first m, m_tables_last m,
      m_columns_first m, m_columns_last m, m_indexes_first m, m_indexes_last m, m_next_object_id m]"

definition meta_header :: "meta_page \<Rightarrow> bytes" where
  "meta_header m =
     MAGIC @ concat (map (le_bytes 4) (meta_words m)) @ le_bytes 8 (m_lsn m) @ le_bytes 8 (m_checkpoint_lsn m) @
     le_bytes 4 (m_next_xid m) @ le_bytes 4 (m_flags m)"

text \<open>What \<open>struct.pack_into\<close> needs: room for the header, and every value within its field.\<close>

definition meta_fits :: "meta_page \<Rightarrow> bool" where
  "meta_fits m \<longleftrightarrow> META_HEADER_SIZE \<le> m_page_size m \<and> (\<forall>w\<in>set (meta_words m). w < 256 ^ 4) \<and>
     m_lsn m < 256 ^ 8 \<and> m_checkpoint_lsn m < 256 ^ 8 \<and> m_next_xid m < 256 ^ 4 \<and> m_flags m < 256 ^ 4"

definition meta_to_bytes :: "meta_page \<Rightarrow> bytes res" where
  "meta_to_bytes m =
     guard_res (meta_fits m) StructError
       (Inr (meta_header m @ le_bytes 4 (crc32 (meta_header m)) @ zeros (m_page_size m - META_HEADER_SIZE)))"

definition meta_from_bytes :: "bytes \<Rightarrow> bool \<Rightarrow> meta_page res" where
  "meta_from_bytes raw do_verify =
     (if length raw < META_HEADER_SIZE then Inl CorruptDatabaseError
      else
        let field = (\<lambda>n off. le_nat (slice raw off n));
            m = \<lparr>m_page_size = field 4 20, m_page_count = field 4 24, m_format_version = field 4 16,
                 m_free_list_head = field 4 28, m_tables_first = field 4 32, m_tables_last = field 4 36,
                 m_columns_first = field 4 40, m_columns_last = field 4 44, m_indexes_first = field 4 48,
                 m_indexes_last = field 4 52, m_next_object_id = field 4 56, m_lsn = field 8 60,
                 m_checkpoint_lsn = field 8 68, m_next_xid = field 4 76, m_flags = field 4 80\<rparr>
        in if slice raw 0 16 \<noteq> MAGIC then Inl CorruptDatabaseError
           else if m_format_version m \<noteq> FORMAT_VERSION then Inl CorruptDatabaseError
           else if do_verify \<and> crc32 (take 84 raw) \<noteq> field 4 84 then Inl ChecksumMismatchError
           else if m_page_count m < 1 then Inl CorruptDatabaseError
           else Inr m)"

definition stamp_meta_lsn :: "bytes \<Rightarrow> nat \<Rightarrow> bytes res" where
  "stamp_meta_lsn raw l =
     bind_res (pack_into 8 raw 60 l) (\<lambda>b. pack_into 4 b 84 (crc32 (take 84 b)))"

definition read_meta_lsn :: "bytes \<Rightarrow> nat" where
  "read_meta_lsn raw = (if length raw < META_HEADER_SIZE then 0 else le_nat (slice raw 60 8))"

section \<open>Lemmas\<close>

lemma length_MAGIC [simp]: "length MAGIC = 16"
  by (simp add: MAGIC_def)

lemma length_meta_header [simp]: "length (meta_header m) = 84"
  by (simp add: meta_header_def meta_words_def)

lemma meta_to_bytes_length: "meta_to_bytes m = Inr raw \<Longrightarrow> length raw = m_page_size m \<and> 88 \<le> length raw"
  by (auto simp: meta_to_bytes_def meta_fits_def res_simps)

text \<open>The fields of an encoded header, followed by anything.\<close>

lemma meta_fields:
  assumes "\<forall>w\<in>set (meta_words m). w < 256 ^ 4" and "m_lsn m < 256 ^ 8" and "m_checkpoint_lsn m < 256 ^ 8"
    and "m_next_xid m < 256 ^ 4" and "m_flags m < 256 ^ 4"
  shows "slice (meta_header m @ rest) 0 16 = MAGIC"
    and "\<lparr>m_page_size = le_nat (slice (meta_header m @ rest) 20 4), m_page_count = le_nat (slice (meta_header m @ rest) 24 4),
          m_format_version = le_nat (slice (meta_header m @ rest) 16 4),
          m_free_list_head = le_nat (slice (meta_header m @ rest) 28 4), m_tables_first = le_nat (slice (meta_header m @ rest) 32 4),
          m_tables_last = le_nat (slice (meta_header m @ rest) 36 4), m_columns_first = le_nat (slice (meta_header m @ rest) 40 4),
          m_columns_last = le_nat (slice (meta_header m @ rest) 44 4), m_indexes_first = le_nat (slice (meta_header m @ rest) 48 4),
          m_indexes_last = le_nat (slice (meta_header m @ rest) 52 4), m_next_object_id = le_nat (slice (meta_header m @ rest) 56 4),
          m_lsn = le_nat (slice (meta_header m @ rest) 60 8), m_checkpoint_lsn = le_nat (slice (meta_header m @ rest) 68 8),
          m_next_xid = le_nat (slice (meta_header m @ rest) 76 4), m_flags = le_nat (slice (meta_header m @ rest) 80 4)\<rparr> = m"
  using assms by (simp_all add: meta_header_def meta_words_def slice_def)

lemma meta_from_header:
  assumes "meta_to_bytes m = Inr raw" and "m_format_version m = FORMAT_VERSION" and "1 \<le> m_page_count m" and "88 \<le> n"
  shows "meta_from_bytes (take n raw @ rest) v = Inr m"
proof -
  let ?c = "le_bytes 4 (crc32 (meta_header m))"
  have raw: "raw = meta_header m @ ?c @ zeros (m_page_size m - 88)"
    and b: "\<forall>w\<in>set (meta_words m). w < 256 ^ 4" "m_lsn m < 256 ^ 8" "m_checkpoint_lsn m < 256 ^ 8"
      "m_next_xid m < 256 ^ 4" "m_flags m < 256 ^ 4" and n: "88 \<le> m_page_size m"
    using assms(1) by (auto simp: meta_to_bytes_def meta_fits_def res_simps)
  define tl where "tl = take (n - 88) (zeros (m_page_size m - 88)) @ rest"
  have r: "take n raw @ rest = meta_header m @ ?c @ tl" using assms(4) by (simp add: raw tl_def)
  have "crc32 (meta_header m) < 256 ^ 4" by (rule crc32_bound)
  then have c: "le_nat (slice (meta_header m @ ?c @ tl) 84 4) = crc32 (meta_header m)"
    by (simp add: slice_middle)
  show ?thesis
    unfolding meta_from_bytes_def Let_def r meta_fields(2) [OF b]
    using meta_fields(1) [OF b, of "?c @ tl"] c assms(2,3) by simp
qed

lemma stamp_meta_lsn_ok:
  assumes "meta_to_bytes m = Inr raw" and "l < 256 ^ 8"
  shows "stamp_meta_lsn raw l = meta_to_bytes (m\<lparr>m_lsn := l\<rparr>)"
    and "\<exists>raw'. stamp_meta_lsn raw l = Inr raw' \<and> read_meta_lsn raw' = l \<and> length raw' = length raw"
proof -
  let ?m = "m\<lparr>m_lsn := l\<rparr>"
  define h where "h = MAGIC @ concat (map (le_bytes 4) (meta_words m))"
  define t where "t = le_bytes 8 (m_checkpoint_lsn m) @ le_bytes 4 (m_next_xid m) @ le_bytes 4 (m_flags m)"
  define z where "z = zeros (m_page_size m - 88)"
  have hd: "meta_header m = h @ le_bytes 8 (m_lsn m) @ t" "meta_header ?m = h @ le_bytes 8 l @ t"
    by (simp_all add: meta_header_def h_def t_def meta_words_def)
  have len: "length h = 60" "length t = 16" by (simp_all add: h_def t_def meta_words_def)
  have "meta_fits m" using assms(1) by (simp add: meta_to_bytes_def res_simps)
  then have "meta_fits ?m" using assms(2) unfolding meta_fits_def by (auto simp: meta_words_def)
  then have raw: "raw = h @ le_bytes 8 (m_lsn m) @ t @ le_bytes 4 (crc32 (meta_header m)) @ z"
    and fits: "meta_to_bytes ?m = Inr (h @ le_bytes 8 l @ t @ le_bytes 4 (crc32 (meta_header ?m)) @ z)"
    using assms(1) by (simp_all add: meta_to_bytes_def res_simps hd z_def)
  have s1: "pack_into 8 raw 60 l = Inr (h @ le_bytes 8 l @ t @ le_bytes 4 (crc32 (meta_header m)) @ z)"
    using assms(2) len by (simp add: pack_into_def raw slice_assign_def)
  have "crc32 (meta_header ?m) < 256 ^ 4" by (rule crc32_bound)
  then have s2: "pack_into 4 (h @ le_bytes 8 l @ t @ le_bytes 4 (crc32 (meta_header m)) @ z) 84 (crc32 (meta_header ?m)) =
      Inr (h @ le_bytes 8 l @ t @ le_bytes 4 (crc32 (meta_header ?m)) @ z)"
    using len by (simp add: pack_into_def slice_assign_def)
  have "take 84 (h @ le_bytes 8 l @ t @ le_bytes 4 (crc32 (meta_header m)) @ z) = meta_header ?m"
    using len by (simp add: hd)
  then have run: "stamp_meta_lsn raw l = Inr (h @ le_bytes 8 l @ t @ le_bytes 4 (crc32 (meta_header ?m)) @ z)"
    unfolding stamp_meta_lsn_def s1 bind_res_simps using s2 by simp
  then show "stamp_meta_lsn raw l = meta_to_bytes ?m" using fits by simp
  show "\<exists>raw'. stamp_meta_lsn raw l = Inr raw' \<and> read_meta_lsn raw' = l \<and> length raw' = length raw"
    using run len assms(2) by (simp add: read_meta_lsn_def raw) (simp add: slice_def)
qed

section \<open>Properties\<close>

text \<open>
  The meta page round-trips. What \<open>to_bytes\<close> writes, \<open>from_bytes\<close> reads back field for field with the
  checksum verified, even from a read that is shorter or longer than the page (opening a database
  reads 4096 bytes before the page size is known); and stamping the encoded page with an LSN is the
  same as encoding the page with that LSN.
\<close>

theorem meta_roundtrip:
  assumes "meta_to_bytes m = Inr raw" and "m_format_version m = FORMAT_VERSION" and "1 \<le> m_page_count m"
    and "88 \<le> n" and "l < 256 ^ 8"
  shows "meta_from_bytes (take n raw @ rest) True = Inr m \<and>
    stamp_meta_lsn raw l = meta_to_bytes (m\<lparr>m_lsn := l\<rparr>) \<and>
    (\<exists>raw'. stamp_meta_lsn raw l = Inr raw' \<and> read_meta_lsn raw' = l)"
  using meta_from_header [OF assms(1-4)] stamp_meta_lsn_ok [OF assms(1,5)] by blast

lemma meta_new_encodes: "88 \<le> n \<Longrightarrow> n < 256 ^ 4 \<Longrightarrow> \<exists>raw. meta_to_bytes (meta_new n 1) = Inr raw"
  by (simp add: meta_to_bytes_def meta_fits_def meta_new_def meta_words_def FORMAT_VERSION_def INVALID_PAGE_ID_def)

theorem meta_roundtrip_witness:
  "\<exists>raw. meta_to_bytes (meta_new 256 1) = Inr raw \<and> meta_from_bytes raw True = Inr (meta_new 256 1)"
proof -
  obtain raw where r: "meta_to_bytes (meta_new 256 1) = Inr raw" using meta_new_encodes [of 256] by auto
  have "take 4096 raw = raw" using meta_to_bytes_length [OF r] by (simp add: meta_new_def)
  moreover have "m_format_version (meta_new 256 1) = FORMAT_VERSION" "1 \<le> m_page_count (meta_new 256 1)"
    by (simp_all add: meta_new_def)
  ultimately show ?thesis using r meta_roundtrip [OF r, of 4096 0 "[]"] by simp
qed

end
