(* ===== verification/DiskFile.thy ===== *)
theory DiskFile
  imports Meta
begin

text \<open>
  The pager's raw file access (\<open>engine/storage/pager.py\<close>). A database file is the list of its bytes.
  A write that starts past the end leaves zeros in between, as POSIX files do; a read stops at the
  end. Counters, timing and \<open>fsync\<close> are left out. \<open>page_at\<close> is what a whole page of the file holds.
\<close>

definition file_offset :: "nat \<Rightarrow> nat \<Rightarrow> nat" where
  "file_offset n pid = pid * n"

text \<open>\<open>seek(off); write(raw)\<close> and \<open>ftruncate\<close> to at least \<open>k\<close> bytes.\<close>

definition file_write :: "nat \<Rightarrow> bytes \<Rightarrow> bytes \<Rightarrow> bytes" where
  "file_write off raw f = take off (f @ zeros (off - length f)) @ raw @ drop (off + length raw) f"

definition extend_file_to :: "nat \<Rightarrow> nat \<Rightarrow> bytes \<Rightarrow> bytes" where
  "extend_file_to n count f = f @ zeros (count * n - length f)"

definition read_from_disk :: "nat \<Rightarrow> nat \<Rightarrow> bytes \<Rightarrow> bytes res" where
  "read_from_disk n pid f =
     (let raw = slice f (file_offset n pid) n
      in guard_res (length raw = n) CorruptDatabaseError (Inr raw))"

definition write_to_disk :: "nat \<Rightarrow> nat \<Rightarrow> bytes \<Rightarrow> bytes \<Rightarrow> bytes" where
  "write_to_disk n pid raw f = file_write (file_offset n pid) raw f"

definition image_lsn :: "nat \<Rightarrow> bytes \<Rightarrow> nat" where
  "image_lsn pid raw = (if pid = META_PAGE_ID then read_meta_lsn raw else read_lsn raw)"

definition page_lsn_on_disk :: "nat \<Rightarrow> nat \<Rightarrow> bytes \<Rightarrow> int" where
  "page_lsn_on_disk n pid f =
     (if length f < (pid + 1) * n then -1
      else let raw = slice f (pid * n) n
           in if length raw < n then -1 else int (image_lsn pid raw))"

definition apply_recovered_page :: "nat \<Rightarrow> nat \<Rightarrow> bytes \<Rightarrow> bytes \<Rightarrow> bytes res" where
  "apply_recovered_page n pid img f =
     guard_res (length img = n) CorruptDatabaseError
       (Inr (file_write (pid * n) img (extend_file_to n (pid + 1) f)))"

section \<open>Pages of a file\<close>

definition page_at :: "nat \<Rightarrow> bytes \<Rightarrow> nat \<Rightarrow> bytes option" where
  "page_at n f pid = (if (pid + 1) * n \<le> length f then Some (slice f (pid * n) n) else None)"

text \<open>A file of whole pages.\<close>

definition aligned :: "nat \<Rightarrow> bytes \<Rightarrow> bool" where
  "aligned n f \<longleftrightarrow> n dvd length f"

lemma page_at_length: "page_at n f pid = Some b \<Longrightarrow> length b = n"
  by (auto simp: page_at_def split: if_splits)

lemma read_from_disk_page_at:
  "read_from_disk n pid f = (case page_at n f pid of None \<Rightarrow> Inl CorruptDatabaseError | Some b \<Rightarrow> Inr b)"
  by (cases "n = 0") (auto simp: read_from_disk_def page_at_def file_offset_def guard_res_def Let_def)

lemma page_lsn_on_disk_page_at:
  "page_lsn_on_disk n pid f = (case page_at n f pid of None \<Rightarrow> -1 | Some b \<Rightarrow> int (image_lsn pid b))"
  by (auto simp: page_lsn_on_disk_def page_at_def Let_def)

lemma file_write_append: "off \<le> length f \<Longrightarrow> file_write off raw f = take off f @ raw @ drop (off + length raw) f"
  by (simp add: file_write_def)

lemma length_file_write: "length (file_write off raw f) = max (length f) (off + length raw)"
  by (simp add: file_write_def max_def min_def)

lemma page_disjoint: "p \<noteq> pid \<Longrightarrow> p * n + n \<le> pid * n \<or> pid * n + n \<le> p * n" for p pid n :: nat
  by (metis Suc_leI add.commute linorder_neqE_nat mult_Suc mult_le_mono1)

lemma slice_file_write_same: "slice (file_write off raw f) off (length raw) = raw"
proof -
  have "length (take off (f @ zeros (off - length f))) = off" by simp
  then show ?thesis unfolding file_write_def by (intro slice_middle) simp_all
qed

lemma slice_file_write_other:
  assumes "a + k \<le> off \<or> off + length raw \<le> a" and "a + k \<le> length f"
  shows "slice (file_write off raw f) a k = slice f a k"
  using assms(1)
proof
  assume "a + k \<le> off"
  then show ?thesis using assms(2) by (simp add: file_write_def slice_def drop_take min_def)
next
  assume o: "off + length raw \<le> a"
  then have "off \<le> length f" using assms(2) by linarith
  then show ?thesis using o by (simp add: file_write_append slice_def)
qed

lemma slice_hole:
  assumes "length f \<le> a" and "a + k \<le> off"
  shows "slice (file_write off raw f) a k = zeros k"
proof -
  have "file_write off raw f = f @ zeros (off - length f) @ raw" using assms by (simp add: file_write_def)
  then have "slice (file_write off raw f) a k = slice (zeros (off - length f) @ raw) (a - length f) k"
    using assms by (simp add: slice_append_right)
  then show ?thesis using assms by simp
qed

lemma aligned_beyond:
  assumes "aligned n f" and "\<not> (p + 1) * n \<le> length f"
  shows "length f \<le> p * n"
proof -
  obtain m where "length f = n * m" using assms(1) by (auto simp: aligned_def)
  then show ?thesis using assms(2) by (metis add.commute less_Suc_eq_le mult.commute mult_le_mono1 not_le plus_1_eq_Suc)
qed

lemma aligned_file_write:
  assumes "aligned n f" and "length raw = n"
  shows "aligned n (file_write (pid * n) raw f)"
  using assms by (auto simp: aligned_def length_file_write max_def)

text \<open>Writing one page: the other pages keep their bytes, and pages skipped over are zero.\<close>

lemma page_at_write:
  assumes "aligned n f" and "length raw = n"
  shows "page_at n (file_write (pid * n) raw f) p =
    (if p = pid then Some raw
     else case page_at n f p of Some b \<Rightarrow> Some b | None \<Rightarrow> if p < pid then Some (zeros n) else None)"
proof -
  let ?f = "file_write (pid * n) raw f"
  have len: "length ?f = max (length f) (pid * n + n)" by (simp add: length_file_write assms(2))
  show ?thesis
  proof (cases "p = pid")
    case True
    then show ?thesis using len slice_file_write_same [of "pid * n" raw f] assms(2) by (simp add: page_at_def)
  next
    case False
    note d = page_disjoint [OF False, of n]
    show ?thesis
    proof (cases "(p + 1) * n \<le> length f")
      case True
      then have "slice ?f (p * n) n = slice f (p * n) n"
        using d assms(2) by (intro slice_file_write_other) auto
      then show ?thesis using True False len by (simp add: page_at_def)
    next
      case beyond: False
      note lf = aligned_beyond [OF assms(1) beyond]
      show ?thesis
      proof (cases "p < pid")
        case True
        then have "p * n + n \<le> pid * n" by (metis Suc_leI add.commute mult_Suc mult_le_mono1)
        then show ?thesis using True False beyond len slice_hole [OF lf] by (simp add: page_at_def)
      next
        case ge: False
        then have "pid * n + n \<le> p * n" using False by (metis Suc_leI add.commute linorder_neqE_nat mult_Suc mult_le_mono1)
        then have "length ?f \<le> p * n" using len lf by simp
        moreover have "0 < n" using beyond lf by (cases n) auto
        ultimately show ?thesis using False ge beyond by (simp add: page_at_def)
      qed
    qed
  qed
qed

lemma extend_then_write:
  "length img = n \<Longrightarrow> file_write (pid * n) img (extend_file_to n (pid + 1) f) = file_write (pid * n) img f"
  by (auto simp: file_write_def extend_file_to_def drop_append)

end
