(* ===== verification/Recovery.thy ===== *)
theory Recovery
  imports WalLog DiskFile
begin

text \<open>
  Crash recovery (\<open>engine/wal/recovery.py\<close>): analysis, redo and undo over the records of the log.
  The two callbacks of \<open>recover\<close> are arguments: \<open>read_page_lsn\<close>, which answers -1 for a page that is
  not there, and \<open>apply_page\<close>. The locale \<open>recovery_device\<close> states what recovery needs of them; it
  is interpreted on the pager's file. Timings and tracer events are left out.
\<close>

record recovery_report =
  ran :: bool
  records_scanned :: nat
  truncated_tail :: bool
  winners :: "nat list"
  losers :: "nat list"
  pages_redone :: nat
  pages_skipped :: nat
  pages_undone :: nat
  highest_lsn :: nat
  highest_xid :: nat

definition report_new :: recovery_report where
  "report_new = \<lparr>ran = False, records_scanned = 0, truncated_tail = False, winners = [], losers = [],
     pages_redone = 0, pages_skipped = 0, pages_undone = 0, highest_lsn = 0, highest_xid = 0\<rparr>"

text \<open>One iteration of the loop of \<open>_analyse\<close>: the transactions seen, those finished, the report.\<close>

definition analyse_step :: "log_record \<Rightarrow> nat set \<times> nat set \<times> recovery_report \<Rightarrow> nat set \<times> nat set \<times> recovery_report" where
  "analyse_step r = (\<lambda>(seen, finished, rep).
     let txn = r_transaction_id r;
         (seen, rep) = (if txn \<noteq> NO_TRANSACTION
                        then (insert txn seen, rep\<lparr>highest_xid := max (highest_xid rep) txn\<rparr>) else (seen, rep));
         finished = (if r_type r = COMMIT \<or> r_type r = ABORT then insert txn finished else finished)
     in (seen, finished, rep\<lparr>highest_lsn := max (highest_lsn rep) (end_lsn r)\<rparr>))"

definition analyse :: "log_record list \<Rightarrow> recovery_report \<Rightarrow> nat set \<times> nat set \<times> recovery_report" where
  "analyse rs rep = (let (seen, finished, rep) = fold analyse_step rs ({}, {}, rep) in (finished, seen - finished, rep))"

fun redo ::
  "(nat \<Rightarrow> 'd \<Rightarrow> int) \<Rightarrow> (nat \<Rightarrow> bytes \<Rightarrow> 'd \<Rightarrow> 'd res) \<Rightarrow> log_record list \<Rightarrow> recovery_report \<Rightarrow> 'd \<Rightarrow>
   (recovery_report \<times> 'd) res" where
  "redo read_page_lsn apply_page [] rep d = Inr (rep, d)"
| "redo read_page_lsn apply_page (r # rs) rep d =
     (if r_type r \<noteq> UPDATE then redo read_page_lsn apply_page rs rep d
      else if read_page_lsn (r_page_id r) d \<ge> int (r_lsn r)
      then redo read_page_lsn apply_page rs (rep\<lparr>pages_skipped := pages_skipped rep + 1\<rparr>) d
      else bind_res (apply_page (r_page_id r) (r_after_image r) d) (\<lambda>d.
             redo read_page_lsn apply_page rs (rep\<lparr>pages_redone := pages_redone rep + 1\<rparr>) d))"

text \<open>The loop of \<open>_undo\<close>, over the records in the order given.\<close>

fun undo_loop ::
  "(nat \<Rightarrow> bytes \<Rightarrow> 'd \<Rightarrow> 'd res) \<Rightarrow> nat set \<Rightarrow> log_record list \<Rightarrow> wal_log \<Rightarrow> recovery_report \<Rightarrow> 'd \<Rightarrow>
   (wal_log \<times> recovery_report \<times> 'd) res" where
  "undo_loop apply_page lost [] l rep d = Inr (l, rep, d)"
| "undo_loop apply_page lost (r # rs) l rep d =
     (if r_type r \<noteq> UPDATE \<or> r_transaction_id r \<notin> lost \<or> \<not> has_undo r then undo_loop apply_page lost rs l rep d
      else bind_res (wal_append l UPDATE (r_transaction_id r) (r_page_id r) [] (r_before_image r)) (\<lambda>(_, l).
           bind_res (apply_page (r_page_id r) (r_before_image r) d) (\<lambda>d.
             undo_loop apply_page lost rs l (rep\<lparr>pages_undone := pages_undone rep + 1\<rparr>) d)))"

fun abort_all :: "nat list \<Rightarrow> wal_log \<Rightarrow> wal_log res" where
  "abort_all [] l = Inr l"
| "abort_all (t # ts) l = bind_res (wal_abort l t) (\<lambda>(_, l). abort_all ts l)"

definition undo_pass ::
  "(nat \<Rightarrow> bytes \<Rightarrow> 'd \<Rightarrow> 'd res) \<Rightarrow> log_record list \<Rightarrow> nat set \<Rightarrow> wal_log \<Rightarrow> recovery_report \<Rightarrow> 'd \<Rightarrow>
   (wal_log \<times> recovery_report \<times> 'd) res" where
  "undo_pass apply_page rs lost l rep d =
     (if lost = {} then Inr (l, rep, d)
      else bind_res (undo_loop apply_page lost (rev rs) l rep d) (\<lambda>(l, rep, d).
           bind_res (abort_all (sorted_list_of_set lost) l) (\<lambda>l.
           bind_res (wal_flush True l) (\<lambda>l. Inr (l, rep, d)))))"

definition recover ::
  "(nat \<Rightarrow> 'd \<Rightarrow> int) \<Rightarrow> (nat \<Rightarrow> bytes \<Rightarrow> 'd \<Rightarrow> 'd res) \<Rightarrow> wal_log \<Rightarrow> 'd \<Rightarrow>
   (recovery_report \<times> wal_log \<times> 'd) res" where
  "recover read_page_lsn apply_page l d =
     bind_res (read_all l) (\<lambda>(rs, truncated).
       let rep = report_new\<lparr>truncated_tail := truncated, records_scanned := length rs\<rparr>
       in if rs = [] then Inr (rep, l, d)
          else let (won, lost, rep) = analyse rs (rep\<lparr>ran := True\<rparr>)
               in bind_res (redo read_page_lsn apply_page rs rep d) (\<lambda>(rep, d).
                  bind_res (undo_pass apply_page rs lost l rep d) (\<lambda>(l, rep, d).
                    Inr (rep\<lparr>winners := sorted_list_of_set won, losers := sorted_list_of_set lost\<rparr>, l, d))))"

section \<open>What analysis finds\<close>

definition txns_seen :: "log_record list \<Rightarrow> nat set" where
  "txns_seen rs = r_transaction_id ` set rs - {NO_TRANSACTION}"

definition txns_finished :: "log_record list \<Rightarrow> nat set" where
  "txns_finished rs = r_transaction_id ` set (filter (\<lambda>r. r_type r = COMMIT \<or> r_type r = ABORT) rs)"

abbreviation txns_lost :: "log_record list \<Rightarrow> nat set" where
  "txns_lost rs \<equiv> txns_seen rs - txns_finished rs"

lemma analyse_fold:
  "\<exists>rep'. fold analyse_step rs (s, f, rep) = (s \<union> txns_seen rs, f \<union> txns_finished rs, rep') \<and>
     highest_lsn rep \<le> highest_lsn rep' \<and> (\<forall>r\<in>set rs. end_lsn r \<le> highest_lsn rep') \<and>
     highest_xid rep \<le> highest_xid rep' \<and> (\<forall>t\<in>txns_seen rs. t \<le> highest_xid rep')"
proof (induction rs arbitrary: s f rep)
  case Nil
  then show ?case by (simp add: txns_seen_def txns_finished_def)
next
  case (Cons r rs)
  obtain s1 f1 rep1 where step: "analyse_step r (s, f, rep) = (s1, f1, rep1)" by (metis prod_cases3)
  have s1: "s1 = s \<union> txns_seen [r]" "f1 = f \<union> txns_finished [r]" and m: "end_lsn r \<le> highest_lsn rep1"
    "highest_lsn rep \<le> highest_lsn rep1" "highest_xid rep \<le> highest_xid rep1" "\<forall>t\<in>txns_seen [r]. t \<le> highest_xid rep1"
    using step by (auto simp: analyse_step_def Let_def txns_seen_def txns_finished_def split: if_splits)
  from Cons.IH [of s1 f1 rep1] obtain rep' where ih: "fold analyse_step rs (s1, f1, rep1) =
      (s1 \<union> txns_seen rs, f1 \<union> txns_finished rs, rep')" "highest_lsn rep1 \<le> highest_lsn rep'"
    "\<forall>r\<in>set rs. end_lsn r \<le> highest_lsn rep'" "highest_xid rep1 \<le> highest_xid rep'"
    "\<forall>t\<in>txns_seen rs. t \<le> highest_xid rep'" by blast
  have split: "txns_seen (r # rs) = txns_seen [r] \<union> txns_seen rs"
    "txns_finished (r # rs) = txns_finished [r] \<union> txns_finished rs"
    by (auto simp: txns_seen_def txns_finished_def)
  show ?case using ih m step s1 by (intro exI [of _ rep']) (auto simp: split)
qed

lemma analyse_ok:
  "\<exists>rep'. analyse rs rep = (txns_finished rs, txns_lost rs, rep') \<and>
     (\<forall>r\<in>set rs. end_lsn r \<le> highest_lsn rep') \<and> (\<forall>t\<in>txns_seen rs. t \<le> highest_xid rep')"
  using analyse_fold [of rs "{}" "{}" rep] by (auto simp: analyse_def)

lemma analyse_ran: "ran (snd (snd (analyse rs rep))) = ran rep"
proof -
  have "ran (snd (snd (fold analyse_step rs st))) = ran (snd (snd st))" for st
    by (induction rs arbitrary: st) (auto simp: analyse_step_def Let_def split: prod.splits)
  from this [of "({}, {}, rep)"] show ?thesis by (auto simp: analyse_def split: prod.splits)
qed

section \<open>The log during undo\<close>

definition prev_bounded :: "wal_log \<Rightarrow> bool" where
  "prev_bounded l \<longleftrightarrow> (\<forall>t p. last_lsn_of l t = Some p \<longrightarrow> p < 256 ^ 8)"

lemma wal_append_step:
  assumes "wal_ok l old staged" and "prev_bounded l" and "next_lsn l < 256 ^ 8" and "txn < 256 ^ 8" and "pid < 256 ^ 4"
    and "length before \<le> MAX_IMAGE_BYTES" and "length after \<le> MAX_IMAGE_BYTES"
  shows "\<exists>r l'. wal_append l t txn pid before after = Inr (r, l') \<and> wal_ok l' old (staged @ [r]) \<and>
    base_lsn l' = base_lsn l \<and> prev_bounded l' \<and> next_lsn l' = next_lsn l + 44 + length before + length after"
proof -
  obtain r l' where a: "wal_append l t txn pid before after = Inr (r, l')"
    using wal_append_succeeds [OF assms(1,3,4,5) _ assms(6,7)] assms(2) unfolding prev_bounded_def by blast
  note w = wal_append_ok [OF assms(1) a assms(6,7)]
  have lo: "last_lsn_of l' = (if txn \<noteq> NO_TRANSACTION then (last_lsn_of l)(txn \<mapsto> r_lsn r) else last_lsn_of l)"
    using a assms(1) by (auto simp: wal_append_def wal_ok_def Let_def res_simps)
  have "prev_bounded l'" using assms(2,3) w(4) lo by (auto simp: prev_bounded_def split: if_splits)
  moreover have "record_ok r" using w(1) chained_ok [of "base_lsn l'" "old @ staged @ [r]" r] by (simp add: wal_ok_def)
  then have "length (enc r) = 44 + length before + length after" using w(8,9) by (simp add: record_size_def)
  then have "next_lsn l' = next_lsn l + 44 + length before + length after"
    using wal_ok_next_lsn [OF w(1)] wal_ok_next_lsn [OF assms(1)] w(2) by simp
  ultimately show ?thesis using a w(1,2) by blast
qed

lemma wal_abort_step:
  assumes "wal_ok l old staged" and "prev_bounded l" and "next_lsn l < 256 ^ 8" and "txn < 256 ^ 8"
  shows "\<exists>r l' staged'. wal_abort l txn = Inr (r, l') \<and> wal_ok l' old staged' \<and> base_lsn l' = base_lsn l \<and>
    prev_bounded l' \<and> next_lsn l' = next_lsn l + 44"
proof -
  from wal_append_step [OF assms, of 0 "[]" "[]" ABORT] obtain r l1 where
    a: "wal_append l ABORT txn 0 [] [] = Inr (r, l1)" "wal_ok l1 old (staged @ [r])" "base_lsn l1 = base_lsn l"
      "prev_bounded l1" "next_lsn l1 = next_lsn l + 44" by auto
  let ?l = "l1\<lparr>last_lsn_of := (last_lsn_of l1)(txn := None)\<rparr>"
  have "wal_abort l txn = Inr (r, ?l)" using a(1) by (simp add: wal_abort_def)
  moreover have "prev_bounded ?l" using a(4) by (auto simp: prev_bounded_def split: if_splits)
  moreover have "next_lsn ?l = next_lsn l + 44" using a(5) by (simp add: next_lsn_def)
  ultimately show ?thesis using a(2,3) by (intro exI [of _ r] exI [of _ ?l] exI [of _ "staged @ [r]"]) simp
qed

lemma abort_all_ok:
  assumes "wal_ok l old staged" and "prev_bounded l" and "next_lsn l + 44 * length ts < 256 ^ 8"
    and "\<forall>t\<in>set ts. t < 256 ^ 8"
  shows "\<exists>l' staged'. abort_all ts l = Inr l' \<and> wal_ok l' old staged' \<and> base_lsn l' = base_lsn l"
  using assms
proof (induction ts arbitrary: l staged)
  case (Cons t ts)
  from Cons.prems obtain r l1 st where a: "wal_abort l t = Inr (r, l1)" "wal_ok l1 old st" "base_lsn l1 = base_lsn l"
    "prev_bounded l1" "next_lsn l1 = next_lsn l + 44" using wal_abort_step [of l old staged t] by auto
  from Cons.IH [OF a(2,4)] a(1,3,5) Cons.prems(3,4) show ?case by auto
qed auto

section \<open>The device interface\<close>

definition updates_of :: "nat \<Rightarrow> log_record list \<Rightarrow> log_record list" where
  "updates_of p rs = filter (\<lambda>r. r_type r = UPDATE \<and> r_page_id r = p) rs"

definition undo_images :: "nat set \<Rightarrow> nat \<Rightarrow> log_record list \<Rightarrow> log_record list" where
  "undo_images lost p rs = filter (\<lambda>r. r_transaction_id r \<in> lost \<and> has_undo r) (updates_of p rs)"

text \<open>
  What a crash leaves behind when the log precedes the pages: every logged image carries the LSN of
  its record, and a page in the file that carries the LSN of a record is that record's image, and is
  not newer than the log.
\<close>

definition coherent ::
  "('d \<Rightarrow> nat \<Rightarrow> bytes option) \<Rightarrow> (nat \<Rightarrow> bytes \<Rightarrow> nat) \<Rightarrow> nat \<Rightarrow> log_record list \<Rightarrow> 'd \<Rightarrow> bool" where
  "coherent content lsn_of psz rs d \<longleftrightarrow>
     (\<forall>r\<in>set rs. r_type r = UPDATE \<longrightarrow> length (r_after_image r) = psz \<and> lsn_of (r_page_id r) (r_after_image r) = r_lsn r \<and>
        (has_undo r \<longrightarrow> length (r_before_image r) = psz)) \<and>
     (\<forall>p b. content d p = Some b \<longrightarrow>
        (\<forall>r\<in>set (updates_of p rs). lsn_of p b = r_lsn r \<longrightarrow> b = r_after_image r) \<and>
        (updates_of p rs \<noteq> [] \<longrightarrow> lsn_of p b \<le> r_lsn (last (updates_of p rs))))"

locale recovery_device =
  fixes page_lsn :: "nat \<Rightarrow> 'd \<Rightarrow> int" and apply_page :: "nat \<Rightarrow> bytes \<Rightarrow> 'd \<Rightarrow> 'd res"
    and content :: "'d \<Rightarrow> nat \<Rightarrow> bytes option" and lsn_of :: "nat \<Rightarrow> bytes \<Rightarrow> nat"
    and dev_ok :: "'d \<Rightarrow> bool" and psz :: nat
  assumes page_lsn: "dev_ok d \<Longrightarrow> page_lsn p d = (case content d p of None \<Rightarrow> -1 | Some b \<Rightarrow> int (lsn_of p b))"
    and apply_page: "dev_ok d \<Longrightarrow> length b = psz \<Longrightarrow> \<exists>d'. apply_page p b d = Inr d' \<and> dev_ok d' \<and> content d' p = Some b \<and>
      (\<forall>q. q \<noteq> p \<longrightarrow> content d' q = content d q \<or> content d q = None \<and> (\<exists>z. content d' q = Some z \<and> lsn_of q z = 0))"
begin

text \<open>The state of every page after redo has processed the records \<open>done\<close>.\<close>

definition redo_inv :: "'d \<Rightarrow> log_record list \<Rightarrow> 'd \<Rightarrow> bool" where
  "redo_inv d0 past d \<longleftrightarrow> dev_ok d \<and> (past = [] \<longrightarrow> d = d0) \<and>
     (\<forall>p. if updates_of p past = [] then content d p = content d0 p \<or> content d0 p = None \<and> page_lsn p d \<le> 0
          else content d p = Some (r_after_image (last (updates_of p past))) \<or>
               content d p = content d0 p \<and> page_lsn p d > int (r_lsn (last (updates_of p past))))"

lemma redo_inv_skip:
  assumes inv: "redo_inv d0 past d" and co: "coherent content lsn_of psz rs d0" and rs: "rs = past @ r # rest"
    and c: "chained base rs" and u: "r_type r = UPDATE" and ge: "page_lsn (r_page_id r) d \<ge> int (r_lsn r)"
  shows "redo_inv d0 (past @ [r]) d"
proof -
  let ?p = "r_page_id r"
  have ok: "dev_ok d" using inv by (simp add: redo_inv_def)
  have later: "r' \<in> set past \<Longrightarrow> r_lsn r' < r_lsn r" for r'
    using c unfolding rs by (induction past arbitrary: base)
      (auto simp: chained_append record_size_def)
  have pos: "past \<noteq> [] \<Longrightarrow> 0 < r_lsn r" using later [of "hd past"] by (cases past) auto
  have last_in: "updates_of ?p past \<noteq> [] \<Longrightarrow> last (updates_of ?p past) \<in> set past"
    using last_in_set [of "updates_of ?p past"] by (auto simp: updates_of_def)
  have stamped: "lsn_of ?p (r_after_image r') = r_lsn r'" if "r' \<in> set (updates_of ?p past)" for r'
    using co that by (auto simp: coherent_def rs updates_of_def)
  obtain b where b: "content d ?p = Some b" "int (lsn_of ?p b) \<ge> int (r_lsn r)"
    using ge page_lsn [OF ok, of ?p] by (auto split: option.splits)
  have same: "content d0 ?p = Some b"
  proof (cases "updates_of ?p past = []")
    case True
    then have "past = [] \<or> \<not> page_lsn ?p d \<le> 0" using ge pos by fastforce
    then show ?thesis using inv True b ge unfolding redo_inv_def by (metis le_numeral_extra(3) option.distinct(1))
  next
    case False
    have "content d ?p \<noteq> Some (r_after_image (last (updates_of ?p past)))"
      using b stamped [of "last (updates_of ?p past)"] later [OF last_in [OF False]] False last_in_set [OF False] by auto
    then show ?thesis using inv False b unfolding redo_inv_def by metis
  qed
  have "b = r_after_image r \<or> lsn_of ?p b > r_lsn r"
    using co same b(2) u by (auto simp: coherent_def updates_of_def rs)
  then have "content d ?p = Some (r_after_image r) \<or> content d ?p = content d0 ?p \<and> page_lsn ?p d > int (r_lsn r)"
    using b same page_lsn [OF ok, of ?p] by auto
  moreover have "updates_of q (past @ [r]) = (if q = ?p then updates_of ?p past @ [r] else updates_of q past)" for q
    using u by (simp add: updates_of_def)
  ultimately show ?thesis using inv by (auto simp: redo_inv_def)
qed

lemma redo_inv_apply:
  assumes inv: "redo_inv d0 past d" and u: "r_type r = UPDATE" and len: "length (r_after_image r) = psz"
  shows "\<exists>d'. apply_page (r_page_id r) (r_after_image r) d = Inr d' \<and> redo_inv d0 (past @ [r]) d'"
proof -
  let ?p = "r_page_id r"
  have ok: "dev_ok d" using inv by (simp add: redo_inv_def)
  from apply_page [OF ok len, of ?p] obtain d' where d': "apply_page ?p (r_after_image r) d = Inr d'" "dev_ok d'"
    "content d' ?p = Some (r_after_image r)"
    "\<And>q. q \<noteq> ?p \<Longrightarrow> content d' q = content d q \<or> content d q = None \<and> (\<exists>z. content d' q = Some z \<and> lsn_of q z = 0)"
    by blast
  have up: "updates_of q (past @ [r]) = (if q = ?p then updates_of ?p past @ [r] else updates_of q past)" for q
    using u by (simp add: updates_of_def)
  have "if updates_of q past = [] then content d' q = content d0 q \<or> content d0 q = None \<and> page_lsn q d' \<le> 0
        else content d' q = Some (r_after_image (last (updates_of q past))) \<or>
             content d' q = content d0 q \<and> page_lsn q d' > int (r_lsn (last (updates_of q past)))" if q: "q \<noteq> ?p" for q
  proof (cases "content d q")
    case None
    then have "page_lsn q d' \<le> 0" using d'(4) [OF q] page_lsn [OF d'(2), of q] by auto
    moreover have "page_lsn q d = -1" using None page_lsn [OF ok, of q] by simp
    then have "updates_of q past = [] \<and> content d0 q = None"
      using inv None unfolding redo_inv_def by (elim conjE allE [of _ q]) (auto split: if_splits)
    ultimately show ?thesis by simp
  next
    case (Some b)
    then have "content d' q = content d q" using d'(4) [OF q] by auto
    then have "page_lsn q d' = page_lsn q d" using page_lsn [OF ok] page_lsn [OF d'(2)] by simp
    with \<open>content d' q = content d q\<close> show ?thesis using inv by (simp add: redo_inv_def)
  qed
  then have "redo_inv d0 (past @ [r]) d'" unfolding redo_inv_def using d' up by simp
  with d' show ?thesis by blast
qed

lemma redo_loop:
  assumes "redo_inv d0 past d" and "coherent content lsn_of psz rs d0" and "rs = past @ rest" and "chained base rs"
  shows "\<exists>rep' d'. redo page_lsn apply_page rest rep d = Inr (rep', d') \<and> redo_inv d0 rs d' \<and>
    highest_lsn rep' = highest_lsn rep \<and> highest_xid rep' = highest_xid rep \<and> ran rep' = ran rep"
  using assms
proof (induction rest arbitrary: past d rep)
  case Nil
  then show ?case by simp
next
  case (Cons r rest)
  let ?p = "r_page_id r"
  have rs: "rs = (past @ [r]) @ rest" using Cons.prems by simp
  show ?case
  proof (cases "r_type r = UPDATE")
    case False
    then have "updates_of q (past @ [r]) = updates_of q past" for q by (simp add: updates_of_def)
    then have "redo_inv d0 (past @ [r]) d" using Cons.prems(1) by (simp add: redo_inv_def)
    from Cons.IH [OF this Cons.prems(2) rs Cons.prems(4)] False show ?thesis by simp
  next
    case u: True
    show ?thesis
    proof (cases "page_lsn ?p d \<ge> int (r_lsn r)")
      case True
      note inv = redo_inv_skip [OF Cons.prems(1,2,3,4) u True]
      from Cons.IH [OF inv Cons.prems(2) rs Cons.prems(4), of "rep\<lparr>pages_skipped := pages_skipped rep + 1\<rparr>"] u True
      show ?thesis by simp
    next
      case False
      have "length (r_after_image r) = psz" using Cons.prems(2,3) u by (simp add: coherent_def)
      from redo_inv_apply [OF Cons.prems(1) u this] obtain d' where d': "apply_page ?p (r_after_image r) d = Inr d'"
        "redo_inv d0 (past @ [r]) d'" by blast
      from Cons.IH [OF d'(2) Cons.prems(2) rs Cons.prems(4), of "rep\<lparr>pages_redone := pages_redone rep + 1\<rparr>"] u False d'(1)
      show ?thesis by simp
    qed
  qed
qed

text \<open>Redo repeats history: every page the log mentions ends up as its last logged image.\<close>

lemma redo_ok:
  assumes "dev_ok d" and "coherent content lsn_of psz rs d" and "chained base rs"
  shows "\<exists>rep' d'. redo page_lsn apply_page rs rep d = Inr (rep', d') \<and> dev_ok d' \<and>
    highest_lsn rep' = highest_lsn rep \<and> highest_xid rep' = highest_xid rep \<and> ran rep' = ran rep \<and>
    (\<forall>p. if updates_of p rs \<noteq> [] then content d' p = Some (r_after_image (last (updates_of p rs)))
         else content d' p = content d p \<or> content d p = None)"
proof -
  have "redo_inv d [] d" using assms(1) by (simp add: redo_inv_def updates_of_def)
  from redo_loop [OF this assms(2) _ assms(3), of rs rep] obtain rep' d' where
    r: "redo page_lsn apply_page rs rep d = Inr (rep', d')" "redo_inv d rs d'" "highest_lsn rep' = highest_lsn rep"
      "highest_xid rep' = highest_xid rep" "ran rep' = ran rep" by auto
  have "content d' p = Some (r_after_image (last (updates_of p rs)))" if u: "updates_of p rs \<noteq> []" for p
  proof (rule ccontr)
    assume "content d' p \<noteq> Some (r_after_image (last (updates_of p rs)))"
    then have same: "content d' p = content d p" and gt: "page_lsn p d' > int (r_lsn (last (updates_of p rs)))"
      using r(2) u unfolding redo_inv_def by metis+
    have "dev_ok d'" using r(2) by (simp add: redo_inv_def)
    then obtain b where "content d p = Some b" "lsn_of p b > r_lsn (last (updates_of p rs))"
      using gt same page_lsn [of d' p] by (auto split: option.splits)
    then show False using assms(2) u unfolding coherent_def by (metis not_le)
  qed
  moreover have "content d' p = content d p \<or> content d p = None" if "updates_of p rs = []" for p
    using r(2) that unfolding redo_inv_def by metis
  ultimately show ?thesis using r unfolding redo_inv_def by auto
qed

text \<open>Undo writes the before-images of the lost transactions, in the order the records are given.\<close>

lemma undo_loop_ok:
  assumes "dev_ok d" and "wal_ok l old staged" and "prev_bounded l" and "next_lsn l + length (stream rs) < 256 ^ 8"
    and "\<forall>r\<in>set rs. record_ok r" and "\<forall>r\<in>set rs. r_type r = UPDATE \<and> has_undo r \<longrightarrow> length (r_before_image r) = psz"
  shows "\<exists>l' rep' d' staged'. undo_loop apply_page lost rs l rep d = Inr (l', rep', d') \<and> dev_ok d' \<and>
    wal_ok l' old staged' \<and> base_lsn l' = base_lsn l \<and> prev_bounded l' \<and> next_lsn l' \<le> next_lsn l + length (stream rs) \<and>
    highest_lsn rep' = highest_lsn rep \<and> highest_xid rep' = highest_xid rep \<and> ran rep' = ran rep \<and>
    (\<forall>p. if undo_images lost p rs \<noteq> [] then content d' p = Some (r_before_image (last (undo_images lost p rs)))
         else content d' p = content d p \<or> content d p = None)"
  using assms
proof (induction rs arbitrary: l staged d rep)
  case Nil
  then show ?case by (auto simp: undo_images_def updates_of_def)
next
  case (Cons r rs)
  let ?p = "r_page_id r"
  have rok: "record_ok r" using Cons.prems(5) by simp
  show ?case
  proof (cases "r_type r \<noteq> UPDATE \<or> r_transaction_id r \<notin> lost \<or> \<not> has_undo r")
    case True
    then have "undo_images lost q (r # rs) = undo_images lost q rs" for q by (auto simp: undo_images_def updates_of_def)
    moreover have "next_lsn l + length (stream rs) < 256 ^ 8" using Cons.prems(4) by simp
    from Cons.IH [OF Cons.prems(1-3) this, of rep] Cons.prems(5,6)
    obtain l' rep' d' st where "undo_loop apply_page lost rs l rep d = Inr (l', rep', d')" "dev_ok d'"
      "wal_ok l' old st" "base_lsn l' = base_lsn l" "prev_bounded l'" "next_lsn l' \<le> next_lsn l + length (stream rs)"
      "highest_lsn rep' = highest_lsn rep" "highest_xid rep' = highest_xid rep" "ran rep' = ran rep"
      "\<forall>p. if undo_images lost p rs \<noteq> [] then content d' p = Some (r_before_image (last (undo_images lost p rs)))
         else content d' p = content d p \<or> content d p = None" by auto
    ultimately show ?thesis using True by (intro exI [of _ l'] exI [of _ rep'] exI [of _ d'] exI [of _ st]) auto
  next
    case False
    have len: "length (r_before_image r) = psz" using False Cons.prems(6) by simp
    have b: "r_transaction_id r < 256 ^ 8" "?p < 256 ^ 4" "length (r_before_image r) \<le> MAX_IMAGE_BYTES"
      using rok by (auto simp: record_ok_def image_ok_def record_to_bytes_def res_simps)
    have sz: "44 + length (r_before_image r) \<le> length (enc r)" using rok by (simp add: record_size_def)
    have nl: "next_lsn l < 256 ^ 8" using Cons.prems(4) by simp
    from wal_append_step [OF Cons.prems(2,3) nl b(1,2) _ b(3), of "[]" UPDATE] obtain rc l1 where
      a: "wal_append l UPDATE (r_transaction_id r) ?p [] (r_before_image r) = Inr (rc, l1)" "wal_ok l1 old (staged @ [rc])"
        "base_lsn l1 = base_lsn l" "prev_bounded l1" "next_lsn l1 = next_lsn l + 44 + length (r_before_image r)" by auto
    obtain d1 where dd: "apply_page ?p (r_before_image r) d = Inr d1 \<and> dev_ok d1 \<and>
        content d1 ?p = Some (r_before_image r) \<and> (\<forall>q. q \<noteq> ?p \<longrightarrow> content d1 q = content d q \<or>
          content d q = None \<and> (\<exists>z. content d1 q = Some z \<and> lsn_of q z = 0))"
      using apply_page [OF Cons.prems(1) len, of ?p] ..
    then have d1: "apply_page ?p (r_before_image r) d = Inr d1" "dev_ok d1" "content d1 ?p = Some (r_before_image r)"
      by simp_all
    have d14: "q \<noteq> ?p \<Longrightarrow> content d1 q = content d q \<or> content d q = None" for q using dd by auto
    have "next_lsn l1 + length (stream rs) < 256 ^ 8" using Cons.prems(4) sz a(5) by simp
    from Cons.IH [OF d1(2) a(2,4) this, of "rep\<lparr>pages_undone := pages_undone rep + 1\<rparr>"] Cons.prems(5,6)
    obtain l' rep' d' st where ih: "undo_loop apply_page lost rs l1 (rep\<lparr>pages_undone := pages_undone rep + 1\<rparr>) d1 = Inr (l', rep', d')"
      "dev_ok d'" "wal_ok l' old st" "base_lsn l' = base_lsn l1" "prev_bounded l'"
      "next_lsn l' \<le> next_lsn l1 + length (stream rs)"
      "highest_lsn rep' = highest_lsn rep" "highest_xid rep' = highest_xid rep" "ran rep' = ran rep"
      "\<And>p. if undo_images lost p rs \<noteq> [] then content d' p = Some (r_before_image (last (undo_images lost p rs)))
         else content d' p = content d1 p \<or> content d1 p = None" by auto
    have un: "undo_images lost q (r # rs) = (if q = ?p then r # undo_images lost q rs else undo_images lost q rs)" for q
      using False by (auto simp: undo_images_def updates_of_def)
    have "if undo_images lost q (r # rs) \<noteq> [] then content d' q = Some (r_before_image (last (undo_images lost q (r # rs))))
         else content d' q = content d q \<or> content d q = None" for q
      using ih(10) [of q] d1(3) d14 [of q] by (auto simp: un split: if_splits)
    moreover have "undo_loop apply_page lost (r # rs) l rep d = Inr (l', rep', d')" using False a(1) d1(1) ih(1) by simp
    moreover have "next_lsn l' \<le> next_lsn l + length (stream (r # rs))" using ih(6) a(5) sz by simp
    moreover have "base_lsn l' = base_lsn l" using ih(4) a(3) by simp
    ultimately show ?thesis using ih(2,3,5,7-9) by blast
  qed
qed

lemma hd_rev_undo: "undo_images lost p (rev rs) = rev (undo_images lost p rs)"
  by (simp add: undo_images_def updates_of_def rev_filter)

text \<open>The whole of recovery, page by page.\<close>

lemma recover_ok:
  assumes "dev_ok d" and "wal_ok l rs []" and "prev_bounded l" and "coherent content lsn_of psz rs d" and "rs \<noteq> []"
    and "next_lsn l + length (stream rs) + 44 * card (txns_lost rs) < 256 ^ 8"
  shows "\<exists>rep' l' d'. recover page_lsn apply_page l d = Inr (rep', l', d') \<and> dev_ok d' \<and> ran rep' \<and>
    winners rep' = sorted_list_of_set (txns_finished rs) \<and> losers rep' = sorted_list_of_set (txns_lost rs) \<and>
    (\<forall>r\<in>set rs. end_lsn r \<le> highest_lsn rep') \<and> (\<forall>t\<in>txns_seen rs. t \<le> highest_xid rep') \<and> \<not> w_closed l' \<and>
    (\<forall>p. if undo_images (txns_lost rs) p rs \<noteq> []
         then content d' p = Some (r_before_image (hd (undo_images (txns_lost rs) p rs)))
         else if updates_of p rs \<noteq> [] then content d' p = Some (r_after_image (last (updates_of p rs)))
         else content d' p = content d p \<or> content d p = None)"
proof -
  let ?lost = "txns_lost rs" and ?rep0 = "report_new\<lparr>truncated_tail := False, records_scanned := length rs, ran := True\<rparr>"
  have c: "chained (base_lsn l) rs" using assms(2) by (simp add: wal_ok_def)
  obtain rep1 where an: "analyse rs ?rep0 = (txns_finished rs, ?lost, rep1)"
    "\<forall>r\<in>set rs. end_lsn r \<le> highest_lsn rep1" "\<forall>t\<in>txns_seen rs. t \<le> highest_xid rep1"
    using analyse_ok [of rs ?rep0] by blast
  have ran1: "ran rep1" using an(1) analyse_ran [of rs ?rep0] by simp
  from redo_ok [OF assms(1,4) c, of rep1] obtain rep2 d2 where
    r: "redo page_lsn apply_page rs rep1 d = Inr (rep2, d2)" "dev_ok d2" "highest_lsn rep2 = highest_lsn rep1"
      "highest_xid rep2 = highest_xid rep1" "ran rep2 = ran rep1"
      "\<And>p. if updates_of p rs \<noteq> [] then content d2 p = Some (r_after_image (last (updates_of p rs)))
         else content d2 p = content d p \<or> content d p = None" by blast
  show ?thesis
  proof (cases "?lost = {}")
    case True
    then have "undo_images ?lost p rs = []" for p by (auto simp: undo_images_def filter_empty_conv)
    moreover have "recover page_lsn apply_page l d =
        Inr (rep2\<lparr>winners := sorted_list_of_set (txns_finished rs), losers := []\<rparr>, l, d2)"
      using read_all_ok [OF assms(2)] an(1) [unfolded True] r(1) assms(5) by (simp add: recover_def undo_pass_def)
    moreover have "sorted_list_of_set ?lost = []" unfolding True by simp
    ultimately show ?thesis using r(2-6) an(2,3) ran1 assms(2) by (simp add: wal_ok_def)
  next
    case False
    have recs: "\<forall>r\<in>set (rev rs). record_ok r" using c chained_ok by auto
    have lens: "\<forall>r\<in>set (rev rs). r_type r = UPDATE \<and> has_undo r \<longrightarrow> length (r_before_image r) = psz"
      using assms(4) by (auto simp: coherent_def)
    have st: "length (stream (rev rs)) = length (stream rs)" by (simp add: length_concat flip: rev_map)
    have "next_lsn l + length (stream (rev rs)) < 256 ^ 8" using assms(6) st by simp
    from undo_loop_ok [OF r(2) assms(2,3) this recs lens, of ?lost rep2] obtain l3 rep3 d3 st3 where
      u: "undo_loop apply_page ?lost (rev rs) l rep2 d2 = Inr (l3, rep3, d3)" "dev_ok d3" "wal_ok l3 rs st3"
        "prev_bounded l3" "next_lsn l3 \<le> next_lsn l + length (stream rs)" "highest_lsn rep3 = highest_lsn rep2"
        "highest_xid rep3 = highest_xid rep2" "ran rep3 = ran rep2"
        "\<And>p. if undo_images ?lost p (rev rs) \<noteq> [] then content d3 p = Some (r_before_image (last (undo_images ?lost p (rev rs))))
         else content d3 p = content d2 p \<or> content d2 p = None" using st by auto
    have fin: "finite ?lost" by (simp add: txns_seen_def)
    have tb: "\<forall>t\<in>set (sorted_list_of_set ?lost). t < 256 ^ 8"
      using fin recs by (auto simp: txns_seen_def record_ok_def record_to_bytes_def res_simps)
    have "next_lsn l3 + 44 * length (sorted_list_of_set ?lost) < 256 ^ 8" using u(5) assms(6) fin by simp
    from abort_all_ok [OF u(3,4) this tb] obtain l4 st4 where ab: "abort_all (sorted_list_of_set ?lost) l3 = Inr l4"
      "wal_ok l4 rs st4" by blast
    obtain l5 where fl: "wal_flush True l4 = Inr l5" using wal_flush_succeeds [OF ab(2)] by blast
    have open5: "\<not> w_closed l5" using wal_flush_ok(1) [OF ab(2) fl] by (simp add: wal_ok_def)
    have "recover page_lsn apply_page l d =
        Inr (rep3\<lparr>winners := sorted_list_of_set (txns_finished rs), losers := sorted_list_of_set ?lost\<rparr>, l5, d3)"
      using read_all_ok [OF assms(2)] an(1) r(1) False assms(5) u(1) ab(1) fl by (simp add: recover_def undo_pass_def)
    moreover have "if undo_images ?lost p rs \<noteq> []
         then content d3 p = Some (r_before_image (hd (undo_images ?lost p rs)))
         else if updates_of p rs \<noteq> [] then content d3 p = Some (r_after_image (last (updates_of p rs)))
         else content d3 p = content d p \<or> content d p = None" for p
      using u(9) [of p] r(6) [of p] by (auto simp: hd_rev_undo last_rev split: if_splits)
    ultimately show ?thesis using u(2,6,7,8) r(3,4,5) an(2,3) ran1 open5 by simp
  qed
qed

end


section \<open>The pager's file as the device\<close>

lemma image_lsn_zeros [simp]: "image_lsn p (zeros n) = 0"
  by (auto simp: image_lsn_def read_meta_lsn_def read_lsn_def)

interpretation file_device: recovery_device "page_lsn_on_disk n" "apply_recovered_page n" "page_at n" image_lsn "aligned n" n
  for n
proof
  show "page_lsn_on_disk n p d = (case page_at n d p of None \<Rightarrow> -1 | Some b \<Rightarrow> int (image_lsn p b))" for p d
    by (rule page_lsn_on_disk_page_at)
  fix d b :: bytes and p
  assume d: "aligned n d" and b: "length b = n"
  let ?d = "file_write (p * n) b d"
  have "apply_recovered_page n p b d = Inr ?d"
    using b by (simp add: apply_recovered_page_def extend_then_write del: add_0_right One_nat_def)
  moreover have "aligned n ?d" by (rule aligned_file_write [OF d b])
  ultimately show "\<exists>d'. apply_recovered_page n p b d = Inr d' \<and> aligned n d' \<and> page_at n d' p = Some b \<and>
      (\<forall>q. q \<noteq> p \<longrightarrow> page_at n d' q = page_at n d q \<or>
         page_at n d q = None \<and> (\<exists>z. page_at n d' q = Some z \<and> image_lsn q z = 0))"
    by (intro exI [of _ ?d]) (auto simp: page_at_write [OF d b] split: option.splits)
qed

section \<open>Properties\<close>


definition demo_image :: "nat \<Rightarrow> bytes" where
  "demo_image l = zeros 4 @ le_bytes 8 l @ zeros 12"

definition demo_records :: "log_record list" where
  "demo_records =
     [\<lparr>r_lsn = 100, r_prev_lsn = 0, r_transaction_id = 1, r_type = UPDATE, r_page_id = 3,
       r_before_image = demo_image 7, r_after_image = demo_image 100\<rparr>,
      \<lparr>r_lsn = 192, r_prev_lsn = 0, r_transaction_id = 2, r_type = UPDATE, r_page_id = 3,
       r_before_image = demo_image 100, r_after_image = demo_image 192\<rparr>,
      \<lparr>r_lsn = 284, r_prev_lsn = 192, r_transaction_id = 2, r_type = COMMIT, r_page_id = 0,
       r_before_image = [], r_after_image = []\<rparr>]"

lemma demo_image_facts [simp]:
  "length (demo_image l) = 24" "demo_image l \<noteq> []" "l < 256 ^ 8 \<Longrightarrow> image_lsn 3 (demo_image l) = l"
  by (simp_all add: demo_image_def image_lsn_def META_PAGE_ID_def read_lsn_def slice_def)

lemma demo_records_facts:
  "chained 100 demo_records" "coherent (page_at 24) image_lsn 24 demo_records []"
  "txns_lost demo_records = {1}" "undo_images {1} 3 demo_records = [hd demo_records]"
proof -
  show "chained 100 demo_records"
    by (auto simp: demo_records_def record_size_def image_ok_def MAX_IMAGE_BYTES_def intro!: record_okI)
  show "coherent (page_at 24) image_lsn 24 demo_records []"
    by (simp add: coherent_def demo_records_def page_at_def)
  show "txns_lost demo_records = {1}"
    by (auto simp: demo_records_def txns_seen_def txns_finished_def NO_TRANSACTION_def)
  show "undo_images {1} 3 demo_records = [hd demo_records]"
    by (simp add: undo_images_def updates_of_def demo_records_def has_undo_def)
qed

lemma length_stream_demo: "length (stream demo_records) = 228"
proof -
  have "\<forall>r\<in>set demo_records. length (enc r) = record_size r" using chained_ok [OF demo_records_facts(1)] by simp
  then show ?thesis by (simp add: demo_records_def record_size_def)
qed


text \<open>
  Redo trusts the LSN of a torn page. When a crash wrote the header of a page's new image but not its
  body, the page already carries the LSN of the record, \<open>_page_lsn_on_disk\<close> reads it without looking
  at the checksum, and redo skips the record that would have repaired the page.
\<close>

theorem torn_page_not_repaired:
  assumes "24 \<le> n" and "p \<noteq> META_PAGE_ID" and "length old = n" and "length (r_after_image r) = n"
    and "r_type r = UPDATE" and "r_page_id r = p" and "read_lsn (r_after_image r) = r_lsn r"
    and "page_at n f p = Some (take 24 (r_after_image r) @ drop 24 old)"
  shows "redo (page_lsn_on_disk n) (apply_recovered_page n) [r] rep f =
    Inr (rep\<lparr>pages_skipped := pages_skipped rep + 1\<rparr>, f)"
proof -
  have "read_lsn (take 24 (r_after_image r) @ drop 24 old) = read_lsn (r_after_image r)"
    using assms(1,3,4) by (simp add: read_lsn_def slice_def drop_take min_def)
  then have "page_lsn_on_disk n p f = int (r_lsn r)"
    using assms(2,7,8) by (simp add: page_lsn_on_disk_page_at image_lsn_def)
  then show ?thesis using assms(5,6) by simp
qed

theorem torn_page_not_repaired_witness:
  "redo (page_lsn_on_disk 32) (apply_recovered_page 32)
     [\<lparr>r_lsn = 100, r_prev_lsn = 0, r_transaction_id = 1, r_type = UPDATE, r_page_id = 1, r_before_image = [],
       r_after_image = demo_image 100 @ replicate 8 5\<rparr>] report_new (zeros 32 @ demo_image 100 @ replicate 8 6) =
   Inr (report_new\<lparr>pages_skipped := 1\<rparr>, zeros 32 @ demo_image 100 @ replicate 8 6)"
proof -
  have "slice (demo_image 100 @ replicate 8 5) 4 8 = le_bytes 8 100" by (simp add: demo_image_def slice_def)
  then have "read_lsn (demo_image 100 @ replicate 8 5) = 100" by (simp add: read_lsn_def)
  then show ?thesis
    using torn_page_not_repaired [of 32 1 "replicate 32 6" "\<lparr>r_lsn = 100, r_prev_lsn = 0, r_transaction_id = 1,
        r_type = UPDATE, r_page_id = 1, r_before_image = [], r_after_image = demo_image 100 @ replicate 8 5\<rparr>"
        "zeros 32 @ demo_image 100 @ replicate 8 6" report_new]
    by (simp add: META_PAGE_ID_def page_at_def slice_append_right report_new_def)
qed

end
