(* ===== verification/Pager.thy ===== *)
theory Pager
  imports Buffer Recovery Transaction
begin

text \<open>
  The pager (\<open>engine/storage/pager.py\<close>): the buffer pool over the database file with the write-ahead
  rule in front of it, logging and LSN stamping of every page change, page access, the free list,
  checkpoints, and opening a file with recovery. Statistics, tracer events and \<open>fsync\<close> are left out.

  The transaction manager's hook \<open>on_before_write\<close> is the argument \<open>hook\<close>, which works on a state
  \<open>'t\<close> kept in the pager: it answers at once, or asks for the current bytes of the page first, as
  \<open>TransactionManager.before_write\<close> does. Operations return the pager beside the result, since an
  exception does not undo what was done before it.
\<close>

section \<open>The device below the pool\<close>

type_synonym device = "wal_log option \<times> bytes"

definition read_device :: "nat \<Rightarrow> device reader" where
  "read_device n pid d = read_from_disk n pid (snd d)"

definition write_to_disk_write_ahead :: "nat \<Rightarrow> device writer" where
  "write_to_disk_write_ahead n pid raw d =
     (case fst d of
        None \<Rightarrow> Inr (None, write_to_disk n pid raw (snd d))
      | Some l \<Rightarrow> bind_res (flush_through l (image_lsn pid raw)) (\<lambda>l. Inr (Some l, write_to_disk n pid raw (snd d))))"

section \<open>State\<close>

type_synonym 't hook = "(nat \<Rightarrow> string \<Rightarrow> 't \<Rightarrow> (write_intent option \<times> 't) + (bytes \<Rightarrow> write_intent option \<times> 't)) option"

record 't pager =
  pg_size :: nat
  pg_verify :: bool
  pg_closed :: bool
  wal :: "wal_log option"
  db_file :: bytes
  pg_pool :: pool
  meta :: meta_page
  txns :: 't
  recovery :: recovery_report

text \<open>An operation of the pool, run on the pager's pool and device.\<close>

definition with_pool :: "(pool \<Rightarrow> device \<Rightarrow> (device, 'a) pool_result) \<Rightarrow> ('t pager, 'a) op" where
  "with_pool f pg =
     (case f (pg_pool pg) (wal pg, db_file pg) of
        ((pl, (w, file)), r) \<Rightarrow> (pg\<lparr>pg_pool := pl, wal := w, db_file := file\<rparr>, r))"

section \<open>Checks\<close>

definition ensure_open :: "('t pager, unit) op" where
  "ensure_open pg = (pg, guard_res (\<not> pg_closed pg) ValueError (Inr ()))"

definition check_page_id :: "nat \<Rightarrow> ('t pager, unit) op" where
  "check_page_id pid pg = (pg, guard_res (pid < m_page_count (meta pg)) PageNotFoundError (Inr ()))"

section \<open>Pages through the pool\<close>

definition pager_fetch :: "nat \<Rightarrow> ('t pager, bytes) op" where
  "pager_fetch pid pg = with_pool (fetch (read_device (pg_size pg)) (write_to_disk_write_ahead (pg_size pg)) pid) pg"

text \<open>\<open>_fetch\<close>: the flag says whether the pool served the bytes.\<close>

definition fetch_cached :: "nat \<Rightarrow> ('t pager, bytes \<times> bool) op" where
  "fetch_cached pid pg =
     bind_op (pager_fetch pid) (\<lambda>raw pg'. (pg', Inr (raw, misses (pg_pool pg') = misses (pg_pool pg)))) pg"

definition run_hook :: "'t hook \<Rightarrow> nat \<Rightarrow> string \<Rightarrow> ('t pager, write_intent option) op" where
  "run_hook hook pid why pg =
     (case hook of
        None \<Rightarrow> (pg, Inr None)
      | Some h \<Rightarrow>
          case h pid why (txns pg) of
            Inl (intent, t) \<Rightarrow> (pg\<lparr>txns := t\<rparr>, Inr intent)
          | Inr k \<Rightarrow> bind_op (pager_fetch pid)
              (\<lambda>current pg. let (intent, t) = k current in (pg\<lparr>txns := t\<rparr>, Inr intent)) pg)"

definition image_at :: "nat \<Rightarrow> bytes \<Rightarrow> nat \<Rightarrow> bytes res" where
  "image_at pid raw l = (if pid = META_PAGE_ID then stamp_meta_lsn raw l else stamp_lsn raw l)"

definition log_change :: "nat \<Rightarrow> bytes \<Rightarrow> write_intent option \<Rightarrow> ('t pager, bytes) op" where
  "log_change pid raw intent pg =
     (case wal pg of
        None \<Rightarrow> (pg, Inr raw)
      | Some l \<Rightarrow>
          let txn = (case intent of None \<Rightarrow> NO_TRANSACTION | Some i \<Rightarrow> wi_transaction_id i);
              before = (case intent of None \<Rightarrow> [] | Some i \<Rightarrow> (case wi_before_image i of None \<Rightarrow> [] | Some b \<Rightarrow> b))
          in case append_update l txn pid before (image_at pid raw) of
               Inl e \<Rightarrow> (pg, Inl e)
             | Inr (r, l) \<Rightarrow>
                 (pg\<lparr>wal := Some l,
                     meta := (if pid = META_PAGE_ID then (meta pg)\<lparr>m_lsn := r_lsn r\<rparr> else meta pg)\<rparr>,
                  Inr (r_after_image r)))"

definition write_at :: "'t hook \<Rightarrow> nat \<Rightarrow> bytes \<Rightarrow> string \<Rightarrow> bool \<Rightarrow> ('t pager, unit) op" where
  "write_at hook pid raw why do_capture pg =
     (if length raw \<noteq> pg_size pg then (pg, Inl ValueError)
      else bind_op (if do_capture then run_hook hook pid why else lift_res (Inr None)) (\<lambda>intent.
           bind_op (log_change pid raw intent) (\<lambda>raw pg.
             with_pool (store (write_to_disk_write_ahead (pg_size pg)) pid raw) pg)) pg)"

section \<open>The meta page\<close>

definition write_meta :: "'t hook \<Rightarrow> ('t pager, unit) op" where
  "write_meta hook pg =
     bind_op (lift_res (meta_to_bytes (meta pg))) (\<lambda>raw. write_at hook META_PAGE_ID raw ''meta page'' True) pg"

definition reload_meta :: "('t pager, unit) op" where
  "reload_meta =
     bind_op (pager_fetch META_PAGE_ID) (\<lambda>raw pg.
       case meta_from_bytes raw (pg_verify pg) of Inl e \<Rightarrow> (pg, Inl e) | Inr m \<Rightarrow> (pg\<lparr>meta := m\<rparr>, Inr ()))"

definition write_meta_directly :: "nat \<Rightarrow> ('t pager, unit) op" where
  "write_meta_directly base pg =
     (let pg = pg\<lparr>meta := (meta pg)\<lparr>m_checkpoint_lsn := base\<rparr>\<rparr>
      in case meta_to_bytes (meta pg) of
           Inl e \<Rightarrow> (pg, Inl e)
         | Inr raw \<Rightarrow> (pg\<lparr>db_file := file_write 0 raw (db_file pg), pg_pool := invalidate META_PAGE_ID (pg_pool pg)\<rparr>, Inr ()))"

definition check_file_length :: "('t pager, unit) op" where
  "check_file_length pg =
     (pg, guard_res (length (db_file pg) \<ge> m_page_count (meta pg) * pg_size pg) CorruptDatabaseError (Inr ()))"

section \<open>Page access\<close>

definition read_raw :: "nat \<Rightarrow> ('t pager, bytes) op" where
  "read_raw pid = bind_op ensure_open (\<lambda>_. bind_op (check_page_id pid) (\<lambda>_. pager_fetch pid))"

definition read_page :: "nat \<Rightarrow> ('t pager, page) op" where
  "read_page pid =
     bind_op ensure_open (\<lambda>_.
       if pid = META_PAGE_ID then lift_res (Inl ValueError)
       else bind_op (check_page_id pid) (\<lambda>_.
            bind_op (fetch_cached pid) (\<lambda>(raw, cached) pg.
              (pg, from_bytes pid raw (pg_size pg) (pg_verify pg \<and> \<not> cached) (\<not> cached)))))"

text \<open>The reason passed on is the page type's name.\<close>

definition write_page :: "'t hook \<Rightarrow> (page_type \<Rightarrow> string) \<Rightarrow> page \<Rightarrow> ('t pager, unit) op" where
  "write_page hook type_name p =
     bind_op ensure_open (\<lambda>_.
       if page_id p = META_PAGE_ID then lift_res (Inl ValueError)
       else bind_op (check_page_id (page_id p)) (\<lambda>_.
            bind_op (lift_res (to_bytes p)) (\<lambda>(raw, p).
            bind_op (lift_res (get_page_type p)) (\<lambda>t. write_at hook (page_id p) raw (type_name t) True))))"

definition restore_page :: "'t hook \<Rightarrow> nat \<Rightarrow> bytes \<Rightarrow> ('t pager, unit) op" where
  "restore_page hook pid img = bind_op ensure_open (\<lambda>_. write_at hook pid img ''rollback'' False)"

section \<open>Allocation\<close>

text \<open>
  \<open>Page.from_bytes\<close> on the bytes \<open>_read_at\<close> returns, with header validation on. The free-list head
  moves before the new page is written.
\<close>

definition read_any_page :: "nat \<Rightarrow> ('t pager, page) op" where
  "read_any_page pid =
     bind_op (pager_fetch pid) (\<lambda>raw pg. (pg, from_bytes pid raw (pg_size pg) (pg_verify pg) True))"

definition pick_page :: "('t pager, nat \<times> bool) op" where
  "pick_page pg =
     (if m_free_list_head (meta pg) \<noteq> INVALID_PAGE_ID
      then let pid = m_free_list_head (meta pg)
           in bind_op (read_any_page pid) (\<lambda>freed pg.
                (pg\<lparr>meta := (meta pg)\<lparr>m_free_list_head := next_page_id freed\<rparr>\<rparr>, Inr (pid, True))) pg
      else let pid = m_page_count (meta pg)
           in (pg\<lparr>meta := (meta pg)\<lparr>m_page_count := pid + 1\<rparr>\<rparr>, Inr (pid, False)))"

definition drop_cached :: "nat \<Rightarrow> ('t pager, unit) op" where
  "drop_cached pid pg = (pg\<lparr>pg_pool := invalidate pid (pg_pool pg)\<rparr>, Inr ())"

definition allocate_page :: "'t hook \<Rightarrow> page_type \<Rightarrow> ('t pager, page) op" where
  "allocate_page hook t =
     bind_op ensure_open (\<lambda>_.
     bind_op pick_page (\<lambda>(pid, recycled) pg.
       bind_op (lift_res (create pid t (pg_size pg))) (\<lambda>p.
       bind_op (if recycled then run_hook hook pid ''recycled from the free list'' else lift_res (Inr None)) (\<lambda>_.
       bind_op (drop_cached pid) (\<lambda>_.
       bind_op (lift_res (to_bytes p)) (\<lambda>(raw, p).
       bind_op (write_at hook pid raw ''allocated'' False) (\<lambda>_.
       bind_op (write_meta hook) (\<lambda>_. lift_res (Inr p))))))) pg))"

definition set_free_head :: "nat \<Rightarrow> ('t pager, unit) op" where
  "set_free_head pid pg = (pg\<lparr>meta := (meta pg)\<lparr>m_free_list_head := pid\<rparr>\<rparr>, Inr ())"

definition free_page :: "'t hook \<Rightarrow> nat \<Rightarrow> ('t pager, unit) op" where
  "free_page hook pid =
     bind_op ensure_open (\<lambda>_.
       if pid = META_PAGE_ID then lift_res (Inl ValueError)
       else bind_op (check_page_id pid) (\<lambda>_.
            bind_op (read_any_page pid) (\<lambda>old.
            bind_op (lift_res (get_page_type old)) (\<lambda>_ pg.
              bind_op (lift_res (create pid FREE (pg_size pg))) (\<lambda>p.
              bind_op (lift_res (set_next_page_id (m_free_list_head (meta pg)) p)) (\<lambda>p.
              bind_op (run_hook hook pid ''freed'') (\<lambda>_.
              bind_op (drop_cached pid) (\<lambda>_.
              bind_op (lift_res (to_bytes p)) (\<lambda>(raw, _).
              bind_op (write_at hook pid raw ''freed'' False) (\<lambda>_.
              bind_op (set_free_head pid) (\<lambda>_. write_meta hook))))))) pg))))"

section \<open>Durability\<close>

definition wal_op :: "(wal_log \<Rightarrow> ('a \<times> wal_log) res) \<Rightarrow> 'a \<Rightarrow> ('t pager, 'a) op" where
  "wal_op f dflt pg =
     (case wal pg of
        None \<Rightarrow> (pg, Inr dflt)
      | Some l \<Rightarrow> case f l of Inl e \<Rightarrow> (pg, Inl e) | Inr (x, l) \<Rightarrow> (pg\<lparr>wal := Some l\<rparr>, Inr x))"

definition log_commit :: "nat \<Rightarrow> ('t pager, nat) op" where
  "log_commit txn = wal_op (\<lambda>l. bind_res (wal_commit l txn) (\<lambda>(r, l). Inr (r_lsn r, l))) 0"

definition log_abort :: "nat \<Rightarrow> ('t pager, nat) op" where
  "log_abort txn = wal_op (\<lambda>l. bind_res (wal_abort l txn) (\<lambda>(r, l). Inr (r_lsn r, l))) 0"

definition flush_pool :: "('t pager, nat) op" where
  "flush_pool pg = with_pool (pool_flush (write_to_disk_write_ahead (pg_size pg))) pg"

definition pager_sync :: "('t pager, unit) op" where
  "pager_sync =
     bind_op ensure_open (\<lambda>_.
     bind_op (wal_op (\<lambda>l. bind_res (wal_flush True l) (\<lambda>l. Inr ((), l))) ()) (\<lambda>_.
     bind_op flush_pool (\<lambda>_. lift_res (Inr ()))))"

text \<open>
  \<open>WriteAheadLog.checkpoint\<close> with the pager's \<open>flush_pages\<close>: the pages, then the checkpoint record,
  then the truncation of the log. The new \<open>checkpoint_lsn\<close> is written to the file after that.
\<close>

definition checkpoint_log :: "('t pager, unit) op" where
  "checkpoint_log =
     bind_op (wal_op (\<lambda>l. guard_res (\<not> w_closed l) ValueError (Inr ((), l))) ()) (\<lambda>_.
     bind_op flush_pool (\<lambda>_.
       wal_op (\<lambda>l. bind_res (wal_checkpoint l) (\<lambda>(_, l). Inr ((), l))) ()))"

definition log_base :: "'t pager \<Rightarrow> nat" where
  "log_base pg = (case wal pg of None \<Rightarrow> 0 | Some l \<Rightarrow> base_lsn l)"

definition pager_checkpoint :: "('t pager \<Rightarrow> 't pager) option \<Rightarrow> ('t pager, nat) op" where
  "pager_checkpoint on_checkpoint =
     bind_op ensure_open (\<lambda>_ pg.
       if wal pg = None then (pg, Inr 0)
       else let pg = (case on_checkpoint of None \<Rightarrow> pg | Some h \<Rightarrow> h pg);
                flushed = dirty_pages (pg_pool pg)
            in bind_op checkpoint_log (\<lambda>_ pg.
                 bind_op (write_meta_directly (log_base pg)) (\<lambda>_. lift_res (Inr flushed)) pg) pg)"

definition abandon :: "'t pager \<Rightarrow> 't pager" where
  "abandon pg =
     (if pg_closed pg then pg
      else pg\<lparr>wal := map_option wal_abandon (wal pg), pg_pool := drop_all (pg_pool pg), pg_closed := True\<rparr>)"

section \<open>Opening\<close>

text \<open>
  \<open>_recover\<close>. The pool is empty at this point. After recovery the meta page is reloaded, the log is
  restarted past everything it held, and only then truncated.
\<close>

definition recover_pager :: "('t pager, unit) op" where
  "recover_pager pg =
     (case wal pg of
        None \<Rightarrow> (pg, Inr ())
      | Some l \<Rightarrow>
          case recover (page_lsn_on_disk (pg_size pg)) (apply_recovered_page (pg_size pg)) l (db_file pg) of
            Inl e \<Rightarrow> (pg, Inl e)
          | Inr (rep, l, file) \<Rightarrow>
              let pg = pg\<lparr>recovery := rep, wal := Some l, db_file := file\<rparr>
              in if \<not> ran rep then (pg, Inr ())
                 else let base = max (highest_lsn rep) (next_lsn l)
                      in bind_op flush_pool (\<lambda>_.
                         bind_op reload_meta (\<lambda>_.
                         bind_op (write_meta_directly base) (\<lambda>_.
                         bind_op (wal_op (\<lambda>l. bind_res (wal_reset l base) (\<lambda>l. Inr ((), l))) ()) (\<lambda>_ pg.
                           with_pool (clear_pool (write_to_disk_write_ahead (pg_size pg)) True) pg)))) pg)"

definition pager_new :: "nat \<Rightarrow> bool \<Rightarrow> wal_log option \<Rightarrow> bytes \<Rightarrow> pool \<Rightarrow> meta_page \<Rightarrow> 't \<Rightarrow> 't pager" where
  "pager_new n verify l file pl m t =
     \<lparr>pg_size = n, pg_verify = verify, pg_closed = False, wal = l, db_file = file, pg_pool = pl, meta = m, txns = t,
      recovery = report_new\<rparr>"

text \<open>
  \<open>Pager.__init__\<close> on an existing, non-empty file, with \<open>use_wal\<close> the parameter \<open>wal\<close> and \<open>log_file\<close>
  the bytes of the log beside it, and on a new file. No hook is installed yet.
\<close>

definition open_existing ::
  "nat \<Rightarrow> bool \<Rightarrow> nat \<Rightarrow> bool \<Rightarrow> bytes \<Rightarrow> bytes \<Rightarrow> 't \<Rightarrow> 't pager res" where
  "open_existing n verify cap use_wal file log_file t =
     bind_res (validate_page_size n) (\<lambda>_.
     bind_res (meta_from_bytes (take DEFAULT_PAGE_SIZE file) verify) (\<lambda>m.
       if n \<noteq> DEFAULT_PAGE_SIZE \<and> n \<noteq> m_page_size m then Inl CorruptDatabaseError
       else bind_res (pool_new (m_page_size m) cap) (\<lambda>pl.
         let l = (if use_wal then Some (wal_open (m_checkpoint_lsn m) log_file) else None);
             pg = pager_new (m_page_size m) verify l file pl m t
         in case bind_op recover_pager (\<lambda>_. check_file_length) pg of
              (pg, Inl e) \<Rightarrow> Inl e
            | (pg, Inr _) \<Rightarrow> Inr pg)))"

definition open_new :: "nat \<Rightarrow> bool \<Rightarrow> nat \<Rightarrow> bool \<Rightarrow> 't \<Rightarrow> 't pager res" where
  "open_new n verify cap use_wal t =
     bind_res (validate_page_size n) (\<lambda>_.
     bind_res (pool_new n cap) (\<lambda>pl.
       let l = (if use_wal then Some (wal_open 0 []) else None);
           pg = pager_new n verify l [] pl (meta_new n 1) t
       in case bind_op (write_meta None) (\<lambda>_. pager_sync) pg of
            (pg, Inl e) \<Rightarrow> Inl e
          | (pg, Inr _) \<Rightarrow> Inr pg))"


section \<open>The device satisfies the pool's interface\<close>

definition device_ok :: "nat \<Rightarrow> device \<Rightarrow> bool" where
  "device_ok n d \<longleftrightarrow> aligned n (snd d) \<and> (\<forall>l. fst d = Some l \<longrightarrow> \<not> w_closed l)"

lemma read_device_page_at:
  "read_device n p d = (case page_at n (snd d) p of None \<Rightarrow> Inl CorruptDatabaseError | Some b \<Rightarrow> Inr b)"
  by (simp add: read_device_def read_from_disk_page_at)

lemma read_device_Inr: "read_device n p d = Inr b \<longleftrightarrow> page_at n (snd d) p = Some b"
  by (auto simp: read_device_page_at split: option.splits)

lemma write_ahead_ok:
  assumes "device_ok n d"
  shows "\<exists>w. write_to_disk_write_ahead n p b d = Inr (w, file_write (p * n) b (snd d)) \<and>
    (w = None \<longleftrightarrow> fst d = None) \<and> (\<forall>l. w = Some l \<longrightarrow> \<not> w_closed l)"
  using assms
  by (auto simp: device_ok_def write_to_disk_write_ahead_def write_to_disk_def file_offset_def flush_through_def
      wal_flush_def Let_def split: option.splits)

interpretation pager_store: backing_store "read_device n" "write_to_disk_write_ahead n" "device_ok n" n for n
proof
  fix d p and b :: bytes
  assume d: "device_ok n d" and b: "length b = n"
  obtain w where w: "write_to_disk_write_ahead n p b d = Inr (w, file_write (p * n) b (snd d))"
    "\<forall>l. w = Some l \<longrightarrow> \<not> w_closed l" using write_ahead_ok [OF d] by blast
  have a: "aligned n (snd d)" using d by (simp add: device_ok_def)
  show "\<exists>d'. write_to_disk_write_ahead n p b d = Inr d' \<and> device_ok n d' \<and> read_device n p d' = Inr b \<and>
      (\<forall>q c. q \<noteq> p \<longrightarrow> read_device n q d = Inr c \<longrightarrow> read_device n q d' = Inr c)"
    using w page_at_write [OF a b] aligned_file_write [OF a b] by (simp add: device_ok_def read_device_Inr)
next
  show "length b = n" if "read_device n p d = Inr b" for d p b
    using that page_at_length by (auto simp: read_device_Inr)
qed

section \<open>The pages a pager holds\<close>

definition pages :: "'t pager \<Rightarrow> nat \<rightharpoonup> bytes" where
  "pages pg = pool_view (read_device (pg_size pg)) (pg_pool pg) (wal pg, db_file pg)"

definition pager_ok :: "'t pager \<Rightarrow> bool" where
  "pager_ok pg \<longleftrightarrow> pager_store.store_ok (pg_size pg) (pg_pool pg) (wal pg, db_file pg) []"

lemma pager_fetch_ok:
  assumes ok: "pager_ok pg" and f: "pager_fetch pid pg = (pg', r)"
  shows "pager_ok pg'" and "pages pg \<subseteq>\<^sub>m pages pg'" and "\<And>b. pages pg pid = Some b \<Longrightarrow> r = Inr b"
    and "pages pg pid = None \<Longrightarrow> \<exists>e. r = Inl e" and "meta pg' = meta pg" and "pg_size pg' = pg_size pg" and "txns pg' = txns pg"
    and "pg_closed pg' = pg_closed pg" and "pg_verify pg' = pg_verify pg"
proof -
  let ?n = "pg_size pg" and ?d = "(wal pg, db_file pg)"
  obtain pl w fl where e: "fetch (read_device ?n) (write_to_disk_write_ahead ?n) pid (pg_pool pg) ?d = ((pl, (w, fl)), r)"
    and pg': "pg' = pg\<lparr>pg_pool := pl, wal := w, db_file := fl\<rparr>"
    using f by (auto simp: pager_fetch_def with_pool_def split: prod.splits)
  note fo = pager_store.fetch_ok [OF ok [unfolded pager_ok_def], of pid]
  have *: "pager_ok pg' \<and> pages pg \<subseteq>\<^sub>m pages pg' \<and> (\<forall>b. pages pg pid = Some b \<longrightarrow> r = Inr b) \<and>
      (pages pg pid = None \<longrightarrow> (\<exists>e. r = Inl e))"
  proof (cases "pages pg pid")
    case None
    then obtain ex where "r = Inl ex" "pl = (pg_pool pg)\<lparr>misses := misses (pg_pool pg) + 1\<rparr>" "(w, fl) = ?d"
      using fo e by (auto simp: pages_def)
    moreover have "pool_view rd (pl\<lparr>misses := k\<rparr>) d = pool_view rd pl d" for rd and d :: device and pl k
      by (simp add: pool_view_def fun_eq_iff split: option.splits)
    ultimately show ?thesis using None ok
      by (auto simp: pager_ok_def pg' pager_store.store_ok_def frames_ok_def in_sync_def pages_def)
  next
    case (Some b)
    then show ?thesis using fo e by (auto simp: pages_def pager_ok_def pg')
  qed
  then show "pager_ok pg'" "pages pg \<subseteq>\<^sub>m pages pg'" "\<And>b. pages pg pid = Some b \<Longrightarrow> r = Inr b"
    "pages pg pid = None \<Longrightarrow> \<exists>e. r = Inl e" by simp_all
qed (use f in \<open>auto simp: pager_fetch_def with_pool_def split: prod.splits\<close>)

lemma run_hook_ok:
  assumes ok: "pager_ok pg" and h: "run_hook hook pid why pg = (pg', r)"
  shows "pager_ok pg'" and "pages pg \<subseteq>\<^sub>m pages pg'" and "meta pg' = meta pg" and "pg_size pg' = pg_size pg"
proof -
  have t: "pager_ok (q\<lparr>txns := t\<rparr>) = pager_ok q" "pages (q\<lparr>txns := t\<rparr>) = pages q" for q :: "'a pager" and t
    by (simp_all add: pager_ok_def pages_def)
  consider "(\<exists>t. pg' = pg\<lparr>txns := t\<rparr>) \<or> pg' = pg" | f q where "pager_fetch pid pg = (q, f)" "pg' = q \<or> (\<exists>t. pg' = q\<lparr>txns := t\<rparr>)"
    using h by (auto simp: run_hook_def bind_op_def Let_def split: option.splits sum.splits prod.splits)
  then have "pager_ok pg' \<and> pages pg \<subseteq>\<^sub>m pages pg' \<and> meta pg' = meta pg \<and> pg_size pg' = pg_size pg"
  proof cases
    case 1
    then show ?thesis using ok t by auto
  next
    case 2
    then show ?thesis using pager_fetch_ok [OF ok 2(1)] t by auto
  qed
  then show "pager_ok pg'" "pages pg \<subseteq>\<^sub>m pages pg'" "meta pg' = meta pg" "pg_size pg' = pg_size pg" by simp_all
qed

lemma image_at_length: "image_at pid raw l = Inr b \<Longrightarrow> length b = length raw"
  by (auto simp: image_at_def stamp_meta_lsn_def stamp_lsn_def res_simps split: if_splits)

lemma append_update_image:
  assumes "append_update l txn pid before img = Inr (r, l')"
  shows "img (r_lsn r) = Inr (r_after_image r)" and "\<not> w_closed l'"
proof -
  have op: "\<not> w_closed l" using assms by (auto simp: append_update_def)
  have "img (r_lsn r) = Inr (r_after_image r) \<and> \<not> w_closed l'"
  proof (cases "supersedes l txn pid")
    case None
    then obtain i where "img (next_lsn l) = Inr i" "wal_append l UPDATE txn pid before i = Inr (r, l')"
      using assms op by (auto simp: append_update_def res_simps)
    then show ?thesis using op by (auto simp: wal_append_def Let_def res_simps)
  next
    case (Some tail)
    then show ?thesis using assms op by (auto simp: append_update_def Let_def res_simps)
  qed
  then show "img (r_lsn r) = Inr (r_after_image r)" and "\<not> w_closed l'" by simp_all
qed

lemma log_change_ok:
  assumes ok: "pager_ok pg" and l: "log_change pid raw intent pg = (pg', Inr img)"
  shows "pager_ok pg'" and "pages pg' = pages pg" and "pg_size pg' = pg_size pg" and "length img = length raw"
    and "wal pg = None \<Longrightarrow> img = raw" and "wal pg \<noteq> None \<Longrightarrow> \<exists>k. image_at pid raw k = Inr img"
proof -
  have s: "pages pg' = pages pg" if "pg_size pg' = pg_size pg" "pg_pool pg' = pg_pool pg" "db_file pg' = db_file pg"
    for pg' :: "'a pager"
    using that by (simp add: pages_def pool_view_def read_device_def fun_eq_iff split: option.splits)
  have *: "pager_ok pg' \<and> pages pg' = pages pg \<and> pg_size pg' = pg_size pg \<and> length img = length raw \<and>
    (wal pg = None \<longrightarrow> img = raw) \<and> (wal pg \<noteq> None \<longrightarrow> (\<exists>k. image_at pid raw k = Inr img))"
  proof (cases "wal pg")
    case None
    then show ?thesis using l ok by (simp add: log_change_def)
  next
    case (Some w)
    then obtain txn before r w' where a: "append_update w txn pid before (image_at pid raw) = Inr (r, w')"
      and img: "img = r_after_image r" and pg': "pg' = pg\<lparr>wal := Some w',
         meta := (if pid = META_PAGE_ID then (meta pg)\<lparr>m_lsn := r_lsn r\<rparr> else meta pg)\<rparr>"
      using l by (auto simp: log_change_def Let_def split: sum.splits)
    note i = append_update_image [OF a]
    have "pager_ok pg'"
      using ok i(2) by (auto simp: pager_ok_def pg' pager_store.store_ok_def device_ok_def in_sync_def read_device_def)
    moreover have "pages pg' = pages pg" by (rule s) (simp_all add: pg')
    ultimately show ?thesis using i(1) image_at_length [OF i(1)] Some by (auto simp: pg' img)
  qed
  then show "pager_ok pg'" "pages pg' = pages pg" "pg_size pg' = pg_size pg" "length img = length raw"
    "wal pg = None \<Longrightarrow> img = raw" "wal pg \<noteq> None \<Longrightarrow> \<exists>k. image_at pid raw k = Inr img" by simp_all
qed

lemma pool_store_ok:
  assumes ok: "pager_ok pg" and len: "length raw = pg_size pg"
  shows "\<exists>pg'. with_pool (store (write_to_disk_write_ahead (pg_size pg)) pid raw) pg = (pg', Inr ()) \<and> pager_ok pg' \<and>
    (pages pg)(pid \<mapsto> raw) \<subseteq>\<^sub>m pages pg' \<and> pg_size pg' = pg_size pg \<and> meta pg' = meta pg"
proof -
  from pager_store.store_op_ok [OF ok [unfolded pager_ok_def] len, of pid] obtain pl w fl where
    s: "store (write_to_disk_write_ahead (pg_size pg)) pid raw (pg_pool pg) (wal pg, db_file pg) = ((pl, (w, fl)), Inr ())"
      "pager_store.store_ok (pg_size pg) pl (w, fl) []"
      "(pool_view (read_device (pg_size pg)) (pg_pool pg) (wal pg, db_file pg))(pid \<mapsto> raw) \<subseteq>\<^sub>m
         pool_view (read_device (pg_size pg)) pl (w, fl)" by auto
  show ?thesis using s by (simp add: with_pool_def pager_ok_def pages_def)
qed

lemma write_at_ok:
  assumes ok: "pager_ok pg" and w: "write_at hook pid raw why cap pg = (pg', Inr ())"
  shows "pager_ok pg'" and "pg_size pg' = pg_size pg"
    and "\<exists>img. (pages pg)(pid \<mapsto> img) \<subseteq>\<^sub>m pages pg' \<and> (img = raw \<or> (\<exists>k. image_at pid raw k = Inr img))"
proof -
  have len: "length raw = pg_size pg" using w by (auto simp: write_at_def split: if_splits)
  obtain pg1 intent where h: "(if cap then run_hook hook pid why else lift_res (Inr None)) pg = (pg1, Inr intent)"
    and rest: "bind_op (log_change pid raw intent) (\<lambda>raw pg.
         with_pool (store (write_to_disk_write_ahead (pg_size pg)) pid raw) pg) pg1 = (pg', Inr ())"
    using w len by (auto simp: write_at_def bind_op_Inr)
  obtain pg2 img where l: "log_change pid raw intent pg1 = (pg2, Inr img)"
    and st: "with_pool (store (write_to_disk_write_ahead (pg_size pg2)) pid img) pg2 = (pg', Inr ())"
    using rest by (auto simp: bind_op_Inr)
  have 1: "pager_ok pg1" "pages pg \<subseteq>\<^sub>m pages pg1" "pg_size pg1 = pg_size pg"
    using h ok run_hook_ok [OF ok] by (auto simp: lift_res_def split: if_splits)
  note 2 = log_change_ok [OF 1(1) l]
  have "length img = pg_size pg2" using 2(3,4) 1(3) len by simp
  from pool_store_ok [OF 2(1) this, of pid] st have 3: "pager_ok pg'" "(pages pg2)(pid \<mapsto> img) \<subseteq>\<^sub>m pages pg'"
    "pg_size pg' = pg_size pg2" by auto
  show "pager_ok pg'" "pg_size pg' = pg_size pg" using 3 2(3) 1(3) by simp_all
  have "(pages pg)(pid \<mapsto> img) \<subseteq>\<^sub>m (pages pg2)(pid \<mapsto> img)"
    using 1(2) unfolding 2(2) by (rule map_le_upd)
  then have "(pages pg)(pid \<mapsto> img) \<subseteq>\<^sub>m pages pg'" using 3(2) map_le_trans by blast
  then show "\<exists>img. (pages pg)(pid \<mapsto> img) \<subseteq>\<^sub>m pages pg' \<and> (img = raw \<or> (\<exists>k. image_at pid raw k = Inr img))"
    using 2(5,6) by blast
qed

lemma flush_pool_ok:
  assumes ok: "pager_ok pg"
  shows "\<exists>pg' k. flush_pool pg = (pg', Inr k) \<and> pager_ok pg' \<and> pages pg \<subseteq>\<^sub>m pages pg' \<and> pg_size pg' = pg_size pg \<and>
    meta pg' = meta pg \<and> (\<forall>p b. pages pg p = Some b \<longrightarrow> page_at (pg_size pg) (db_file pg') p = Some b)"
proof -
  from pager_store.pool_flush_ok [OF ok [unfolded pager_ok_def]] obtain pl w fl k where
    f: "pool_flush (write_to_disk_write_ahead (pg_size pg)) (pg_pool pg) (wal pg, db_file pg) = ((pl, (w, fl)), Inr k)"
      "pager_store.store_ok (pg_size pg) pl (w, fl) []"
      "pool_view (read_device (pg_size pg)) (pg_pool pg) (wal pg, db_file pg) \<subseteq>\<^sub>m pool_view (read_device (pg_size pg)) pl (w, fl)"
      "\<forall>p b. pool_view (read_device (pg_size pg)) (pg_pool pg) (wal pg, db_file pg) p = Some b \<longrightarrow> read_device (pg_size pg) p (w, fl) = Inr b"
    by auto
  show ?thesis using f by (simp add: flush_pool_def with_pool_def pager_ok_def pages_def read_device_Inr)
qed

lemma flush_loop_wal:
  "flush_loop (write_to_disk_write_ahead n) items w pl (Some l, f) = ((pl', (w', f')), r) \<Longrightarrow> w' \<noteq> None"
proof (induction items arbitrary: w pl l f)
  case (Cons it items)
  obtain q i where "it = (q, i)" by fastforce
  then show ?case using Cons
    by (auto simp: Let_def write_to_disk_write_ahead_def bind_res_def split: sum.splits if_splits)
qed auto

lemma flush_pool_wal: "flush_pool pg = (pg', r) \<Longrightarrow> wal pg = Some l \<Longrightarrow> wal pg' \<noteq> None"
  by (auto simp: flush_pool_def with_pool_def pool_flush_def dest!: flush_loop_wal split: prod.splits sum.splits)

lemma wal_frame:
  assumes "pager_ok pg" and "wal pg \<noteq> None" and "\<not> w_closed l"
  shows "pager_ok (pg\<lparr>wal := Some l\<rparr>)" and "pages (pg\<lparr>wal := Some l\<rparr>) = pages pg"
  using assms
  by (auto simp: pager_ok_def pager_store.store_ok_def device_ok_def in_sync_def read_device_def pages_def pool_view_def fun_eq_iff
      split: option.splits)

lemma append_update_succeeds:
  assumes ok: "wal_ok l old staged" and pb: "prev_bounded l" and b: "next_lsn l < 256 ^ 8" "txn < 256 ^ 8" "pid < 256 ^ 4"
    "length before \<le> MAX_IMAGE_BYTES" and img: "\<And>k. \<exists>b. img k = Inr b \<and> length b \<le> MAX_IMAGE_BYTES"
  shows "\<exists>r l'. append_update l txn pid before img = Inr (r, l') \<and> prev_bounded l' \<and> length (r_after_image r) \<le> MAX_IMAGE_BYTES"
proof -
  have open': "\<not> w_closed l" using ok by (simp add: wal_ok_def)
  show ?thesis
  proof (cases "supersedes l txn pid")
    case None
    obtain i where i: "img (next_lsn l) = Inr i" "length i \<le> MAX_IMAGE_BYTES" using img by blast
    from wal_append_step [OF ok pb b(1-4) i(2), of UPDATE] obtain r l' where
      a: "wal_append l UPDATE txn pid before i = Inr (r, l')" "prev_bounded l'" by blast
    have "r_after_image r = i" using wal_append_ok(9) [OF ok a(1) b(4) i(2)] .
    then show ?thesis using a i open' None by (simp add: append_update_def)
  next
    case (Some tail)
    from supersedes_Some [OF ok Some] obtain front where t: "staged = front @ [tail]" by blast
    have rt: "record_ok tail" using ok t by (simp add: wal_ok_def chained_append)
    obtain i where i: "img (r_lsn tail) = Inr i" "length i \<le> MAX_IMAGE_BYTES" using img by blast
    define r where "r = \<lparr>r_lsn = r_lsn tail, r_prev_lsn = r_prev_lsn tail, r_transaction_id = txn, r_type = UPDATE,
      r_page_id = pid, r_before_image = r_before_image tail, r_after_image = i\<rparr>"
    have "record_ok r"
      using rt i(2) b by (intro record_okI) (auto simp: r_def record_ok_def image_ok_def record_to_bytes_def res_simps)
    then have "record_to_bytes r = Inr (enc r)" by (simp add: record_ok_def)
    then obtain l' where a: "append_update l txn pid before img = Inr (r, l')" and lo: "last_lsn_of l' = last_lsn_of l"
      using i(1) open' Some by (simp add: append_update_def Let_def r_def)
    then show ?thesis using pb i(2) by (auto simp: prev_bounded_def r_def)
  qed
qed

lemma wal_commit_succeeds:
  assumes "wal_ok l old staged" and "prev_bounded l" and "next_lsn l < 256 ^ 8" and "txn < 256 ^ 8"
  shows "\<exists>r l'. wal_commit l txn = Inr (r, l')"
proof -
  from wal_append_step [OF assms, of 0 "[]" "[]" COMMIT] obtain r l1 where
    a: "wal_append l COMMIT txn 0 [] [] = Inr (r, l1)" "wal_ok l1 old (staged @ [r])" by auto
  obtain l2 where "wal_flush (sync_on_commit l1) l1 = Inr l2" using wal_flush_succeeds [OF a(2)] by blast
  with a(1) show ?thesis by (simp add: wal_commit_def)
qed

section \<open>Properties\<close>

text \<open>
  C36: The pool and the file together are one map from page ids to page images. A write, hooked or not,
  logged or not, succeeds only by adding or replacing that one page (with its LSN stamped in when
  there is a log) and keeps every other page; a fetch returns the page the map has, whether it is
  cached or not and whatever has to be evicted for it, and changes nothing the map shows.
\<close>

theorem pager_refines_page_map:
  assumes "pager_ok pg"
  shows "(write_at hook pid raw why cap pg = (pg1, Inr ()) \<longrightarrow> pager_ok pg1 \<and>
      (\<exists>img. (pages pg)(pid \<mapsto> img) \<subseteq>\<^sub>m pages pg1 \<and> (img = raw \<or> (\<exists>k. image_at pid raw k = Inr img)))) \<and>
    (pages pg pid = Some b \<longrightarrow> (\<exists>pg2. pager_fetch pid pg = (pg2, Inr b) \<and> pager_ok pg2 \<and> pages pg \<subseteq>\<^sub>m pages pg2))"
proof -
  obtain pg2 r where f: "pager_fetch pid pg = (pg2, r)" by fastforce
  show ?thesis using write_at_ok [OF assms] pager_fetch_ok [OF assms f] f by blast
qed

definition demo_pager :: "unit pager" where
  "demo_pager = pager_new 256 True None (zeros 512)
     \<lparr>capacity = 2, pool_page_size = 256, frames = [frame_new 0, frame_new 1], free_frames = [0, 1], resident = [],
      hits = 0, misses = 0, evictions = 0, dirty_evictions = 0, writes_absorbed = 0, pool_flushes = 0, pages_flushed = 0\<rparr>
     (meta_new 256 2) ()"

lemma demo_pager_ok: "pager_ok demo_pager" "pages demo_pager 1 = Some (zeros 256)"
proof -
  have "frames_ok (pg_pool demo_pager) []" by (auto simp: frames_ok_def demo_pager_def pager_new_def frame_new_def)
  then show "pager_ok demo_pager"
    by (simp add: pager_ok_def pager_store.store_ok_def device_ok_def in_sync_def aligned_def demo_pager_def pager_new_def)
  show "pages demo_pager 1 = Some (zeros 256)"
    by (simp add: pages_def pool_view_def demo_pager_def pager_new_def read_device_page_at page_at_def)
qed

theorem pager_refines_page_map_witness:
  "pager_ok demo_pager \<and> (\<exists>pg2. pager_fetch 1 demo_pager = (pg2, Inr (zeros 256)) \<and> pager_ok pg2)"
  using pager_refines_page_map [OF demo_pager_ok(1), where pid = 1] demo_pager_ok by blast

text \<open>
  \<open>sync\<close> always succeeds on an open pager, and afterwards the database file itself holds every page
  the pager held in memory.
\<close>

theorem sync_writes_everything:
  assumes "pager_ok pg" and "\<not> pg_closed pg"
  shows "\<exists>pg'. pager_sync pg = (pg', Inr ()) \<and> pager_ok pg' \<and>
    (\<forall>p b. pages pg p = Some b \<longrightarrow> page_at (pg_size pg) (db_file pg') p = Some b)"
proof -
  let ?flush = "wal_op (\<lambda>l. bind_res (wal_flush True l) (\<lambda>l. Inr ((), l))) ()"
  have "\<exists>pg1. ?flush pg = (pg1, Inr ()) \<and> pager_ok pg1 \<and> pages pg1 = pages pg \<and> pg_size pg1 = pg_size pg"
  proof (cases "wal pg")
    case None
    then show ?thesis using assms(1) by (simp add: wal_op_def)
  next
    case (Some l)
    then have "\<not> w_closed l" using assms(1) by (simp add: pager_ok_def pager_store.store_ok_def device_ok_def)
    then obtain l' where l': "wal_flush True l = Inr l'" "\<not> w_closed l'" by (simp add: wal_flush_def Let_def)
    then show ?thesis using Some wal_frame [OF assms(1), of l'] by (simp add: wal_op_def)
  qed
  then obtain pg1 where f: "?flush pg = (pg1, Inr ())" "pager_ok pg1" "pages pg1 = pages pg" "pg_size pg1 = pg_size pg" by blast
  from flush_pool_ok [OF f(2)] obtain pg' k where fl: "flush_pool pg1 = (pg', Inr k)" "pager_ok pg'"
    "\<forall>p b. pages pg p = Some b \<longrightarrow> page_at (pg_size pg) (db_file pg') p = Some b" using f(3,4) by auto
  have "pager_sync pg = (pg', Inr ())"
    using assms(2) f(1) fl(1) by (simp add: pager_sync_def bind_op_def ensure_open_def lift_res_def)
  with fl show ?thesis by blast
qed

theorem sync_writes_everything_witness:
  "\<exists>pg'. pager_sync demo_pager = (pg', Inr ()) \<and> page_at 256 (db_file pg') 1 = Some (zeros 256)"
proof -
  have "\<not> pg_closed demo_pager" "pg_size demo_pager = 256" by (simp_all add: demo_pager_def pager_new_def)
  then show ?thesis using sync_writes_everything [OF demo_pager_ok(1)] demo_pager_ok(2) by auto
qed

text \<open>
  C37: What the gap in \<open>flush_through\<close> costs. A page is updated, its record being the only staged one, and
  evicted: the page reaches the file before its record. The same transaction updates the page again,
  which replaces the staged record under the same LSN, and commits. After a crash the log holds the
  second image and the commit, but the file's page already carries that LSN, so redo skips it:
  recovery reports the transaction as finished and the page has the first image.
\<close>

theorem committed_update_lost:
  assumes "wal_ok l [] [r1]" and "aligned n f" and "length (r_after_image r1) = n"
    and "r_type r1 = UPDATE" and "r_page_id r1 = p" and "r_transaction_id r1 = txn" and "txn \<noteq> NO_TRANSACTION"
    and "image_lsn p (r_after_image r1) = r_lsn r1"
    and "write_to_disk_write_ahead n p (r_after_image r1) (Some l, f) = Inr (Some l1, f1)"
    and "append_update l1 txn p [] img = Inr (r2, l2)" and "length (r_after_image r2) \<le> MAX_IMAGE_BYTES"
    and "wal_commit l2 txn = Inr (c, l3)"
  shows "read_all (wal_open (base_lsn l) (w_file l3)) = Inr ([r2, c], False) \<and>
    img (r_lsn r2) = Inr (r_after_image r2) \<and>
    (\<exists>rep l4. recover (page_lsn_on_disk n) (apply_recovered_page n) (wal_open (base_lsn l) (w_file l3)) f1 = Inr (rep, l4, f1) \<and>
       winners rep = [txn] \<and> losers rep = []) \<and>
    page_at n f1 p = Some (r_after_image r1)"
proof -
  have r1: "r_lsn r1 = flushed_lsn l" using assms(1) by (simp add: wal_ok_def)
  then have l1: "l1 = l" and f1: "f1 = file_write (p * n) (r_after_image r1) f"
    using assms(9) assms(8) by (auto simp: write_to_disk_write_ahead_def flush_through_def write_to_disk_def file_offset_def)
  have sup: "supersedes l txn p = Some r1" using assms(1,4-6) by (simp add: supersedes_def wal_ok_def)
  note ap = append_update_replaces [of l "[]" "[]" r1, simplified, OF assms(1) sup assms(10) [unfolded l1] assms(11)]
  note ok2 = ap(1) and r2 = ap(7,6,4,5,2)
  note cm = wal_commit_ok [OF ok2 assms(12)]
  have log: "wal_ok (wal_open (base_lsn l) (w_file l3)) [r2, c] []"
  proof -
    have "w_file l3 = stream [r2, c]" "chained (base_lsn l3) [r2, c]" using cm(1) by (simp_all add: wal_ok_def)
    then show ?thesis using wal_open_ok [of "base_lsn l" "[r2, c]"] cm(2) r2(5) by simp
  qed
  have page: "page_at n f1 p = Some (r_after_image r1)" using page_at_write [OF assms(2,3)] f1 by simp
  then have skip: "page_lsn_on_disk n p f1 = int (r_lsn r2)" using assms(8) r2(1) by (simp add: page_lsn_on_disk_page_at)
  have fin: "txns_finished [r2, c] = {txn}" "txns_lost [r2, c] = {}"
    using r2 cm(3,4) by (auto simp: txns_finished_def txns_seen_def)
  have "\<exists>rep l4. recover (page_lsn_on_disk n) (apply_recovered_page n) (wal_open (base_lsn l) (w_file l3)) f1 = Inr (rep, l4, f1) \<and>
       winners rep = [txn] \<and> losers rep = []"
  proof -
    obtain rep where "analyse [r2, c] (report_new\<lparr>truncated_tail := False, records_scanned := 2, ran := True\<rparr>) = ({txn}, {}, rep)"
      using analyse_ok [of "[r2, c]"] fin by metis
    then show ?thesis
      using read_all_ok [OF log] skip r2(2,3) cm(3)
      by (simp add: recover_def undo_pass_def numeral_2_eq_2)
  qed
  then show ?thesis using read_all_ok [OF log] ap(3) page by blast
qed

theorem committed_update_lost_witness:
  "\<exists>r1 l f1 r2 l2 c l3 rep l4.
     append_update (wal_open 100 []) 7 3 [] (\<lambda>k. Inr (demo_image k)) = Inr (r1, l) \<and>
     write_to_disk_write_ahead 24 3 (r_after_image r1) (Some l, []) = Inr (Some l, f1) \<and>
     append_update l 7 3 [] (\<lambda>k. Inr (replicate 24 9)) = Inr (r2, l2) \<and> wal_commit l2 7 = Inr (c, l3) \<and>
     recover (page_lsn_on_disk 24) (apply_recovered_page 24) (wal_open 100 (w_file l3)) f1 = Inr (rep, l4, f1) \<and>
     winners rep = [7] \<and> r_after_image r2 = replicate 24 9 \<and> page_at 24 f1 3 = Some (demo_image 100)"
proof -
  let ?l = "wal_open 100 []" and ?i1 = "\<lambda>k. Inr (demo_image k)" and ?i2 = "\<lambda>k::nat. Inr (replicate 24 9)"
  have ok: "wal_ok ?l [] []" "prev_bounded ?l" "next_lsn ?l = 100"
    using wal_open_ok [of 100 "[]"] by (simp_all add: prev_bounded_def wal_open_def next_lsn_def)
  from append_update_succeeds [OF ok(1,2), of 7 3 "[]" ?i1] obtain r1 l where
    a: "append_update ?l 7 3 [] ?i1 = Inr (r1, l)" "prev_bounded l" "length (r_after_image r1) \<le> MAX_IMAGE_BYTES"
    using ok(3) by (auto simp: MAX_IMAGE_BYTES_def)
  from append_update_ok [OF ok(1) a(1) _ a(3)] have l: "wal_ok l [] [r1]" "base_lsn l = 100" "r_after_image r1 = demo_image (r_lsn r1)"
    "r_page_id r1 = 3" "r_transaction_id r1 = 7" "r_type r1 = UPDATE" by (auto simp: wal_open_def)
  then have r1: "r_lsn r1 = 100" "record_ok r1" by (simp_all add: wal_ok_def)
  have nl: "next_lsn l < 256 ^ 8"
    using wal_ok_next_lsn [OF l(1)] r1 l(2,3) append_update_ok [OF ok(1) a(1) _ a(3)]
    by (auto simp: record_size_def)
  define f1 where "f1 = file_write 72 (r_after_image r1) []"
  have w: "write_to_disk_write_ahead 24 3 (r_after_image r1) (Some l, []) = Inr (Some l, f1)"
    using l r1 by (simp add: write_to_disk_write_ahead_def flush_through_def write_to_disk_def file_offset_def f1_def wal_ok_def)
  from append_update_succeeds [OF l(1) a(2) nl, of 7 3 "[]" ?i2] obtain r2 l2 where
    b: "append_update l 7 3 [] ?i2 = Inr (r2, l2)" "prev_bounded l2" "length (r_after_image r2) \<le> MAX_IMAGE_BYTES"
    by (auto simp: MAX_IMAGE_BYTES_def)
  have sup: "supersedes l 7 3 = Some r1" using l by (simp add: supersedes_def wal_ok_def)
  note r2 = append_update_replaces [of l "[]" "[]" r1, simplified, OF l(1) sup b(1,3)]
  have nl2: "next_lsn l2 < 256 ^ 8"
  proof -
    have "r_after_image r2 = replicate 24 9" using r2(3) by simp
    then have "length (r_after_image r2) = 24" by (simp only: length_replicate)
    moreover have "record_ok r2" "base_lsn l2 = 100" using r2(1,2) l(2) by (simp_all add: wal_ok_def)
    ultimately show ?thesis using wal_ok_next_lsn [OF r2(1)] r2(8) append_update_ok [OF ok(1) a(1) _ a(3)]
      by (auto simp: record_size_def)
  qed
  from wal_commit_succeeds [OF r2(1) b(2) nl2, of 7] obtain c l3 where c: "wal_commit l2 7 = Inr (c, l3)" by auto
  have len: "aligned 24 []" "length (r_after_image r1) = 24" "(7::nat) \<noteq> NO_TRANSACTION"
    "image_lsn 3 (r_after_image r1) = r_lsn r1"
    using l r1 by (simp_all add: aligned_def NO_TRANSACTION_def)
  from committed_update_lost [OF l(1) len(1,2) l(6,4,5) len(3,4) w b(1,3) c] l(2,3) r1(1) obtain rep l4 where
    "recover (page_lsn_on_disk 24) (apply_recovered_page 24) (wal_open 100 (w_file l3)) f1 = Inr (rep, l4, f1)"
    "winners rep = [7]" "page_at 24 f1 3 = Some (demo_image 100)" by auto
  moreover have "r_after_image r2 = replicate 24 9" using r2(3) by simp
  ultimately show ?thesis using a(1) w b(1) c by blast
qed

text \<open>
  The order of a checkpoint. \<open>WriteAheadLog.checkpoint\<close> truncates the log before the pager writes the
  new \<open>checkpoint_lsn\<close>, the reverse of what \<open>Pager.checkpoint\<close> documents. After a crash in between,
  the file still has the old meta page and the log is empty, so the reopened log hands out the LSNs
  of the old log again; an update logged under such an LSN, for a page whose last change carries an
  LSN at least as large, is skipped by the next recovery, committed or not.
\<close>

theorem checkpoint_crash_reuses_lsns:
  assumes "pager_ok pg" and "wal pg = Some l" and "pages pg META_PAGE_ID = Some raw"
    and "meta_from_bytes raw True = Inr m" and "m_checkpoint_lsn m = base_lsn l"
    and "checkpoint_log pg = (pg1, Inr ())"
  shows "\<exists>l1. wal pg1 = Some l1 \<and> w_file l1 = [] \<and> page_at (pg_size pg) (db_file pg1) META_PAGE_ID = Some raw \<and>
    next_lsn (wal_open (m_checkpoint_lsn m) (w_file l1)) = base_lsn l \<and>
    (\<forall>r b rep. r_type r = UPDATE \<and> r_lsn r = base_lsn l \<and> page_at (pg_size pg) (db_file pg1) (r_page_id r) = Some b \<and>
       base_lsn l \<le> image_lsn (r_page_id r) b \<longrightarrow>
       redo (page_lsn_on_disk (pg_size pg)) (apply_recovered_page (pg_size pg)) [r] rep (db_file pg1) =
         Inr (rep\<lparr>pages_skipped := pages_skipped rep + 1\<rparr>, db_file pg1))"
proof -
  obtain pg2 k where fl: "flush_pool pg = (pg2, Inr k)" "pager_ok pg2" "pg_size pg2 = pg_size pg"
    "\<forall>p b. pages pg p = Some b \<longrightarrow> page_at (pg_size pg) (db_file pg2) p = Some b"
    using flush_pool_ok [OF assms(1)] by blast
  have open': "\<not> w_closed l" using assms(1,2) by (simp add: pager_ok_def pager_store.store_ok_def device_ok_def)
  have "wal_op (\<lambda>l. guard_res (\<not> w_closed l) ValueError (Inr ((), l))) () pg = (pg, Inr ())"
    using assms(2) open' by (cases pg) (simp add: wal_op_def)
  then have "wal_op (\<lambda>l. bind_res (wal_checkpoint l) (\<lambda>(_, l). Inr ((), l))) () pg2 = (pg1, Inr ())"
    using assms(6) fl(1) by (simp add: checkpoint_log_def bind_op_def)
  moreover have "wal pg2 \<noteq> None" using flush_pool_wal fl(1) assms(2) by blast
  ultimately obtain l2 r l1 where l2: "wal pg2 = Some l2" "wal_checkpoint l2 = Inr (r, l1)" "pg1 = pg2\<lparr>wal := Some l1\<rparr>"
    by (auto simp: wal_op_def bind_res_def split: option.splits sum.splits prod.splits)
  have "w_file l1 = []" using l2(2) by (auto simp: wal_checkpoint_def res_simps)
  moreover have "db_file pg1 = db_file pg2" by (simp add: l2(3))
  moreover have "page_at (pg_size pg) (db_file pg2) META_PAGE_ID = Some raw" using fl(4) assms(3) by blast
  ultimately show ?thesis using l2(3) assms(5)
    by (intro exI [of _ l1]) (auto simp: next_lsn_def wal_open_def page_lsn_on_disk_page_at)
qed

text \<open>A pager whose log starts at 100, before its first checkpoint.\<close>

theorem checkpoint_crash_reuses_lsns_witness:
  "\<exists>raw m pg pg1 l1. meta_to_bytes m = Inr raw \<and> m_checkpoint_lsn m = 100 \<and>
     pg = pager_new 256 True (Some (wal_open 100 [])) raw (pg_pool demo_pager) m () \<and> checkpoint_log pg = (pg1, Inr ()) \<and>
     wal pg1 = Some l1 \<and> w_file l1 = [] \<and> page_at 256 (db_file pg1) 0 = Some raw \<and>
     next_lsn (wal_open (m_checkpoint_lsn m) (w_file l1)) = 100"
proof -
  define m where "m = (meta_new 256 1)\<lparr>m_checkpoint_lsn := 100\<rparr>"
  have "meta_fits m" by (simp add: meta_fits_def m_def meta_new_def meta_words_def FORMAT_VERSION_def INVALID_PAGE_ID_def)
  then obtain raw where raw: "meta_to_bytes m = Inr raw" by (simp add: meta_to_bytes_def)
  have len: "length raw = 256" using meta_to_bytes_length [OF raw] by (simp add: m_def meta_new_def)
  have dec: "meta_from_bytes raw True = Inr m"
    using meta_from_header [OF raw, of 256 "[]"] len by (simp add: m_def meta_new_def)
  define pg where "pg = pager_new 256 True (Some (wal_open 100 [])) raw (pg_pool demo_pager) m ()"
  have "frames_ok (pg_pool demo_pager) []" by (auto simp: frames_ok_def demo_pager_def pager_new_def frame_new_def)
  then have ok: "pager_ok pg"
    using len by (simp add: pager_ok_def pager_store.store_ok_def device_ok_def in_sync_def aligned_def demo_pager_def pager_new_def
        pg_def wal_open_def)
  have p0: "pages pg META_PAGE_ID = Some raw"
    using len by (simp add: pages_def pool_view_def pg_def demo_pager_def pager_new_def read_device_page_at page_at_def META_PAGE_ID_def)
  have w: "wal pg = Some (wal_open 100 [])" by (simp add: pg_def pager_new_def)
  obtain pg2 k where fl: "flush_pool pg = (pg2, Inr k)" "wal pg2 = Some (wal_open 100 [])"
    by (simp add: flush_pool_def with_pool_def pool_flush_def pg_def pager_new_def demo_pager_def)
  have "wal_ok (wal_open 100 []) [] []" "prev_bounded (wal_open 100 [])" "next_lsn (wal_open 100 []) = 100"
    using wal_open_ok [of 100 "[]"] by (simp_all add: prev_bounded_def wal_open_def next_lsn_def)
  from wal_append_step [OF this(1,2), of NO_TRANSACTION 0 "[]" "[]" CHECKPOINT] this(3) obtain r l2 where
    a: "wal_append (wal_open 100 []) CHECKPOINT NO_TRANSACTION 0 [] [] = Inr (r, l2)" "wal_ok l2 [] [r]"
    by (auto simp: NO_TRANSACTION_def)
  obtain l3 where "wal_flush True l2 = Inr l3" using wal_flush_succeeds [OF a(2)] by blast
  then obtain l1 where "wal_checkpoint (wal_open 100 []) = Inr (r, l1)" using a(1) by (simp add: wal_checkpoint_def)
  moreover have "wal_op (\<lambda>l. guard_res (\<not> w_closed l) ValueError (Inr ((), l))) () pg = (pg, Inr ())"
    using w by (cases pg) (simp add: wal_op_def wal_open_def)
  ultimately have run: "checkpoint_log pg = (pg2\<lparr>wal := Some l1\<rparr>, Inr ())"
    using fl by (simp add: checkpoint_log_def bind_op_def wal_op_def)
  have cm: "m_checkpoint_lsn m = base_lsn (wal_open 100 [])" "m_checkpoint_lsn m = 100" by (simp_all add: m_def wal_open_def)
  have "pg_size pg = 256" "base_lsn (wal_open 100 []) = 100" by (simp_all add: pg_def pager_new_def wal_open_def)
  with checkpoint_crash_reuses_lsns [OF ok w p0 dec cm(1) run] cm(2) obtain l4 where
    "wal (pg2\<lparr>wal := Some l1\<rparr>) = Some l4" "w_file l4 = []" "page_at 256 (db_file (pg2\<lparr>wal := Some l1\<rparr>)) 0 = Some raw"
    "next_lsn (wal_open (m_checkpoint_lsn m) (w_file l4)) = 100" by (auto simp: META_PAGE_ID_def)
  with raw cm(2) pg_def run show ?thesis by blast
qed

end
