(* ===== verification/PageStore.thy ===== *)
theory PageStore
  imports Page
begin

text \<open>
  What the structures built on pages ask of the pager: \<open>read_page\<close>, \<open>write_page\<close> and
  \<open>allocate_page\<close>, here the three fields of a record \<open>page_io\<close> that the heap and the B+ tree take
  as their \<open>_pager\<close>. The locale \<open>page_store\<close> states what the three promise in terms of a map from
  page ids to page contents; \<open>PagerStore\<close> proves that the pager keeps the promise.
\<close>

record 's page_io =
  io_read :: "nat \<Rightarrow> ('s, page) op"
  io_write :: "page \<Rightarrow> ('s, unit) op"
  io_allocate :: "page_type \<Rightarrow> ('s, page) op"

text \<open>An operation of the pager, run by an object that has fields of its own.\<close>

definition with_io :: "('s, 'a) op \<Rightarrow> ('o \<times> 's, 'a) op" where
  "with_io f = (\<lambda>(h, s). case f s of (s', r) \<Rightarrow> ((h, s'), r))"

lemma with_io_step: "f s = (s', r) \<Longrightarrow> with_io f (h, s) = ((h, s'), r)"
  by (simp add: with_io_def)

section \<open>Contents of a page\<close>

type_synonym contents = "page_type \<times> nat \<times> bytes option list"

definition page_holds :: "page \<Rightarrow> contents \<Rightarrow> bool" where
  "page_holds p c \<longleftrightarrow> page_ok p \<and> get_page_type p = Inr (fst c) \<and> next_page_id p = fst (snd c) \<and> recs p = snd (snd c)"

lemma page_holdsD:
  assumes "page_holds p (t, nx, rs)"
  shows "page_ok p" "get_page_type p = Inr t" "next_page_id p = nx" "recs p = rs" "header_ok p" "slot_count p = length rs"
  using assms length_recs [of p] by (auto simp: page_holds_def page_ok_def simp del: length_recs)

lemma slice_within: "slice xs a n = slice ys a n \<Longrightarrow> a \<le> b \<Longrightarrow> b + m \<le> a + n \<Longrightarrow> slice xs b m = slice ys b m"
proof -
  assume e: "slice xs a n = slice ys a n" and "a \<le> b" "b + m \<le> a + n"
  then have "slice zs b m = slice (slice zs a n) (b - a) m" for zs :: "'a list"
    by (simp add: slice_slice)
  then show ?thesis using e by metis
qed

lemma same_identity_fields:
  assumes "same_identity p p'"
  shows "get_page_type p' = get_page_type p" "next_page_id p' = next_page_id p" "psize p' = psize p" "page_id p' = page_id p"
proof -
  have s: "slice (buf p') 0 14 = slice (buf p) 0 14" "slice (buf p') 20 4 = slice (buf p) 20 4"
    using assms by (simp_all add: same_identity_def)
  have "slice (buf p') 12 1 = slice (buf p) 12 1" by (rule slice_within [OF s(1)]) simp_all
  then show "get_page_type p' = get_page_type p" by (simp add: get_page_type_def get_field_def)
  show "next_page_id p' = next_page_id p" using s(2) by (simp add: next_page_id_def get_field_def)
qed (use assms in \<open>simp_all add: same_identity_def\<close>)

lemma page_holds_same:
  assumes "page_holds p (t, nx, rs)" and "same_identity p p'" and "page_ok p'" and "recs p' = rs'"
  shows "page_holds p' (t, nx, rs')"
  using assms same_identity_fields [OF assms(2)] by (simp add: page_holds_def)

lemma set_next_page_id_ok:
  assumes p: "page_holds p (t, nx, rs)" and v: "v < 2 ^ 32"
  shows "\<exists>p'. set_next_page_id v p = Inr p' \<and> page_holds p' (t, v, rs) \<and> page_id p' = page_id p \<and> psize p' = psize p"
proof -
  have h: "header_ok p" and ok: "page_ok p" using page_holdsD [OF p] by simp_all
  note hd = header_okD [OF h]
  define q where "q = with_field 4 20 v p"
  have run: "set_next_page_id v p = Inr q" using hd v by (simp add: set_next_page_id_def set_field_ok q_def)
  have hq: "slot_count q = slot_count p" "free_start q = free_start p" "free_end q = free_end p" "next_page_id q = v"
    "psize q = psize p" "page_id q = page_id p" "length (buf q) = psize p" "slot_at q i = slot_at p i" for i
    using hd(1,2) v by (simp_all add: q_def header_defs get_field_with_field page_simps)
  have dq: "slice (buf q) c n = slice (buf p) c n" if "24 \<le> c" for c n
    using that hd(1) by (simp add: q_def page_simps)
  have ty: "get_page_type q = get_page_type p"
    using hd(1) by (simp add: get_page_type_def q_def get_field_with_field)
  have so: "slots_ok p" using ok by (simp add: page_ok_def)
  have "rec_at q i = rec_at p i" if "i < slot_count p" for i
    using that so hd(4,5) slot_offset_ge [of "slot_count p"] by (auto simp: rec_at_def hq dq slots_ok_def)
  then have recs: "recs q = recs p" by (simp add: recs_def hq)
  have "page_ok q" using ok recs by (simp add: page_ok_def header_ok_def slots_ok_def hq)
  then show ?thesis using run p recs ty hq(4-6) by (simp add: page_holds_def)
qed

section \<open>Chains of pages\<close>

text \<open>
  \<open>chain v t ps z\<close>: the pages \<open>ps\<close> have type \<open>t\<close> and each links to the next one, the last to \<open>z\<close>.
\<close>

fun chain :: "(nat \<rightharpoonup> contents) \<Rightarrow> page_type \<Rightarrow> nat list \<Rightarrow> nat \<Rightarrow> bool" where
  "chain v t [] z \<longleftrightarrow> True"
| "chain v t (p # ps) z \<longleftrightarrow> (\<exists>rs. v p = Some (t, (case ps of [] \<Rightarrow> z | q # _ \<Rightarrow> q), rs)) \<and> chain v t ps z"

definition records_at :: "(nat \<rightharpoonup> contents) \<Rightarrow> nat \<Rightarrow> bytes option list" where
  "records_at v p = (case v p of None \<Rightarrow> [] | Some (t, nx, rs) \<Rightarrow> rs)"

lemma records_at_upd [simp]: "records_at (v(p \<mapsto> (t, nx, rs))) q = (if q = p then rs else records_at v q)"
  by (simp add: records_at_def)

lemma chain_append:
  "chain v t (ps @ qs) z \<longleftrightarrow> chain v t ps (case qs of [] \<Rightarrow> z | q # _ \<Rightarrow> q) \<and> chain v t qs z"
  by (induction ps) (auto split: list.splits)

lemma chain_cong: "(\<And>p. p \<in> set ps \<Longrightarrow> v' p = v p) \<Longrightarrow> chain v' t ps z \<longleftrightarrow> chain v t ps z"
  by (induction ps) auto

lemma chain_records: "chain v t ps z \<Longrightarrow> p \<in> set ps \<Longrightarrow> \<exists>nx. v p = Some (t, nx, records_at v p)"
  by (induction ps) (auto simp: records_at_def)

lemma chain_in_use: "chain v t ps z \<Longrightarrow> p \<in> set ps \<Longrightarrow> v p \<noteq> None"
  using chain_records by fastforce

lemma chain_last: "chain v t ps z \<Longrightarrow> ps \<noteq> [] \<Longrightarrow> v (last ps) = Some (t, z, records_at v (last ps))"
  by (induction ps) (auto simp: records_at_def)

text \<open>New records on one page of a chain, and a new page behind its last one.\<close>

lemma chain_update:
  assumes "chain v t ps z" and "distinct ps" and "v p = Some (t, nx, rs)" and "p \<in> set ps"
  shows "chain (v(p \<mapsto> (t, nx, rs'))) t ps z"
  using assms
proof (induction ps)
  case (Cons q ps)
  then show ?case
  proof (cases "q = p")
    case True
    then have "chain (v(p \<mapsto> (t, nx, rs'))) t ps z \<longleftrightarrow> chain v t ps z" using Cons.prems(2) by (intro chain_cong) auto
    then show ?thesis using Cons.prems True by (auto simp del: fun_upd_apply simp: fun_upd_same)
  qed auto
qed simp

lemma chain_extend:
  assumes "chain v t ps z" and "distinct ps" and "ps \<noteq> []" and "q \<notin> set ps"
  shows "chain (v(last ps \<mapsto> (t, q, rs), q \<mapsto> (t, z', rs'))) t (ps @ [q]) z'"
proof -
  obtain xs p where ps: "ps = xs @ [p]" using assms(3) by (metis append_butlast_last_id)
  then have "chain v t xs p" using assms(1) by (simp add: chain_append)
  moreover have "chain (v(p \<mapsto> (t, q, rs), q \<mapsto> (t, z', rs'))) t xs p \<longleftrightarrow> chain v t xs p"
    using assms(2,4) ps by (intro chain_cong) auto
  ultimately show ?thesis using assms(4) ps by (auto simp: chain_append)
qed

section \<open>The interface\<close>

text \<open>
  \<open>view s\<close> maps the ids of the pages in use to their contents. \<open>room k s\<close> says that the store is in
  order and takes at least \<open>k\<close> more page writes; an allocation counts as two, the new page and the
  meta page. Reads leave the view alone, a write replaces one page of it, and an allocation adds an
  empty page under an id not in use. Pages of type \<open>FREE\<close> belong to the pager and are not in use.
\<close>

locale page_store =
  fixes P :: "'s page_io" and view :: "'s \<Rightarrow> nat \<rightharpoonup> contents" and room :: "nat \<Rightarrow> 's \<Rightarrow> bool" and N :: nat
  assumes read_law: "room k s \<Longrightarrow> view s p = Some c \<Longrightarrow>
      \<exists>s' pg. io_read P p s = (s', Inr pg) \<and> page_holds pg c \<and> page_id pg = p \<and> psize pg = N \<and> room k s' \<and> view s' = view s"
    and write_law: "room (Suc k) s \<Longrightarrow> page_holds pg c \<Longrightarrow> psize pg = N \<Longrightarrow> view s (page_id pg) \<noteq> None \<Longrightarrow> fst c \<noteq> FREE \<Longrightarrow>
      \<exists>s'. io_write P pg s = (s', Inr ()) \<and> room k s' \<and> view s' = (view s)(page_id pg \<mapsto> c)"
    and alloc_law: "room (Suc (Suc k)) s \<Longrightarrow> t \<noteq> FREE \<Longrightarrow>
      \<exists>s' pg. io_allocate P t s = (s', Inr pg) \<and> page_holds pg (t, INVALID_PAGE_ID, []) \<and> psize pg = N \<and> free_space pg = int N - 24 \<and>
        view s (page_id pg) = None \<and> room k s' \<and> view s' = (view s)(page_id pg \<mapsto> (t, INVALID_PAGE_ID, []))"
    and room_mono: "room (Suc k) s \<Longrightarrow> room k s"
    and in_use: "room k s \<Longrightarrow> view s p \<noteq> None \<Longrightarrow> p < INVALID_PAGE_ID"
begin

lemma room_le: "room k s \<Longrightarrow> j \<le> k \<Longrightarrow> room j s"
proof (induction k)
  case (Suc k)
  then show ?case using room_mono by (cases "j = Suc k") auto
qed simp

end

lemma INVALID_PAGE_ID_less: "INVALID_PAGE_ID < 2 ^ 32"
  by (simp add: INVALID_PAGE_ID_def)

end
