(* ===== verification/Heap.thy ===== *)
theory Heap
  imports PageStore
begin

text \<open>
  Heap files (\<open>engine/storage/heap.py\<close>): records on a chain of pages, addressed by \<open>RecordId\<close>. The
  operations work on the handle, whose two page ids may change, and on the state of the pager they
  are given; the callback \<open>on_pages_changed\<close> is the argument \<open>on_pages\<close>. A scan is modelled as the
  list it yields when it is run to its end. Counters and tracer events are left out.
\<close>

record record_id =
  rid_page :: nat
  rid_slot :: nat

abbreviation RecordId :: "nat \<Rightarrow> nat \<Rightarrow> record_id" where
  "RecordId p i \<equiv> \<lparr>rid_page = p, rid_slot = i\<rparr>"

record heap_file =
  first_page_id :: nat
  last_page_id :: nat

type_synonym 's pages_callback = "(nat \<Rightarrow> nat \<Rightarrow> ('s, unit) op) option"

definition notify_pages :: "'s pages_callback \<Rightarrow> nat \<Rightarrow> nat \<Rightarrow> ('s, unit) op" where
  "notify_pages cb a b = (case cb of None \<Rightarrow> lift_res (Inr ()) | Some f \<Rightarrow> f a b)"

definition heap_create :: "'s page_io \<Rightarrow> 's pages_callback \<Rightarrow> ('s, heap_file) op" where
  "heap_create P on_pages =
     bind_op (io_allocate P HEAP) (\<lambda>page.
     bind_op (notify_pages on_pages (page_id page) (page_id page)) (\<lambda>_.
       lift_res (Inr \<lparr>first_page_id = page_id page, last_page_id = page_id page\<rparr>)))"

section \<open>Writes\<close>

text \<open>The last page, compacted first when \<open>would_fit_after_compaction\<close> promises room that way.\<close>

definition insert_or_compact :: "page \<Rightarrow> bytes \<Rightarrow> (page \<times> nat option) res" where
  "insert_or_compact page payload =
     bind_res (insert_rec page payload) (\<lambda>(page, slot).
       if slot \<noteq> None then Inr (page, slot)
       else bind_res (would_fit_after_compaction page (length payload)) (\<lambda>fits.
         if fits then bind_res (compact page) (\<lambda>(page, _). insert_rec page payload)
         else Inr (page, None)))"

definition set_last_page :: "nat \<Rightarrow> (heap_file \<times> 's, heap_file) op" where
  "set_last_page pid = (\<lambda>(h, s). let h = h\<lparr>last_page_id := pid\<rparr> in ((h, s), Inr h))"

definition extend :: "'s page_io \<Rightarrow> 's pages_callback \<Rightarrow> page \<Rightarrow> (heap_file \<times> 's, page) op" where
  "extend P on_pages tail =
     bind_op (with_io (io_allocate P HEAP)) (\<lambda>new_page.
     bind_op (lift_res (set_next_page_id (page_id new_page) tail)) (\<lambda>tail.
     bind_op (with_io (io_write P tail)) (\<lambda>_.
     bind_op (set_last_page (page_id new_page)) (\<lambda>h.
     bind_op (with_io (notify_pages on_pages (first_page_id h) (last_page_id h))) (\<lambda>_.
       lift_res (Inr new_page))))))"

definition heap_insert :: "'s page_io \<Rightarrow> 's pages_callback \<Rightarrow> bytes \<Rightarrow> (heap_file \<times> 's, record_id) op" where
  "heap_insert P on_pages payload hs =
     bind_op (with_io (io_read P (last_page_id (fst hs)))) (\<lambda>page.
       if int (length payload) > max_payload_size page then lift_res (Inl RecordTooLargeError)
       else
         bind_op (lift_res (insert_or_compact page payload)) (\<lambda>(page, slot).
         bind_op
           (case slot of
              Some i \<Rightarrow> lift_res (Inr (page, i))
            | None \<Rightarrow>
                bind_op (extend P on_pages page) (\<lambda>page.
                bind_op (lift_res (insert_rec page payload)) (\<lambda>(page, slot).
                  lift_res (case slot of None \<Rightarrow> Inl RecordTooLargeError | Some i \<Rightarrow> Inr (page, i)))))
           (\<lambda>(page, i).
         bind_op (with_io (io_write P page)) (\<lambda>_. lift_res (Inr (RecordId (page_id page) i)))))) hs"

definition heap_delete :: "'s page_io \<Rightarrow> record_id \<Rightarrow> ('s, bool) op" where
  "heap_delete P rid =
     bind_op (io_read P (rid_page rid)) (\<lambda>page.
     bind_op (lift_res (delete_rec page (rid_slot rid))) (\<lambda>(page, done).
       if \<not> done then lift_res (Inr False)
       else bind_op (io_write P page) (\<lambda>_. lift_res (Inr True))))"

definition heap_replace :: "'s page_io \<Rightarrow> record_id \<Rightarrow> bytes \<Rightarrow> ('s, bool) op" where
  "heap_replace P rid payload =
     bind_op (io_read P (rid_page rid)) (\<lambda>page.
     bind_op (lift_res (overwrite page (rid_slot rid) payload)) (\<lambda>(page, done).
       if \<not> done then lift_res (Inr False)
       else bind_op (io_write P page) (\<lambda>_. lift_res (Inr True))))"

section \<open>Reads\<close>

definition heap_get :: "'s page_io \<Rightarrow> record_id \<Rightarrow> ('s, bytes) op" where
  "heap_get P rid =
     bind_op (io_read P (rid_page rid)) (\<lambda>page.
     bind_op (lift_res (read_rec page (rid_slot rid))) (\<lambda>payload.
       lift_res (case payload of None \<Rightarrow> Inl RecordNotFoundError | Some b \<Rightarrow> Inr b)))"

text \<open>
  The loops follow the chain of pages, and a scan of a cyclic chain does not end: there the value is
  \<open>None\<close>.
\<close>

partial_function (option) scan_from ::
  "'s page_io \<Rightarrow> nat \<Rightarrow> 's \<Rightarrow> ('s \<times> (record_id \<times> bytes) list res) option" where
  "scan_from P pid s =
     (if pid = INVALID_PAGE_ID then Some (s, Inr [])
      else case bind_op (io_read P pid) (\<lambda>page. bind_op (lift_res (iter_records page)) (\<lambda>rs. lift_res (Inr (page, rs)))) s of
             (s, Inl e) \<Rightarrow> Some (s, Inl e)
           | (s, Inr (page, rs)) \<Rightarrow>
               Option.bind (scan_from P (next_page_id page) s) (\<lambda>(s, r).
                 Some (s, bind_res r (\<lambda>rest. Inr (map (\<lambda>(i, b). (RecordId pid i, b)) rs @ rest)))))"

definition heap_scan :: "'s page_io \<Rightarrow> heap_file \<times> 's \<Rightarrow> ('s \<times> (record_id \<times> bytes) list res) option" where
  "heap_scan P hs = scan_from P (first_page_id (fst hs)) (snd hs)"

partial_function (option) page_ids_from ::
  "'s page_io \<Rightarrow> nat set \<Rightarrow> nat \<Rightarrow> 's \<Rightarrow> ('s \<times> nat list res) option" where
  "page_ids_from P seen pid s =
     (if pid = INVALID_PAGE_ID then Some (s, Inr [])
      else if pid \<in> seen then Some (s, Inl RecordNotFoundError)
      else case io_read P pid s of
             (s, Inl e) \<Rightarrow> Some (s, Inl e)
           | (s, Inr page) \<Rightarrow>
               Option.bind (page_ids_from P (insert pid seen) (next_page_id page) s) (\<lambda>(s, r).
                 Some (s, bind_res r (\<lambda>rest. Inr (pid # rest)))))"

definition heap_page_ids :: "'s page_io \<Rightarrow> heap_file \<times> 's \<Rightarrow> ('s \<times> nat list res) option" where
  "heap_page_ids P hs = page_ids_from P {} (first_page_id (fst hs)) (snd hs)"

text \<open>\<open>count\<close>: each page is read once by the consumer of \<open>page_ids\<close> and once more by the walk itself.\<close>

partial_function (option) count_from :: "'s page_io \<Rightarrow> nat set \<Rightarrow> nat \<Rightarrow> 's \<Rightarrow> ('s \<times> nat res) option" where
  "count_from P seen pid s =
     (if pid = INVALID_PAGE_ID then Some (s, Inr 0)
      else if pid \<in> seen then Some (s, Inl RecordNotFoundError)
      else case bind_op (io_read P pid) (\<lambda>page. bind_op (lift_res (live_record_count page)) (\<lambda>k.
                bind_op (io_read P pid) (\<lambda>page. lift_res (Inr (k, page))))) s of
             (s, Inl e) \<Rightarrow> Some (s, Inl e)
           | (s, Inr (k, page)) \<Rightarrow>
               Option.bind (count_from P (insert pid seen) (next_page_id page) s) (\<lambda>(s, r).
                 Some (s, bind_res r (\<lambda>n. Inr (k + n)))))"

definition heap_count :: "'s page_io \<Rightarrow> heap_file \<times> 's \<Rightarrow> ('s \<times> nat res) option" where
  "heap_count P hs = count_from P {} (first_page_id (fst hs)) (snd hs)"

definition heap_page_count :: "'s page_io \<Rightarrow> heap_file \<times> 's \<Rightarrow> ('s \<times> nat res) option" where
  "heap_page_count P hs =
     Option.bind (heap_page_ids P hs) (\<lambda>(s, r). Some (s, bind_res r (\<lambda>ps. Inr (length ps))))"

section \<open>The records a heap holds\<close>

definition heap_ok :: "(nat \<rightharpoonup> contents) \<Rightarrow> heap_file \<Rightarrow> nat list \<Rightarrow> bool" where
  "heap_ok v h ps \<longleftrightarrow> ps \<noteq> [] \<and> distinct ps \<and> hd ps = first_page_id h \<and> last ps = last_page_id h \<and>
     chain v HEAP ps INVALID_PAGE_ID"

definition heap_map :: "(nat \<rightharpoonup> contents) \<Rightarrow> nat list \<Rightarrow> record_id \<rightharpoonup> bytes" where
  "heap_map v ps rid = (if rid_page rid \<in> set ps then spec_read (records_at v (rid_page rid)) (rid_slot rid) else None)"

definition page_rows :: "(nat \<rightharpoonup> contents) \<Rightarrow> nat \<Rightarrow> (record_id \<times> bytes) list" where
  "page_rows v p = map (\<lambda>(i, b). (RecordId p i, b)) (spec_iter (records_at v p))"

definition heap_rows :: "(nat \<rightharpoonup> contents) \<Rightarrow> nat list \<Rightarrow> (record_id \<times> bytes) list" where
  "heap_rows v ps = concat (map (page_rows v) ps)"

lemma set_page_rows: "(rid, b) \<in> set (page_rows v p) \<longleftrightarrow> rid_page rid = p \<and> spec_read (records_at v p) (rid_slot rid) = Some b"
proof -
  have "(rid, b) \<in> set (page_rows v p) \<longleftrightarrow> (\<exists>i. rid = RecordId p i \<and> (i, b) \<in> set (spec_iter (records_at v p)))"
    by (auto simp: page_rows_def)
  then show ?thesis by (cases rid) (auto simp: set_spec_iter spec_read_def split: if_splits)
qed

lemma set_heap_rows: "(rid, b) \<in> set (heap_rows v ps) \<longleftrightarrow> heap_map v ps rid = Some b"
  by (auto simp: heap_rows_def set_page_rows heap_map_def split: if_splits)

lemma distinct_page_rows: "distinct (map fst (page_rows v p))"
proof -
  have "map fst (page_rows v p) = map (RecordId p) (map fst (spec_iter (records_at v p)))"
    by (simp add: page_rows_def comp_def case_prod_beta)
  then show ?thesis using distinct_spec_iter by (simp add: distinct_map inj_on_def)
qed

lemma distinct_heap_rows: "distinct ps \<Longrightarrow> distinct (map fst (heap_rows v ps))"
proof (induction ps)
  case (Cons p ps)
  have "r \<notin> fst ` set (heap_rows v ps)" if "r \<in> fst ` set (page_rows v p)" for r
  proof
    assume "r \<in> fst ` set (heap_rows v ps)"
    then obtain b where "heap_map v ps r = Some b" using set_heap_rows by fastforce
    then have "rid_page r \<in> set ps" by (simp add: heap_map_def split: if_splits)
    moreover have "rid_page r = p" using that set_page_rows by fastforce
    ultimately show False using Cons.prems by simp
  qed
  moreover have "heap_rows v (p # ps) = page_rows v p @ heap_rows v ps" by (simp add: heap_rows_def)
  ultimately show ?case using Cons distinct_page_rows [of v p] by auto
qed (simp add: heap_rows_def)

lemma map_of_heap_rows:
  assumes "distinct ps"
  shows "map_of (heap_rows v ps) = heap_map v ps"
proof
  fix rid
  show "map_of (heap_rows v ps) rid = heap_map v ps rid"
  proof (cases "heap_map v ps rid")
    case None
    then have "rid \<notin> fst ` set (heap_rows v ps)" using set_heap_rows by fastforce
    then show ?thesis using None by (simp add: map_of_eq_None_iff)
  next
    case (Some b)
    then show ?thesis
      using set_heap_rows [of rid b v ps] map_of_is_SomeI [OF distinct_heap_rows [OF assms]] by metis
  qed
qed

text \<open>How the map changes with one page.\<close>

lemma heap_map_page:
  assumes "p \<in> set ps" and "\<And>i. spec_read rs' i = (if i = j then x else spec_read (records_at v p) i)"
  shows "heap_map (v(p \<mapsto> (t, nx, rs'))) ps = (heap_map v ps)(RecordId p j := x)"
proof
  fix rid
  show "heap_map (v(p \<mapsto> (t, nx, rs'))) ps rid = ((heap_map v ps)(RecordId p j := x)) rid"
    using assms by (cases rid) (auto simp: heap_map_def records_at_def)
qed

lemma insert_or_compact_ok:
  assumes p: "page_holds p (t, nx, rs)" and fits: "int (length b) \<le> max_payload_size p"
  shows "\<exists>p' r rs'. insert_or_compact p b = Inr (p', r) \<and> page_holds p' (t, nx, rs') \<and> page_id p' = page_id p \<and> psize p' = psize p \<and>
    (case r of None \<Rightarrow> spec_read rs' = spec_read rs
     | Some i \<Rightarrow> spec_read rs i = None \<and> (\<forall>j. spec_read rs' j = (if j = i then Some b else spec_read rs j)))"
proof -
  have ok: "page_ok p" and rs: "recs p = rs" using page_holdsD [OF p] by simp_all
  have ins: "\<exists>p' r. insert_rec q b = Inr (p', r) \<and> page_ok p' \<and> same_identity q p' \<and>
      (case r of None \<Rightarrow> p' = q
       | Some i \<Rightarrow> spec_read (recs q) i = None \<and> (\<forall>j. spec_read (recs p') j = (if j = i then Some b else spec_read (recs q) j)))"
    if "page_ok q" "int (length b) \<le> max_payload_size q" for q
  proof -
    obtain rs' i where "spec_insert (recs q) b = (rs', i)" by fastforce
    with insert_rec_ok [OF that] spec_insert_read [of "recs q" b rs' i] show ?thesis by (auto split: if_splits)
  qed
  from ins [OF ok fits] obtain p1 r1 where 1: "insert_rec p b = Inr (p1, r1)" "page_ok p1" "same_identity p p1"
    "case r1 of None \<Rightarrow> p1 = p
     | Some i \<Rightarrow> spec_read rs i = None \<and> (\<forall>j. spec_read (recs p1) j = (if j = i then Some b else spec_read rs j))"
    using rs by auto
  show ?thesis
  proof (cases r1)
    case (Some i)
    then show ?thesis using 1 page_holds_same [OF p 1(3,2) refl] same_identity_fields [OF 1(3)]
      by (intro exI [of _ p1] exI [of _ r1] exI [of _ "recs p1"]) (simp add: insert_or_compact_def)
  next
    case None
    from compact_ok [OF ok] obtain q k where q: "compact p = Inr (q, k)" "page_ok q" "same_identity p q"
      "recs q = spec_trim rs" "reclaimable_space p = Inr k" using rs by blast
    have w: "\<exists>x. would_fit_after_compaction p (length b) = Inr x"
      using ok q(5) by (simp add: would_fit_after_compaction_def space_needed_for_def page_ok_def)
    have "int (length b) \<le> max_payload_size q" using fits q(3) by (simp add: max_payload_size_def same_identity_def)
    from ins [OF q(2) this] obtain p2 r2 where 2: "insert_rec q b = Inr (p2, r2)" "page_ok p2" "same_identity q p2"
      "case r2 of None \<Rightarrow> p2 = q
       | Some i \<Rightarrow> spec_read (recs q) i = None \<and> (\<forall>j. spec_read (recs p2) j = (if j = i then Some b else spec_read (recs q) j))"
      by blast
    have "same_identity p p2" using q(3) 2(3) by (simp add: same_identity_def)
    from page_holds_same [OF p this 2(2) refl] same_identity_fields [OF this] have
      h: "page_holds p2 (t, nx, recs p2)" "page_id p2 = page_id p" "psize p2 = psize p" by simp_all
    have s: "spec_read (recs q) = spec_read rs" by (simp add: q(4) fun_eq_iff)
    from w obtain x where x: "would_fit_after_compaction p (length b) = Inr x" ..
    show ?thesis
    proof (cases x)
      case True
      then have "insert_or_compact p b = Inr (p2, r2)"
        using None 1 q(1) 2(1) x by (simp add: insert_or_compact_def)
      then show ?thesis using h 2(4) s by (auto split: option.splits)
    next
      case False
      then have "insert_or_compact p b = Inr (p, None)" using None 1 x by (simp add: insert_or_compact_def)
      then show ?thesis using p by auto
    qed
  qed
qed

section \<open>The operations on any page store\<close>

lemmas op_defs = bind_op_def with_io_def lift_res_def

lemma heap_not_free: "HEAP \<noteq> FREE"
  by simp

context page_store
begin

text \<open>A callback that leaves the pages alone, such as none at all.\<close>

definition quiet :: "'s pages_callback \<Rightarrow> bool" where
  "quiet cb \<longleftrightarrow> (\<forall>a b k s. room k s \<longrightarrow>
     (\<exists>s'. notify_pages cb a b s = (s', Inr ()) \<and> room k s' \<and> view s' = view s))"

lemma quiet_None: "quiet None"
  by (auto simp: quiet_def notify_pages_def lift_res_def)

lemma heap_create_ok:
  assumes "room (Suc (Suc k)) s" and cb: "quiet cb"
  shows "\<exists>s' h p. heap_create P cb s = (s', Inr h) \<and> room k s' \<and> heap_ok (view s') h [p] \<and> view s p = None \<and>
    heap_map (view s') [p] = Map.empty \<and> (\<forall>q. q \<noteq> p \<longrightarrow> view s' q = view s q)"
proof -
  from alloc_law [OF assms(1) heap_not_free] obtain s1 pg where 1: "io_allocate P HEAP s = (s1, Inr pg)"
    "view s (page_id pg) = None" "room k s1" "view s1 = (view s)(page_id pg \<mapsto> (HEAP, INVALID_PAGE_ID, []))" by blast
  from cb 1(3) obtain s2 where 2: "notify_pages cb (page_id pg) (page_id pg) s1 = (s2, Inr ())" "room k s2" "view s2 = view s1"
    unfolding quiet_def by blast
  have "heap_map (view s2) [page_id pg] = Map.empty"
    using 1(4) 2(3) by (auto simp: heap_map_def records_at_def spec_read_def)
  then show ?thesis using 1 2
    by (intro exI [of _ s2] exI [of _ "\<lparr>first_page_id = page_id pg, last_page_id = page_id pg\<rparr>"] exI [of _ "page_id pg"])
      (simp add: heap_create_def op_defs heap_ok_def)
qed

lemma extend_ok:
  assumes s: "room (Suc (Suc (Suc k))) s" and tail: "page_holds tail (HEAP, INVALID_PAGE_ID, rs)" "psize tail = N"
    and used: "view s (page_id tail) \<noteq> None" and cb: "quiet cb"
  shows "\<exists>s' pg. extend P cb tail (h, s) = ((h\<lparr>last_page_id := page_id pg\<rparr>, s'), Inr pg) \<and> room k s' \<and>
    view s (page_id pg) = None \<and> psize pg = N \<and> free_space pg = int N - 24 \<and> page_holds pg (HEAP, INVALID_PAGE_ID, []) \<and>
    view s' = (view s)(page_id tail \<mapsto> (HEAP, page_id pg, rs), page_id pg \<mapsto> (HEAP, INVALID_PAGE_ID, []))"
proof -
  from alloc_law [OF s heap_not_free] obtain s1 pg where 1: "io_allocate P HEAP s = (s1, Inr pg)"
    "page_holds pg (HEAP, INVALID_PAGE_ID, [])" "psize pg = N" 
    "view s (page_id pg) = None" "room (Suc k) s1" "view s1 = (view s)(page_id pg \<mapsto> (HEAP, INVALID_PAGE_ID, []))"
    "free_space pg = int N - 24" by blast
  have "page_id pg < 2 ^ 32" using in_use [OF 1(5), of "page_id pg"] 1(6) INVALID_PAGE_ID_less by simp
  from set_next_page_id_ok [OF tail(1) this] obtain tl where 2: "set_next_page_id (page_id pg) tail = Inr tl"
    "page_holds tl (HEAP, page_id pg, rs)" "page_id tl = page_id tail" "psize tl = psize tail" by blast
  have ne: "page_id tail \<noteq> page_id pg" using 1(4) used by auto
  have u: "view s1 (page_id tl) \<noteq> None" using used 1(6) 2(3) by simp
  from write_law [OF 1(5) 2(2) _ u] obtain s3 where 3: "io_write P tl s1 = (s3, Inr ())" "room k s3"
    "view s3 = (view s1)(page_id tail \<mapsto> (HEAP, page_id pg, rs))" using 2(3,4) tail(2) by auto
  from cb 3(2) obtain s4 where 4: "notify_pages cb (first_page_id h) (page_id pg) s3 = (s4, Inr ())" "room k s4" "view s4 = view s3"
    unfolding quiet_def by blast
  show ?thesis using 1 2 3 4 ne
    by (intro exI [of _ s4] exI [of _ pg]) (simp add: extend_def op_defs set_last_page_def Let_def fun_upd_twist)
qed

lemma heap_insert_ok:
  assumes s: "room (Suc (Suc (Suc (Suc k)))) s" and h: "heap_ok (view s) h ps" and b: "length b + 28 \<le> N" and cb: "quiet cb"
  shows "\<exists>s' h' rid ps'. heap_insert P cb b (h, s) = ((h', s'), Inr rid) \<and> room k s' \<and> heap_ok (view s') h' ps' \<and>
    (ps' = ps \<or> (\<exists>q. view s q = None \<and> ps' = ps @ [q])) \<and> heap_map (view s) ps rid = None \<and>
    heap_map (view s') ps' = (heap_map (view s) ps)(rid \<mapsto> b) \<and> (\<forall>q. q \<notin> set ps' \<longrightarrow> view s' q = view s q)"
proof -
  let ?rs = "records_at (view s) (last ps)"
  have ps: "ps \<noteq> []" "distinct ps" "chain (view s) HEAP ps INVALID_PAGE_ID" "last ps = last_page_id h" "hd ps = first_page_id h"
    using h by (simp_all add: heap_ok_def)
  have tail: "view s (last ps) = Some (HEAP, INVALID_PAGE_ID, ?rs)" by (rule chain_last [OF ps(3,1)])
  from read_law [OF s tail] obtain s1 pg where 1: "io_read P (last ps) s = (s1, Inr pg)" "page_holds pg (HEAP, INVALID_PAGE_ID, ?rs)"
    "page_id pg = last ps" "psize pg = N" "room (Suc (Suc (Suc (Suc k)))) s1" "view s1 = view s" by blast
  have fits: "int (length b) \<le> max_payload_size pg" using b 1(4) by (simp add: max_payload_size_def)
  from insert_or_compact_ok [OF 1(2) fits] obtain p2 r rs' where 2: "insert_or_compact pg b = Inr (p2, r)"
    "page_holds p2 (HEAP, INVALID_PAGE_ID, rs')" "page_id p2 = last ps" "psize p2 = N"
    "case r of None \<Rightarrow> spec_read rs' = spec_read ?rs
     | Some i \<Rightarrow> spec_read ?rs i = None \<and> (\<forall>j. spec_read rs' j = (if j = i then Some b else spec_read ?rs j))"
    using 1(3,4) by auto
  have in_ps: "last ps \<in> set ps" using ps(1) by simp
  have head: "heap_insert P cb b (h, s) =
    bind_op (case r of Some i \<Rightarrow> lift_res (Inr (p2, i))
       | None \<Rightarrow> bind_op (extend P cb p2) (\<lambda>page. bind_op (lift_res (insert_rec page b)) (\<lambda>(page, slot).
            lift_res (case slot of None \<Rightarrow> Inl RecordTooLargeError | Some i \<Rightarrow> Inr (page, i)))))
      (\<lambda>(page, i). bind_op (with_io (io_write P page)) (\<lambda>_. lift_res (Inr (RecordId (page_id page) i)))) (h, s1)"
    using 1(1) ps(4) fits 2(1) by (simp add: heap_insert_def with_io_def bind_op_def lift_res_def)
  show ?thesis
  proof (cases r)
    case (Some i)
    have "room (Suc k) s1" using room_le [OF 1(5)] by simp
    from write_law [OF this 2(2)] obtain s2 where w: "io_write P p2 s1 = (s2, Inr ())" "room k s2"
      "view s2 = (view s)(last ps \<mapsto> (HEAP, INVALID_PAGE_ID, rs'))" using 2(3,4) tail 1(6) by auto
    have "heap_insert P cb b (h, s) = ((h, s2), Inr (RecordId (last ps) i))"
      unfolding head using Some w(1) 2(3) by (simp add: op_defs)
    moreover have "heap_ok (view s2) h ps"
      using h chain_update [OF ps(3,2) tail in_ps] by (simp add: heap_ok_def w(3))
    moreover have "heap_map (view s) ps (RecordId (last ps) i) = None"
      using 2(5) Some in_ps by (simp add: heap_map_def)
    moreover have "heap_map (view s2) ps = (heap_map (view s) ps)(RecordId (last ps) i \<mapsto> b)"
      unfolding w(3) using 2(5) Some by (intro heap_map_page in_ps) simp
    ultimately show ?thesis using w(2,3) in_ps by (intro exI conjI) (auto)
  next
    case None
    have "room (Suc (Suc (Suc (Suc k)))) s1" "view s1 (page_id p2) \<noteq> None" using 1(5,6) 2(3) tail by simp_all
    from extend_ok [OF this(1) 2(2,4) this(2) cb, of h] obtain s2 q where e:
      "extend P cb p2 (h, s1) = ((h\<lparr>last_page_id := page_id q\<rparr>, s2), Inr q)" "room (Suc k) s2" "view s (page_id q) = None"
      "psize q = N" "page_holds q (HEAP, INVALID_PAGE_ID, [])" "free_space q = int N - 24"
      "view s2 = (view s)(last ps \<mapsto> (HEAP, page_id q, rs'), page_id q \<mapsto> (HEAP, INVALID_PAGE_ID, []))"
      using 1(6) 2(3) by auto
    let ?q = "page_id q" and ?h = "h\<lparr>last_page_id := page_id q\<rparr>"
    have q: "page_ok q" "recs q = []" "free_space q \<ge> int (length b) + 4"
      using page_holdsD [OF e(5)] e(6) b by simp_all
    from insert_rec_ok [OF q(1), of b] obtain p3 where 3: "insert_rec q b = Inr (p3, Some 0)" "page_ok p3" "same_identity q p3"
      "recs p3 = [Some b]" using q b e(4) by (auto simp: max_payload_size_def spec_insert_def)
    note id = same_identity_fields [OF 3(3)]
    from write_law [OF e(2) page_holds_same [OF e(5) 3(3,2,4)]] obtain s4 where w: "io_write P p3 s2 = (s4, Inr ())" "room k s4"
      "view s4 = (view s)(last ps \<mapsto> (HEAP, ?q, rs'), ?q \<mapsto> (HEAP, INVALID_PAGE_ID, [Some b]))"
      using e(4,7) id by auto
    have new: "?q \<notin> set ps" using chain_in_use [OF ps(3)] e(3) by blast
    have "heap_insert P cb b (h, s) = ((?h, s4), Inr (RecordId ?q 0))"
      unfolding head using None e(1) 3(1) w(1) id(4) by (simp add: op_defs)
    moreover have "heap_ok (view s4) ?h (ps @ [?q])"
      using ps new chain_extend [OF ps(3,2,1) new] by (simp add: heap_ok_def w(3))
    moreover have "heap_map (view s) ps (RecordId ?q 0) = None" using new by (simp add: heap_map_def)
    moreover have "heap_map (view s4) (ps @ [?q]) = (heap_map (view s) ps)(RecordId ?q 0 \<mapsto> b)"
    proof
      fix rid
      have "spec_read [Some b] j = (if j = 0 then Some b else None)" for j by (simp add: spec_read_def)
      then show "heap_map (view s4) (ps @ [?q]) rid = ((heap_map (view s) ps)(RecordId ?q 0 \<mapsto> b)) rid"
        using 2(5) None new in_ps by (cases rid) (auto simp: heap_map_def w(3))
    qed
    ultimately show ?thesis using w(2,3) in_ps e(3) by (intro exI conjI) (auto)
  qed
qed

lemma heap_get_ok:
  assumes "room k s" and "heap_ok (view s) h ps" and "rid_page rid \<in> set ps"
  shows "\<exists>s'. heap_get P rid s = (s', case heap_map (view s) ps rid of None \<Rightarrow> Inl RecordNotFoundError | Some b \<Rightarrow> Inr b) \<and>
    room k s' \<and> view s' = view s"
proof -
  have "chain (view s) HEAP ps INVALID_PAGE_ID" using assms(2) by (simp add: heap_ok_def)
  from chain_records [OF this assms(3)] obtain nx where
    v: "view s (rid_page rid) = Some (HEAP, nx, records_at (view s) (rid_page rid))" ..
  from read_law [OF assms(1) v] obtain s1 pg where 1: "io_read P (rid_page rid) s = (s1, Inr pg)"
    "page_holds pg (HEAP, nx, records_at (view s) (rid_page rid))" "room k s1" "view s1 = view s" by blast
  note pg = page_holdsD [OF 1(2)]
  show ?thesis using 1 pg assms(3) by (simp add: heap_get_def op_defs heap_map_def)
qed

lemma heap_delete_ok:
  assumes "room (Suc k) s" and h: "heap_ok (view s) h ps" and p: "rid_page rid \<in> set ps"
  shows "\<exists>s'. heap_delete P rid s = (s', Inr (heap_map (view s) ps rid \<noteq> None)) \<and> room k s' \<and> heap_ok (view s') h ps \<and>
    heap_map (view s') ps = (heap_map (view s) ps)(rid := None) \<and> (\<forall>q. q \<notin> set ps \<longrightarrow> view s' q = view s q)"
proof -
  let ?p = "rid_page rid" and ?rs = "records_at (view s) (rid_page rid)"
  have c: "chain (view s) HEAP ps INVALID_PAGE_ID" "distinct ps" using h by (simp_all add: heap_ok_def)
  from chain_records [OF c(1) p] obtain nx where v: "view s ?p = Some (HEAP, nx, ?rs)" ..
  from read_law [OF assms(1) v] obtain s1 pg where 1: "io_read P ?p s = (s1, Inr pg)"
    "page_holds pg (HEAP, nx, ?rs)" "page_id pg = ?p" "psize pg = N" "room (Suc k) s1" "view s1 = view s" by blast
  note pg = page_holdsD [OF 1(2)]
  from delete_rec_ok [OF pg(1), of "rid_slot rid"] obtain p2 where 2: "delete_rec pg (rid_slot rid) = Inr (p2, spec_read ?rs (rid_slot rid) \<noteq> None)"
    "page_ok p2" "same_identity pg p2" "recs p2 = ?rs[rid_slot rid := None]" using pg(4) by auto
  have hm: "heap_map (view s) ps rid = spec_read ?rs (rid_slot rid)" using p by (simp add: heap_map_def)
  show ?thesis
  proof (cases "spec_read ?rs (rid_slot rid)")
    case None
    then have "(heap_map (view s) ps)(rid := None) = heap_map (view s) ps" using hm by (simp add: fun_upd_idem)
    then show ?thesis using 1 2(1) h hm None room_mono [OF 1(5)]
      by (intro exI [of _ s1]) (simp add: heap_delete_def op_defs)
  next
    case (Some b)
    have u: "view s1 (page_id p2) \<noteq> None" using 1(3,6) v same_identity_fields(4) [OF 2(3)] by simp
    from write_law [OF 1(5) page_holds_same [OF 1(2) 2(3,2,4)] _ u] obtain s3 where 3: "io_write P p2 s1 = (s3, Inr ())" "room k s3"
      "view s3 = (view s)(?p \<mapsto> (HEAP, nx, ?rs[rid_slot rid := None]))"
      using 1(3,4,6) same_identity_fields [OF 2(3)] by auto
    have "heap_ok (view s3) h ps" using h chain_update [OF c v p] by (simp add: heap_ok_def 3(3))
    moreover have "heap_map (view s3) ps = (heap_map (view s) ps)(RecordId ?p (rid_slot rid) := None)"
      unfolding 3(3) using p by (intro heap_map_page) (auto simp: spec_read_def)
    ultimately show ?thesis using 1(1) 2(1) 3 Some hm p
      by (intro exI [of _ s3]) (auto simp: heap_delete_def op_defs)
  qed
qed

lemma heap_replace_ok:
  assumes "room (Suc k) s" and h: "heap_ok (view s) h ps" and old: "heap_map (view s) ps rid = Some old"
    and len: "length b = length old" "0 < length old"
  shows "\<exists>s'. heap_replace P rid b s = (s', Inr True) \<and> room k s' \<and> heap_ok (view s') h ps \<and>
    heap_map (view s') ps = (heap_map (view s) ps)(rid \<mapsto> b) \<and> (\<forall>q. q \<notin> set ps \<longrightarrow> view s' q = view s q)"
proof -
  let ?p = "rid_page rid" and ?rs = "records_at (view s) (rid_page rid)"
  have p: "?p \<in> set ps" and live: "spec_read ?rs (rid_slot rid) = Some old"
    using old by (auto simp: heap_map_def split: if_splits)
  have c: "chain (view s) HEAP ps INVALID_PAGE_ID" "distinct ps" using h by (simp_all add: heap_ok_def)
  from chain_records [OF c(1) p] obtain nx where v: "view s ?p = Some (HEAP, nx, ?rs)" ..
  from read_law [OF assms(1) v] obtain s1 pg where 1: "io_read P ?p s = (s1, Inr pg)"
    "page_holds pg (HEAP, nx, ?rs)" "page_id pg = ?p" "psize pg = N" "room (Suc k) s1" "view s1 = view s" by blast
  note pg = page_holdsD [OF 1(2)]
  from overwrite_ok [OF pg(1), of "rid_slot rid" old b] live len pg(4) obtain p2 where
    2: "overwrite pg (rid_slot rid) b = Inr (p2, True)" "page_ok p2" "same_identity pg p2" "recs p2 = ?rs[rid_slot rid := Some b]" by auto
  have u: "view s1 (page_id p2) \<noteq> None" using 1(3,6) v same_identity_fields(4) [OF 2(3)] by simp
  from write_law [OF 1(5) page_holds_same [OF 1(2) 2(3,2,4)] _ u] obtain s3 where 3: "io_write P p2 s1 = (s3, Inr ())" "room k s3"
    "view s3 = (view s)(?p \<mapsto> (HEAP, nx, ?rs[rid_slot rid := Some b]))"
    using 1(3,4,6) same_identity_fields [OF 2(3)] by auto
  have "heap_ok (view s3) h ps" using h chain_update [OF c v p] by (simp add: heap_ok_def 3(3))
  moreover have "heap_map (view s3) ps = (heap_map (view s) ps)(RecordId ?p (rid_slot rid) \<mapsto> b)"
    unfolding 3(3) using p live by (intro heap_map_page) (auto simp: spec_read_def split: if_splits)
  ultimately show ?thesis using 1(1) 2(1) 3 p
    by (intro exI [of _ s3]) (auto simp: heap_replace_def op_defs)
qed

lemma scan_from_ok:
  assumes "room k s" and "chain (view s) HEAP ps INVALID_PAGE_ID"
  shows "\<exists>s'. scan_from P (case ps of [] \<Rightarrow> INVALID_PAGE_ID | p # _ \<Rightarrow> p) s = Some (s', Inr (heap_rows (view s) ps)) \<and>
    room k s' \<and> view s' = view s"
  using assms
proof (induction ps arbitrary: s)
  case Nil
  then show ?case by (simp add: scan_from.simps heap_rows_def)
next
  case (Cons p ps)
  let ?nx = "case ps of [] \<Rightarrow> INVALID_PAGE_ID | q # _ \<Rightarrow> q"
  have v: "view s p = Some (HEAP, ?nx, records_at (view s) p)" using Cons.prems(2) by (auto simp: records_at_def)
  have ne: "p \<noteq> INVALID_PAGE_ID" using in_use [OF Cons.prems(1), of p] v by auto
  from read_law [OF Cons.prems(1) v] obtain s1 pg where 1: "io_read P p s = (s1, Inr pg)"
    "page_holds pg (HEAP, ?nx, records_at (view s) p)" "room k s1" "view s1 = view s" by blast
  note pg = page_holdsD [OF 1(2)]
  from Cons.IH [OF 1(3)] Cons.prems(2) 1(4) obtain s2 where
    "scan_from P ?nx s1 = Some (s2, Inr (heap_rows (view s) ps))" "room k s2" "view s2 = view s" by auto
  then show ?case using ne 1(1) pg
    by (subst scan_from.simps) (simp add: op_defs heap_rows_def page_rows_def)
qed

lemma heap_scan_ok:
  assumes "room k s" and "heap_ok (view s) h ps"
  shows "\<exists>s'. heap_scan P (h, s) = Some (s', Inr (heap_rows (view s) ps)) \<and> room k s' \<and> view s' = view s"
proof -
  have "(case ps of [] \<Rightarrow> INVALID_PAGE_ID | p # _ \<Rightarrow> p) = first_page_id h"
    using assms(2) by (auto simp: heap_ok_def split: list.splits)
  then show ?thesis using scan_from_ok [OF assms(1), of ps] assms(2) by (simp add: heap_scan_def heap_ok_def)
qed

lemma count_from_ok:
  assumes "room k s" and "chain (view s) HEAP ps INVALID_PAGE_ID" and "distinct ps" and "seen \<inter> set ps = {}"
  shows "\<exists>s'. count_from P seen (case ps of [] \<Rightarrow> INVALID_PAGE_ID | p # _ \<Rightarrow> p) s =
      Some (s', Inr (length (heap_rows (view s) ps))) \<and> room k s' \<and> view s' = view s"
  using assms
proof (induction ps arbitrary: s seen)
  case Nil
  then show ?case by (simp add: count_from.simps heap_rows_def)
next
  case (Cons p ps)
  let ?nx = "case ps of [] \<Rightarrow> INVALID_PAGE_ID | q # _ \<Rightarrow> q"
  have v: "view s p = Some (HEAP, ?nx, records_at (view s) p)" using Cons.prems(2) by (auto simp: records_at_def)
  have ne: "p \<noteq> INVALID_PAGE_ID" "p \<notin> seen" using in_use [OF Cons.prems(1), of p] v Cons.prems(4) by auto
  from read_law [OF Cons.prems(1) v] obtain s1 pg where 1: "io_read P p s = (s1, Inr pg)"
    "page_holds pg (HEAP, ?nx, records_at (view s) p)" "room k s1" "view s1 = view s" by blast
  from read_law [OF 1(3), of p] v 1(4) obtain s2 pg' where 2: "io_read P p s1 = (s2, Inr pg')"
    "page_holds pg' (HEAP, ?nx, records_at (view s) p)" "room k s2" "view s2 = view s" by auto
  note pg = page_holdsD [OF 1(2)] page_holdsD [OF 2(2)]
  have len: "length (filter (\<lambda>r. \<exists>y. r = Some y) rs) = length (spec_iter rs)" for rs :: "bytes option list"
    by (induction rs rule: rev_induct) (auto simp: spec_iter_append)
  from Cons.IH [OF 2(3), of "insert p seen"] Cons.prems 2(4) obtain s3 where
    "count_from P (insert p seen) ?nx s2 = Some (s3, Inr (length (heap_rows (view s) ps)))" "room k s3" "view s3 = view s" by auto
  then show ?case using ne 1(1) 2(1) pg
    by (subst count_from.simps) (simp add: op_defs heap_rows_def page_rows_def live_record_count_ok len)
qed

end

end
