(* ===== verification/Node.thy ===== *)
theory Node
  imports Heap Key "HOL-Library.Product_Lexorder"
begin

text \<open>
  B+ tree nodes (\<open>engine/index/node.py\<close>): index entries in the slots of an ordinary page, in key order.
  Entries compare as pairs of byte strings, key first, record id second, which is the order
  \<open>HOL-Library.Product_Lexorder\<close> puts on pairs. A node is the page itself: an operation takes the page
  and returns it changed.
\<close>

section \<open>Entries\<close>

definition RID_SIZE :: nat where [simp]: "RID_SIZE = 6"
definition CHILD_SIZE :: nat where [simp]: "CHILD_SIZE = 4"
definition MINIMUM_ENTRIES_PER_NODE :: nat where "MINIMUM_ENTRIES_PER_NODE = 2"

definition encode_rid :: "record_id \<Rightarrow> bytes res" where
  "encode_rid r =
     guard_res (rid_page r < 256 ^ 4 \<and> rid_slot r < 256 ^ 2) StructError
       (Inr (be_bytes 4 (rid_page r) @ be_bytes 2 (rid_slot r)))"

definition decode_rid :: "bytes \<Rightarrow> record_id res" where
  "decode_rid raw =
     guard_res (length raw = RID_SIZE) StructError
       (Inr (RecordId (be_nat (take 4 raw)) (be_nat (drop 4 raw))))"

definition SENTINEL_RID :: record_id where "SENTINEL_RID = RecordId 0 0"

record entry =
  e_key :: bytes
  e_rid :: record_id
  e_child :: nat

definition sort_key :: "entry \<Rightarrow> (bytes \<times> bytes) res" where
  "sort_key e = bind_res (encode_rid (e_rid e)) (\<lambda>r. Inr (e_key e, r))"

definition leaf_entry :: "bytes \<Rightarrow> record_id \<Rightarrow> entry" where
  "leaf_entry k r = \<lparr>e_key = k, e_rid = r, e_child = INVALID_PAGE_ID\<rparr>"

definition minus_infinity_entry :: "nat \<Rightarrow> entry" where
  "minus_infinity_entry child = \<lparr>e_key = MINUS_INFINITY, e_rid = SENTINEL_RID, e_child = child\<rparr>"

section \<open>Where to cut\<close>

text \<open>The three loops of \<open>plan_split\<close>: the longest prefix that fits, the longest suffix that fits, the half of the bytes.\<close>

fun max_left_from :: "nat \<Rightarrow> nat \<Rightarrow> nat \<Rightarrow> nat list \<Rightarrow> nat" where
  "max_left_from cap running index [] = index"
| "max_left_from cap running index (w # ws) =
     (if running + w > cap then index else max_left_from cap (running + w) (index + 1) ws)"

text \<open>Here the widths come in reverse, and the index of the one at hand is the number of those still to come.\<close>

fun min_left_from :: "nat \<Rightarrow> nat \<Rightarrow> nat \<Rightarrow> nat list \<Rightarrow> nat" where
  "min_left_from cap running best [] = best"
| "min_left_from cap running best (w # ws) =
     (if running + w > cap then best else min_left_from cap (running + w) (length ws) ws)"

fun balanced_from :: "nat \<Rightarrow> nat \<Rightarrow> nat \<Rightarrow> nat \<Rightarrow> nat list \<Rightarrow> nat" where
  "balanced_from whole dflt running index [] = dflt"
| "balanced_from whole dflt running index (w # ws) =
     (if (running + w) * 2 \<ge> whole then index + 1 else balanced_from whole dflt (running + w) (index + 1) ws)"

definition plan_split :: "nat list \<Rightarrow> nat \<Rightarrow> nat res" where
  "plan_split widths cap =
     (let count = length widths
      in if count < MINIMUM_ENTRIES_PER_NODE then Inl IndexingError
         else
           let max_left = max_left_from cap 0 0 widths;
               min_left = min_left_from cap 0 count (rev widths);
               low = max min_left 1;
               high = min max_left (count - 1)
           in if low > high then Inl IndexingError
              else Inr (min (max (balanced_from (sum_list widths) (count div 2) 0 0 widths) low) high))"

section \<open>Nodes\<close>

definition node_new :: "page \<Rightarrow> page res" where
  "node_new p =
     bind_res (get_page_type p) (\<lambda>t. guard_res (t = BTREE_LEAF \<or> t = BTREE_INTERNAL) CorruptPageError (Inr p))"

definition is_leaf :: "page \<Rightarrow> bool" where
  "is_leaf p \<longleftrightarrow> get_page_type p = Inr BTREE_LEAF"

definition next_leaf_id :: "page \<Rightarrow> nat" where
  "next_leaf_id p = (if \<not> is_leaf p then INVALID_PAGE_ID else next_page_id p)"

definition set_next_leaf_id :: "nat \<Rightarrow> page \<Rightarrow> page res" where
  "set_next_leaf_id v p = (if \<not> is_leaf p then Inl IndexingError else set_next_page_id v p)"

definition node_decode :: "bool \<Rightarrow> bytes \<Rightarrow> entry res" where
  "node_decode leaf payload =
     (let suffix = (if leaf then RID_SIZE else RID_SIZE + CHILD_SIZE); n = length payload
      in if n < suffix + 1 then Inl CorruptPageError
         else if leaf
         then bind_res (decode_rid (drop (n - RID_SIZE) payload)) (\<lambda>r. Inr (leaf_entry (take (n - RID_SIZE) payload) r))
         else bind_res (decode_rid (slice payload (n - suffix) RID_SIZE)) (\<lambda>r.
                Inr \<lparr>e_key = take (n - suffix) payload, e_rid = r, e_child = be_nat (drop (n - CHILD_SIZE) payload)\<rparr>))"

definition node_encode :: "bool \<Rightarrow> entry \<Rightarrow> bytes res" where
  "node_encode leaf e =
     (if leaf then bind_res (encode_rid (e_rid e)) (\<lambda>r. Inr (e_key e @ r))
      else if e_child e = INVALID_PAGE_ID then Inl IndexingError
      else bind_res (encode_rid (e_rid e)) (\<lambda>r.
             guard_res (e_child e < 256 ^ 4) StructError (Inr (e_key e @ r @ be_bytes 4 (e_child e)))))"

definition entry_at :: "page \<Rightarrow> nat \<Rightarrow> entry res" where
  "entry_at p i =
     bind_res (read_rec p i) (\<lambda>payload.
       case payload of None \<Rightarrow> Inl CorruptPageError | Some b \<Rightarrow> node_decode (is_leaf p) b)"

fun decode_all :: "bool \<Rightarrow> (nat \<times> bytes) list \<Rightarrow> entry list res" where
  "decode_all leaf [] = Inr []"
| "decode_all leaf ((_, b) # rs) =
     bind_res (node_decode leaf b) (\<lambda>e. bind_res (decode_all leaf rs) (\<lambda>es. Inr (e # es)))"

definition entries :: "page \<Rightarrow> entry list res" where
  "entries p = bind_res (iter_records p) (decode_all (is_leaf p))"

section \<open>Searching\<close>

function lower_bound_loop :: "page \<Rightarrow> bytes \<times> bytes \<Rightarrow> nat \<Rightarrow> nat \<Rightarrow> nat res" where
  "lower_bound_loop p target low high =
     (if low < high
      then let middle = (low + high) div 2
           in bind_res (entry_at p middle) (\<lambda>e. bind_res (sort_key e) (\<lambda>k.
                if k < target then lower_bound_loop p target (middle + 1) high
                else lower_bound_loop p target low middle))
      else Inr low)"
  by auto
termination by (relation "measure (\<lambda>(p, t, low, high). high - low)") auto

definition search_target :: "bytes \<Rightarrow> record_id option \<Rightarrow> (bytes \<times> bytes) res" where
  "search_target key rid =
     (case rid of None \<Rightarrow> Inr (key, []) | Some r \<Rightarrow> bind_res (encode_rid r) (\<lambda>b. Inr (key, b)))"

definition lower_bound :: "page \<Rightarrow> bytes \<Rightarrow> record_id option \<Rightarrow> nat res" where
  "lower_bound p key rid = bind_res (search_target key rid) (\<lambda>t. lower_bound_loop p t 0 (slot_count p))"

function upper_bound_loop :: "page \<Rightarrow> bytes \<Rightarrow> nat \<Rightarrow> nat \<Rightarrow> nat res" where
  "upper_bound_loop p key low high =
     (if low < high
      then let middle = (low + high) div 2
           in bind_res (entry_at p middle) (\<lambda>e.
                if e_key e \<le> key then upper_bound_loop p key (middle + 1) high
                else upper_bound_loop p key low middle)
      else Inr low)"
  by auto
termination by (relation "measure (\<lambda>(p, t, low, high). high - low)") auto

definition upper_bound :: "page \<Rightarrow> bytes \<Rightarrow> nat res" where
  "upper_bound p key = upper_bound_loop p key 0 (slot_count p)"

definition child_index_for :: "page \<Rightarrow> bytes \<Rightarrow> record_id option \<Rightarrow> nat res" where
  "child_index_for p key rid =
     (if slot_count p = 0 then Inl CorruptPageError
      else bind_res (lower_bound p key rid) (\<lambda>bound.
        bind_res
          (if bound < slot_count p
           then bind_res (entry_at p bound) (\<lambda>e. bind_res (sort_key e) (\<lambda>k.
                bind_res (search_target key rid) (\<lambda>t. Inr (k = t))))
           else Inr False)
          (\<lambda>found. Inr (if found then bound else bound - 1))))"

definition child_for :: "page \<Rightarrow> bytes \<Rightarrow> record_id option \<Rightarrow> nat res" where
  "child_for p key rid =
     bind_res (child_index_for p key rid) (\<lambda>i. bind_res (entry_at p i) (\<lambda>e. Inr (e_child e)))"

section \<open>Writing\<close>

definition insert_entry_at :: "page \<Rightarrow> nat \<Rightarrow> entry \<Rightarrow> (page \<times> bool) res" where
  "insert_entry_at p i e =
     bind_res (node_encode (is_leaf p) e) (\<lambda>payload.
     bind_res (insert_at p i payload) (\<lambda>(p, ok).
       if ok then Inr (p, True)
       else bind_res (reclaimable_space p) (\<lambda>r.
         if r > 0 then bind_res (compact p) (\<lambda>(p, _). insert_at p i payload) else Inr (p, False))))"

definition insert_entry :: "page \<Rightarrow> entry \<Rightarrow> (page \<times> bool) res" where
  "insert_entry p e = bind_res (lower_bound p (e_key e) (Some (e_rid e))) (\<lambda>i. insert_entry_at p i e)"

definition delete_entry_at :: "page \<Rightarrow> nat \<Rightarrow> (page \<times> bool) res" where
  "delete_entry_at p i = delete_at p i"

definition remove_entry :: "page \<Rightarrow> bytes \<Rightarrow> record_id \<Rightarrow> (page \<times> bool) res" where
  "remove_entry p key rid =
     bind_res (lower_bound p key (Some rid)) (\<lambda>i.
       if i \<ge> slot_count p then Inr (p, False)
       else bind_res (entry_at p i) (\<lambda>e.
         if e_key e \<noteq> key \<or> e_rid e \<noteq> rid then Inr (p, False) else delete_entry_at p i))"

fun insert_all :: "page \<Rightarrow> nat \<Rightarrow> entry list \<Rightarrow> page res" where
  "insert_all p position [] = Inr p"
| "insert_all p position (e # es) =
     bind_res (node_encode (is_leaf p) e) (\<lambda>payload.
     bind_res (insert_at p position payload) (\<lambda>(p, ok).
       if ok then insert_all p (position + 1) es else Inl IndexingError))"

definition replace_all :: "page \<Rightarrow> entry list \<Rightarrow> page res" where
  "replace_all p es = bind_res (clear_records p) (\<lambda>p. insert_all p 0 es)"

definition usable_bytes :: "page \<Rightarrow> nat" where
  "usable_bytes p = psize p - PAGE_HEADER_SIZE"

fun entry_widths :: "page \<Rightarrow> entry list \<Rightarrow> nat list res" where
  "entry_widths p [] = Inr []"
| "entry_widths p (e # es) =
     bind_res (node_encode (is_leaf p) e) (\<lambda>b. bind_res (entry_widths p es) (\<lambda>ws. Inr ((length b + SLOT_SIZE) # ws)))"

definition split_index :: "page \<Rightarrow> entry list \<Rightarrow> nat res" where
  "split_index p es = bind_res (entry_widths p es) (\<lambda>ws. plan_split ws (usable_bytes p))"

section \<open>The cut\<close>

lemma max_left_from_iff:
  "running \<le> cap \<Longrightarrow> c \<le> length ws \<Longrightarrow>
     index + c \<le> max_left_from cap running index ws \<longleftrightarrow> running + sum_list (take c ws) \<le> cap"
proof (induction ws arbitrary: running index c)
  case (Cons w ws)
  show ?case
  proof (cases c)
    case 0
    have ge: "index \<le> max_left_from cap r index us" for r us index by (induction us arbitrary: r index) (auto, metis Suc_leD)
    show ?thesis using 0 Cons.prems ge [of index running "w # ws"] by simp
  next
    case (Suc d)
    then show ?thesis using Cons.IH [of "running + w" d "index + 1"] Cons.prems by (auto simp: add.assoc)
  qed
qed simp

lemma min_left_from_le: "min_left_from cap running best ws \<le> max best (length ws)"
  by (induction ws arbitrary: running best) (auto simp: le_max_iff_disj, metis le_SucI max.idem)

lemma min_left_from_iff:
  "running \<le> cap \<Longrightarrow> c \<le> length ws \<Longrightarrow>
     min_left_from cap running (length ws) ws \<le> c \<longleftrightarrow> running + sum_list (take (length ws - c) ws) \<le> cap"
proof (induction ws arbitrary: running)
  case (Cons w ws)
  show ?case
  proof (cases "c = Suc (length ws)")
    case True
    then show ?thesis using min_left_from_le [of cap "running + w" "length ws" ws] Cons.prems by auto
  next
    case False
    then show ?thesis using Cons.IH [of "running + w"] Cons.prems by (auto simp: Suc_diff_le add.assoc)
  qed
qed simp

definition fitting_cut :: "nat list \<Rightarrow> nat \<Rightarrow> nat \<Rightarrow> bool" where
  "fitting_cut ws cap c \<longleftrightarrow> 1 \<le> c \<and> c < length ws \<and> sum_list (take c ws) \<le> cap \<and> sum_list (drop c ws) \<le> cap"

lemma plan_split_spec:
  assumes "2 \<le> length ws"
  shows "if \<exists>c. fitting_cut ws cap c then \<exists>c. plan_split ws cap = Inr c \<and> fitting_cut ws cap c
    else plan_split ws cap = Inl IndexingError"
proof -
  let ?ok = "fitting_cut ws cap"
  let ?n = "length ws"
  define hi where "hi = min (max_left_from cap 0 0 ws) (?n - 1)"
  define lo where "lo = max (min_left_from cap 0 ?n (rev ws)) 1"
  have hi: "c \<le> hi \<longleftrightarrow> c \<le> ?n - 1 \<and> sum_list (take c ws) \<le> cap" for c
    using max_left_from_iff [of 0 cap c ws 0] by (auto simp: hi_def)
  have lo: "lo \<le> c \<longleftrightarrow> 1 \<le> c \<and> sum_list (drop c ws) \<le> cap" if "c \<le> ?n" for c
    using min_left_from_iff [of 0 cap c "rev ws"] that by (auto simp: lo_def take_rev)
  have ok: "?ok c \<longleftrightarrow> lo \<le> c \<and> c \<le> hi" if "c \<le> ?n" for c
    using hi [of c] lo [OF that] assms(1) that by (auto simp: fitting_cut_def)
  have le: "?ok c \<Longrightarrow> c \<le> ?n" for c by (simp add: fitting_cut_def)
  have hn: "hi \<le> ?n" by (simp add: hi_def)
  define b where "b = balanced_from (sum_list ws) (?n div 2) 0 0 ws"
  have run: "plan_split ws cap = (if lo > hi then Inl IndexingError else Inr (min (max b lo) hi))"
    using assms(1) by (simp add: plan_split_def Let_def MINIMUM_ENTRIES_PER_NODE_def lo_def hi_def b_def)
  show ?thesis
  proof (cases "lo \<le> hi")
    case True
    then have "lo \<le> min (max b lo) hi" "min (max b lo) hi \<le> hi" by auto
    then have "?ok (min (max b lo) hi)" using ok [of "min (max b lo) hi"] hn by auto
    then show ?thesis using run True by auto
  next
    case False
    then have "\<not> ?ok c" for c using ok [of c] le by fastforce
    then show ?thesis using run False by auto
  qed
qed

text \<open>
  Where an overfull node is cut. \<open>plan_split\<close> finds a cut that leaves both halves non-empty and
  within the capacity whenever there is one, and raises \<open>IndexingError\<close> otherwise. A node that has
  outgrown its page by an entry of at most half the capacity always has a cut; without that bound, and
  against the docstring, there may be none although every entry fits a page.
\<close>

theorem plan_split_exact:
  "(if \<exists>c. fitting_cut ws cap c then \<exists>c. plan_split ws cap = Inr c \<and> fitting_cut ws cap c
    else plan_split ws cap = Inl IndexingError) \<and>
   plan_split [50, 60, 50] 100 = Inl IndexingError \<and> plan_split [50, 50, 50] 100 = Inr 2"
proof -
  have "plan_split ws cap = Inl IndexingError \<and> (\<nexists>c. fitting_cut ws cap c)" if "\<not> 2 \<le> length ws"
    using that by (auto simp: plan_split_def MINIMUM_ENTRIES_PER_NODE_def fitting_cut_def)
  then have "if \<exists>c. fitting_cut ws cap c then \<exists>c. plan_split ws cap = Inr c \<and> fitting_cut ws cap c
    else plan_split ws cap = Inl IndexingError"
    using plan_split_spec [of ws cap] by (cases "2 \<le> length ws") auto
  moreover have "plan_split [50, 60, 50] 100 = Inl IndexingError" "plan_split [50, 50, 50] 100 = Inr 2"
    by (simp_all add: plan_split_def MINIMUM_ENTRIES_PER_NODE_def)
  ultimately show ?thesis by blast
qed

text \<open>
  One entry too many, at most half a page wide, can always be accommodated.
\<close>

lemma overflow_cut:
  assumes "sum_list a + sum_list b \<le> cap" and "2 * w \<le> cap" and "a @ b \<noteq> []"
  shows "\<exists>c. fitting_cut (a @ w # b) cap c"
proof (cases "a = []")
  case True
  then show ?thesis using assms by (intro exI [of _ 1]) (auto simp: fitting_cut_def)
next
  case a: False
  show ?thesis
  proof (cases "b = []")
    case True
    then show ?thesis using assms a by (intro exI [of _ "length a"]) (auto simp: fitting_cut_def Suc_le_eq)
  next
    case b: False
    consider "sum_list a + w \<le> cap" | "w + sum_list b \<le> cap" using assms(1,2) by linarith
    then show ?thesis
    proof cases
      case 1
      then show ?thesis using assms(1) b by (intro exI [of _ "Suc (length a)"]) (auto simp: fitting_cut_def Suc_le_eq)
    next
      case 2
      then show ?thesis using assms(1) a by (intro exI [of _ "length a"]) (auto simp: fitting_cut_def Suc_le_eq)
    qed
  qed
qed

section \<open>The entries a node holds\<close>

definition rid_bytes :: "record_id \<Rightarrow> bytes" where
  "rid_bytes r = be_bytes 4 (rid_page r) @ be_bytes 2 (rid_slot r)"

definition rid_ok :: "record_id \<Rightarrow> bool" where
  "rid_ok r \<longleftrightarrow> rid_page r < 256 ^ 4 \<and> rid_slot r < 256 ^ 2"

definition skey :: "entry \<Rightarrow> bytes \<times> bytes" where
  "skey e = (e_key e, rid_bytes (e_rid e))"

definition entry_ok :: "bool \<Rightarrow> entry \<Rightarrow> bool" where
  "entry_ok leaf e \<longleftrightarrow> e_key e \<noteq> [] \<and> rid_ok (e_rid e) \<and>
     (if leaf then e_child e = INVALID_PAGE_ID else e_child e < INVALID_PAGE_ID)"

definition ebytes :: "bool \<Rightarrow> entry \<Rightarrow> bytes" where
  "ebytes leaf e = e_key e @ rid_bytes (e_rid e) @ (if leaf then [] else be_bytes 4 (e_child e))"

definition width :: "bool \<Rightarrow> entry \<Rightarrow> nat" where
  "width leaf e = length (e_key e) + (if leaf then 10 else 14)"

definition node_contents :: "bool \<Rightarrow> nat \<Rightarrow> entry list \<Rightarrow> contents" where
  "node_contents leaf nx es = (if leaf then BTREE_LEAF else BTREE_INTERNAL, nx, map (\<lambda>e. Some (ebytes leaf e)) es)"

definition node_holds :: "page \<Rightarrow> bool \<Rightarrow> nat \<Rightarrow> entry list \<Rightarrow> bool" where
  "node_holds p leaf nx es \<longleftrightarrow> page_holds p (node_contents leaf nx es) \<and> (\<forall>e\<in>set es. entry_ok leaf e)"

lemma length_rid_bytes [simp]: "length (rid_bytes r) = 6"
  by (simp add: rid_bytes_def)

lemma length_ebytes [simp]: "length (ebytes leaf e) + 4 = width leaf e" "length (ebytes leaf e) = width leaf e - 4"
  by (simp_all add: ebytes_def width_def)

lemma rid_bytes_inject: "rid_ok r \<Longrightarrow> rid_ok r' \<Longrightarrow> rid_bytes r = rid_bytes r' \<longleftrightarrow> r = r'"
  by (cases r; cases r') (auto simp: rid_bytes_def rid_ok_def be_bytes_inject)

lemma encode_rid_ok [simp]: "rid_ok r \<Longrightarrow> encode_rid r = Inr (rid_bytes r)"
  by (simp add: encode_rid_def rid_bytes_def rid_ok_def)

lemma decode_rid_bytes [simp]: "rid_ok r \<Longrightarrow> decode_rid (rid_bytes r) = Inr r"
  by (cases r) (simp add: decode_rid_def rid_bytes_def rid_ok_def)

lemma sort_key_ok [simp]: "entry_ok leaf e \<Longrightarrow> sort_key e = Inr (skey e)"
  by (simp add: sort_key_def skey_def entry_ok_def)

lemma node_encode_ok [simp]: "entry_ok leaf e \<Longrightarrow> node_encode leaf e = Inr (ebytes leaf e)"
  by (cases leaf) (auto simp: node_encode_def entry_ok_def ebytes_def INVALID_PAGE_ID_def)

lemma node_decode_ok [simp]:
  assumes "entry_ok leaf e"
  shows "node_decode leaf (ebytes leaf e) = Inr e"
proof (cases leaf)
  case True
  then show ?thesis using assms by (cases e) (simp add: node_decode_def Let_def ebytes_def entry_ok_def leaf_entry_def Suc_le_eq)
next
  case False
  have s: "slice (e_key e @ rid_bytes (e_rid e) @ be_bytes 4 (e_child e)) (length (e_key e)) 6 = rid_bytes (e_rid e)"
    by (simp add: slice_def)
  show ?thesis using assms False s
    by (cases e) (auto simp: node_decode_def Let_def ebytes_def entry_ok_def Suc_le_eq INVALID_PAGE_ID_def)
qed

lemma node_holdsD:
  assumes "node_holds p leaf nx es"
  shows "page_ok p" "header_ok p" "is_leaf p = leaf" "next_page_id p = nx" "slot_count p = length es"
    "recs p = map (\<lambda>e. Some (ebytes leaf e)) es" "next_leaf_id p = (if leaf then nx else INVALID_PAGE_ID)"
    "node_new p = Inr p" "\<And>e. e \<in> set es \<Longrightarrow> entry_ok leaf e"
  using assms page_holdsD [of p "if leaf then BTREE_LEAF else BTREE_INTERNAL" nx "map (\<lambda>e. Some (ebytes leaf e)) es"]
  by (auto simp: node_holds_def node_contents_def is_leaf_def next_leaf_id_def node_new_def)

lemma entry_at_ok [simp]:
  assumes "node_holds p leaf nx es" and "i < length es"
  shows "entry_at p i = Inr (es ! i)"
proof -
  have "entry_ok leaf (es ! i)" using assms by (auto simp: node_holds_def)
  then show ?thesis using node_holdsD [OF assms(1)] assms(2) by (simp add: entry_at_def spec_read_def)
qed

lemma entries_ok:
  assumes "node_holds p leaf nx es"
  shows "entries p = Inr es"
proof -
  have "decode_all leaf (zip ns (map (ebytes leaf) es)) = Inr es" if "\<forall>e\<in>set es. entry_ok leaf e" "length ns = length es" for ns es
    using that by (induction es arbitrary: ns) (auto simp: length_Suc_conv)
  moreover have "spec_iter (map (\<lambda>e. Some (ebytes leaf e)) es) = zip [0..<length es] (map (ebytes leaf) es)"
    by (induction es rule: rev_induct) (simp_all add: spec_iter_append spec_iter_def enumerate_eq_zip)
  ultimately show ?thesis using node_holdsD [OF assms] by (simp add: entries_def)
qed

section \<open>Binary search\<close>

text \<open>The number of entries below a target, which is what \<open>lower_bound\<close> computes.\<close>

definition rank :: "entry list \<Rightarrow> bytes \<times> bytes \<Rightarrow> nat" where
  "rank es t = length (takeWhile (\<lambda>e. skey e < t) es)"

abbreviation sorted_entries :: "entry list \<Rightarrow> bool" where
  "sorted_entries es \<equiv> sorted_wrt (\<lambda>a b. skey a < skey b) es"

lemma rank_le: "rank es t \<le> length es"
  by (simp add: rank_def length_takeWhile_le)

lemma rank_less:
  assumes "sorted_entries es" and "i < length es"
  shows "skey (es ! i) < t \<longleftrightarrow> i < rank es t"
proof
  assume "i < rank es t"
  then show "skey (es ! i) < t" unfolding rank_def by (metis nth_mem set_takeWhileD takeWhile_nth)
next
  assume l: "skey (es ! i) < t"
  show "i < rank es t"
  proof (rule ccontr)
    let ?r = "rank es t"
    assume "\<not> i < ?r"
    then have r: "?r \<le> i" by simp
    then have "\<not> skey (es ! ?r) < t" using assms(2) unfolding rank_def by (intro nth_length_takeWhile) simp
    moreover have "skey (es ! ?r) \<le> skey (es ! i)"
      using r sorted_wrt_nth_less [OF assms(1), of ?r i] assms(2) by (cases "?r = i") auto
    ultimately show False using l by simp
  qed
qed

declare lower_bound_loop.simps [simp del] upper_bound_loop.simps [simp del]

lemma lower_bound_loop_ok:
  assumes h: "node_holds p leaf nx es" and s: "sorted_entries es" and "low \<le> rank es t" and "rank es t \<le> high" and "high \<le> length es"
  shows "lower_bound_loop p t low high = Inr (rank es t)"
  using assms(3-5)
proof (induction "high - low" arbitrary: low high rule: less_induct)
  case less
  show ?case
  proof (cases "low < high")
    case False
    then show ?thesis using less.prems by (simp add: lower_bound_loop.simps)
  next
    case True
    let ?m = "(low + high) div 2"
    have m: "low \<le> ?m" "?m < high" "?m < length es" using True less.prems by auto
    then have "entry_ok leaf (es ! ?m)" using node_holdsD(9) [OF h] by auto
    then have k: "sort_key (es ! ?m) = Inr (skey (es ! ?m))" by simp
    have step: "lower_bound_loop p t low high =
      (if skey (es ! ?m) < t then lower_bound_loop p t (?m + 1) high else lower_bound_loop p t low ?m)"
      using True m(3) k entry_at_ok [OF h m(3)] by (subst lower_bound_loop.simps) (simp add: Let_def)
    show ?thesis
    proof (cases "skey (es ! ?m) < t")
      case True
      then show ?thesis using step m less.prems rank_less [OF s m(3), of t] less.hyps [of high "?m + 1"] by simp
    next
      case False
      then show ?thesis using step m less.prems rank_less [OF s m(3), of t] less.hyps [of ?m low] by simp
    qed
  qed
qed

lemma lower_bound_ok:
  assumes "node_holds p leaf nx es" and "sorted_entries es" and "search_target key rid = Inr t"
  shows "lower_bound p key rid = Inr (rank es t)"
  using lower_bound_loop_ok [OF assms(1,2), of 0 t "length es"] rank_le [of es t] assms(3) node_holdsD(5) [OF assms(1)]
  by (simp add: lower_bound_def)

text \<open>The index of the last separator not above the target.\<close>

definition child_rank :: "entry list \<Rightarrow> bytes \<times> bytes \<Rightarrow> nat" where
  "child_rank es t = length (takeWhile (\<lambda>e. skey e \<le> t) es) - 1"

lemma takeWhile_le_rank:
  assumes s: "sorted_entries es"
  shows "length (takeWhile (\<lambda>e. skey e \<le> t) es) =
    (if rank es t < length es \<and> skey (es ! rank es t) = t then Suc (rank es t) else rank es t)"
  using s unfolding rank_def
proof (induction es)
  case (Cons e es)
  have gt: "\<not> skey e' \<le> t" "\<not> skey e' < t" if "skey e = t" "e' \<in> set es" for e' using that Cons.prems by auto
  show ?case
  proof (cases "skey e < t")
    case True
    then show ?thesis using Cons by auto
  next
    case False
    have "takeWhile (\<lambda>e. skey e \<le> t) es = []" if "skey e = t" using gt(1) [OF that] by (cases es) auto
    then show ?thesis using False by auto
  qed
qed simp

lemma child_index_for_ok:
  assumes h: "node_holds p leaf nx es" and s: "sorted_entries es" and t: "search_target key rid = Inr t" and ne: "es \<noteq> []"
  shows "child_index_for p key rid = Inr (child_rank es t)"
proof -
  have n: "slot_count p = length es" using node_holdsD [OF h] by simp
  note lb = lower_bound_ok [OF h s t]
  show ?thesis
  proof (cases "rank es t < length es")
    case True
    then have "entry_ok leaf (es ! rank es t)" using node_holdsD(9) [OF h] by auto
    then show ?thesis using lb n ne t True entry_at_ok [OF h True] takeWhile_le_rank [OF s, of t]
      by (simp add: child_index_for_def child_rank_def)
  next
    case False
    then show ?thesis using lb n ne takeWhile_le_rank [OF s, of t] by (simp add: child_index_for_def child_rank_def)
  qed
qed

section \<open>Changing a node\<close>

definition used :: "bool \<Rightarrow> entry list \<Rightarrow> nat" where
  "used leaf es = sum_list (map (width leaf) es)"

lemma used_simps [simp]: "used leaf [] = 0" "used leaf (e # es) = width leaf e + used leaf es"
  "used leaf (es @ es') = used leaf es + used leaf es'"
  by (simp_all add: used_def)

lemma width_ge: "10 \<le> width leaf e"
  by (simp add: width_def)

lemma used_rec_bytes: "rec_bytes (map (\<lambda>e. Some (ebytes leaf e)) es) + 4 * length es = used leaf es"
proof (induction es)
  case (Cons e es)
  then show ?case using width_ge [of leaf e] by simp
qed simp

lemma spec_trim_entries: "spec_trim (map (\<lambda>e. Some (ebytes leaf e)) es) = map (\<lambda>e. Some (ebytes leaf e)) es"
  by (cases es rule: rev_cases) simp_all

lemma node_same:
  assumes "node_holds p leaf nx es" and "same_identity p p'" and "page_ok p'" and "recs p' = map (\<lambda>e. Some (ebytes leaf e)) es'"
    and "\<forall>e\<in>set es'. entry_ok leaf e"
  shows "node_holds p' leaf nx es'" "page_id p' = page_id p" "psize p' = psize p"
  using assms page_holds_same [of p _ nx "map (\<lambda>e. Some (ebytes leaf e)) es" p'] same_identity_fields [OF assms(2)]
  by (auto simp: node_holds_def node_contents_def)

lemma used_le:
  assumes "node_holds p leaf nx es"
  shows "24 + used leaf es \<le> psize p"
proof -
  note d = node_holdsD [OF assms]
  have "slot_offset (slot_count p) \<le> free_end p" "free_end p + rec_bytes (recs p) \<le> psize p"
    using d(1) by (auto simp: page_ok_def header_ok_def)
  then show ?thesis using used_rec_bytes [of leaf es] d(5,6) by (simp add: slot_offset_def)
qed

lemma insert_at_node:
  assumes h: "node_holds p leaf nx es" and e: "entry_ok leaf e" and i: "i \<le> length es" and w: "24 + width leaf e \<le> psize p"
  shows "\<exists>p'. insert_at p i (ebytes leaf e) = Inr (p', int (width leaf e) \<le> free_space p) \<and> page_id p' = page_id p \<and> psize p' = psize p \<and>
    node_holds p' leaf nx (if int (width leaf e) \<le> free_space p then take i es @ e # drop i es else es) \<and>
    free_end p' = (if int (width leaf e) \<le> free_space p then free_end p - (width leaf e - 4) else free_end p)"
proof -
  note d = node_holdsD [OF h]
  have g: "width leaf e \<ge> 4" using width_ge [of leaf e] by simp
  have fits: "int (length (ebytes leaf e)) \<le> max_payload_size p" using w g by (simp add: max_payload_size_def)
  from insert_at_ok [OF d(1) fits, of i] i d(5) g obtain p' where
    p: "insert_at p i (ebytes leaf e) = Inr (p', int (width leaf e) \<le> free_space p)" "page_ok p'" "same_identity p p'"
      "recs p' = (if int (width leaf e) \<le> free_space p then take i (recs p) @ Some (ebytes leaf e) # drop i (recs p) else recs p)"
      "free_end p' = (if int (width leaf e) \<le> free_space p then free_end p - (width leaf e - 4) else free_end p)" by auto
  let ?es = "if int (width leaf e) \<le> free_space p then take i es @ e # drop i es else es"
  have "recs p' = map (\<lambda>e. Some (ebytes leaf e)) ?es" using p(4) d(6) by (simp add: take_map drop_map)
  moreover have "\<forall>x\<in>set ?es. entry_ok leaf x" using d(9) e by (auto dest: in_set_takeD in_set_dropD)
  ultimately show ?thesis using node_same [OF h p(3,2)] p(1,5) by blast
qed

lemma insert_entry_at_ok:
  assumes h: "node_holds p leaf nx es" and e: "entry_ok leaf e" and i: "i \<le> length es" and w: "24 + width leaf e \<le> psize p"
  defines "fit \<equiv> 24 + used leaf es + width leaf e \<le> psize p"
  shows "\<exists>p'. insert_entry_at p i e = Inr (p', fit) \<and> page_id p' = page_id p \<and> psize p' = psize p \<and>
    node_holds p' leaf nx (if fit then take i es @ e # drop i es else es)"
proof -
  note d = node_holdsD [OF h]
  have fs: "free_space p = int (free_end p) - 24 - 4 * int (length es)" using free_space_eq [OF d(1)] d(6) by simp
  from insert_at_node [OF h e i w] obtain p1 where 1: "insert_at p i (ebytes leaf e) = Inr (p1, int (width leaf e) \<le> free_space p)"
    "page_id p1 = page_id p" "psize p1 = psize p"
    "node_holds p1 leaf nx (if int (width leaf e) \<le> free_space p then take i es @ e # drop i es else es)"
    "free_end p1 = (if int (width leaf e) \<le> free_space p then free_end p - (width leaf e - 4) else free_end p)" by blast
  have enc: "node_encode (is_leaf p) e = Inr (ebytes leaf e)" using e d(3) by simp
  have total: "int (used leaf es) = int (rec_bytes (recs p)) + 4 * int (length es)" using used_rec_bytes [of leaf es] d(6) by simp
  have cap: "free_end p + rec_bytes (recs p) \<le> psize p" using d(1) by (simp add: page_ok_def)
  show ?thesis
  proof (cases "int (width leaf e) \<le> free_space p")
    case True
    then have "fit" using fs total cap unfolding fit_def by linarith
    then show ?thesis using 1 True enc by (simp add: insert_entry_at_def)
  next
    case False
    then have h1: "node_holds p1 leaf nx es" and fe: "free_end p1 = free_end p" using 1(4,5) by simp_all
    note d1 = node_holdsD [OF h1]
    from compact_ok [OF d1(1)] obtain q r where q: "compact p1 = Inr (q, r)" "page_ok q" "same_identity p1 q"
      "recs q = spec_trim (recs p1)" "free_end q = psize p1 - rec_bytes (recs p1)" "r = free_space q - free_space p1"
      "reclaimable_space p1 = Inr r" by blast
    have rq: "recs q = map (\<lambda>e. Some (ebytes leaf e)) es" using q(4) d1(6) spec_trim_entries by simp
    have hq: "node_holds q leaf nx es" "page_id q = page_id p" "psize q = psize p"
      using node_same [OF h1 q(3,2) rq] d1(9) 1(2,3) by auto
    have fq: "free_space q = int (psize p) - 24 - int (used leaf es)"
      using free_space_eq [OF q(2)] rq q(5) 1(3) cap d1(6) d(6) total by (simp add: of_nat_diff)
    have f1: "free_space p1 = free_space p" using free_space_eq [OF d1(1)] d1(6) fs fe by simp
    have iff: "fit \<longleftrightarrow> int (width leaf e) \<le> free_space q" unfolding fit_def fq by linarith
    from insert_at_node [OF hq(1) e i] hq(3) w obtain p2 where 2: "insert_at q i (ebytes leaf e) = Inr (p2, fit)"
      "page_id p2 = page_id q" "psize p2 = psize q" "node_holds p2 leaf nx (if fit then take i es @ e # drop i es else es)"
      unfolding iff by auto
    show ?thesis
    proof (cases "r > 0")
      case True
      then show ?thesis using 1(1) False enc q(1,7) 2 hq(2,3) by (simp add: insert_entry_at_def)
    next
      case r: False
      then have "\<not> fit" using q(6) iff False f1 by linarith
      then show ?thesis using 1(1-3) False enc q(7) r h1 by (simp add: insert_entry_at_def)
    qed
  qed
qed

lemma insert_all_ok:
  assumes "node_holds p leaf nx es" and "free_end p = psize p - rec_bytes (recs p)" and "\<forall>e\<in>set es'. entry_ok leaf e"
    and "24 + used leaf (es @ es') \<le> psize p"
  shows "\<exists>p'. insert_all p (length es) es' = Inr p' \<and> page_id p' = page_id p \<and> psize p' = psize p \<and> node_holds p' leaf nx (es @ es')"
  using assms
proof (induction es' arbitrary: p es)
  case (Cons e es')
  note d = node_holdsD [OF Cons.prems(1)]
  have cap: "free_end p + rec_bytes (recs p) \<le> psize p" using d(1) by (simp add: page_ok_def)
  have g: "width leaf e \<ge> 4" using width_ge [of leaf e] by simp
  have total: "int (used leaf es) = int (rec_bytes (recs p)) + 4 * int (length es)" using used_rec_bytes [of leaf es] d(6) by simp
  have fs: "free_space p = int (psize p) - 24 - int (used leaf es)"
    using free_space_eq [OF d(1)] d(6) Cons.prems(2) cap total by (simp add: of_nat_diff)
  then have fit: "int (width leaf e) \<le> free_space p" using Cons.prems(4) by simp
  have e: "entry_ok leaf e" using Cons.prems(3) by simp
  have w: "24 + width leaf e \<le> psize p" using Cons.prems(4) by simp
  from insert_at_node [OF Cons.prems(1) e _ w, of "length es"] fit obtain p1 where 1:
    "insert_at p (length es) (ebytes leaf e) = Inr (p1, True)" "page_id p1 = page_id p" "psize p1 = psize p"
    "node_holds p1 leaf nx (es @ [e])" "free_end p1 = free_end p - (width leaf e - 4)" by auto
  have "rec_bytes (recs p1) = rec_bytes (recs p) + (width leaf e - 4)" using node_holdsD(6) [OF 1(4)] d(6) by (simp add: rec_bytes_def)
  then have fe: "free_end p1 = psize p1 - rec_bytes (recs p1)" using 1(3,5) Cons.prems(2) by simp
  from Cons.IH [OF 1(4) fe] Cons.prems(3,4) 1(3) obtain p' where "insert_all p1 (length (es @ [e])) es' = Inr p'"
    "page_id p' = page_id p" "psize p' = psize p" "node_holds p' leaf nx ((es @ [e]) @ es')" using 1(2) by auto
  then show ?case using 1(1) e d(3) by simp
qed simp

lemma replace_all_ok:
  assumes h: "node_holds p leaf nx es0" and es: "\<forall>e\<in>set es. entry_ok leaf e" and u: "24 + used leaf es \<le> psize p"
  shows "\<exists>p'. replace_all p es = Inr p' \<and> page_id p' = page_id p \<and> psize p' = psize p \<and> node_holds p' leaf nx es"
proof -
  note d = node_holdsD [OF h]
  from clear_records_ok [OF d(1)] obtain q where q: "clear_records p = Inr q" "page_ok q" "same_identity p q" "recs q = []"
    "free_end q = psize p" by blast
  have hq: "node_holds q leaf nx []" "page_id q = page_id p" "psize q = psize p" using node_same [OF h q(3,2), of "[]"] q(4) by simp_all
  have "free_end q = psize q - rec_bytes (recs q)" using q(4,5) hq(3) by simp
  from insert_all_ok [OF hq(1) this es] u hq(2,3) q(1) show ?thesis by (simp add: replace_all_def)
qed

lemma delete_entry_ok:
  assumes h: "node_holds p leaf nx es" and i: "i < length es"
  shows "\<exists>p'. delete_entry_at p i = Inr (p', True) \<and> page_id p' = page_id p \<and> psize p' = psize p \<and>
    node_holds p' leaf nx (take i es @ drop (Suc i) es)"
proof -
  note d = node_holdsD [OF h]
  from delete_at_ok [OF d(1), of i] obtain q where q: "delete_at p i = Inr (q, i < slot_count p)" "page_ok q" "same_identity p q"
    "recs q = take i (recs p) @ drop (Suc i) (recs p)" by blast
  have "recs q = map (\<lambda>e. Some (ebytes leaf e)) (take i es @ drop (Suc i) es)" using q(4) d(6) by (simp add: take_map drop_map)
  moreover have "\<forall>x\<in>set (take i es @ drop (Suc i) es). entry_ok leaf x" using d(9) by (auto dest: in_set_takeD in_set_dropD)
  ultimately have "node_holds q leaf nx (take i es @ drop (Suc i) es)" "page_id q = page_id p" "psize q = psize p"
    by (rule node_same [OF h q(3,2)])+
  then show ?thesis using q(1) i d(5) unfolding delete_entry_at_def by auto
qed

lemma entry_widths_ok: "\<forall>e\<in>set es. entry_ok (is_leaf p) e \<Longrightarrow> entry_widths p es = Inr (map (width (is_leaf p)) es)"
  by (induction es) (simp_all del: length_ebytes(2))

end
