(* ===== verification/BPlusTree.thy ===== *)
theory BPlusTree
  imports Node
begin

text \<open>
  The B+ tree (\<open>engine/index/bplustree.py\<close>) over the pages of a page store. The handle's root may
  change; name and data type serve only the display and are left out, as are counters and tracer
  events. The callback \<open>on_root_changed\<close> is an argument. Following sibling links need not end on a
  damaged file, so the operations that do so return an option, \<open>None\<close> being a loop that never ends. A
  range scan is modelled as the list it yields when it is run to its end.
\<close>

definition MAX_DEPTH :: nat where "MAX_DEPTH = 32"

record bptree =
  bt_root :: nat
  bt_unique :: bool

type_synonym 's root_callback = "(nat \<Rightarrow> ('s, unit) op) option"

definition notify_root :: "'s root_callback \<Rightarrow> nat \<Rightarrow> ('s, unit) op" where
  "notify_root cb r = (case cb of None \<Rightarrow> lift_res (Inr ()) | Some f \<Rightarrow> f r)"

definition bt_create :: "'s page_io \<Rightarrow> bool \<Rightarrow> 's root_callback \<Rightarrow> ('s, bptree) op" where
  "bt_create P uniq cb =
     bind_op (io_allocate P BTREE_LEAF) (\<lambda>page.
     bind_op (io_write P page) (\<lambda>_.
     bind_op (notify_root cb (page_id page)) (\<lambda>_.
       lift_res (Inr \<lparr>bt_root = page_id page, bt_unique = uniq\<rparr>))))"

definition bt_node :: "'s page_io \<Rightarrow> nat \<Rightarrow> ('s, page) op" where
  "bt_node P pid = bind_op (io_read P pid) (\<lambda>p. lift_res (node_new p))"

section \<open>Searching\<close>

text \<open>The loop of \<open>_descend\<close>, with the number of levels it may still go down.\<close>

fun descend_from ::
  "'s page_io \<Rightarrow> bytes \<Rightarrow> record_id option \<Rightarrow> nat \<Rightarrow> page \<Rightarrow> (nat \<times> nat) list \<Rightarrow> ('s, page \<times> (nat \<times> nat) list) op" where
  "descend_from P key rid left node path =
     (if is_leaf node then lift_res (Inr (node, path))
      else case left of
        0 \<Rightarrow> lift_res (Inl CorruptPageError)
      | Suc left \<Rightarrow>
          bind_op (lift_res (child_index_for node key rid)) (\<lambda>i.
          bind_op (lift_res (entry_at node i)) (\<lambda>e.
          bind_op (bt_node P (e_child e)) (\<lambda>child.
            descend_from P key rid left child (path @ [(page_id node, i)])))))"

definition descend :: "'s page_io \<Rightarrow> nat \<Rightarrow> bytes \<Rightarrow> record_id option \<Rightarrow> ('s, page \<times> (nat \<times> nat) list) op" where
  "descend P root key rid = bind_op (bt_node P root) (\<lambda>node. descend_from P key rid MAX_DEPTH node [])"

text \<open>The inner loop of \<open>search\<close>: the matches from slot \<open>i\<close> on, and whether the leaf ran out.\<close>

function collect_matches :: "page \<Rightarrow> bytes \<Rightarrow> nat \<Rightarrow> (record_id list \<times> bool) res" where
  "collect_matches leaf key i =
     (if i < slot_count leaf
      then bind_res (entry_at leaf i) (\<lambda>e.
             if e_key e \<noteq> key then Inr ([], False)
             else bind_res (collect_matches leaf key (i + 1)) (\<lambda>(rs, exhausted). Inr (e_rid e # rs, exhausted)))
      else Inr ([], True))"
  by auto
termination by (relation "measure (\<lambda>(leaf, key, i). slot_count leaf - i)") auto

partial_function (option) search_from ::
  "'s page_io \<Rightarrow> bytes \<Rightarrow> page \<Rightarrow> nat \<Rightarrow> 's \<Rightarrow> ('s \<times> record_id list res) option" where
  "search_from P key leaf i s =
     (case collect_matches leaf key i of
        Inl e \<Rightarrow> Some (s, Inl e)
      | Inr (found, exhausted) \<Rightarrow>
          if \<not> exhausted \<or> next_leaf_id leaf = INVALID_PAGE_ID then Some (s, Inr found)
          else case bt_node P (next_leaf_id leaf) s of
                 (s, Inl e) \<Rightarrow> Some (s, Inl e)
               | (s, Inr leaf) \<Rightarrow>
                   Option.bind (search_from P key leaf 0 s) (\<lambda>(s, r).
                     Some (s, bind_res r (\<lambda>rest. Inr (found @ rest)))))"

definition bt_search :: "'s page_io \<Rightarrow> bptree \<Rightarrow> bytes \<Rightarrow> 's \<Rightarrow> ('s \<times> record_id list res) option" where
  "bt_search P t key s =
     (case bind_op (descend P (bt_root t) key None) (\<lambda>(leaf, _).
             bind_op (lift_res (lower_bound leaf key None)) (\<lambda>i. lift_res (Inr (leaf, i)))) s of
        (s, Inl e) \<Rightarrow> Some (s, Inl e)
      | (s, Inr (leaf, i)) \<Rightarrow> search_from P key leaf i s)"

definition descent_path :: "'s page_io \<Rightarrow> bptree \<Rightarrow> bytes \<Rightarrow> ('s, nat list) op" where
  "descent_path P t key =
     bind_op (descend P (bt_root t) key None) (\<lambda>(leaf, path). lift_res (Inr (map fst path @ [page_id leaf])))"

definition search_one :: "'s page_io \<Rightarrow> bptree \<Rightarrow> bytes \<Rightarrow> 's \<Rightarrow> ('s \<times> record_id option res) option" where
  "search_one P t key s =
     Option.bind (bt_search P t key s) (\<lambda>(s, r).
       Some (s, bind_res r (\<lambda>rs. Inr (case rs of [] \<Rightarrow> None | x # _ \<Rightarrow> Some x))))"

definition bt_contains :: "'s page_io \<Rightarrow> bptree \<Rightarrow> bytes \<Rightarrow> 's \<Rightarrow> ('s \<times> bool res) option" where
  "bt_contains P t key s = Option.bind (bt_search P t key s) (\<lambda>(s, r). Some (s, bind_res r (\<lambda>rs. Inr (rs \<noteq> []))))"

text \<open>
  The inner loop of \<open>range_scan\<close>: what one leaf yields from slot \<open>i\<close> on, and whether the scan stops
  there.
\<close>

record key_range =
  kr_low :: "bytes option"
  kr_high :: "bytes option"
  kr_include_low :: bool
  kr_include_high :: bool

function scan_leaf :: "key_range \<Rightarrow> page \<Rightarrow> nat \<Rightarrow> ((bytes \<times> record_id) list \<times> bool) res" where
  "scan_leaf kr leaf i =
     (if i < slot_count leaf
      then bind_res (entry_at leaf i) (\<lambda>e.
             if kr_low kr = Some (e_key e) \<and> \<not> kr_include_low kr then scan_leaf kr leaf (i + 1)
             else if (case kr_high kr of None \<Rightarrow> False
                      | Some high \<Rightarrow> e_key e > high \<or> \<not> kr_include_high kr \<and> e_key e = high) then Inr ([], True)
             else bind_res (scan_leaf kr leaf (i + 1)) (\<lambda>(rs, stop). Inr ((e_key e, e_rid e) # rs, stop)))
      else Inr ([], False))"
  by auto
termination by (relation "measure (\<lambda>(kr, leaf, i). slot_count leaf - i)") auto

partial_function (option) range_from ::
  "'s page_io \<Rightarrow> key_range \<Rightarrow> page \<Rightarrow> nat \<Rightarrow> 's \<Rightarrow> ('s \<times> (bytes \<times> record_id) list res) option" where
  "range_from P kr leaf i s =
     (case scan_leaf kr leaf i of
        Inl e \<Rightarrow> Some (s, Inl e)
      | Inr (rows, stop) \<Rightarrow>
          if stop \<or> next_leaf_id leaf = INVALID_PAGE_ID then Some (s, Inr rows)
          else case bt_node P (next_leaf_id leaf) s of
                 (s, Inl e) \<Rightarrow> Some (s, Inl e)
               | (s, Inr leaf) \<Rightarrow>
                   Option.bind (range_from P kr leaf 0 s) (\<lambda>(s, r).
                     Some (s, bind_res r (\<lambda>rest. Inr (rows @ rest)))))"

fun leftmost_from :: "'s page_io \<Rightarrow> nat \<Rightarrow> page \<Rightarrow> ('s, page) op" where
  "leftmost_from P left node =
     (if is_leaf node then lift_res (Inr node)
      else case left of
        0 \<Rightarrow> lift_res (Inl CorruptPageError)
      | Suc left \<Rightarrow>
          bind_op (lift_res (entry_at node 0)) (\<lambda>e. bind_op (bt_node P (e_child e)) (leftmost_from P left)))"

definition leftmost_leaf :: "'s page_io \<Rightarrow> nat \<Rightarrow> ('s, page) op" where
  "leftmost_leaf P root = bind_op (bt_node P root) (leftmost_from P MAX_DEPTH)"

definition bt_range_scan ::
  "'s page_io \<Rightarrow> bptree \<Rightarrow> key_range \<Rightarrow> 's \<Rightarrow> ('s \<times> (bytes \<times> record_id) list res) option" where
  "bt_range_scan P t kr s =
     (case (case kr_low kr of
              None \<Rightarrow> bind_op (leftmost_leaf P (bt_root t)) (\<lambda>leaf. lift_res (Inr (leaf, 0)))
            | Some low \<Rightarrow> bind_op (descend P (bt_root t) low None) (\<lambda>(leaf, _).
                bind_op (lift_res (lower_bound leaf low None)) (\<lambda>i. lift_res (Inr (leaf, i))))) s of
        (s, Inl e) \<Rightarrow> Some (s, Inl e)
      | (s, Inr (leaf, i)) \<Rightarrow> range_from P kr leaf i s)"

abbreviation full_range :: key_range where
  "full_range \<equiv> \<lparr>kr_low = None, kr_high = None, kr_include_low = True, kr_include_high = True\<rparr>"

definition bt_count :: "'s page_io \<Rightarrow> bptree \<Rightarrow> 's \<Rightarrow> ('s \<times> nat res) option" where
  "bt_count P t s =
     Option.bind (bt_range_scan P t full_range s) (\<lambda>(s, r). Some (s, bind_res r (\<lambda>rs. Inr (length rs))))"

section \<open>Inserting\<close>

definition set_root :: "nat \<Rightarrow> (bptree \<times> 's, unit) op" where
  "set_root r = (\<lambda>(t, s). ((t\<lparr>bt_root := r\<rparr>, s), Inr ()))"

definition grow_root :: "'s page_io \<Rightarrow> 's root_callback \<Rightarrow> nat \<Rightarrow> entry \<Rightarrow> (bptree \<times> 's, unit) op" where
  "grow_root P cb left sep =
     bind_op (with_io (io_allocate P BTREE_INTERNAL)) (\<lambda>page.
     bind_op (lift_res (node_new page)) (\<lambda>root.
     bind_op (lift_res (replace_all root [minus_infinity_entry left, sep])) (\<lambda>root.
     bind_op (with_io (io_write P root)) (\<lambda>_.
     bind_op (set_root (page_id root)) (\<lambda>_. with_io (notify_root cb (page_id root)))))))"

text \<open>\<open>list.insert\<close> and \<open>entries[cut]\<close>.\<close>

definition list_insert :: "nat \<Rightarrow> 'a \<Rightarrow> 'a list \<Rightarrow> 'a list" where
  "list_insert i x xs = take i xs @ x # drop i xs"

definition item :: "nat \<Rightarrow> 'a list \<Rightarrow> 'a res" where
  "item i xs = guard_res (i < length xs) IndexError (Inr (xs ! i))"

text \<open>\<open>_insert_into_parent\<close>; the path comes innermost first.\<close>

fun insert_into_parent ::
  "'s page_io \<Rightarrow> 's root_callback \<Rightarrow> (nat \<times> nat) list \<Rightarrow> entry \<Rightarrow> nat \<Rightarrow> (bptree \<times> 's, unit) op" where
  "insert_into_parent P cb [] sep left = grow_root P cb left sep"
| "insert_into_parent P cb ((pid, _) # path) sep left =
     bind_op (with_io (bt_node P pid)) (\<lambda>parent.
     bind_op (lift_res (insert_entry parent sep)) (\<lambda>(parent, ok).
       if ok then with_io (io_write P parent)
       else
         bind_op (lift_res (entries parent)) (\<lambda>es.
         bind_op (lift_res (lower_bound parent (e_key sep) (Some (e_rid sep)))) (\<lambda>i.
         bind_op (lift_res (Inr (list_insert i sep es))) (\<lambda>es.
         bind_op (lift_res (split_index parent es)) (\<lambda>cut.
         bind_op (lift_res (item cut es)) (\<lambda>promoted.
         bind_op (with_io (io_allocate P BTREE_INTERNAL)) (\<lambda>page.
         bind_op (lift_res (node_new page)) (\<lambda>sibling.
         bind_op (lift_res (replace_all sibling (minus_infinity_entry (e_child promoted) # drop (cut + 1) es))) (\<lambda>sibling.
         bind_op (lift_res (replace_all parent (take cut es))) (\<lambda>parent.
         bind_op (with_io (io_write P sibling)) (\<lambda>_.
         bind_op (with_io (io_write P parent)) (\<lambda>_.
           insert_into_parent P cb path
             \<lparr>e_key = e_key promoted, e_rid = e_rid promoted, e_child = page_id sibling\<rparr> (page_id parent))))))))))))))"

definition split_leaf ::
  "'s page_io \<Rightarrow> 's root_callback \<Rightarrow> page \<Rightarrow> (nat \<times> nat) list \<Rightarrow> entry \<Rightarrow> (bptree \<times> 's, unit) op" where
  "split_leaf P cb leaf path e =
     bind_op (lift_res (entries leaf)) (\<lambda>es.
     bind_op (lift_res (lower_bound leaf (e_key e) (Some (e_rid e)))) (\<lambda>i.
     bind_op (lift_res (Inr (list_insert i e es))) (\<lambda>es.
     bind_op (lift_res (split_index leaf es)) (\<lambda>cut.
     bind_op (with_io (io_allocate P BTREE_LEAF)) (\<lambda>page.
     bind_op (lift_res (node_new page)) (\<lambda>sibling.
     bind_op (lift_res (replace_all sibling (drop cut es))) (\<lambda>sibling.
     bind_op (lift_res (set_next_leaf_id (next_leaf_id leaf) sibling)) (\<lambda>sibling.
     bind_op (lift_res (replace_all leaf (take cut es))) (\<lambda>leaf.
     bind_op (lift_res (set_next_leaf_id (page_id sibling) leaf)) (\<lambda>leaf.
     bind_op (with_io (io_write P sibling)) (\<lambda>_.
     bind_op (with_io (io_write P leaf)) (\<lambda>_.
     bind_op (lift_res (item 0 (drop cut es))) (\<lambda>first.
       insert_into_parent P cb (rev path)
         \<lparr>e_key = e_key first, e_rid = e_rid first, e_child = page_id sibling\<rparr> (page_id leaf))))))))))))))"

definition insert_checked :: "'s page_io \<Rightarrow> 's root_callback \<Rightarrow> bytes \<Rightarrow> record_id \<Rightarrow> (bptree \<times> 's, unit) op" where
  "insert_checked P cb key rid ts =
     bind_op (with_io (descend P (bt_root (fst ts)) key (Some rid))) (\<lambda>(leaf, path).
     bind_op (lift_res (insert_entry leaf (leaf_entry key rid))) (\<lambda>(leaf, ok).
       if ok then with_io (io_write P leaf)
       else split_leaf P cb leaf path (leaf_entry key rid))) ts"

definition bt_insert ::
  "'s page_io \<Rightarrow> 's root_callback \<Rightarrow> bytes \<Rightarrow> record_id \<Rightarrow> bptree \<times> 's \<Rightarrow> ((bptree \<times> 's) \<times> unit res) option" where
  "bt_insert P cb key rid ts =
     (if bt_unique (fst ts) \<and> \<not> is_null_key key
      then Option.bind (bt_contains P (fst ts) key (snd ts)) (\<lambda>(s, r).
             case r of
               Inl e \<Rightarrow> Some ((fst ts, s), Inl e)
             | Inr found \<Rightarrow>
                 if found then Some ((fst ts, s), Inl UniqueViolation) else Some (insert_checked P cb key rid (fst ts, s)))
      else Some (insert_checked P cb key rid ts))"

section \<open>Deleting\<close>

definition bt_delete :: "'s page_io \<Rightarrow> bptree \<Rightarrow> bytes \<Rightarrow> record_id \<Rightarrow> ('s, bool) op" where
  "bt_delete P t key rid =
     bind_op (descend P (bt_root t) key (Some rid)) (\<lambda>(leaf, _).
     bind_op (lift_res (remove_entry leaf key rid)) (\<lambda>(leaf, gone).
       if \<not> gone then lift_res (Inr False)
       else bind_op (io_write P leaf) (\<lambda>_. lift_res (Inr True))))"

fun delete_each :: "'s page_io \<Rightarrow> bptree \<Rightarrow> bytes \<Rightarrow> record_id list \<Rightarrow> nat \<Rightarrow> ('s, nat) op" where
  "delete_each P t key [] removed = lift_res (Inr removed)"
| "delete_each P t key (r # rs) removed =
     bind_op (bt_delete P t key r) (\<lambda>gone. delete_each P t key rs (if gone then removed + 1 else removed))"

definition delete_key :: "'s page_io \<Rightarrow> bptree \<Rightarrow> bytes \<Rightarrow> 's \<Rightarrow> ('s \<times> nat res) option" where
  "delete_key P t key s =
     Option.bind (bt_search P t key s) (\<lambda>(s, r).
       Some (case r of Inl e \<Rightarrow> (s, Inl e) | Inr rs \<Rightarrow> delete_each P t key rs 0 s))"

fun height_from :: "'s page_io \<Rightarrow> nat \<Rightarrow> nat \<Rightarrow> page \<Rightarrow> ('s, nat) op" where
  "height_from P left h node =
     (if is_leaf node then lift_res (Inr h)
      else case left of
        0 \<Rightarrow> lift_res (Inl CorruptPageError)
      | Suc left \<Rightarrow>
          bind_op (lift_res (entry_at node 0)) (\<lambda>e. bind_op (bt_node P (e_child e)) (height_from P left (h + 1))))"

definition bt_height :: "'s page_io \<Rightarrow> bptree \<Rightarrow> ('s, nat) op" where
  "bt_height P t = bind_op (bt_node P (bt_root t)) (height_from P MAX_DEPTH 1)"

end
