(* ===== verification/TreeModel.thy ===== *)
theory TreeModel
  imports BPlusTree "HOL-Library.Multiset"
begin

text \<open>
  The tree that the pages of an index spell out, as a datatype, with what makes it a B+ tree: its
  shape (sorted entries, separators that bound their subtrees, all leaves at one depth), its embedding
  in the pages, and its leaves as a chain. A context is a tree with a hole, given as the path from the
  root; the operations change the subtree in the hole, and the lemmas here say what that does to the
  whole.
\<close>

type_synonym skeys = "bytes \<times> bytes"

datatype bt = Lf nat "entry list" | Nd nat "(entry \<times> bt) list"

fun pid_of :: "bt \<Rightarrow> nat" where
  "pid_of (Lf p es) = p"
| "pid_of (Nd p cs) = p"

fun flat :: "bt \<Rightarrow> entry list" where
  "flat (Lf p es) = es"
| "flat (Nd p cs) = concat (map (\<lambda>(e, t). flat t) cs)"

fun leaf_ids :: "bt \<Rightarrow> nat list" where
  "leaf_ids (Lf p es) = [p]"
| "leaf_ids (Nd p cs) = concat (map (\<lambda>(e, t). leaf_ids t) cs)"

fun pids :: "bt \<Rightarrow> nat list" where
  "pids (Lf p es) = [p]"
| "pids (Nd p cs) = p # concat (map (\<lambda>(e, t). pids t) cs)"

section \<open>Shape\<close>

definition inside :: "skeys \<Rightarrow> skeys option \<Rightarrow> skeys \<Rightarrow> bool" where
  "inside lo hi k \<longleftrightarrow> lo \<le> k \<and> (case hi of None \<Rightarrow> True | Some u \<Rightarrow> k < u)"

definition minus_inf :: skeys where
  "minus_inf = (MINUS_INFINITY, rid_bytes SENTINEL_RID)"

text \<open>The upper bound that a list of children sets for what stands before it.\<close>

definition ubound :: "skeys option \<Rightarrow> (entry \<times> bt) list \<Rightarrow> skeys option" where
  "ubound hi cs = (case cs of [] \<Rightarrow> hi | (e, _) # _ \<Rightarrow> Some (skey e))"

text \<open>\<open>kids Q lo hi cs\<close>: each child satisfies \<open>Q\<close> between its separator and the next one; the first has the lower bound \<open>lo\<close>.\<close>

fun kids :: "(skeys \<Rightarrow> skeys option \<Rightarrow> bt \<Rightarrow> bool) \<Rightarrow> skeys \<Rightarrow> skeys option \<Rightarrow> (entry \<times> bt) list \<Rightarrow> bool" where
  "kids Q lo hi [] \<longleftrightarrow> True"
| "kids Q lo hi ((e, t) # cs) \<longleftrightarrow> Q lo (ubound hi cs) t \<and> kids Q (case cs of [] \<Rightarrow> lo | (e', _) # _ \<Rightarrow> skey e') hi cs"

definition seps_ok :: "skeys \<Rightarrow> skeys option \<Rightarrow> entry list \<Rightarrow> bool" where
  "seps_ok lo hi es \<longleftrightarrow> es \<noteq> [] \<and> skey (hd es) = minus_inf \<and> sorted_entries es \<and>
     (\<forall>e\<in>set (tl es). lo < skey e \<and> inside lo hi (skey e))"

fun shape :: "nat \<Rightarrow> skeys \<Rightarrow> skeys option \<Rightarrow> bt \<Rightarrow> bool" where
  "shape 0 lo hi (Lf p es) \<longleftrightarrow> sorted_entries es \<and> (\<forall>e\<in>set es. inside lo hi (skey e))"
| "shape (Suc h) lo hi (Nd p cs) \<longleftrightarrow> seps_ok lo hi (map fst cs) \<and> kids (shape h) lo hi cs"
| "shape 0 lo hi (Nd p cs) \<longleftrightarrow> False"
| "shape (Suc h) lo hi (Lf p es) \<longleftrightarrow> False"

lemma kids_append:
  "kids Q lo hi (xs @ ys) \<longleftrightarrow> kids Q lo (ubound hi ys) xs \<and>
     kids Q (if xs = [] then lo else case ys of [] \<Rightarrow> lo | (e, _) # _ \<Rightarrow> skey e) hi ys"
proof (induction xs arbitrary: lo)
  case (Cons x xs)
  obtain e t where x: "x = (e, t)" by fastforce
  have u: "ubound hi (xs @ ys) = ubound (ubound hi ys) xs" by (cases xs) (auto simp: ubound_def)
  show ?case
  proof (cases xs)
    case Nil
    then show ?thesis using x by (cases ys) (auto simp: ubound_def)
  next
    case (Cons y xs')
    then show ?thesis using Cons.IH [of "skey (fst y)"] x u by (auto simp: case_prod_beta split: list.splits)
  qed
qed simp

section \<open>Contexts\<close>

type_synonym frame = "nat \<times> (entry \<times> bt) list \<times> entry \<times> (entry \<times> bt) list"

fun fill :: "frame list \<Rightarrow> bt \<Rightarrow> bt" where
  "fill [] t = t"
| "fill ((q, xs, e, ys) # c) t = Nd q (xs @ (e, fill c t) # ys)"

definition path_of :: "frame list \<Rightarrow> (nat \<times> nat) list" where
  "path_of c = map (\<lambda>(q, xs, e, ys). (q, length xs)) c"

text \<open>The bounds of the hole, and what a context needs of its own.\<close>

definition hole :: "frame \<Rightarrow> skeys \<times> skeys option \<Rightarrow> skeys \<times> skeys option" where
  "hole f b = (case f of (q, xs, e, ys) \<Rightarrow> (if xs = [] then fst b else skey e, ubound (snd b) ys))"

fun bounds :: "frame list \<Rightarrow> skeys \<times> skeys option \<Rightarrow> skeys \<times> skeys option" where
  "bounds [] b = b"
| "bounds (f # c) b = bounds c (hole f b)"

fun frame_ok :: "nat \<Rightarrow> skeys \<times> skeys option \<Rightarrow> frame \<Rightarrow> bool" where
  "frame_ok h (lo, hi) (q, xs, e, ys) \<longleftrightarrow> seps_ok lo hi (map fst (xs @ [(e, Lf 0 [])] @ ys)) \<and>
     kids (shape h) lo (Some (skey e)) xs \<and> kids (shape h) (case ys of [] \<Rightarrow> lo | (e', _) # _ \<Rightarrow> skey e') hi ys"

fun ctx_ok :: "nat \<Rightarrow> skeys \<times> skeys option \<Rightarrow> frame list \<Rightarrow> bool" where
  "ctx_ok h b [] \<longleftrightarrow> True"
| "ctx_ok h b (f # c) \<longleftrightarrow> frame_ok (length c + h) b f \<and> ctx_ok h (hole f b) c"

lemma ubound_hole: "ubound hi ((e, t) # ys) = Some (skey e)"
  by (simp add: ubound_def)

lemma kids_middle:
  "kids Q lo hi (xs @ (e, t) # ys) \<longleftrightarrow> kids Q lo (Some (skey e)) xs \<and> Q (if xs = [] then lo else skey e) (ubound hi ys) t \<and>
     kids Q (case ys of [] \<Rightarrow> lo | (e', _) # _ \<Rightarrow> skey e') hi ys"
  by (cases ys) (auto simp: kids_append ubound_hole)

lemma shape_frame:
  "shape (Suc h) lo hi (Nd q (xs @ (e, t) # ys)) \<longleftrightarrow>
     frame_ok h (lo, hi) (q, xs, e, ys) \<and> shape h (fst (hole (q, xs, e, ys) (lo, hi))) (snd (hole (q, xs, e, ys) (lo, hi))) t"
  by (cases ys) (auto simp: kids_append hole_def ubound_hole split: if_splits)

lemma shape_fill:
  "shape (length c + h) (fst b) (snd b) (fill c t) \<longleftrightarrow>
     ctx_ok h b c \<and> shape h (fst (bounds c b)) (snd (bounds c b)) t"
proof (induction c arbitrary: b)
  case (Cons f c)
  obtain q xs e ys where f: "f = (q, xs, e, ys)" by (metis prod.exhaust)
  show ?case using Cons.IH [of "hole f b"] shape_frame [of "length c + h" "fst b" "snd b" q xs e "fill c t" ys]
    by (auto simp: f)
qed simp

section \<open>Embedding in the pages\<close>

text \<open>
  Keys are bounded so that an internal entry takes at most half a page.
\<close>

definition good_entry :: "nat \<Rightarrow> bool \<Rightarrow> entry \<Rightarrow> bool" where
  "good_entry N leaf e \<longleftrightarrow> entry_ok leaf e \<and> 2 * width False e + 24 \<le> N"

fun emb :: "nat \<Rightarrow> (nat \<rightharpoonup> contents) \<Rightarrow> bt \<Rightarrow> bool" where
  "emb N v (Lf p es) \<longleftrightarrow> (\<exists>nx. v p = Some (node_contents True nx es)) \<and> (\<forall>e\<in>set es. good_entry N True e)"
| "emb N v (Nd p cs) \<longleftrightarrow> v p = Some (node_contents False INVALID_PAGE_ID (map fst cs)) \<and>
     (\<forall>e\<in>set (map fst cs). good_entry N False e) \<and> (\<forall>(e, t)\<in>set cs. e_child e = pid_of t \<and> emb N v t)"

lemma pid_in_pids: "pid_of t \<in> set (pids t)"
  by (cases t) simp_all

lemma emb_cong: "(\<And>p. p \<in> set (pids t) \<Longrightarrow> v' p = v p) \<Longrightarrow> emb N v' t \<longleftrightarrow> emb N v t"
proof (induction t)
  case (Nd p cs)
  have "emb N v' t \<longleftrightarrow> emb N v t" if "(e, t) \<in> set cs" for e t
    using that Nd.IH [of "(e, t)" t] Nd.prems by fastforce
  then show ?case using Nd.prems [of p] by auto
qed simp

lemma leaf_ids_pids: "set (leaf_ids t) \<subseteq> set (pids t)"
  by (induction t) fastforce+

lemma leaf_ids_not_Nil: "shape h lo hi t \<Longrightarrow> leaf_ids t \<noteq> []"
proof (induction h arbitrary: lo hi t)
  case 0
  then show ?case by (cases t) auto
next
  case (Suc h)
  then obtain p cs where t: "t = Nd p cs" by (cases t) auto
  then obtain e t' cs' where "cs = (e, t') # cs'" using Suc.prems by (cases cs) (auto simp: seps_ok_def)
  then have "shape h lo (ubound hi cs') t'" using Suc.prems t by simp
  then have "leaf_ids t' \<noteq> []" by (rule Suc.IH)
  then show ?case using t \<open>cs = _\<close> by simp
qed

text \<open>The frames of a context, given the page in the hole.\<close>

fun frame_emb :: "nat \<Rightarrow> (nat \<rightharpoonup> contents) \<Rightarrow> nat \<Rightarrow> frame \<Rightarrow> bool" where
  "frame_emb N v p (q, xs, e, ys) \<longleftrightarrow>
     v q = Some (node_contents False INVALID_PAGE_ID (map fst xs @ e # map fst ys)) \<and> e_child e = p \<and>
     (\<forall>e'\<in>set (map fst xs @ e # map fst ys). good_entry N False e') \<and>
     (\<forall>(e', t)\<in>set (xs @ ys). e_child e' = pid_of t \<and> emb N v t)"

fun cemb :: "nat \<Rightarrow> (nat \<rightharpoonup> contents) \<Rightarrow> nat \<Rightarrow> frame list \<Rightarrow> bool" where
  "cemb N v p [] \<longleftrightarrow> True"
| "cemb N v p (f # c) \<longleftrightarrow> frame_emb N v (case c of [] \<Rightarrow> p | (q, _) # _ \<Rightarrow> q) f \<and> cemb N v p c"

lemma pid_of_fill: "pid_of (fill c t) = (case c of [] \<Rightarrow> pid_of t | (q, _) # _ \<Rightarrow> q)"
  by (cases c) auto

lemma emb_fill: "emb N v (fill c t) \<longleftrightarrow> cemb N v (pid_of t) c \<and> emb N v t"
proof (induction c)
  case (Cons f c)
  obtain q xs e ys where f: "f = (q, xs, e, ys)" by (metis prod.exhaust)
  show ?case using Cons pid_of_fill [of c t] by (auto simp: f ball_Un)
qed simp

fun cpids :: "frame list \<Rightarrow> nat list" where
  "cpids [] = []"
| "cpids ((q, xs, e, ys) # c) = q # concat (map (\<lambda>(e, t). pids t) xs) @ concat (map (\<lambda>(e, t). pids t) ys) @ cpids c"

lemma mset_pids_fill: "mset (pids (fill c t)) = mset (cpids c @ pids t)"
  by (induction c rule: cpids.induct) (simp_all add: ac_simps)

lemma set_pids_fill: "set (pids (fill c t)) = set (cpids c) \<union> set (pids t)"
  using arg_cong [OF mset_pids_fill [of c t], of set_mset] by simp

lemma distinct_pids_fill:
  "distinct (pids (fill c t)) \<longleftrightarrow> distinct (cpids c) \<and> distinct (pids t) \<and> set (cpids c) \<inter> set (pids t) = {}"
  using mset_eq_imp_distinct_iff [OF mset_pids_fill [of c t]] by auto

lemma cemb_cong: "(\<And>q. q \<in> set (cpids c) \<Longrightarrow> v' q = v q) \<Longrightarrow> cemb N v' p c \<longleftrightarrow> cemb N v p c"
proof (induction c)
  case (Cons f c)
  obtain q xs e ys where f: "f = (q, xs, e, ys)" by (metis prod.exhaust)
  have "emb N v' t \<longleftrightarrow> emb N v t" if "(e', t) \<in> set (xs @ ys)" for e' t
    using that Cons.prems by (intro emb_cong) (fastforce simp: f)
  then have "(\<forall>(e', t)\<in>set (xs @ ys). e_child e' = pid_of t \<and> emb N v' t) \<longleftrightarrow>
      (\<forall>(e', t)\<in>set (xs @ ys). e_child e' = pid_of t \<and> emb N v t)" by (intro ball_cong refl) auto
  moreover have "v' q = v q" using Cons.prems by (simp add: f)
  moreover have "cemb N v' p c \<longleftrightarrow> cemb N v p c" using Cons.prems by (intro Cons.IH) (auto simp: f)
  ultimately show ?case unfolding f by (simp only: cemb.simps frame_emb.simps)
qed simp

text \<open>What stands before and after the hole.\<close>

fun around :: "(bt \<Rightarrow> 'a list) \<Rightarrow> frame list \<Rightarrow> 'a list \<times> 'a list" where
  "around g [] = ([], [])"
| "around g ((q, xs, e, ys) # c) =
     (concat (map (\<lambda>(e, t). g t) xs) @ fst (around g c), snd (around g c) @ concat (map (\<lambda>(e, t). g t) ys))"

lemma flat_fill: "flat (fill c t) = fst (around flat c) @ flat t @ snd (around flat c)"
  by (induction flat c rule: around.induct) auto

lemma leaf_ids_fill: "leaf_ids (fill c t) = fst (around leaf_ids c) @ leaf_ids t @ snd (around leaf_ids c)"
  by (induction leaf_ids c rule: around.induct) auto

lemma fill_snoc: "fill (c @ [f]) t = fill c (fill [f] t)"
  by (induction c) auto

lemma path_of_append: "path_of (c @ d) = path_of c @ path_of d"
  by (simp add: path_of_def)

section \<open>Choosing a child\<close>

lemma child_split:
  assumes s: "seps_ok lo hi (map fst cs)" and m: "minus_inf \<le> k"
  shows "\<exists>xs e t ys. cs = xs @ (e, t) # ys \<and> length xs = child_rank (map fst cs) k \<and> skey e \<le> k \<and>
    (case ys of [] \<Rightarrow> True | (e', _) # _ \<Rightarrow> k < skey e')"
proof -
  let ?P = "\<lambda>c. skey (fst c) \<le> k"
  let ?a = "takeWhile ?P cs" and ?b = "dropWhile ?P cs"
  have "cs \<noteq> []" "skey (fst (hd cs)) \<le> k" using s m by (auto simp: seps_ok_def hd_map)
  then have ne: "?a \<noteq> []" by (cases cs) auto
  obtain e t where l: "last ?a = (e, t)" by fastforce
  have "(e, t) \<in> set ?a" using ne l by (metis last_in_set)
  then have "skey e \<le> k" by (auto dest: set_takeWhileD)
  moreover have "cs = butlast ?a @ (e, t) # ?b" using ne l by (metis append_Cons append_Nil append_butlast_last_id append.assoc takeWhile_dropWhile_id)
  moreover have "length (butlast ?a) = child_rank (map fst cs) k" by (simp add: child_rank_def takeWhile_map comp_def)
  moreover have "case ?b of [] \<Rightarrow> True | (e', _) # _ \<Rightarrow> k < skey e'"
  proof (cases ?b)
    case (Cons x xs)
    then have "\<not> ?P x" using hd_dropWhile [of ?P cs] by simp
    then show ?thesis using Cons by (auto simp: not_le split: prod.splits)
  next
    case Nil
    show ?thesis unfolding Nil by simp
  qed
  ultimately show ?thesis by blast
qed

lemma inside_hole:
  assumes "inside lo hi k" and "skey e \<le> k" and "case ys of [] \<Rightarrow> True | (e', _) # _ \<Rightarrow> k < skey e'"
  shows "inside (fst (hole (q, xs, e, ys) (lo, hi))) (snd (hole (q, xs, e, ys) (lo, hi))) k"
  using assms by (auto simp: inside_def hole_def ubound_def split: list.splits)

section \<open>The innermost frame\<close>

lemma bounds_snoc: "bounds (c @ [f]) b = hole f (bounds c b)"
  by (induction c arbitrary: b) auto

lemma ctx_ok_snoc: "ctx_ok h b (c @ [f]) \<longleftrightarrow> ctx_ok (Suc h) b c \<and> frame_ok h (bounds c b) f"
  by (induction c arbitrary: b) auto

lemma cemb_snoc: "cemb N v p (c @ [f]) \<longleftrightarrow> cemb N v (fst f) c \<and> frame_emb N v p f"
proof (induction c)
  case (Cons g c)
  then show ?case by (cases c; cases f) (auto split: list.splits)
qed simp

lemma cpids_append: "cpids (c @ d) = cpids c @ cpids d"
  by (induction c rule: cpids.induct) auto

lemma around_snoc:
  "around g (c @ [(q, xs, e, ys)]) =
     (fst (around g c) @ concat (map (\<lambda>(e, t). g t) xs), concat (map (\<lambda>(e, t). g t) ys) @ snd (around g c))"
  by (induction g c rule: around.induct) auto

lemma bounds_ge:
  assumes "ctx_ok h b c" and "minus_inf \<le> fst b"
  shows "minus_inf \<le> fst (bounds c b)"
  using assms
proof (induction c arbitrary: b)
  case (Cons f c)
  obtain q xs e ys lo hi where f: "f = (q, xs, e, ys)" "b = (lo, hi)" by (metis prod.exhaust)
  have "minus_inf \<le> fst (hole f b)"
  proof (cases xs)
    case Nil
    then show ?thesis using Cons.prems(2) by (simp add: f hole_def)
  next
    case (Cons x xs')
    then have "lo < skey e" using Cons.prems(1) Cons by (auto simp: f seps_ok_def)
    then show ?thesis using Cons.prems(2) Cons f by (simp add: hole_def order.strict_implies_order order.trans)
  qed
  then show ?case using Cons by (simp add: f)
qed simp

section \<open>Sorted contents\<close>

lemma inside_trans:
  assumes "inside lo u k" and "lo' \<le> lo" and "\<And>x. hi = Some x \<Longrightarrow> \<exists>y. u = Some y \<and> y \<le> x"
  shows "inside lo' hi k"
proof (cases hi)
  case None
  then show ?thesis using assms(1,2) by (auto simp: inside_def)
next
  case (Some x)
  then obtain y where "u = Some y" "y \<le> x" using assms(3) by blast
  then have "lo \<le> k" "k < y" "y \<le> x" using assms(1) by (simp_all add: inside_def)
  then have "lo' \<le> k" "k < x" using assms(2) order.trans less_le_trans by blast+
  then show ?thesis using Some by (simp add: inside_def)
qed

lemma kids_lower:
  assumes "seps_ok lo hi es" and "es = map fst (xs @ (e, t) # ys)"
  shows "(if xs = [] then lo else skey e) \<ge> lo"
    and "case ubound hi ys of None \<Rightarrow> hi = None | Some u \<Rightarrow> (\<forall>x. hi = Some x \<longrightarrow> u \<le> x)"
proof -
  show "(if xs = [] then lo else skey e) \<ge> lo"
    using assms by (cases xs) (auto simp: seps_ok_def less_imp_le)
  show "case ubound hi ys of None \<Rightarrow> hi = None | Some u \<Rightarrow> (\<forall>x. hi = Some x \<longrightarrow> u \<le> x)"
  proof (cases ys)
    case (Cons y ys')
    then have "fst y \<in> set (tl es)" using assms(2) by (cases xs) auto
    then have "inside lo hi (skey (fst y))" using assms(1) by (simp add: seps_ok_def)
    then show ?thesis using Cons by (auto simp: ubound_def inside_def split: option.splits prod.splits)
  qed (auto simp: ubound_def split: option.splits)
qed

lemma shape_sorted: "shape h lo hi t \<Longrightarrow> sorted_entries (flat t) \<and> (\<forall>e\<in>set (flat t). inside lo hi (skey e))"
proof (induction h arbitrary: lo hi t)
  case 0
  then show ?case by (cases t) auto
next
  case (Suc h)
  then obtain p cs where t: "t = Nd p cs" by (cases t) auto
  have so: "seps_ok lo hi (map fst cs)" and k: "kids (shape h) lo hi cs" using Suc.prems t by simp_all
  have part: "shape h (if xs = [] then lo else skey e) (ubound hi ys) u" if "cs = xs @ (e, u) # ys" for xs e u ys
    using k unfolding that kids_middle by blast
  have one: "sorted_entries (flat u) \<and> (\<forall>x\<in>set (flat u). inside (if xs = [] then lo else skey e) (ubound hi ys) (skey x))"
    if "cs = xs @ (e, u) # ys" for xs e u ys using Suc.IH [OF part [OF that]] .
  have ins: "inside lo hi (skey x)" if "cs = xs @ (e, u) # ys" "x \<in> set (flat u)" for xs e u ys x
  proof -
    have "map fst cs = map fst (xs @ (e, u) # ys)" using that(1) by simp
    note kl = kids_lower [OF so this]
    have "inside (if xs = [] then lo else skey e) (ubound hi ys) (skey x)" using one [OF that(1)] that(2) by blast
    then show ?thesis by (rule inside_trans [OF _ kl(1)]) (use kl(2) in \<open>auto split: option.splits\<close>)
  qed
  have ins': "inside lo hi (skey x)" if "(e, u) \<in> set cs" "x \<in> set (flat u)" for e u x
    using split_list [OF that(1)] ins that(2) by blast
  have "sorted_entries (concat (map (\<lambda>(e, t). flat t) ys)) \<and>
      (\<forall>x\<in>set (concat (map (\<lambda>(e, t). flat t) ys)). (if xs = [] then lo else skey (fst (hd ys))) \<le> skey x)" if "cs = xs @ ys" for xs ys
    using that
  proof (induction ys arbitrary: xs)
    case (Cons y ys)
    obtain e u where y: "y = (e, u)" by fastforce
    have c: "cs = xs @ (e, u) # ys" and c': "cs = (xs @ [y]) @ ys" using Cons.prems y by simp_all
    note o = one [OF c] and r = Cons.IH [OF c']
    have lt: "skey a < skey b" if m: "a \<in> set (flat u)" "b \<in> set (concat (map (\<lambda>(e, t). flat t) ys))" for a b
    proof -
      obtain y' ys' where ys: "ys = y' # ys'" using m(2) by (cases ys) auto
      have "skey a < skey (fst y')" using o m(1) ys by (auto simp: inside_def ubound_def split: prod.splits)
      also have "\<dots> \<le> skey b" using r m(2) ys by simp
      finally show ?thesis .
    qed
    have "skey e \<le> skey b" if m: "b \<in> set (concat (map (\<lambda>(e, t). flat t) ys))" "xs \<noteq> []" for b
    proof -
      obtain y' ys' where ys: "ys = y' # ys'" using m(1) by (cases ys) auto
      have "skey e < skey (fst y')" using so c ys m(2) by (simp add: seps_ok_def sorted_wrt_append)
      also have "\<dots> \<le> skey b" using r m(1) ys by simp
      finally show ?thesis by simp
    qed
    moreover have "lo \<le> skey b" if m: "b \<in> set (concat (map (\<lambda>(e, t). flat t) ys))" for b
      using m c' ins' by (auto simp: inside_def)
    moreover have "(if xs = [] then lo else skey e) \<le> skey b" if m: "b \<in> set (flat u)" for b
      using o m by (simp add: inside_def)
    ultimately have low: "(if xs = [] then lo else skey e) \<le> skey b"
      if m: "b \<in> set (flat u @ concat (map (\<lambda>(e, t). flat t) ys))" for b
      using m unfolding set_append Un_iff by presburger
    have eq: "concat (map (\<lambda>(e, t). flat t) (y # ys)) = flat u @ concat (map (\<lambda>(e, t). flat t) ys)" using y by simp
    have "sorted_entries (flat u @ concat (map (\<lambda>(e, t). flat t) ys))"
      unfolding sorted_wrt_append using o r lt by blast
    moreover have "\<forall>x\<in>set (flat u @ concat (map (\<lambda>(e, t). flat t) ys)). (if xs = [] then lo else skey (fst (hd (y # ys)))) \<le> skey x"
      using low unfolding y list.sel fst_conv by blast
    ultimately show ?case unfolding eq by (intro conjI)
  qed simp
  from this [of "[]" cs] have "sorted_entries (flat t)" using t by simp
  moreover have "\<forall>x\<in>set (flat t). inside lo hi (skey x)"
    using ins' t by auto
  ultimately show ?case by simp
qed

end
