(* ===== verification/TreeSplit.thy ===== *)
theory TreeSplit
  imports TreeModel
begin

text \<open>
  What splitting does to a tree: a node with one child more is a node again, and cutting a node in two
  gives two nodes with a separator between them. Then the leaves from left to right, and where a key
  stands among them.
\<close>

section \<open>A node with one child more\<close>

lemma insert_child_shape:
  assumes f: "frame_ok h (lo, hi) (q, xs, e, ys)" and b: "hole (q, xs, e, ys) (lo, hi) = (lo', hi')"
    and l: "shape h lo' (Some (skey sep)) l" and r: "shape h (skey sep) hi' r"
    and ge: "lo' < skey sep" "minus_inf < skey sep" and ins: "inside lo' hi' (skey sep)"
  shows "shape (Suc h) lo hi (Nd q (xs @ (e, l) # (sep, r) # ys))"
proof -
  have so: "seps_ok lo hi (map fst xs @ e # map fst ys)" and kx: "kids (shape h) lo (Some (skey e)) xs"
    and ky: "kids (shape h) (case ys of [] \<Rightarrow> lo | (e', _) # _ \<Rightarrow> skey e') hi ys" using f by simp_all
  have lo': "lo' = (if xs = [] then lo else skey e)" and hi': "hi' = ubound hi ys" using b by (auto simp: hole_def)
  have e: "skey e < skey sep"
    using so ge lo' by (cases xs) (auto simp: seps_ok_def)
  have y: "skey sep < skey x" if "x \<in> set (map fst ys)" for x
  proof -
    obtain y0 u ys' where ys: "ys = (y0, u) # ys'" using \<open>x \<in> set (map fst ys)\<close> by (cases ys) auto
    have "skey sep < skey y0" using ins hi' ys by (simp add: inside_def ubound_def)
    moreover have "skey y0 \<le> skey x" using so \<open>x \<in> set (map fst ys)\<close> ys by (auto simp: seps_ok_def sorted_wrt_append)
    ultimately show ?thesis by simp
  qed
  have x: "skey z < skey sep" if "z \<in> set (map fst xs)" for z
  proof -
    have "skey z < skey e" using so \<open>z \<in> set (map fst xs)\<close> by (auto simp: seps_ok_def sorted_wrt_append)
    then show ?thesis using e by simp
  qed
  have sorted: "sorted_entries (map fst xs @ e # sep # map fst ys)"
    using so e x y by (auto simp: seps_ok_def sorted_wrt_append)
  have "lo \<le> lo'" using so lo' by (cases xs) (auto simp: seps_ok_def less_imp_le)
  then have "lo < skey sep" using ge(1) by simp
  moreover have "inside lo hi (skey sep)"
    using inside_trans [OF ins \<open>lo \<le> lo'\<close>, of hi] kids_lower(2) [OF so, of xs e l ys] hi' by (auto split: option.splits)
  ultimately have "seps_ok lo hi (map fst (xs @ (e, l) # (sep, r) # ys))"
    using so sorted by (cases xs) (auto simp: seps_ok_def)
  moreover have "kids (shape h) lo hi (xs @ (e, l) # (sep, r) # ys)"
    using kx ky l r lo' hi' by (cases ys) (auto simp: kids_middle ubound_def)
  ultimately show ?thesis by simp
qed

section \<open>Cutting a node\<close>

lemma split_shape:
  assumes s: "shape (Suc h) lo hi (Nd q (as @ (e, t) # bs))" and a: "as \<noteq> []"
  shows "shape (Suc h) lo (Some (skey e)) (Nd q as)"
    and "shape (Suc h) (skey e) hi (Nd q' ((minus_infinity_entry ch, t) # bs))"
    and "lo < skey e" "inside lo hi (skey e)" "minus_inf < skey e"
proof -
  have so: "seps_ok lo hi (map fst as @ e # map fst bs)" and k: "kids (shape h) lo hi (as @ (e, t) # bs)" using s by simp_all
  have sorted: "sorted_entries (map fst as @ e # map fst bs)" and first: "skey (fst (hd as)) = minus_inf"
    and tl: "\<And>x. x \<in> set (tl (map fst as @ e # map fst bs)) \<Longrightarrow> lo < skey x \<and> inside lo hi (skey x)"
    using so a by (auto simp: seps_ok_def hd_map hd_append)
  have e_in: "e \<in> set (tl (map fst as @ e # map fst bs))" using a by (cases as) auto
  show lo: "lo < skey e" and ins: "inside lo hi (skey e)" using tl [OF e_in] by simp_all
  have lt: "skey x < skey e" if "x \<in> set (map fst as)" for x using sorted that by (auto simp: sorted_wrt_append)
  then have "skey (fst (hd as)) < skey e" using a by (auto simp: hd_in_set)
  then show mi: "minus_inf < skey e" using first by simp
  note km = k [unfolded kids_middle]
  have "seps_ok lo (Some (skey e)) (map fst as)"
  proof -
    have "lo < skey x \<and> inside lo (Some (skey e)) (skey x)" if "x \<in> set (tl (map fst as))" for x
      using tl [of x] lt [of x] that a by (cases as) (auto simp: inside_def)
    then show ?thesis using sorted first a by (auto simp: seps_ok_def sorted_wrt_append hd_map)
  qed
  then show "shape (Suc h) lo (Some (skey e)) (Nd q as)" using km by simp
  have mk: "skey (minus_infinity_entry ch) = minus_inf" by (simp add: skey_def minus_infinity_entry_def minus_inf_def)
  have gt: "skey e < skey x" if "x \<in> set (map fst bs)" for x using sorted that by (auto simp: sorted_wrt_append)
  have "inside (skey e) hi (skey x)" if "x \<in> set (map fst bs)" for x
  proof -
    have "x \<in> set (tl (map fst as @ e # map fst bs))" using that a by (cases as) auto
    then show ?thesis using tl [of x] gt [OF that] by (auto simp: inside_def)
  qed
  moreover have "sorted_entries (minus_infinity_entry ch # map fst bs)"
    using sorted gt mi mk by (auto simp: sorted_wrt_append intro: less_trans)
  ultimately have "seps_ok (skey e) hi (map fst ((minus_infinity_entry ch, t) # bs))"
    using gt mk by (auto simp: seps_ok_def)
  moreover have "kids (shape h) (skey e) hi ((minus_infinity_entry ch, t) # bs)"
    using km a by (cases bs) (auto simp: ubound_def)
  ultimately show "shape (Suc h) (skey e) hi (Nd q' ((minus_infinity_entry ch, t) # bs))" by simp
qed

section \<open>Keys around the hole\<close>

lemma kids_flat_ge:
  "kids (shape h) lo hi cs \<Longrightarrow> (\<forall>e\<in>set (map fst (tl cs)). lo \<le> skey e) \<Longrightarrow> sorted_entries (map fst cs) \<Longrightarrow>
     x \<in> set (concat (map (\<lambda>(e, t). flat t) cs)) \<Longrightarrow> lo \<le> skey x"
proof (induction cs arbitrary: lo)
  case (Cons c cs)
  obtain e t where c: "c = (e, t)" by fastforce
  show ?case
  proof (cases "x \<in> set (flat t)")
    case True
    then show ?thesis using shape_sorted [of h lo "ubound hi cs" t] Cons.prems(1) c by (auto simp: inside_def)
  next
    case False
    then have m: "x \<in> set (concat (map (\<lambda>(e, t). flat t) cs))" using Cons.prems(4) c by auto
    then obtain e' t' cs' where cs: "cs = (e', t') # cs'" by (cases cs) auto
    have "skey e' \<le> skey x"
    proof (rule Cons.IH)
      show "kids (shape h) (skey e') hi cs" using Cons.prems(1) c cs by simp
      show "\<forall>e\<in>set (map fst (tl cs)). skey e' \<le> skey e" using Cons.prems(3) c cs by (auto simp: less_imp_le)
      show "sorted_entries (map fst cs)" using Cons.prems(3) by simp
    qed (rule m)
    moreover have "lo \<le> skey e'" using Cons.prems(2) cs by simp
    ultimately show ?thesis by simp
  qed
qed simp

lemma kids_flat_less:
  "kids (shape h) lo (Some u) cs \<Longrightarrow> (\<forall>e\<in>set (map fst (tl cs)). skey e \<le> u) \<Longrightarrow>
     x \<in> set (concat (map (\<lambda>(e, t). flat t) cs)) \<Longrightarrow> skey x < u"
proof (induction cs arbitrary: lo)
  case (Cons c cs)
  obtain e t where c: "c = (e, t)" by fastforce
  show ?case
  proof (cases "x \<in> set (flat t)")
    case True
    then have "inside lo (ubound (Some u) cs) (skey x)" using shape_sorted [of h lo "ubound (Some u) cs" t] Cons.prems(1) c by simp
    then show ?thesis using Cons.prems(2) by (cases cs) (auto simp: inside_def ubound_def)
  next
    case False
    then have m: "x \<in> set (concat (map (\<lambda>(e, t). flat t) cs))" using Cons.prems(3) c by auto
    then obtain e' t' cs' where cs: "cs = (e', t') # cs'" by (cases cs) auto
    show ?thesis using Cons.IH [of "skey e'"] Cons.prems(1,2) m c cs by simp
  qed
qed simp

lemma frame_inside:
  assumes f: "frame_ok h (lo, hi) (q, xs, e, ys)"
    and k: "inside (fst (hole (q, xs, e, ys) (lo, hi))) (snd (hole (q, xs, e, ys) (lo, hi))) k"
  shows "inside lo hi k"
    and "x \<in> set (concat (map (\<lambda>(e, t). flat t) xs)) \<Longrightarrow> skey x < k"
    and "x \<in> set (concat (map (\<lambda>(e, t). flat t) ys)) \<Longrightarrow> k < skey x"
proof -
  have so: "seps_ok lo hi (map fst (xs @ (e, Lf 0 []) # ys))" and kx: "kids (shape h) lo (Some (skey e)) xs"
    and ky: "kids (shape h) (case ys of [] \<Rightarrow> lo | (e', _) # _ \<Rightarrow> skey e') hi ys" using f by simp_all
  have k': "inside (if xs = [] then lo else skey e) (ubound hi ys) k" using k by (auto simp: hole_def split: if_splits)
  note kl = kids_lower [OF so refl]
  show "inside lo hi k" by (rule inside_trans [OF k' kl(1)]) (use kl(2) in \<open>auto split: option.splits\<close>)
  have sorted: "sorted_entries (map fst xs @ e # map fst ys)" using so by (simp add: seps_ok_def)
  show "skey x < k" if "x \<in> set (concat (map (\<lambda>(e, t). flat t) xs))"
  proof -
    have "\<forall>z\<in>set (map fst (tl xs)). skey z \<le> skey e"
      using sorted by (cases xs) (auto simp: sorted_wrt_append less_imp_le)
    then have l: "skey x < skey e" using kids_flat_less [OF kx _ that] by blast
    have "xs \<noteq> []" using that by auto
    then have "skey e \<le> k" using k' by (simp add: inside_def)
    with l show ?thesis by (rule less_le_trans)
  qed
  show "k < skey x" if m: "x \<in> set (concat (map (\<lambda>(e, t). flat t) ys))"
  proof -
    obtain e' t' ys' where ys: "ys = (e', t') # ys'" using m by (cases ys) auto
    have "skey e' \<le> skey x"
      using kids_flat_ge [of h "skey e'" hi ys x] ky ys sorted m by (auto simp: sorted_wrt_append less_imp_le)
    moreover have "k < skey e'" using k' ys by (simp add: inside_def ubound_def)
    ultimately show ?thesis using less_le_trans by blast
  qed
qed

lemma around_inside:
  assumes "ctx_ok h b c" and "inside (fst (bounds c b)) (snd (bounds c b)) k"
  shows "(\<forall>x\<in>set (fst (around flat c)). skey x < k) \<and> (\<forall>x\<in>set (snd (around flat c)). k < skey x)"
  using assms
proof (induction c arbitrary: h rule: rev_induct)
  case (snoc f c)
  obtain q xs e ys lo hi where f: "f = (q, xs, e, ys)" "bounds c b = (lo, hi)" by (metis prod.exhaust)
  have fo: "frame_ok h (lo, hi) (q, xs, e, ys)" and c: "ctx_ok (Suc h) b c" using snoc.prems(1) f by (simp_all add: ctx_ok_snoc)
  have k: "inside (fst (hole (q, xs, e, ys) (lo, hi))) (snd (hole (q, xs, e, ys) (lo, hi))) k"
    using snoc.prems(2) f by (simp add: bounds_snoc)
  note fi = frame_inside [OF fo k]
  have "inside (fst (bounds c b)) (snd (bounds c b)) k" using fi(1) f by simp
  from snoc.IH [OF c this] fi(2,3) show ?case unfolding f(1) around_snoc by (auto simp del: set_concat)
qed simp

section \<open>The leaves from left to right\<close>

fun leaves :: "bt \<Rightarrow> (nat \<times> entry list) list" where
  "leaves (Lf p es) = [(p, es)]"
| "leaves (Nd p cs) = concat (map (\<lambda>(e, t). leaves t) cs)"

lemma leaf_ids_leaves: "leaf_ids t = map fst (leaves t)"
proof (induction t)
  case (Nd p cs)
  have "leaf_ids t = map fst (leaves t)" if "(e, t) \<in> set cs" for e t using Nd.IH [OF that] by simp
  then have "map (\<lambda>(e, t). leaf_ids t) cs = map (map fst) (map (\<lambda>(e, t). leaves t) cs)" by auto
  then show ?case by (simp only: leaf_ids.simps leaves.simps map_concat)
qed simp

lemma flat_leaves: "flat t = concat (map snd (leaves t))"
proof (induction t)
  case (Nd p cs)
  have *: "flat t = concat (map snd (leaves t))" if "(e, t) \<in> set cs" for e t using Nd.IH [OF that] by simp
  have "concat (map (\<lambda>(e, t). flat t) ds) = concat (map snd (concat (map (\<lambda>(e, t). leaves t) ds)))" if "set ds \<subseteq> set cs" for ds
    using that * by (induction ds) auto
  from this [of cs] show ?case by simp
qed simp

lemma leaves_fill: "leaves (fill c t) = fst (around leaves c) @ leaves t @ snd (around leaves c)"
  by (induction leaves c rule: around.induct) auto

lemma around_leaves:
  "fst (around flat c) = concat (map snd (fst (around leaves c)))" "snd (around flat c) = concat (map snd (snd (around leaves c)))"
proof -
  have "concat (map (\<lambda>(e, t). flat t) ds) = concat (map snd (concat (map (\<lambda>(e, t). leaves t) ds)))" for ds :: "(entry \<times> bt) list"
    by (induction ds) (auto simp: flat_leaves)
  then show "fst (around flat c) = concat (map snd (fst (around leaves c)))" "snd (around flat c) = concat (map snd (snd (around leaves c)))"
    by (induction flat c rule: around.induct) simp_all
qed

text \<open>A run of leaves, each linked to the next one, the last one to no page.\<close>

fun leaf_run :: "(nat \<rightharpoonup> contents) \<Rightarrow> (nat \<times> entry list) list \<Rightarrow> bool" where
  "leaf_run v [] \<longleftrightarrow> True"
| "leaf_run v ((p, es) # ls) \<longleftrightarrow>
     v p = Some (node_contents True (case ls of [] \<Rightarrow> INVALID_PAGE_ID | (q, _) # _ \<Rightarrow> q) es) \<and>
     (\<forall>e\<in>set es. entry_ok True e) \<and> leaf_run v ls"

lemma leaf_run_append: "leaf_run v (xs @ ys) \<Longrightarrow> leaf_run v ys"
  by (induction xs) auto

lemma emb_leaves: "emb N v t \<Longrightarrow> (p, es) \<in> set (leaves t) \<Longrightarrow>
    (\<exists>nx. v p = Some (node_contents True nx es)) \<and> (\<forall>e\<in>set es. good_entry N True e)"
proof (induction t)
  case (Nd q cs)
  then obtain e t where "(e, t) \<in> set cs" "(p, es) \<in> set (leaves t)" by auto
  then show ?case using Nd.IH [of "(e, t)" t] Nd.prems(1) by fastforce
qed auto

lemma leaf_run_chain:
  "chain v BTREE_LEAF (map fst ls) INVALID_PAGE_ID \<Longrightarrow>
   (\<forall>(p, es)\<in>set ls. (\<exists>nx. v p = Some (node_contents True nx es)) \<and> (\<forall>e\<in>set es. entry_ok True e)) \<Longrightarrow> leaf_run v ls"
proof (induction ls)
  case (Cons l ls)
  obtain p es where l: "l = (p, es)" by fastforce
  have "v p = Some (node_contents True (case ls of [] \<Rightarrow> INVALID_PAGE_ID | (q, _) # _ \<Rightarrow> q) es)"
    using Cons.prems l by (cases ls) (auto simp: node_contents_def)
  then show ?case using Cons l by auto
qed simp

lemma leaf_run_tree:
  assumes "emb N v t" and "chain v BTREE_LEAF (leaf_ids t) INVALID_PAGE_ID"
  shows "leaf_run v (leaves t)"
  using assms emb_leaves [OF assms(1)] by (intro leaf_run_chain) (auto simp: leaf_ids_leaves good_entry_def)

section \<open>A key in a sorted list of entries\<close>

lemma skey_less_key: "skey e < (key, []) \<longleftrightarrow> e_key e < key"
  by (auto simp: skey_def less_prod_def)

lemma sorted_key_block:
  assumes "sorted_entries es"
  shows "takeWhile (\<lambda>e. e_key e = key) (dropWhile (\<lambda>e. e_key e < key) es) = filter (\<lambda>e. e_key e = key) es"
  using assms
proof (induction es)
  case (Cons e es)
  have le: "e_key e \<le> e_key x" if "x \<in> set es" for x
    using Cons.prems that by (auto simp: skey_def less_prod_def)
  show ?case
  proof (cases "e_key e < key")
    case True
    then show ?thesis using Cons by auto
  next
    case False
    show ?thesis
    proof (cases "e_key e = key")
      case True
      then have "dropWhile (\<lambda>e. e_key e < key) es = es" using le by (cases es) (auto simp: not_less)
      then show ?thesis using Cons True by auto
    next
      case ne: False
      then have "filter (\<lambda>e. e_key e = key) es = []" using le False by (force simp: filter_empty_conv)
      then show ?thesis using False ne by auto
    qed
  qed
qed simp

lemma drop_rank: "drop (rank es t) es = dropWhile (\<lambda>e. skey e < t) es"
  by (simp add: rank_def dropWhile_eq_drop)

lemma dropWhile_around:
  assumes "\<forall>x\<in>set as. f x" and "\<forall>x\<in>set bs. \<not> f x"
  shows "dropWhile f (as @ es @ bs) = dropWhile f es @ bs"
proof -
  have "dropWhile f bs = bs" using assms(2) by (cases bs) auto
  moreover have "dropWhile f (as @ es @ bs) = dropWhile f (es @ bs)" using assms(1) by simp
  ultimately show ?thesis by (cases "\<forall>x\<in>set es. f x") (auto simp: dropWhile_append dropWhile_eq_Nil_conv)
qed

lemma takeWhile_all_append: "\<forall>x\<in>set xs. f x \<Longrightarrow> takeWhile f (xs @ ys) = takeWhile f xs @ takeWhile f ys"
  by (induction xs) auto

end
