(* ===== verification/TreeOps.thy ===== *)
theory TreeOps
  imports TreeSplit
begin

text \<open>
  The operations of \<open>BPlusTree\<close> on the trees of \<open>TreeModel\<close>, over any page store: what a descent finds,
  what a split does to the tree around it, and from that searching, scanning, inserting and deleting.
\<close>

text \<open>\<open>is_tree N v root H t\<close>: the pages of \<open>v\<close> spell out the B+ tree \<open>t\<close> of height \<open>H + 1\<close>.\<close>

definition is_tree :: "nat \<Rightarrow> (nat \<rightharpoonup> contents) \<Rightarrow> nat \<Rightarrow> nat \<Rightarrow> bt \<Rightarrow> bool" where
  "is_tree N v root H t \<longleftrightarrow> shape H minus_inf None t \<and> emb N v t \<and> distinct (pids t) \<and> pid_of t = root \<and>
     chain v BTREE_LEAF (leaf_ids t) INVALID_PAGE_ID"

text \<open>The page that holds the root of a subtree.\<close>

fun node_page :: "nat \<Rightarrow> (nat \<rightharpoonup> contents) \<Rightarrow> bt \<Rightarrow> page \<Rightarrow> bool" where
  "node_page N v (Lf p es) pg \<longleftrightarrow> (\<exists>nx. v p = Some (node_contents True nx es) \<and> node_holds pg True nx es) \<and> page_id pg = p \<and> psize pg = N"
| "node_page N v (Nd p cs) pg \<longleftrightarrow> v p = Some (node_contents False INVALID_PAGE_ID (map fst cs)) \<and>
     node_holds pg False INVALID_PAGE_ID (map fst cs) \<and> page_id pg = p \<and> psize pg = N"

lemma good_entry_ok: "good_entry n leaf e \<Longrightarrow> entry_ok leaf e"
  by (simp add: good_entry_def)

declare descend_from.simps [simp del] leftmost_from.simps [simp del] height_from.simps [simp del]

context page_store
begin

section \<open>Reading and writing nodes\<close>

lemma read_node:
  assumes "room k s" and "view s p = Some (node_contents leaf nx es)" and "\<forall>e\<in>set es. entry_ok leaf e"
  shows "\<exists>s' pg. bt_node P p s = (s', Inr pg) \<and> node_holds pg leaf nx es \<and> page_id pg = p \<and> psize pg = N \<and> room k s' \<and> view s' = view s"
proof -
  from read_law [OF assms(1,2)] obtain s' pg where r: "io_read P p s = (s', Inr pg)" "page_holds pg (node_contents leaf nx es)"
    "page_id pg = p" "psize pg = N" "room k s'" "view s' = view s" by blast
  then have h: "node_holds pg leaf nx es" using assms(3) by (simp add: node_holds_def)
  then show ?thesis using r node_holdsD(8) [OF h] by (simp add: bt_node_def op_defs)
qed

lemma read_subtree:
  assumes "room k s" and "emb N (view s) t"
  shows "\<exists>s' pg. bt_node P (pid_of t) s = (s', Inr pg) \<and> node_page N (view s) t pg \<and> room k s' \<and> view s' = view s"
proof (cases t)
  case (Lf p es)
  then obtain nx where nx: "view s p = Some (node_contents True nx es)" and g: "\<forall>e\<in>set es. entry_ok True e"
    using assms(2) by (auto dest: good_entry_ok)
  from read_node [OF assms(1) this] show ?thesis using Lf nx by auto
next
  case (Nd p cs)
  then have v: "view s p = Some (node_contents False INVALID_PAGE_ID (map fst cs))" and g: "\<forall>e\<in>set (map fst cs). entry_ok False e"
    using assms(2) by (auto dest: good_entry_ok)
  from read_node [OF assms(1) v g] show ?thesis using Nd v by auto
qed

lemma write_node:
  assumes "room (Suc k) s" and "node_holds pg leaf nx es" and "psize pg = N" and "view s (page_id pg) \<noteq> None"
  shows "\<exists>s'. io_write P pg s = (s', Inr ()) \<and> room k s' \<and> view s' = (view s)(page_id pg \<mapsto> node_contents leaf nx es)"
proof -
  have "page_holds pg (node_contents leaf nx es)" using assms(2) by (simp add: node_holds_def)
  from write_law [OF assms(1) this assms(3,4)] show ?thesis by (simp add: node_contents_def)
qed

lemma alloc_node:
  assumes "room (Suc (Suc k)) s"
  shows "\<exists>s' pg. io_allocate P (if leaf then BTREE_LEAF else BTREE_INTERNAL) s = (s', Inr pg) \<and> node_new pg = Inr pg \<and>
    node_holds pg leaf INVALID_PAGE_ID [] \<and> psize pg = N \<and> view s (page_id pg) = None \<and> room k s' \<and>
    view s' = (view s)(page_id pg \<mapsto> node_contents leaf INVALID_PAGE_ID []) \<and> page_id pg < INVALID_PAGE_ID"
proof -
  let ?t = "if leaf then BTREE_LEAF else BTREE_INTERNAL"
  have "?t \<noteq> FREE" by simp
  from alloc_law [OF assms this] obtain s' pg where a: "io_allocate P ?t s = (s', Inr pg)" "page_holds pg (?t, INVALID_PAGE_ID, [])"
    "psize pg = N" "view s (page_id pg) = None" "room k s'" "view s' = (view s)(page_id pg \<mapsto> (?t, INVALID_PAGE_ID, []))"
    by blast
  have h: "node_holds pg leaf INVALID_PAGE_ID []" using a(2) by (simp add: node_holds_def node_contents_def)
  have "page_id pg < INVALID_PAGE_ID" using in_use [OF a(5), of "page_id pg"] a(6) by simp
  then show ?thesis using a h node_holdsD(8) [OF h] by (simp add: node_contents_def)
qed

section \<open>Descending\<close>

lemma descend_from_ok:
  assumes "room k s" and "shape h lo hi t" and "emb N (view s) t" and "search_target key rid = Inr tg" and "minus_inf \<le> tg"
    and "inside lo hi tg" and "h \<le> left" and "node_page N (view s) t pg"
  shows "\<exists>s' leaf c p es. descend_from P key rid left pg path s = (s', Inr (leaf, path @ path_of c)) \<and> t = fill c (Lf p es) \<and>
    length c = h \<and> node_page N (view s) (Lf p es) leaf \<and> inside (fst (bounds c (lo, hi))) (snd (bounds c (lo, hi))) tg \<and>
    room k s' \<and> view s' = view s"
  using assms
proof (induction h arbitrary: s lo hi t pg left path)
  case 0
  then obtain p es where t: "t = Lf p es" by (cases t) auto
  then have "is_leaf pg" using 0(8) node_holdsD(3) by auto
  then have "descend_from P key rid left pg path s = (s, Inr (pg, path @ path_of []))"
    by (simp add: descend_from.simps lift_res_def path_of_def)
  then show ?case using 0 t by (intro exI [of _ s] exI [of _ pg] exI [of _ "[]"] exI [of _ p] exI [of _ es]) simp
next
  case (Suc h)
  then obtain p cs where t: "t = Nd p cs" by (cases t) auto
  have so: "seps_ok lo hi (map fst cs)" and ki: "kids (shape h) lo hi cs" using Suc.prems(2) t by simp_all
  have hold: "node_holds pg False INVALID_PAGE_ID (map fst cs)" "page_id pg = p" using Suc.prems(8) t by simp_all
  obtain left' where left: "left = Suc left'" using Suc.prems(7) by (cases left) auto
  from child_split [OF so Suc.prems(5)] obtain xs e u ys where cs: "cs = xs @ (e, u) # ys" "length xs = child_rank (map fst cs) tg"
    "skey e \<le> tg" "case ys of [] \<Rightarrow> True | (e', _) # _ \<Rightarrow> tg < skey e'" by blast
  have ci: "child_index_for pg key rid = Inr (length xs)"
    using child_index_for_ok [OF hold(1) _ Suc.prems(4)] so cs(1,2) by (auto simp: seps_ok_def)
  have en: "entry_at pg (length xs) = Inr e" using entry_at_ok [OF hold(1), of "length xs"] cs(1) by (simp add: nth_append)
  have u: "emb N (view s) u" "e_child e = pid_of u" using Suc.prems(3) t cs(1) by auto
  from read_subtree [OF Suc.prems(1) u(1)] obtain s1 pu where 1: "bt_node P (pid_of u) s = (s1, Inr pu)"
    "node_page N (view s) u pu" "room k s1" "view s1 = view s" by blast
  let ?f = "(p, xs, e, ys)"
  let ?lo = "fst (hole ?f (lo, hi))" and ?hi = "snd (hole ?f (lo, hi))"
  have sh: "shape h ?lo ?hi u" using Suc.prems(2) shape_frame [of h lo hi p xs e u ys] t cs(1) by simp
  have ins: "inside ?lo ?hi tg" by (rule inside_hole [OF Suc.prems(6) cs(3,4)])
  have IHp: "emb N (view s1) u" "h \<le> left'" "node_page N (view s1) u pu" using u(1) 1(2,4) Suc.prems(7) left by simp_all
  from Suc.IH [OF 1(3) sh IHp(1) Suc.prems(4,5) ins IHp(2,3), of "path @ [(p, length xs)]"] obtain s2 leaf c q es where
    2: "descend_from P key rid left' pu (path @ [(p, length xs)]) s1 = (s2, Inr (leaf, (path @ [(p, length xs)]) @ path_of c))"
    "u = fill c (Lf q es)" "length c = h" "node_page N (view s1) (Lf q es) leaf"
    "inside (fst (bounds c (?lo, ?hi))) (snd (bounds c (?lo, ?hi))) tg" "room k s2" "view s2 = view s1" by blast
  have nl: "\<not> is_leaf pg" using node_holdsD(3) [OF hold(1)] by simp
  have "descend_from P key rid left pg path s = (s2, Inr (leaf, path @ path_of (?f # c)))"
    using 1(1) 2(1) u(2) ci en hold(2) nl left
    by (subst descend_from.simps) (simp add: bind_op_def [of "bt_node P (pid_of u)"] path_of_def)
  moreover have "t = fill (?f # c) (Lf q es)" "length (?f # c) = Suc h" using 2(2,3) t cs(1) by simp_all
  moreover have "inside (fst (bounds (?f # c) (lo, hi))) (snd (bounds (?f # c) (lo, hi))) tg" using 2(5) by simp
  ultimately show ?case using 2(4,6,7) unfolding 1(4) by blast
qed

lemma descend_ok:
  assumes "room k s" and t: "is_tree N (view s) root H t" and "search_target key rid = Inr tg" and "minus_inf \<le> tg" and "H \<le> MAX_DEPTH"
  shows "\<exists>s' leaf c p es. descend P root key rid s = (s', Inr (leaf, path_of c)) \<and> t = fill c (Lf p es) \<and>
    length c = H \<and> node_page N (view s) (Lf p es) leaf \<and> inside (fst (bounds c (minus_inf, None))) (snd (bounds c (minus_inf, None))) tg \<and>
    room k s' \<and> view s' = view s"
proof -
  have e: "emb N (view s) t" "shape H minus_inf None t" "pid_of t = root" using t by (simp_all add: is_tree_def)
  from read_subtree [OF assms(1) e(1)] obtain s1 pg where 1: "bt_node P root s = (s1, Inr pg)" "node_page N (view s) t pg"
    "room k s1" "view s1 = view s" using e(3) by auto
  have "inside minus_inf None tg" using assms(4) by (simp add: inside_def)
  have "emb N (view s1) t" "node_page N (view s1) t pg" using e(1) 1(2,4) by simp_all
  from descend_from_ok [OF 1(3) e(2) this(1) assms(3,4) \<open>inside minus_inf None tg\<close> assms(5) this(2), of "[]"]
  show ?thesis using 1(1) unfolding 1(4) by (simp add: descend_def bind_op_def [of "bt_node P root"])
qed

end

section \<open>Searching\<close>

definition key_row :: "entry \<Rightarrow> bytes \<times> record_id" where
  "key_row e = (e_key e, e_rid e)"

declare collect_matches.simps [simp del] scan_leaf.simps [simp del]

lemma collect_matches_ok:
  assumes "node_holds leaf True nx es"
  shows "collect_matches leaf key i =
    Inr (map e_rid (takeWhile (\<lambda>e. e_key e = key) (drop i es)), \<forall>e\<in>set (drop i es). e_key e = key)"
proof (induction "length es - i" arbitrary: i)
  case 0
  then show ?case using node_holdsD(5) [OF assms] by (simp add: collect_matches.simps)
next
  case (Suc n)
  then have i: "i < length es" by simp
  have d: "drop i es = es ! i # drop (Suc i) es" by (rule Cons_nth_drop_Suc [OF i, symmetric])
  show ?case using Suc.hyps(1) [of "Suc i"] Suc.hyps(2) i node_holdsD(5) [OF assms] entry_at_ok [OF assms i]
    unfolding d by (subst collect_matches.simps) simp
qed

text \<open>What a range scan leaves out: the keys at an excluded lower end, and those above the upper end.\<close>

definition skipped :: "key_range \<Rightarrow> entry \<Rightarrow> bool" where
  "skipped kr e \<longleftrightarrow> kr_low kr = Some (e_key e) \<and> \<not> kr_include_low kr"

definition beyond :: "key_range \<Rightarrow> entry \<Rightarrow> bool" where
  "beyond kr e \<longleftrightarrow> (case kr_high kr of None \<Rightarrow> False | Some high \<Rightarrow> e_key e > high \<or> \<not> kr_include_high kr \<and> e_key e = high)"

definition in_range :: "key_range \<Rightarrow> entry \<Rightarrow> bool" where
  "in_range kr e \<longleftrightarrow>
     (case kr_low kr of None \<Rightarrow> True | Some low \<Rightarrow> if kr_include_low kr then low \<le> e_key e else low < e_key e) \<and>
     (case kr_high kr of None \<Rightarrow> True | Some high \<Rightarrow> if kr_include_high kr then e_key e \<le> high else e_key e < high)"

lemma in_range_iff: "in_range kr e \<longleftrightarrow> \<not> skipped kr e \<and> \<not> beyond kr e \<and> (\<forall>low. kr_low kr = Some low \<longrightarrow> low \<le> e_key e)"
  by (auto simp: in_range_def skipped_def beyond_def not_less split: option.splits)

lemma scan_leaf_ok:
  assumes "node_holds leaf True nx es"
  shows "scan_leaf kr leaf i =
    Inr (map key_row (takeWhile (\<lambda>e. \<not> beyond kr e) (filter (\<lambda>e. \<not> skipped kr e) (drop i es))),
      \<exists>e\<in>set (drop i es). \<not> skipped kr e \<and> beyond kr e)"
proof (induction "length es - i" arbitrary: i)
  case 0
  then show ?case using node_holdsD(5) [OF assms] by (simp add: scan_leaf.simps)
next
  case (Suc n)
  then have i: "i < length es" by simp
  have d: "drop i es = es ! i # drop (Suc i) es" by (rule Cons_nth_drop_Suc [OF i, symmetric])
  have "scan_leaf kr leaf i = (if skipped kr (es ! i) then scan_leaf kr leaf (Suc i) else if beyond kr (es ! i) then Inr ([], True)
      else bind_res (scan_leaf kr leaf (Suc i)) (\<lambda>(rs, stop). Inr (key_row (es ! i) # rs, stop)))"
    using i node_holdsD(5) [OF assms] entry_at_ok [OF assms i]
    by (subst scan_leaf.simps) (auto simp: skipped_def beyond_def key_row_def)
  then show ?case using Suc.hyps(1) [of "Suc i"] Suc.hyps(2) unfolding d by simp
qed

lemma sorted_beyond:
  assumes "sorted_entries es"
  shows "takeWhile (\<lambda>e. \<not> beyond kr e) es = filter (\<lambda>e. \<not> beyond kr e) es"
  using assms
proof (induction es)
  case (Cons e es)
  have "beyond kr x" if "beyond kr e" "x \<in> set es" for x
  proof -
    have "e_key e \<le> e_key x" using Cons.prems that(2) by (auto simp: skey_def less_prod_def)
    then show ?thesis using that(1) by (auto simp: beyond_def split: option.splits)
  qed
  then show ?case using Cons by (auto simp: filter_empty_conv)
qed simp

context page_store
begin

lemma leaf_page_link:
  assumes "leaf_run v ((p, es) # ls)" and "node_page N v (Lf p es) pg"
  shows "node_holds pg True (case ls of [] \<Rightarrow> INVALID_PAGE_ID | (q, _) # _ \<Rightarrow> q) es"
    "next_leaf_id pg = (case ls of [] \<Rightarrow> INVALID_PAGE_ID | (q, _) # _ \<Rightarrow> q)"
proof -
  let ?nx = "case ls of [] \<Rightarrow> INVALID_PAGE_ID | (q, _) # _ \<Rightarrow> q"
  have "v p = Some (node_contents True ?nx es)" using assms(1) by simp
  then show h: "node_holds pg True ?nx es" using assms(2) by (auto simp: node_contents_def)
  show "next_leaf_id pg = ?nx" using node_holdsD(7) [OF h] by simp
qed

lemma read_next_leaf:
  assumes "room k s" and "leaf_run (view s) ((q, es) # ls)"
  shows "q \<noteq> INVALID_PAGE_ID" and "\<exists>s' pg. bt_node P q s = (s', Inr pg) \<and> node_page N (view s) (Lf q es) pg \<and> room k s' \<and> view s' = view s"
proof -
  obtain nx where v: "view s q = Some (node_contents True nx es)" and es: "\<forall>e\<in>set es. entry_ok True e" using assms(2) by auto
  show "q \<noteq> INVALID_PAGE_ID" using in_use [OF assms(1), of q] v by auto
  from read_node [OF assms(1) v es] show "\<exists>s' pg. bt_node P q s = (s', Inr pg) \<and> node_page N (view s) (Lf q es) pg \<and> room k s' \<and> view s' = view s"
    using v by auto
qed

lemma search_from_ok:
  assumes "room k s" and "leaf_run (view s) ((p, es) # ls)" and "node_page N (view s) (Lf p es) pg"
  shows "\<exists>s'. search_from P key pg i s =
      Some (s', Inr (map e_rid (takeWhile (\<lambda>e. e_key e = key) (drop i es @ concat (map snd ls))))) \<and> room k s' \<and> view s' = view s"
  using assms
proof (induction ls arbitrary: p es pg i s)
  case Nil
  note l = leaf_page_link [OF Nil.prems(2,3)]
  show ?case using Nil.prems(1) l(2) collect_matches_ok [OF l(1)] by (simp add: search_from.simps)
next
  case (Cons l ls)
  obtain q es' where l: "l = (q, es')" by fastforce
  note lk = leaf_page_link [OF Cons.prems(2,3)]
  note c = collect_matches_ok [OF lk(1), of key i]
  have run: "leaf_run (view s) ((q, es') # ls)" using Cons.prems(2) l by simp
  note rn = read_next_leaf [OF Cons.prems(1) run]
  from rn(2) obtain s1 pg' where 1: "bt_node P q s = (s1, Inr pg')" "node_page N (view s) (Lf q es') pg'" "room k s1" "view s1 = view s" by blast
  show ?case
  proof (cases "\<forall>e\<in>set (drop i es). e_key e = key")
    case True
    from Cons.IH [OF 1(3), of q es' pg' 0] run 1(2,4) obtain s2 where
      2: "search_from P key pg' 0 s1 = Some (s2, Inr (map e_rid (takeWhile (\<lambda>e. e_key e = key) (drop 0 es' @ concat (map snd ls)))))"
      "room k s2" "view s2 = view s" by auto
    have "search_from P key pg i s =
        Some (s2, Inr (map e_rid (takeWhile (\<lambda>e. e_key e = key) (drop i es) @ takeWhile (\<lambda>e. e_key e = key) (es' @ concat (map snd ls)))))"
      using True c lk(2) l rn(1) 1(1) 2(1) by (subst search_from.simps) simp
    moreover have "takeWhile (\<lambda>e. e_key e = key) (drop i es @ concat (map snd (l # ls))) =
        takeWhile (\<lambda>e. e_key e = key) (drop i es) @ takeWhile (\<lambda>e. e_key e = key) (es' @ concat (map snd ls))"
      using takeWhile_all_append [OF True] l by simp
    ultimately show ?thesis using 2(2,3) by simp
  next
    case False
    then have "takeWhile (\<lambda>e. e_key e = key) (drop i es @ concat (map snd (l # ls))) = takeWhile (\<lambda>e. e_key e = key) (drop i es)"
      by (auto simp: takeWhile_append1)
    moreover have "collect_matches pg key i = Inr (map e_rid (takeWhile (\<lambda>e. e_key e = key) (drop i es)), False)" using c False by simp
    ultimately show ?thesis using Cons.prems(1) by (subst search_from.simps) simp
  qed
qed

lemma range_from_ok:
  assumes "room k s" and "leaf_run (view s) ((p, es) # ls)" and "node_page N (view s) (Lf p es) pg"
  shows "\<exists>s'. range_from P kr pg i s = Some (s', Inr (map key_row (takeWhile (\<lambda>e. \<not> beyond kr e)
      (filter (\<lambda>e. \<not> skipped kr e) (drop i es @ concat (map snd ls)))))) \<and> room k s' \<and> view s' = view s"
  using assms
proof (induction ls arbitrary: p es pg i s)
  case Nil
  note l = leaf_page_link [OF Nil.prems(2,3)]
  show ?case using Nil.prems(1) l(2) scan_leaf_ok [OF l(1)] by (simp add: range_from.simps)
next
  case (Cons l ls)
  let ?f = "filter (\<lambda>e. \<not> skipped kr e)" and ?t = "takeWhile (\<lambda>e. \<not> beyond kr e)"
  obtain q es' where l: "l = (q, es')" by fastforce
  note lk = leaf_page_link [OF Cons.prems(2,3)]
  note c = scan_leaf_ok [OF lk(1), of kr i]
  have run: "leaf_run (view s) ((q, es') # ls)" using Cons.prems(2) l by simp
  note rn = read_next_leaf [OF Cons.prems(1) run]
  from rn(2) obtain s1 pg' where 1: "bt_node P q s = (s1, Inr pg')" "node_page N (view s) (Lf q es') pg'" "room k s1" "view s1 = view s" by blast
  show ?case
  proof (cases "\<exists>e\<in>set (drop i es). \<not> skipped kr e \<and> beyond kr e")
    case False
    from Cons.IH [OF 1(3), of q es' pg' 0] run 1(2,4) obtain s2 where
      2: "range_from P kr pg' 0 s1 = Some (s2, Inr (map key_row (?t (?f (drop 0 es' @ concat (map snd ls))))))"
      "room k s2" "view s2 = view s" by auto
    have "range_from P kr pg i s = Some (s2, Inr (map key_row (?t (?f (drop i es)) @ ?t (?f (es' @ concat (map snd ls))))))"
    proof -
      have "scan_leaf kr pg i = Inr (map key_row (?t (?f (drop i es))), False)" using c False by simp
      then show ?thesis using lk(2) l rn(1) 1(1) 2(1) by (subst range_from.simps) simp
    qed
    moreover have "?t (?f (drop i es @ concat (map snd (l # ls)))) = ?t (?f (drop i es)) @ ?t (?f (es' @ concat (map snd ls)))"
    proof -
      have "\<forall>e\<in>set (?f (drop i es)). \<not> beyond kr e" using False by auto
      from takeWhile_all_append [OF this] show ?thesis using l by simp
    qed
    ultimately show ?thesis using 2(2,3) by simp
  next
    case True
    then obtain e where "e \<in> set (?f (drop i es))" "\<not> \<not> beyond kr e" by auto
    then have "?t (?f (drop i es @ concat (map snd (l # ls)))) = ?t (?f (drop i es))"
      unfolding filter_append by (rule takeWhile_append1)
    moreover have "scan_leaf kr pg i = Inr (map key_row (?t (?f (drop i es))), True)" using c True by simp
    ultimately show ?thesis using Cons.prems(1) by (subst range_from.simps) simp
  qed
qed

end

section \<open>What search and range scan return\<close>

lemma tree_hole:
  assumes t: "is_tree N v root H (fill c (Lf p es))" and c: "length c = H"
    and ins: "inside (fst (bounds c (minus_inf, None))) (snd (bounds c (minus_inf, None))) tg"
  shows "ctx_ok 0 (minus_inf, None) c" and "sorted_entries es"
    and "shape 0 (fst (bounds c (minus_inf, None))) (snd (bounds c (minus_inf, None))) (Lf p es)"
    and "leaf_run v ((p, es) # snd (around leaves c))"
    and "drop (rank es tg) es @ concat (map snd (snd (around leaves c))) = dropWhile (\<lambda>e. skey e < tg) (flat (fill c (Lf p es)))"
proof -
  have "shape (length c + 0) (fst (minus_inf, None)) (snd (minus_inf, None)) (fill c (Lf p es))"
    using t c by (simp add: is_tree_def)
  then show co: "ctx_ok 0 (minus_inf, None) c"
    and sh: "shape 0 (fst (bounds c (minus_inf, None))) (snd (bounds c (minus_inf, None))) (Lf p es)"
    using shape_fill [of c 0 "(minus_inf, None)" "Lf p es"] by blast+
  then show "sorted_entries es" by simp
  have "leaf_run v (leaves (fill c (Lf p es)))" using t by (intro leaf_run_tree) (auto simp: is_tree_def)
  then show "leaf_run v ((p, es) # snd (around leaves c))"
    unfolding leaves_fill leaves.simps append_Cons append_Nil by (rule leaf_run_append)
  have "\<forall>x\<in>set (fst (around flat c)). skey x < tg" "\<forall>x\<in>set (snd (around flat c)). \<not> skey x < tg"
    using around_inside [OF co ins] by (auto simp: not_less less_imp_le)
  from dropWhile_around [OF this, of es]
  show "drop (rank es tg) es @ concat (map snd (snd (around leaves c))) = dropWhile (\<lambda>e. skey e < tg) (flat (fill c (Lf p es)))"
    by (simp add: flat_fill drop_rank around_leaves(2))
qed

lemma minus_inf_below: "MINUS_INFINITY < key \<Longrightarrow> minus_inf < (key, r)"
  by (simp add: minus_inf_def less_prod_def)

context page_store
begin

lemma locate_key:
  assumes "room k s" and t: "is_tree N (view s) root H t" and key: "MINUS_INFINITY < key" and "H \<le> MAX_DEPTH"
  shows "\<exists>s' leaf p es ls i. bind_op (descend P root key None) (\<lambda>(leaf, _).
        bind_op (lift_res (lower_bound leaf key None)) (\<lambda>i. lift_res (Inr (leaf, i)))) s = (s', Inr (leaf, i)) \<and>
      node_page N (view s') (Lf p es) leaf \<and> leaf_run (view s') ((p, es) # ls) \<and>
      drop i es @ concat (map snd ls) = dropWhile (\<lambda>e. e_key e < key) (flat t) \<and> room k s' \<and> view s' = view s"
proof -
  have tg: "search_target key None = Inr (key, [])" by (simp add: search_target_def)
  have mi: "minus_inf \<le> (key, [])" using minus_inf_below [OF key] by (rule less_imp_le)
  from descend_ok [OF assms(1) t tg mi assms(4)] obtain s' leaf c p es where
    d: "descend P root key None s = (s', Inr (leaf, path_of c))" "t = fill c (Lf p es)" "length c = H"
    "node_page N (view s) (Lf p es) leaf"
    "inside (fst (bounds c (minus_inf, None))) (snd (bounds c (minus_inf, None))) (key, [])" "room k s'" "view s' = view s" by blast
  note th = tree_hole [OF t [unfolded d(2)] d(3,5)]
  obtain nx where "node_holds leaf True nx es" using d(4) by auto
  from lower_bound_ok [OF this th(2) tg] have "lower_bound leaf key None = Inr (rank es (key, []))" .
  then have "bind_op (descend P root key None) (\<lambda>(leaf, _).
        bind_op (lift_res (lower_bound leaf key None)) (\<lambda>i. lift_res (Inr (leaf, i)))) s = (s', Inr (leaf, rank es (key, [])))"
    using d(1) by (simp add: bind_op_def lift_res_def)
  moreover have "node_page N (view s') (Lf p es) leaf" "leaf_run (view s') ((p, es) # snd (around leaves c))"
    using d(4) th(4) unfolding d(7) .
  moreover have "drop (rank es (key, [])) es @ concat (map snd (snd (around leaves c))) = dropWhile (\<lambda>e. e_key e < key) (flat t)"
    using th(5) unfolding d(2) skey_less_key .
  ultimately show ?thesis using d(6,7) by blast
qed

lemma is_tree_sorted: "is_tree N v root H t \<Longrightarrow> sorted_entries (flat t)"
  unfolding is_tree_def using shape_sorted by blast

lemma bt_search_ok:
  assumes "room k s" and t: "is_tree N (view s) (bt_root T) H t" and "MINUS_INFINITY < key" and "H \<le> MAX_DEPTH"
  shows "\<exists>s'. bt_search P T key s = Some (s', Inr (map e_rid (filter (\<lambda>e. e_key e = key) (flat t)))) \<and> room k s' \<and> view s' = view s"
proof -
  from locate_key [OF assms] obtain s1 leaf p es ls i where
    l: "bind_op (descend P (bt_root T) key None) (\<lambda>(leaf, _).
        bind_op (lift_res (lower_bound leaf key None)) (\<lambda>i. lift_res (Inr (leaf, i)))) s = (s1, Inr (leaf, i))"
    "node_page N (view s1) (Lf p es) leaf" "leaf_run (view s1) ((p, es) # ls)"
    "drop i es @ concat (map snd ls) = dropWhile (\<lambda>e. e_key e < key) (flat t)" "room k s1" "view s1 = view s" by blast
  from search_from_ok [OF l(5,3,2), of key i] show ?thesis
    unfolding l(4) sorted_key_block [OF is_tree_sorted [OF t]] using l(1,6) by (simp add: bt_search_def)
qed

lemma bt_contains_ok:
  assumes "room k s" and "is_tree N (view s) (bt_root T) H t" and "MINUS_INFINITY < key" and "H \<le> MAX_DEPTH"
  shows "\<exists>s'. bt_contains P T key s = Some (s', Inr (key \<in> e_key ` set (flat t))) \<and> room k s' \<and> view s' = view s"
proof -
  have "filter (\<lambda>e. e_key e = key) (flat t) \<noteq> [] \<longleftrightarrow> key \<in> e_key ` set (flat t)" by (auto simp: filter_empty_conv)
  then show ?thesis using bt_search_ok [OF assms] by (auto simp: bt_contains_def)
qed

lemma leftmost_from_ok:
  assumes "room k s" and "shape h lo hi t" and "emb N (view s) t" and "h \<le> left" and "node_page N (view s) t pg"
  shows "\<exists>s' leaf p es ls. leftmost_from P left pg s = (s', Inr leaf) \<and> leaves t = (p, es) # ls \<and>
    node_page N (view s') (Lf p es) leaf \<and> room k s' \<and> view s' = view s"
  using assms
proof (induction h arbitrary: s lo hi t pg left)
  case 0
  then obtain p es where t: "t = Lf p es" by (cases t) auto
  then have "is_leaf pg" using 0(5) node_holdsD(3) by auto
  then show ?case using 0 t by (intro exI [of _ s] exI [of _ pg]) (simp add: leftmost_from.simps lift_res_def)
next
  case (Suc h)
  then obtain p cs where t: "t = Nd p cs" by (cases t) auto
  obtain e u ys where cs: "cs = (e, u) # ys" using Suc.prems(2) t by (cases cs) (auto simp: seps_ok_def)
  have sh: "shape h lo (ubound hi ys) u" using Suc.prems(2) t cs by simp
  have hold: "node_holds pg False INVALID_PAGE_ID (map fst cs)" using Suc.prems(5) t by simp
  have en: "entry_at pg 0 = Inr e" using entry_at_ok [OF hold, of 0] cs by simp
  obtain left' where left: "left = Suc left'" using Suc.prems(4) by (cases left) auto
  have u: "emb N (view s) u" "e_child e = pid_of u" using Suc.prems(3) t cs by auto
  from read_subtree [OF Suc.prems(1) u(1)] obtain s1 pu where 1: "bt_node P (pid_of u) s = (s1, Inr pu)"
    "node_page N (view s) u pu" "room k s1" "view s1 = view s" by blast
  have "emb N (view s1) u" "h \<le> left'" "node_page N (view s1) u pu" using u(1) 1(2,4) Suc.prems(4) left by simp_all
  from Suc.IH [OF 1(3) sh this] obtain s2 leaf q es ls where 2: "leftmost_from P left' pu s1 = (s2, Inr leaf)" "leaves u = (q, es) # ls"
    "node_page N (view s2) (Lf q es) leaf" "room k s2" "view s2 = view s1" by blast
  have "leftmost_from P left pg s = (s2, Inr leaf)"
    using 1(1) 2(1) u(2) en left node_holdsD(3) [OF hold]
    by (subst leftmost_from.simps) (simp add: bind_op_def [of "bt_node P (pid_of u)"])
  then show ?case using 2 1(4) t cs by (intro exI [of _ s2] exI [of _ leaf]) simp
qed

lemma bt_range_scan_ok:
  assumes "room k s" and t: "is_tree N (view s) (bt_root T) H t" and low: "\<And>low. kr_low kr = Some low \<Longrightarrow> MINUS_INFINITY < low" and "H \<le> MAX_DEPTH"
  shows "\<exists>s'. bt_range_scan P T kr s = Some (s', Inr (map key_row (filter (in_range kr) (flat t)))) \<and> room k s' \<and> view s' = view s"
proof -
  let ?start = "case kr_low kr of
      None \<Rightarrow> bind_op (leftmost_leaf P (bt_root T)) (\<lambda>leaf. lift_res (Inr (leaf, 0)))
    | Some low \<Rightarrow> bind_op (descend P (bt_root T) low None) (\<lambda>(leaf, _).
        bind_op (lift_res (lower_bound leaf low None)) (\<lambda>i. lift_res (Inr (leaf, i))))"
  let ?below = "\<lambda>e. case kr_low kr of None \<Rightarrow> False | Some low \<Rightarrow> e_key e < low"
  have "\<exists>s1 leaf p es ls i. ?start s = (s1, Inr (leaf, i)) \<and> node_page N (view s1) (Lf p es) leaf \<and> leaf_run (view s1) ((p, es) # ls) \<and>
      drop i es @ concat (map snd ls) = dropWhile ?below (flat t) \<and> room k s1 \<and> view s1 = view s"
  proof (cases "kr_low kr")
    case None
    have e: "emb N (view s) t" "shape H minus_inf None t" "pid_of t = bt_root T" using t by (simp_all add: is_tree_def)
    from read_subtree [OF assms(1) e(1)] obtain s1 pg where 1: "bt_node P (bt_root T) s = (s1, Inr pg)" "node_page N (view s) t pg"
      "room k s1" "view s1 = view s" using e(3) by auto
    have "emb N (view s1) t" "node_page N (view s1) t pg" using e(1) 1(2,4) by simp_all
    from leftmost_from_ok [OF 1(3) e(2) this(1) assms(4) this(2)] obtain s2 leaf p es ls where
      2: "leftmost_from P MAX_DEPTH pg s1 = (s2, Inr leaf)" "leaves t = (p, es) # ls" "node_page N (view s2) (Lf p es) leaf"
      "room k s2" "view s2 = view s1" by blast
    have "leaf_run (view s) (leaves t)" using t by (intro leaf_run_tree) (auto simp: is_tree_def)
    moreover have "?start s = (s2, Inr (leaf, 0))" using None 1(1) 2(1) by (simp add: leftmost_leaf_def op_defs)
    moreover have "flat t = es @ concat (map snd ls)" using 2(2) by (simp add: flat_leaves)
    moreover have "dropWhile (\<lambda>e. False) es = es" for es :: "entry list" by (cases es) auto
    ultimately show ?thesis using None 1(4) 2
      by (intro exI [of _ s2] exI [of _ leaf] exI [of _ p] exI [of _ es] exI [of _ ls] exI [of _ 0]) simp
  next
    case (Some l)
    from locate_key [OF assms(1) t low [OF Some] assms(4)] show ?thesis unfolding Some option.case by blast
  qed
  then obtain s1 leaf p es ls i where l: "?start s = (s1, Inr (leaf, i))"
    "node_page N (view s1) (Lf p es) leaf" "leaf_run (view s1) ((p, es) # ls)"
    "drop i es @ concat (map snd ls) = dropWhile ?below (flat t)" "room k s1" "view s1 = view s" by blast
  have so: "sorted_entries (flat t)" by (rule is_tree_sorted [OF t])
  have key_le: "e_key a \<le> e_key b" if "skey a < skey b" for a b using that by (auto simp: skey_def less_prod_def)
  have "dropWhile ?below es = filter (\<lambda>e. \<not> ?below e) es" if "sorted_entries es" for es
    using that
  proof (induction es)
    case (Cons e es)
    show ?case
    proof (cases "?below e")
      case True
      then show ?thesis using Cons by simp
    next
      case False
      then have "\<forall>x\<in>set (e # es). \<not> ?below x" using Cons.prems key_le by (fastforce split: option.splits)
      then show ?thesis using False by (simp add: filter_id_conv)
    qed
  qed simp
  then have d: "dropWhile ?below (flat t) = filter (\<lambda>e. \<not> ?below e) (flat t)" using so .
  have so': "sorted_entries (filter (\<lambda>e. \<not> skipped kr e) (filter (\<lambda>e. \<not> ?below e) (flat t)))"
    using so by (intro sorted_wrt_filter)
  have "takeWhile (\<lambda>e. \<not> beyond kr e) (filter (\<lambda>e. \<not> skipped kr e) (dropWhile ?below (flat t))) = filter (in_range kr) (flat t)"
    unfolding d sorted_beyond [OF so'] unfolding filter_filter
    by (intro filter_cong refl) (auto simp: in_range_iff not_less split: option.splits)
  with range_from_ok [OF l(5,3,2), of kr i] show ?thesis
    unfolding l(4) using l(1,6) by (simp add: bt_range_scan_def)
qed

lemma bt_count_ok:
  assumes "room k s" and "is_tree N (view s) (bt_root T) H t" and "H \<le> MAX_DEPTH"
  shows "\<exists>s'. bt_count P T s = Some (s', Inr (length (flat t))) \<and> room k s' \<and> view s' = view s"
proof -
  have "filter (in_range full_range) (flat t) = flat t" by (simp add: in_range_def filter_id_conv)
  then show ?thesis using bt_range_scan_ok [OF assms(1,2), of full_range] assms(3) by (auto simp: bt_count_def)
qed

end

end
