(* ===== verification/TreeUpdate.thy ===== *)
theory TreeUpdate
  imports TreeOps
begin

text \<open>
  Insertion and deletion. A split leaves the tree with a separator to place: \<open>pending\<close> describes that
  state, the parent either takes the separator, or is split itself and the state is pending one level up,
  or the path is used up and the tree grows a root.
\<close>

section \<open>Pages of a tree\<close>

lemma emb_used: "emb N v t \<Longrightarrow> q \<in> set (pids t) \<Longrightarrow> v q \<noteq> None"
proof (induction t)
  case (Nd p cs)
  show ?case
  proof (cases "q = p")
    case False
    then obtain e t where "(e, t) \<in> set cs" "q \<in> set (pids t)" using Nd.prems(2) by auto
    then show ?thesis using Nd.IH [of "(e, t)" t] Nd.prems(1) by fastforce
  qed (use Nd.prems in auto)
qed (auto simp: node_contents_def)

lemma cemb_used: "cemb N v p c \<Longrightarrow> q \<in> set (cpids c) \<Longrightarrow> v q \<noteq> None"
proof (induction c)
  case (Cons f c)
  obtain q' xs e ys where f: "f = (q', xs, e, ys)" by (metis prod.exhaust)
  consider "q = q'" | a t where "(a, t) \<in> set (xs @ ys)" "q \<in> set (pids t)" | "q \<in> set (cpids c)"
    using Cons.prems(2) f by auto
  then show ?case
  proof cases
    case 2
    then have "emb N v t" using Cons.prems(1) f by fastforce
    then show ?thesis using emb_used 2(2) by blast
  qed (use Cons f in auto)
qed simp

lemma emb_upd [simp]: "q \<notin> set (pids t) \<Longrightarrow> emb N (v(q \<mapsto> x)) t \<longleftrightarrow> emb N v t"
  by (rule emb_cong) auto

lemma cemb_upd [simp]: "q \<notin> set (cpids c) \<Longrightarrow> cemb N (v(q \<mapsto> x)) p c \<longleftrightarrow> cemb N v p c"
  by (rule cemb_cong) auto

lemma chain_upd [simp]: "q \<notin> set ps \<Longrightarrow> chain (v(q \<mapsto> x)) t ps z \<longleftrightarrow> chain v t ps z"
  by (rule chain_cong) auto

lemma good_minus_infinity:
  assumes "good_entry N False e" and "ch < INVALID_PAGE_ID"
  shows "good_entry N False (minus_infinity_entry ch)"
proof -
  have "width False (minus_infinity_entry ch) \<le> width False e"
    using assms(1) by (cases "e_key e") (auto simp: good_entry_def entry_ok_def width_def minus_infinity_entry_def MINUS_INFINITY_def)
  then show ?thesis using assms
    by (simp add: good_entry_def entry_ok_def minus_infinity_entry_def MINUS_INFINITY_def SENTINEL_RID_def rid_ok_def)
qed

section \<open>A separator to place\<close>

definition pending :: "nat \<Rightarrow> (nat \<rightharpoonup> contents) \<Rightarrow> frame list \<Rightarrow> nat \<Rightarrow> bt \<Rightarrow> entry \<Rightarrow> bt \<Rightarrow> bool" where
  "pending N v c h l sep r \<longleftrightarrow>
     (case bounds c (minus_inf, None) of (lo, hi) \<Rightarrow>
        ctx_ok h (minus_inf, None) c \<and> shape h lo (Some (skey sep)) l \<and> shape h (skey sep) hi r \<and>
        lo < skey sep \<and> inside lo hi (skey sep)) \<and>
     e_child sep = pid_of r \<and> good_entry N False sep \<and> cemb N v (pid_of l) c \<and> emb N v l \<and> emb N v r \<and>
     distinct (cpids c @ pids l @ pids r) \<and>
     chain v BTREE_LEAF (fst (around leaf_ids c) @ leaf_ids l @ leaf_ids r @ snd (around leaf_ids c)) INVALID_PAGE_ID"

text \<open>The node that the separator makes of the innermost frame.\<close>

definition widened :: "(entry \<times> bt) list \<Rightarrow> entry \<Rightarrow> bt \<Rightarrow> entry \<Rightarrow> bt \<Rightarrow> (entry \<times> bt) list \<Rightarrow> (entry \<times> bt) list" where
  "widened xs e l sep r ys = xs @ (e, l) # (sep, r) # ys"

lemma around_leaf_ids_cpids: "set (fst (around leaf_ids c)) \<subseteq> set (cpids c) \<and> set (snd (around leaf_ids c)) \<subseteq> set (cpids c)"
proof (induction c)
  case (Cons f c)
  obtain q xs e ys where f: "f = (q, xs, e, ys)" by (metis prod.exhaust)
  show ?case using Cons leaf_ids_pids unfolding f by fastforce
qed simp

lemma pending_frame:
  assumes p: "pending N v (c @ [(q, xs, e, ys)]) h l sep r"
  defines "cs \<equiv> widened xs e l sep r ys"
  shows "ctx_ok (Suc h) (minus_inf, None) c"
    and "shape (Suc h) (fst (bounds c (minus_inf, None))) (snd (bounds c (minus_inf, None))) (Nd q cs)"
    and "cemb N v q c"
    and "v q = Some (node_contents False INVALID_PAGE_ID (map fst xs @ e # map fst ys))"
    and "\<forall>(e, t)\<in>set cs. e_child e = pid_of t \<and> emb N v t" and "\<forall>e\<in>set (map fst cs). good_entry N False e"
    and "distinct (cpids c @ pids (Nd q cs))"
    and "set (cpids c @ pids (Nd q cs)) = set (cpids (c @ [(q, xs, e, ys)]) @ pids l @ pids r)"
    and "chain v BTREE_LEAF (fst (around leaf_ids c) @ leaf_ids (Nd q cs) @ snd (around leaf_ids c)) INVALID_PAGE_ID"
    and "list_insert (rank (map fst xs @ e # map fst ys) (skey sep)) sep (map fst xs @ e # map fst ys) = map fst cs"
    and "rank (map fst xs @ e # map fst ys) (skey sep) = Suc (length xs)" and "sorted_entries (map fst xs @ e # map fst ys)"
proof -
  obtain lo hi where b: "bounds c (minus_inf, None) = (lo, hi)" by fastforce
  obtain lo' hi' where h: "hole (q, xs, e, ys) (lo, hi) = (lo', hi')" by fastforce
  note bs = bounds_snoc [of c "(q, xs, e, ys)" "(minus_inf, None)"]
  have co: "ctx_ok (Suc h) (minus_inf, None) c" and f: "frame_ok h (lo, hi) (q, xs, e, ys)"
    and l: "shape h lo' (Some (skey sep)) l" and r: "shape h (skey sep) hi' r" and ge: "lo' < skey sep" and ins: "inside lo' hi' (skey sep)"
    and ch: "e_child sep = pid_of r" and good: "good_entry N False sep" and ce: "cemb N v (pid_of l) (c @ [(q, xs, e, ys)])"
    and em: "emb N v l" "emb N v r" and di: "distinct (cpids (c @ [(q, xs, e, ys)]) @ pids l @ pids r)"
    and lf: "chain v BTREE_LEAF (fst (around leaf_ids (c @ [(q, xs, e, ys)])) @ leaf_ids l @ leaf_ids r @ snd (around leaf_ids (c @ [(q, xs, e, ys)]))) INVALID_PAGE_ID"
    using p unfolding pending_def bs b h prod.case ctx_ok_snoc by blast+
  show "ctx_ok (Suc h) (minus_inf, None) c" by (rule co)
  have "minus_inf \<le> lo" using bounds_ge [OF co] b by simp
  also have "lo \<le> lo'" using f h by (cases xs) (auto simp: hole_def seps_ok_def less_imp_le)
  finally have mi: "minus_inf < skey sep" using ge by simp
  have sh: "shape (Suc h) lo hi (Nd q cs)" unfolding cs_def widened_def by (rule insert_child_shape [OF f h l r ge mi ins])
  then show "shape (Suc h) (fst (bounds c (minus_inf, None))) (snd (bounds c (minus_inf, None))) (Nd q cs)" by (simp add: b)
  have fe: "cemb N v q c" "frame_emb N v (pid_of l) (q, xs, e, ys)" using ce by (simp_all add: cemb_snoc del: frame_emb.simps)
  show "cemb N v q c" by (rule fe(1))
  show "v q = Some (node_contents False INVALID_PAGE_ID (map fst xs @ e # map fst ys))" using fe(2) by simp
  show "\<forall>(e, t)\<in>set cs. e_child e = pid_of t \<and> emb N v t"
    using fe(2) ch em by (auto simp: cs_def widened_def)
  show "\<forall>e\<in>set (map fst cs). good_entry N False e"
    using fe(2) good by (auto simp: cs_def widened_def)
  have ms: "mset (cpids c @ pids (Nd q cs)) = mset (cpids (c @ [(q, xs, e, ys)]) @ pids l @ pids r)"
    by (simp add: cs_def widened_def cpids_append ac_simps)
  show "distinct (cpids c @ pids (Nd q cs))" using di mset_eq_imp_distinct_iff [OF ms] by simp
  show "set (cpids c @ pids (Nd q cs)) = set (cpids (c @ [(q, xs, e, ys)]) @ pids l @ pids r)" by (rule mset_eq_setD [OF ms])
  show "chain v BTREE_LEAF (fst (around leaf_ids c) @ leaf_ids (Nd q cs) @ snd (around leaf_ids c)) INVALID_PAGE_ID"
    using lf by (simp add: around_snoc cs_def widened_def)
  have so: "sorted_entries (map fst cs)" using sh by (simp add: seps_ok_def)
  have m: "map fst cs = (map fst xs @ [e]) @ sep # map fst ys" by (simp add: cs_def widened_def)
  have lt: "skey x < skey sep" if "x \<in> set (map fst xs @ [e])" for x using so that unfolding m sorted_wrt_append by auto
  have gt: "\<not> skey x < skey sep" if "x \<in> set (map fst ys)" for x using so that unfolding m sorted_wrt_append by (auto simp: not_less less_imp_le)
  have "takeWhile (\<lambda>x. skey x < skey sep) (map fst ys) = []" using gt by (cases ys) auto
  then have "takeWhile (\<lambda>x. skey x < skey sep) ((map fst xs @ [e]) @ map fst ys) = map fst xs @ [e]"
    using lt by (subst takeWhile_append2) auto
  then show rk: "rank (map fst xs @ e # map fst ys) (skey sep) = Suc (length xs)" by (simp add: rank_def)
  show "list_insert (rank (map fst xs @ e # map fst ys) (skey sep)) sep (map fst xs @ e # map fst ys) = map fst cs"
    unfolding rk m by (simp add: list_insert_def)
  show "sorted_entries (map fst xs @ e # map fst ys)" using so unfolding m by (auto simp: sorted_wrt_append)
qed

lemma leaf_ids_in_pids: "set (leaf_ids (Nd q cs)) \<subseteq> set (concat (map (\<lambda>(e, t). pids t) cs))"
  using leaf_ids_pids by fastforce

lemma leaf_ids_context:
  assumes "q \<notin> set (cpids c)" and "q \<notin> set (concat (map (\<lambda>(e, t). pids t) cs))"
  shows "q \<notin> set (fst (around leaf_ids c) @ leaf_ids (Nd p cs) @ snd (around leaf_ids c))"
  using assms leaf_ids_in_pids [of p cs] around_leaf_ids_cpids [of c] unfolding set_append Un_iff by blast

text \<open>The parent takes the separator.\<close>

lemma pending_fits:
  assumes p: "pending N v (c @ [(q, xs, e, ys)]) h l sep r"
  defines "cs \<equiv> widened xs e l sep r ys"
  shows "is_tree N (v(q \<mapsto> node_contents False INVALID_PAGE_ID (map fst cs))) (pid_of (fill c (Nd q cs))) (length c + Suc h) (fill c (Nd q cs))"
proof -
  note f = pending_frame [OF p, folded cs_def]
  let ?v = "v(q \<mapsto> node_contents False INVALID_PAGE_ID (map fst cs))"
  have d: "distinct (cpids c)" "distinct (pids (Nd q cs))" "set (cpids c) \<inter> set (pids (Nd q cs)) = {}" using f(7) by auto
  have q: "q \<notin> set (cpids c)" "q \<notin> set (concat (map (\<lambda>(e, t). pids t) cs))" using d by auto
  have emb: "emb N ?v t" if m: "(a, t) \<in> set cs" for a t
    using f(5) m q(2) by (subst emb_upd) fastforce+
  have "emb N ?v (Nd q cs)" using f(5,6) emb by auto
  moreover have "cemb N ?v q c" using f(3) q(1) by simp
  ultimately have "emb N ?v (fill c (Nd q cs))" by (simp add: emb_fill)
  moreover have "chain ?v BTREE_LEAF (leaf_ids (fill c (Nd q cs))) INVALID_PAGE_ID"
  proof -
    have n: "q \<notin> set (leaf_ids (fill c (Nd q cs)))"
      using leaf_ids_context [OF q] unfolding leaf_ids_fill .
    show ?thesis using f(9) unfolding chain_upd [OF n] unfolding leaf_ids_fill .
  qed
  moreover have "shape (length c + Suc h) minus_inf None (fill c (Nd q cs))"
    using shape_fill [of c "Suc h" "(minus_inf, None)" "Nd q cs"] f(1,2) by simp
  moreover have "distinct (pids (fill c (Nd q cs)))" using d by (simp add: distinct_pids_fill)
  ultimately show ?thesis by (simp add: is_tree_def)
qed

text \<open>The parent is cut: the separator that goes up stands between its halves.\<close>

lemma pending_split:
  assumes p: "pending N v (c @ [(q, xs, e, ys)]) h l sep r"
    and cs: "widened xs e l sep r ys = as @ (pe, pt) # bs" "as \<noteq> []" and new: "v q' = None" "q' < INVALID_PAGE_ID"
  defines "l' \<equiv> Nd q as" and "r' \<equiv> Nd q' ((minus_infinity_entry (e_child pe), pt) # bs)"
  shows "pending N (v(q' \<mapsto> node_contents False INVALID_PAGE_ID (minus_infinity_entry (e_child pe) # map fst bs),
      q \<mapsto> node_contents False INVALID_PAGE_ID (map fst as))) c (Suc h) l' (pe\<lparr>e_child := q'\<rparr>) r'"
proof -
  let ?cs = "widened xs e l sep r ys"
  let ?v = "v(q' \<mapsto> node_contents False INVALID_PAGE_ID (minus_infinity_entry (e_child pe) # map fst bs),
      q \<mapsto> node_contents False INVALID_PAGE_ID (map fst as))"
  note f = pending_frame [OF p]
  obtain lo hi where b: "bounds c (minus_inf, None) = (lo, hi)" by fastforce
  have sh: "shape (Suc h) lo hi (Nd q (as @ (pe, pt) # bs))" using f(2) b cs(1) by simp
  note ss = split_shape [OF sh cs(2)]
  have d: "distinct (cpids c)" "distinct (pids (Nd q ?cs))" "set (cpids c) \<inter> set (pids (Nd q ?cs)) = {}" using f(7) by auto
  have used: "v x \<noteq> None" if m: "x \<in> set (cpids c @ pids (Nd q ?cs))" for x
  proof -
    consider "x \<in> set (cpids c)" | "x = q" | a t where "(a, t) \<in> set ?cs" "x \<in> set (pids t)" using m by auto
    then show ?thesis
    proof cases
      case 1
      then show ?thesis by (rule cemb_used [OF f(3)])
    next
      case 3
      then show ?thesis using f(5) emb_used by blast
    qed (simp add: f(4))
  qed
  have q': "q' \<notin> set (cpids c @ pids (Nd q ?cs))" using used new(1) by blast
  have q: "q \<notin> set (cpids c)" "q \<notin> set (concat (map (\<lambda>(e, t). pids t) ?cs))" using d by auto
  have emb: "emb N ?v t" if m: "(a, t) \<in> set ?cs" for a t
  proof -
    have "q \<notin> set (pids t)" "q' \<notin> set (pids t)" using m q(2) q' by auto
    then show ?thesis using f(5) m by auto
  qed
  define w where "w = ?v"
  have "q' \<noteq> q" using q' by auto
  then have w: "w q = Some (node_contents False INVALID_PAGE_ID (map fst as))"
    "w q' = Some (node_contents False INVALID_PAGE_ID (minus_infinity_entry (e_child pe) # map fst bs))" by (simp_all add: w_def)
  have kids: "\<forall>(e, t)\<in>set ?cs. e_child e = pid_of t \<and> emb N w t" using f(5) emb unfolding w_def by blast
  have g: "good_entry N False pe" using f(6) unfolding cs(1) by simp
  have "good_entry N False (pe\<lparr>e_child := q'\<rparr>)" using g new(2) by (simp add: good_entry_def entry_ok_def width_def)
  moreover have "emb N w l'" using f(6) kids w(1) unfolding l'_def cs(1) by simp
  moreover have "emb N w r'"
  proof -
    have "pid_of pt \<in> set (pids pt)" by (rule pid_in_pids)
    then have "good_entry N False (minus_infinity_entry (e_child pe))"
      using f(5) g unfolding cs(1) by (intro good_minus_infinity) (auto simp: good_entry_def entry_ok_def)
    moreover have "e_child (minus_infinity_entry (e_child pe)) = pid_of pt" using f(5) unfolding cs(1) by (simp add: minus_infinity_entry_def)
    ultimately show ?thesis using f(6) kids w(2) unfolding r'_def cs(1) by simp
  qed
  moreover have "cemb N ?v q c" using f(3) q(1) q' by simp
  moreover have "skey (pe\<lparr>e_child := q'\<rparr>) = skey pe" by (simp add: skey_def)
  moreover have "distinct (cpids c @ pids l' @ pids r')" using f(7) q' unfolding l'_def r'_def cs(1) by auto
  moreover have "chain ?v BTREE_LEAF (fst (around leaf_ids c) @ leaf_ids l' @ leaf_ids r' @ snd (around leaf_ids c)) INVALID_PAGE_ID"
  proof -
    let ?ls = "fst (around leaf_ids c) @ leaf_ids (Nd q ?cs) @ snd (around leaf_ids c)"
    have e: "?ls = fst (around leaf_ids c) @ leaf_ids l' @ leaf_ids r' @ snd (around leaf_ids c)"
      unfolding l'_def r'_def cs(1) by simp
    have "q' \<notin> set (cpids c)" "q' \<notin> set (concat (map (\<lambda>(e, t). pids t) ?cs))" using q' by auto
    note n = leaf_ids_context [OF q, of q] leaf_ids_context [OF this, of q]
    show ?thesis using f(9) unfolding e [symmetric] chain_upd [OF n(1)] chain_upd [OF n(2)] .
  qed
  ultimately show ?thesis using ss f(1) b unfolding w_def by (simp add: pending_def l'_def r'_def)
qed

text \<open>The path is used up: a new root over the two halves.\<close>

lemma pending_root:
  assumes p: "pending N v [] h l sep r" and new: "v q = None" and pl: "pid_of l < INVALID_PAGE_ID"
  defines "t \<equiv> Nd q [(minus_infinity_entry (pid_of l), l), (sep, r)]"
  shows "is_tree N (v(q \<mapsto> node_contents False INVALID_PAGE_ID [minus_infinity_entry (pid_of l), sep])) q (Suc h) t"
proof -
  let ?m = "minus_infinity_entry (pid_of l)"
  have l: "shape h minus_inf (Some (skey sep)) l" and r: "shape h (skey sep) None r" and gt: "minus_inf < skey sep"
    and ch: "e_child sep = pid_of r" and good: "good_entry N False sep" and em: "emb N v l" "emb N v r"
    and di: "distinct (pids l @ pids r)" and lf: "chain v BTREE_LEAF (leaf_ids l @ leaf_ids r) INVALID_PAGE_ID"
    using p by (simp_all add: pending_def)
  have mk: "skey ?m = minus_inf" by (simp add: skey_def minus_infinity_entry_def minus_inf_def)
  have q: "q \<notin> set (pids l)" "q \<notin> set (pids r)" using emb_used [OF em(1)] emb_used [OF em(2)] new by blast+
  have ql: "q \<notin> set (leaf_ids l @ leaf_ids r)" using q leaf_ids_pids [of l] leaf_ids_pids [of r] by auto
  have "shape (Suc h) minus_inf None t"
    using l r gt mk by (simp add: t_def seps_ok_def inside_def less_imp_le ubound_def)
  moreover have "good_entry N False ?m" by (rule good_minus_infinity [OF good pl])
  moreover have "e_child ?m = pid_of l" by (simp add: minus_infinity_entry_def)
  ultimately show ?thesis using em q di good ch lf chain_upd [OF ql] by (simp add: is_tree_def t_def)
qed

section \<open>Choosing a cut\<close>

lemma cut_ok:
  assumes h: "node_holds pg leaf nx es" and e: "entry_ok leaf e" and i: "i \<le> length es" and w: "2 * width leaf e + 24 \<le> psize pg"
    and full: "\<not> 24 + used leaf es + width leaf e \<le> psize pg"
  shows "\<exists>cut. split_index pg (list_insert i e es) = Inr cut \<and> 1 \<le> cut \<and> cut < length (list_insert i e es) \<and>
    24 + used leaf (take cut (list_insert i e es)) \<le> psize pg \<and> 24 + used leaf (drop cut (list_insert i e es)) \<le> psize pg"
proof -
  let ?es = "list_insert i e es" and ?cap = "psize pg - 24"
  let ?ws = "map (width leaf) ?es"
  have ne: "es \<noteq> []" using full w by auto
  have "used leaf (take i es) + used leaf (drop i es) = used leaf es" by (metis append_take_drop_id used_simps(3))
  then have "sum_list (map (width leaf) (take i es)) + sum_list (map (width leaf) (drop i es)) \<le> ?cap"
    using used_le [OF h] by (simp add: used_def)
  moreover have "map (width leaf) (take i es) @ map (width leaf) (drop i es) \<noteq> []" using ne by (auto simp flip: map_append)
  moreover have "2 * width leaf e \<le> ?cap" using w by simp
  ultimately have "\<exists>c. fitting_cut (map (width leaf) (take i es) @ width leaf e # map (width leaf) (drop i es)) ?cap c"
    by (intro overflow_cut)
  then have ex: "\<exists>c. fitting_cut ?ws ?cap c" by (simp add: list_insert_def)
  have "2 \<le> length ?ws" using ne i by (cases es) (auto simp: list_insert_def)
  from plan_split_spec [OF this, of ?cap] ex obtain cut where cut: "plan_split ?ws ?cap = Inr cut" "fitting_cut ?ws ?cap cut" by auto
  have "\<forall>x\<in>set ?es. entry_ok leaf x" using node_holdsD(9) [OF h] e by (auto simp: list_insert_def dest: in_set_takeD in_set_dropD)
  then have "split_index pg ?es = Inr cut"
    using cut(1) entry_widths_ok [of ?es pg] node_holdsD(3) [OF h] by (simp add: split_index_def usable_bytes_def PAGE_HEADER_SIZE_def)
  then show ?thesis using cut(2) w by (auto simp: fitting_cut_def used_def take_map drop_map)
qed

lemma insert_entry_ok:
  assumes h: "node_holds p leaf nx es" and s: "sorted_entries es" and e: "entry_ok leaf e" and w: "24 + width leaf e \<le> psize p"
  defines "fit \<equiv> 24 + used leaf es + width leaf e \<le> psize p"
  shows "\<exists>p'. insert_entry p e = Inr (p', fit) \<and> page_id p' = page_id p \<and> psize p' = psize p \<and>
    node_holds p' leaf nx (if fit then list_insert (rank es (skey e)) e es else es)"
proof -
  have "search_target (e_key e) (Some (e_rid e)) = Inr (skey e)" using e by (simp add: search_target_def entry_ok_def skey_def)
  from lower_bound_ok [OF h s this] insert_entry_at_ok [OF h e rank_le [of es "skey e"] w] show ?thesis
    unfolding fit_def insert_entry_def list_insert_def by (simp only: bind_res_simps)
qed

section \<open>Placing a separator\<close>

declare insert_into_parent.simps [simp del]

lemma bind_with_io:
  assumes "f s = (s', Inr x)"
  shows "bind_op (with_io f) g (h, s) = g x (h, s')"
  using assms by (simp add: op_defs)

context page_store
begin

text \<open>A callback that leaves the pages alone, such as none at all.\<close>

definition quiet_root :: "'s root_callback \<Rightarrow> bool" where
  "quiet_root cb \<longleftrightarrow> (\<forall>r k s. room k s \<longrightarrow> (\<exists>s'. notify_root cb r s = (s', Inr ()) \<and> room k s' \<and> view s' = view s))"

lemma quiet_root_None: "quiet_root None"
  by (auto simp: quiet_root_def notify_root_def lift_res_def)

text \<open>What becomes of the pages: the tree keeps its pages and takes new ones, and nothing else changes.\<close>

definition grown :: "(nat \<rightharpoonup> contents) \<Rightarrow> nat set \<Rightarrow> (nat \<rightharpoonup> contents) \<Rightarrow> nat set \<Rightarrow> bool" where
  "grown v U v' U' \<longleftrightarrow> U \<subseteq> U' \<and> (\<forall>q\<in>U'. q \<in> U \<or> v q = None) \<and> (\<forall>q. q \<notin> U' \<longrightarrow> v' q = v q)"

lemma grow_root_ok:
  assumes "room (Suc (Suc (Suc k))) s" and cb: "quiet_root cb" and p: "pending N (view s) [] h l sep r"
  shows "\<exists>s' T' t'. grow_root P cb (pid_of l) sep (T, s) = ((T', s'), Inr ()) \<and> room k s' \<and> bt_unique T' = bt_unique T \<and>
    is_tree N (view s') (bt_root T') (Suc h) t' \<and> flat t' = flat l @ flat r \<and>
    grown (view s) (set (pids l) \<union> set (pids r)) (view s') (set (pids t'))"
proof -
  let ?m = "minus_infinity_entry (pid_of l)"
  have good: "good_entry N False sep" and em: "emb N (view s) l" using p by (simp_all add: pending_def)
  have pl: "pid_of l < INVALID_PAGE_ID" using in_use [OF assms(1)] emb_used [OF em pid_in_pids] by blast
  from alloc_node [OF assms(1), of False] obtain s1 pg where 1: "io_allocate P BTREE_INTERNAL s = (s1, Inr pg)" "node_new pg = Inr pg"
    "node_holds pg False INVALID_PAGE_ID []" "psize pg = N" "view s (page_id pg) = None" "room (Suc k) s1"
    "view s1 = (view s)(page_id pg \<mapsto> node_contents False INVALID_PAGE_ID [])" by auto
  have gm: "good_entry N False ?m" by (rule good_minus_infinity [OF good pl])
  have "\<forall>e\<in>set [?m, sep]. entry_ok False e" using good gm by (simp add: good_entry_def)
  moreover have "24 + used False [?m, sep] \<le> psize pg" using good gm 1(4) by (simp add: good_entry_def)
  ultimately obtain pg' where 2: "replace_all pg [?m, sep] = Inr pg'" "page_id pg' = page_id pg" "psize pg' = N"
    "node_holds pg' False INVALID_PAGE_ID [?m, sep]" using replace_all_ok [OF 1(3)] 1(4) by metis
  have "view s1 (page_id pg') \<noteq> None" using 1(7) 2(2) by simp
  from write_node [OF 1(6) 2(4,3) this] obtain s2 where 3: "io_write P pg' s1 = (s2, Inr ())" "room k s2"
    "view s2 = (view s)(page_id pg \<mapsto> node_contents False INVALID_PAGE_ID [?m, sep])" using 1(7) 2(2) by auto
  from cb 3(2) obtain s3 where 4: "notify_root cb (page_id pg) s2 = (s3, Inr ())" "room k s3" "view s3 = view s2"
    unfolding quiet_root_def by blast
  have "grow_root P cb (pid_of l) sep (T, s) = ((T\<lparr>bt_root := page_id pg\<rparr>, s3), Inr ())"
    using 1(1,2) 2(1,2) 3(1) 4(1) by (simp add: grow_root_def op_defs set_root_def)
  moreover note pending_root [OF p 1(5) pl]
  moreover have "grown (view s) (set (pids l) \<union> set (pids r)) (view s3)
      (set (pids (Nd (page_id pg) [(?m, l), (sep, r)])))" using 1(5) 3(3) 4(3) by (auto simp: grown_def)
  moreover have "flat (Nd (page_id pg) [(?m, l), (sep, r)]) = flat l @ flat r" by simp
  ultimately show ?thesis using 3(3) 4(2,3)
    by (intro exI [of _ s3] exI [of _ "T\<lparr>bt_root := page_id pg\<rparr>"] exI [of _ "Nd (page_id pg) [(?m, l), (sep, r)]"]) simp
qed

end

context page_store
begin

text \<open>A split of an internal node writes its two halves, the right one to a new page.\<close>

lemma write_halves:
  assumes rm: "room (Suc (Suc (Suc (Suc k)))) s" and h: "node_holds p False INVALID_PAGE_ID es" and id: "page_id p = q" "psize p = N"
    and used: "view s q \<noteq> None" and ok: "\<forall>e\<in>set L. entry_ok False e" "\<forall>e\<in>set R. entry_ok False e"
    and fits: "24 + used False L \<le> N" "24 + used False R \<le> N"
  shows "\<exists>s2 pn ps p3 s3 s4. io_allocate P BTREE_INTERNAL s = (s2, Inr pn) \<and> node_new pn = Inr pn \<and> replace_all pn R = Inr ps \<and>
    page_id ps = page_id pn \<and> replace_all p L = Inr p3 \<and> page_id p3 = q \<and> io_write P ps s2 = (s3, Inr ()) \<and>
    io_write P p3 s3 = (s4, Inr ()) \<and> view s (page_id pn) = None \<and> page_id pn < INVALID_PAGE_ID \<and> room k s4 \<and>
    view s4 = (view s)(page_id pn \<mapsto> node_contents False INVALID_PAGE_ID R, q \<mapsto> node_contents False INVALID_PAGE_ID L)"
proof -
  from alloc_node [OF rm, of False] obtain s2 pn where 3: "io_allocate P BTREE_INTERNAL s = (s2, Inr pn)" "node_new pn = Inr pn"
    "node_holds pn False INVALID_PAGE_ID []" "psize pn = N" "view s (page_id pn) = None" "room (Suc (Suc k)) s2"
    "view s2 = (view s)(page_id pn \<mapsto> node_contents False INVALID_PAGE_ID [])" "page_id pn < INVALID_PAGE_ID" by auto
  from replace_all_ok [OF 3(3) ok(2)] fits(2) obtain ps where 4: "replace_all pn R = Inr ps" "page_id ps = page_id pn"
    "psize ps = N" "node_holds ps False INVALID_PAGE_ID R" using 3(4) by auto
  from replace_all_ok [OF h ok(1)] fits(1) obtain p3 where 5: "replace_all p L = Inr p3" "page_id p3 = q"
    "psize p3 = N" "node_holds p3 False INVALID_PAGE_ID L" using id by auto
  have "view s2 (page_id ps) \<noteq> None" using 3(7) 4(2) by simp
  from write_node [OF 3(6) 4(4,3) this] obtain s3 where 6: "io_write P ps s2 = (s3, Inr ())" "room (Suc k) s3"
    "view s3 = (view s)(page_id pn \<mapsto> node_contents False INVALID_PAGE_ID R)" using 3(7) 4(2) by auto
  have "view s3 (page_id p3) \<noteq> None" using 6(3) used 5(2) by (auto simp: node_contents_def)
  from write_node [OF 6(2) 5(4,3) this] obtain s4 where 7: "io_write P p3 s3 = (s4, Inr ())" "room k s4"
    "view s4 = (view s)(page_id pn \<mapsto> node_contents False INVALID_PAGE_ID R, q \<mapsto> node_contents False INVALID_PAGE_ID L)"
    using 6(3) 5(2) by auto
  show ?thesis using 3(1,2,5,8) 4(1,2) 5(1,2) 6(1) 7 by blast
qed

text \<open>One level up: the parent is read and takes the separator, or is cut and the separator of the halves is pending.\<close>

lemma place_separator:
  assumes rm: "room (Suc (Suc (Suc (Suc k)))) s" and p: "pending N (view s) (c @ [(q, xs, e, ys)]) h l sep r"
  defines "cs \<equiv> widened xs e l sep r ys"
  shows "\<exists>s'. room k s' \<and>
    (insert_into_parent P cb ((q, i) # path) sep (pid_of l) (T, s) = ((T, s'), Inr ()) \<and>
       view s' = (view s)(q \<mapsto> node_contents False INVALID_PAGE_ID (map fst cs)) \<or>
     (\<exists>as pe pt bs q'. insert_into_parent P cb ((q, i) # path) sep (pid_of l) (T, s) = insert_into_parent P cb path (pe\<lparr>e_child := q'\<rparr>) q (T, s') \<and>
       cs = as @ (pe, pt) # bs \<and> as \<noteq> [] \<and> view s q' = None \<and> q' < INVALID_PAGE_ID \<and>
       view s' = (view s)(q' \<mapsto> node_contents False INVALID_PAGE_ID (minus_infinity_entry (e_child pe) # map fst bs),
         q \<mapsto> node_contents False INVALID_PAGE_ID (map fst as))))"
proof -
  let ?es = "map fst xs @ e # map fst ys"
  note f = pending_frame [OF p, folded cs_def]
  have good: "good_entry N False sep" using p by (simp add: pending_def)
  have es: "\<forall>x\<in>set ?es. entry_ok False x" using f(6) by (auto simp: cs_def widened_def good_entry_def)
  from read_node [OF rm f(4) es] obtain s1 pg where 1: "bt_node P q s = (s1, Inr pg)" "node_holds pg False INVALID_PAGE_ID ?es"
    "page_id pg = q" "psize pg = N" "room (Suc (Suc (Suc (Suc k)))) s1" "view s1 = view s" by blast
  let ?fit = "24 + used False ?es + width False sep \<le> psize pg"
  have se: "entry_ok False sep" "24 + width False sep \<le> psize pg" "2 * width False sep + 24 \<le> psize pg" using good 1(4) by (simp_all add: good_entry_def)
  from insert_entry_ok [OF 1(2) f(12) se(1,2), unfolded f(10)] obtain p2 where i: "insert_entry pg sep = Inr (p2, ?fit)"
    "page_id p2 = page_id pg" "psize p2 = psize pg" "node_holds p2 False INVALID_PAGE_ID (if ?fit then map fst cs else ?es)" by blast
  note 2 = i(1) i(2) [unfolded 1(3)] i(3) [unfolded 1(4)] i(4)
  show ?thesis
  proof (cases ?fit)
    case True
    have r1: "room (Suc k) s1" using room_le [OF 1(5)] by simp
    have "node_holds p2 False INVALID_PAGE_ID (map fst cs)" "view s1 (page_id p2) \<noteq> None" using 2(2,4) True f(4) 1(6) by simp_all
    from write_node [OF r1 this(1) 2(3) this(2)] obtain s2 where w: "io_write P p2 s1 = (s2, Inr ())" "room k s2"
      "view s2 = (view s)(q \<mapsto> node_contents False INVALID_PAGE_ID (map fst cs))" using 1(6) 2(2) by auto
    have "insert_into_parent P cb ((q, i) # path) sep (pid_of l) (T, s) = ((T, s2), Inr ())"
      using 1(1) 2(1) True w(1) by (simp add: insert_into_parent.simps op_defs)
    then show ?thesis using w(2,3) by blast
  next
    case False
    then have h2: "node_holds p2 False INVALID_PAGE_ID ?es" and full: "\<not> 24 + used False ?es + width False sep \<le> psize p2"
      using 2(3,4) 1(4) by simp_all
    have st: "search_target (e_key sep) (Some (e_rid sep)) = Inr (skey sep)" using se(1) by (simp add: search_target_def entry_ok_def skey_def)
    note lb = lower_bound_ok [OF h2 f(12) st]
    have "2 * width False sep + 24 \<le> psize p2" using se(3) 1(4) 2(3) by simp
    from cut_ok [OF h2 se(1) rank_le [of ?es "skey sep"] this full] obtain cut where
      cut: "split_index p2 (map fst cs) = Inr cut" "1 \<le> cut" "cut < length (map fst cs)"
        "24 + used False (take cut (map fst cs)) \<le> psize p2" "24 + used False (drop cut (map fst cs)) \<le> psize p2"
      unfolding f(10) by blast
    obtain pe pt where pe: "cs ! cut = (pe, pt)" by fastforce
    define as bs where "as = take cut cs" and "bs = drop (Suc cut) cs"
    have cl: "cut < length cs" using cut(3) by simp
    then have cs: "cs = as @ (pe, pt) # bs" "as \<noteq> []" using cut(2) pe id_take_nth_drop [of cut cs] by (auto simp: as_def bs_def)
    have fs: "map fst cs ! cut = pe" "take cut (map fst cs) = map fst as" "drop (Suc cut) (map fst cs) = map fst bs"
      "drop cut (map fst cs) = pe # map fst bs"
      using cl pe by (simp_all add: as_def bs_def take_map drop_map flip: Cons_nth_drop_Suc)
    have gpe: "good_entry N False pe" using f(6) cs(1) by simp
    let ?m = "minus_infinity_entry (e_child pe)"
    have gm: "good_entry N False ?m" using gpe by (intro good_minus_infinity [OF gpe]) (simp add: good_entry_def entry_ok_def)
    have wm: "width False ?m \<le> width False pe" using gpe
      by (cases "e_key pe") (auto simp: good_entry_def entry_ok_def width_def minus_infinity_entry_def MINUS_INFINITY_def)
    have e1: "\<forall>x\<in>set (map fst as). entry_ok False x" "\<forall>x\<in>set (?m # map fst bs). entry_ok False x"
      using f(6) gm cs(1) by (auto simp: good_entry_def)
    have u: "24 + used False (map fst as) \<le> N" "24 + used False (?m # map fst bs) \<le> N"
      using cut(4,5) wm fs 2(3) by simp_all
    have "view s1 q \<noteq> None" using f(4) 1(6) by (simp add: node_contents_def)
    from write_halves [OF 1(5) h2 2(2,3) this e1 u] obtain s2 pn ps p3 s3 s4 where
      w: "io_allocate P BTREE_INTERNAL s1 = (s2, Inr pn)" "node_new pn = Inr pn" "replace_all pn (?m # map fst bs) = Inr ps" "page_id ps = page_id pn"
        "replace_all p2 (map fst as) = Inr p3" "page_id p3 = q" "io_write P ps s2 = (s3, Inr ())" "io_write P p3 s3 = (s4, Inr ())"
        "view s (page_id pn) = None" "page_id pn < INVALID_PAGE_ID" "room k s4"
        "view s4 = (view s)(page_id pn \<mapsto> node_contents False INVALID_PAGE_ID (?m # map fst bs), q \<mapsto> node_contents False INVALID_PAGE_ID (map fst as))"
      unfolding 1(6) by blast
    have it: "item cut (map fst cs) = Inr pe" using cut(3) fs(1) by (simp add: item_def)
    have up: "\<lparr>e_key = e_key pe, e_rid = e_rid pe, e_child = page_id pn\<rparr> = pe\<lparr>e_child := page_id pn\<rparr>" by simp
    have "insert_into_parent P cb ((q, i) # path) sep (pid_of l) (T, s) = insert_into_parent P cb path (pe\<lparr>e_child := page_id pn\<rparr>) q (T, s4)"
      unfolding up [symmetric] using 1(1) 2(1) False lb cut(1) it w(1-8) entries_ok [OF h2] f(10) fs(2,3)
      by (simp add: insert_into_parent.simps op_defs)
    then show ?thesis using cs w(9-12) by blast
  qed
qed

end

context page_store
begin

lemma grown_trans:
  assumes "grown v U v' U'" and "grown v' U' v'' U''"
  shows "grown v U v'' U''"
  using assms unfolding grown_def by (metis subset_iff)

lemma insert_into_parent_ok:
  assumes "room (3 + 4 * length c + k) s" and "quiet_root cb" and "pending N (view s) c h l sep r" and "bt_root T = pid_of (fill c l)"
  shows "\<exists>s' T' t' H. insert_into_parent P cb (rev (path_of c)) sep (pid_of l) (T, s) = ((T', s'), Inr ()) \<and> room k s' \<and>
    bt_unique T' = bt_unique T \<and> is_tree N (view s') (bt_root T') H t' \<and> H \<le> Suc (length c + h) \<and>
    flat t' = fst (around flat c) @ flat l @ flat r @ snd (around flat c) \<and>
    grown (view s) (set (cpids c) \<union> set (pids l) \<union> set (pids r)) (view s') (set (pids t'))"
  using assms(1,3,4)
proof (induction c arbitrary: s h l sep r rule: rev_induct)
  case Nil
  have "room (Suc (Suc (Suc k))) s" using Nil.prems(1) by (simp add: numeral_3_eq_3)
  from grow_root_ok [OF this assms(2) Nil.prems(2), of T] show ?case by (force simp: path_of_def insert_into_parent.simps)
next
  case (snoc f c)
  obtain q xs e ys where f: "f = (q, xs, e, ys)" by (metis prod.exhaust)
  note p = snoc.prems(2) [unfolded f]
  let ?cs = "widened xs e l sep r ys" and ?U = "set (cpids (c @ [f])) \<union> set (pids l) \<union> set (pids r)"
  note pf = pending_frame [OF p]
  have path: "rev (path_of (c @ [f])) = (q, length xs) # rev (path_of c)" by (simp add: path_of_def f)
  have U: "?U = set (cpids c) \<union> set (pids (Nd q ?cs))" using pf(8) by (simp add: f Un_assoc)
  have root: "bt_root T = pid_of (fill c (Nd q zs))" for zs using snoc.prems(3) by (cases c) (auto simp: f fill_snoc pid_of_fill)
  have fl: "fst (around flat (c @ [f])) @ flat l @ flat r @ snd (around flat (c @ [f])) =
      fst (around flat c) @ flat (Nd q ?cs) @ snd (around flat c)" by (simp add: f around_snoc widened_def)
  have "room (Suc (Suc (Suc (Suc (3 + 4 * length c + k))))) s" using snoc.prems(1) by (simp add: eval_nat_numeral)
  from place_separator [OF this p, of cb "length xs" "rev (path_of c)" T] obtain s1 where rm: "room (3 + 4 * length c + k) s1"
    and cases: "insert_into_parent P cb ((q, length xs) # rev (path_of c)) sep (pid_of l) (T, s) = ((T, s1), Inr ()) \<and>
       view s1 = (view s)(q \<mapsto> node_contents False INVALID_PAGE_ID (map fst ?cs)) \<or>
     (\<exists>as pe pt bs q'. insert_into_parent P cb ((q, length xs) # rev (path_of c)) sep (pid_of l) (T, s) =
         insert_into_parent P cb (rev (path_of c)) (pe\<lparr>e_child := q'\<rparr>) q (T, s1) \<and>
       ?cs = as @ (pe, pt) # bs \<and> as \<noteq> [] \<and> view s q' = None \<and> q' < INVALID_PAGE_ID \<and>
       view s1 = (view s)(q' \<mapsto> node_contents False INVALID_PAGE_ID (minus_infinity_entry (e_child pe) # map fst bs),
         q \<mapsto> node_contents False INVALID_PAGE_ID (map fst as)))" by blast
  from cases show ?case
  proof (elim disjE exE conjE)
    assume run: "insert_into_parent P cb ((q, length xs) # rev (path_of c)) sep (pid_of l) (T, s) = ((T, s1), Inr ())"
      and v: "view s1 = (view s)(q \<mapsto> node_contents False INVALID_PAGE_ID (map fst ?cs))"
    have "is_tree N (view s1) (bt_root T) (length c + Suc h) (fill c (Nd q ?cs))"
      using pending_fits [OF p] unfolding v root [of ?cs] .
    moreover have "grown (view s) ?U (view s1) (set (pids (fill c (Nd q ?cs))))" unfolding U set_pids_fill v by (auto simp: grown_def)
    moreover have "room k s1" using room_le [OF rm] by simp
    ultimately show ?thesis using run unfolding path fl flat_fill [symmetric]
      by (intro exI [of _ s1] exI [of _ T] exI [of _ "fill c (Nd q ?cs)"] exI [of _ "length c + Suc h"]) (simp add: f)
  next
    fix as pe pt bs q'
    assume run: "insert_into_parent P cb ((q, length xs) # rev (path_of c)) sep (pid_of l) (T, s) =
        insert_into_parent P cb (rev (path_of c)) (pe\<lparr>e_child := q'\<rparr>) q (T, s1)"
      and cs: "?cs = as @ (pe, pt) # bs" "as \<noteq> []" and new: "view s q' = None" "q' < INVALID_PAGE_ID"
      and v: "view s1 = (view s)(q' \<mapsto> node_contents False INVALID_PAGE_ID (minus_infinity_entry (e_child pe) # map fst bs),
         q \<mapsto> node_contents False INVALID_PAGE_ID (map fst as))"
    let ?r = "Nd q' ((minus_infinity_entry (e_child pe), pt) # bs)"
    from snoc.IH [OF rm pending_split [OF p cs new, folded v] root] obtain s2 T' t' H where
      2: "insert_into_parent P cb (rev (path_of c)) (pe\<lparr>e_child := q'\<rparr>) (pid_of (Nd q as)) (T, s1) = ((T', s2), Inr ())" "room k s2"
        "bt_unique T' = bt_unique T" "is_tree N (view s2) (bt_root T') H t'" "H \<le> Suc (length c + Suc h)"
        "flat t' = fst (around flat c) @ flat (Nd q as) @ flat ?r @ snd (around flat c)"
        "grown (view s1) (set (cpids c) \<union> set (pids (Nd q as)) \<union> set (pids ?r)) (view s2) (set (pids t'))" by blast
    have "grown (view s) ?U (view s1) (set (cpids c) \<union> set (pids (Nd q as)) \<union> set (pids ?r))"
      unfolding U cs(1) v using new(1) by (auto simp: grown_def)
    from grown_trans [OF this 2(7)] 2(1-6) run show ?thesis unfolding path fl cs(1)
      by (intro exI [of _ s2] exI [of _ T'] exI [of _ t'] exI [of _ H]) (simp add: f)
  qed
qed

end

section \<open>Changing a leaf\<close>

lemma leaf_in_chain:
  "chain v BTREE_LEAF (leaf_ids (fill c (Lf p es))) z \<longleftrightarrow>
     chain v BTREE_LEAF (fst (around leaf_ids c)) p \<and> chain v BTREE_LEAF (p # snd (around leaf_ids c)) z"
  by (simp add: leaf_ids_fill chain_append)

lemma leaf_update:
  assumes t: "is_tree N v root H (fill c (Lf p es))" and c: "length c = H" and v: "v p = Some (node_contents True nx es)"
    and es': "shape 0 (fst (bounds c (minus_inf, None))) (snd (bounds c (minus_inf, None))) (Lf p es')" "\<forall>e\<in>set es'. good_entry N True e"
  shows "is_tree N (v(p \<mapsto> node_contents True nx es')) root H (fill c (Lf p es'))"
proof -
  let ?v = "v(p \<mapsto> node_contents True nx es')"
  have sh: "shape (length c + 0) minus_inf None (fill c (Lf p es))" and em: "emb N v (fill c (Lf p es))"
    and di: "distinct (pids (fill c (Lf p es)))" and ch: "chain v BTREE_LEAF (leaf_ids (fill c (Lf p es))) INVALID_PAGE_ID"
    and root: "pid_of (fill c (Lf p es)) = root"
    using t c by (simp_all add: is_tree_def)
  have p: "p \<notin> set (cpids c)" "distinct (cpids c)" using di by (simp_all add: distinct_pids_fill)
  have "shape (length c + 0) minus_inf None (fill c (Lf p es'))"
    using sh es'(1) shape_fill [of c 0 "(minus_inf, None)" "Lf p es"] shape_fill [of c 0 "(minus_inf, None)" "Lf p es'"] by simp
  moreover have "emb N ?v (fill c (Lf p es'))" using em es'(2) p(1) by (auto simp: emb_fill)
  moreover have "distinct (pids (fill c (Lf p es')))" using p by (simp add: distinct_pids_fill)
  moreover have "pid_of (fill c (Lf p es')) = root" using root by (cases c) (auto simp: pid_of_fill)
  moreover have "chain ?v BTREE_LEAF (leaf_ids (fill c (Lf p es'))) INVALID_PAGE_ID"
  proof -
    have n: "p \<notin> set (fst (around leaf_ids c))" "p \<notin> set (snd (around leaf_ids c))" using p(1) around_leaf_ids_cpids [of c] by auto
    have "nx = (case snd (around leaf_ids c) of [] \<Rightarrow> INVALID_PAGE_ID | q # _ \<Rightarrow> q)"
      using ch v by (simp add: leaf_in_chain node_contents_def)
    then show ?thesis using ch unfolding leaf_in_chain chain_upd [OF n(1)]
      by (simp add: chain_upd [OF n(2)] node_contents_def)
  qed
  ultimately show ?thesis using c by (simp add: is_tree_def)
qed

text \<open>A leaf is cut: the first key of the right half becomes the separator to place.\<close>

lemma leaf_split:
  assumes t: "is_tree N v root H (fill c (Lf p es))" and c: "length c = H" and v: "v p = Some (node_contents True nx es)"
    and es': "shape 0 (fst (bounds c (minus_inf, None))) (snd (bounds c (minus_inf, None))) (Lf p (L @ r # R))" "\<forall>e\<in>set (L @ r # R). good_entry N True e"
    and L: "L \<noteq> []" and new: "v q = None" "q < INVALID_PAGE_ID"
  shows "pending N (v(q \<mapsto> node_contents True nx (r # R), p \<mapsto> node_contents True q L)) c 0 (Lf p L) (r\<lparr>e_child := q\<rparr>) (Lf q (r # R))"
proof -
  define w where "w = v(q \<mapsto> node_contents True nx (r # R), p \<mapsto> node_contents True q L)"
  obtain lo hi where b: "bounds c (minus_inf, None) = (lo, hi)" by fastforce
  have sh: "shape (length c + 0) (fst (minus_inf, None)) (snd (minus_inf, None)) (fill c (Lf p es))" and em: "emb N v (fill c (Lf p es))"
    and di: "distinct (pids (fill c (Lf p es)))" and ch: "chain v BTREE_LEAF (leaf_ids (fill c (Lf p es))) INVALID_PAGE_ID"
    using t c by (simp_all add: is_tree_def)
  have co: "ctx_ok 0 (minus_inf, None) c" using sh shape_fill [of c 0 "(minus_inf, None)" "Lf p es"] by blast
  have ce: "cemb N v p c" using em by (simp add: emb_fill)
  have p: "p \<notin> set (cpids c)" "distinct (cpids c)" using di by (simp_all add: distinct_pids_fill)
  have q: "q \<notin> set (cpids c)" "q \<noteq> p" using cemb_used [OF ce, of q] new(1) v by auto
  have w: "w p = Some (node_contents True q L)" "w q = Some (node_contents True nx (r # R))" using q by (simp_all add: w_def)
  have n: "p \<notin> set (fst (around leaf_ids c))" "p \<notin> set (snd (around leaf_ids c))" "q \<notin> set (fst (around leaf_ids c))" "q \<notin> set (snd (around leaf_ids c))"
    using p(1) q(1) around_leaf_ids_cpids [of c] by auto
  have nx: "nx = (case snd (around leaf_ids c) of [] \<Rightarrow> INVALID_PAGE_ID | q # _ \<Rightarrow> q)"
    using ch v by (simp add: leaf_in_chain node_contents_def)
  have so: "sorted_entries (L @ r # R)" and ins: "\<forall>e\<in>set (L @ r # R). inside lo hi (skey e)" using es'(1) b by simp_all
  have sk: "skey (r\<lparr>e_child := q\<rparr>) = skey r" by (simp add: skey_def)
  have l: "skey e < skey r" if "e \<in> set L" for e using so that by (auto simp: sorted_wrt_append)
  have "lo \<le> skey (hd L)" "skey (hd L) < skey r" using ins L l by (auto simp: inside_def)
  then have "lo < skey r" by (rule le_less_trans)
  moreover have "shape 0 lo (Some (skey r)) (Lf p L)" using so ins l by (auto simp: sorted_wrt_append inside_def)
  moreover have "shape 0 (skey r) hi (Lf q (r # R))" using so ins by (auto simp: sorted_wrt_append inside_def less_imp_le)
  moreover have "inside lo hi (skey r)" using ins by simp
  moreover have "good_entry N False (r\<lparr>e_child := q\<rparr>)" using es'(2) new(2) by (simp add: good_entry_def entry_ok_def width_def)
  moreover have "cemb N w p c" using ce p(1) q(1) by (simp add: w_def)
  moreover have "emb N w (Lf p L)" "emb N w (Lf q (r # R))" using w es'(2) by auto
  moreover have "chain w BTREE_LEAF (fst (around leaf_ids c) @ p # q # snd (around leaf_ids c)) INVALID_PAGE_ID"
  proof -
    have "chain w BTREE_LEAF (fst (around leaf_ids c)) p" "chain w BTREE_LEAF (snd (around leaf_ids c)) INVALID_PAGE_ID"
      unfolding w_def chain_upd [OF n(1)] chain_upd [OF n(2)] chain_upd [OF n(3)] chain_upd [OF n(4)] using ch by (simp_all add: leaf_in_chain)
    then show ?thesis using w nx by (simp add: chain_append node_contents_def)
  qed
  ultimately show ?thesis using co b p q unfolding w_def [symmetric] pending_def sk by (simp add: sk)
qed

lemma set_next_leaf_ok:
  assumes h: "node_holds p True nx es" and v: "x < 2 ^ 32"
  shows "\<exists>p'. set_next_leaf_id x p = Inr p' \<and> node_holds p' True x es \<and> page_id p' = page_id p \<and> psize p' = psize p"
  using set_next_page_id_ok [of p BTREE_LEAF nx "map (\<lambda>e. Some (ebytes True e)) es" x] h v node_holdsD(3) [OF h]
  by (auto simp: node_holds_def node_contents_def set_next_leaf_id_def)

lemma next_leaf_less:
  assumes "node_holds p True nx es"
  shows "nx < 2 ^ 32"
proof -
  have "length (slice (buf p) 20 4) \<le> 4" by (simp add: slice_def)
  then have "256 ^ length (slice (buf p) 20 4) \<le> (256 :: nat) ^ 4" by (intro power_increasing) simp_all
  then have "le_nat (slice (buf p) 20 4) < 256 ^ 4" using le_nat_bound by (rule less_le_trans [rotated])
  then show ?thesis using node_holdsD(4) [OF assms] by (auto simp: next_page_id_def get_field_def)
qed

section \<open>Insertion\<close>

lemma set_list_insert: "set (list_insert i e es) = insert e (set es)"
proof -
  have "set es = set (take i es) \<union> set (drop i es)" by (metis append_take_drop_id set_append)
  then show ?thesis by (simp add: list_insert_def)
qed

lemma sorted_list_insert:
  assumes "sorted_entries es" and "skey e \<notin> skey ` set es"
  shows "sorted_entries (list_insert (rank es (skey e)) e es)"
proof -
  have t: "take (rank es (skey e)) es = takeWhile (\<lambda>x. skey x < skey e) es" unfolding rank_def by (rule takeWhile_eq_take [symmetric])
  have d: "drop (rank es (skey e)) es = dropWhile (\<lambda>x. skey x < skey e) es" by (rule drop_rank)
  have so: "sorted_entries (takeWhile (\<lambda>x. skey x < skey e) es @ dropWhile (\<lambda>x. skey x < skey e) es)" using assms(1) by simp
  have "skey e < skey x" if m: "x \<in> set (dropWhile (\<lambda>x. skey x < skey e) es)" for x
  proof -
    obtain y ys where y: "dropWhile (\<lambda>x. skey x < skey e) es = y # ys" using m by (cases "dropWhile (\<lambda>x. skey x < skey e) es") auto
    then have "\<not> skey y < skey e" using hd_dropWhile [of "\<lambda>x. skey x < skey e" es] by auto
    moreover have "skey y \<le> skey x" using so m unfolding y by (auto simp: sorted_wrt_append less_imp_le)
    ultimately have "skey e \<le> skey x" by simp
    moreover have "x \<in> set es" using m by (rule set_dropWhileD)
    ultimately show ?thesis using assms(2) by (cases "skey e = skey x") auto
  qed
  moreover have "skey x < skey e" if "x \<in> set (takeWhile (\<lambda>x. skey x < skey e) es)" for x using that by (auto dest: set_takeWhileD)
  ultimately show ?thesis using so unfolding list_insert_def t d by (auto simp: sorted_wrt_append intro: less_trans)
qed

context page_store
begin

text \<open>A split of a leaf writes its two halves and links the left one to the right one.\<close>

lemma write_leaf_halves:
  assumes rm: "room (Suc (Suc (Suc (Suc k)))) s" and h: "node_holds pg True nx es" and id: "page_id pg = p" "psize pg = N"
    and used: "view s p \<noteq> None" and ok: "\<forall>e\<in>set L. entry_ok True e" "\<forall>e\<in>set R. entry_ok True e"
    and fits: "24 + used True L \<le> N" "24 + used True R \<le> N"
  shows "\<exists>s2 pn ps ps' pl pl' s3 s4. io_allocate P BTREE_LEAF s = (s2, Inr pn) \<and> node_new pn = Inr pn \<and> replace_all pn R = Inr ps \<and>
    set_next_leaf_id nx ps = Inr ps' \<and> page_id ps' = page_id pn \<and> replace_all pg L = Inr pl \<and>
    set_next_leaf_id (page_id pn) pl = Inr pl' \<and> page_id pl' = p \<and> io_write P ps' s2 = (s3, Inr ()) \<and> io_write P pl' s3 = (s4, Inr ()) \<and>
    view s (page_id pn) = None \<and> page_id pn < INVALID_PAGE_ID \<and> room k s4 \<and>
    view s4 = (view s)(page_id pn \<mapsto> node_contents True nx R, p \<mapsto> node_contents True (page_id pn) L)"
proof -
  from alloc_node [OF rm, of True] obtain s2 pn where 3: "io_allocate P BTREE_LEAF s = (s2, Inr pn)" "node_new pn = Inr pn"
    "node_holds pn True INVALID_PAGE_ID []" "psize pn = N" "view s (page_id pn) = None" "room (Suc (Suc k)) s2"
    "view s2 = (view s)(page_id pn \<mapsto> node_contents True INVALID_PAGE_ID [])" "page_id pn < INVALID_PAGE_ID" by auto
  from replace_all_ok [OF 3(3) ok(2)] fits(2) 3(4) obtain ps where 4: "replace_all pn R = Inr ps" "page_id ps = page_id pn"
    "psize ps = N" "node_holds ps True INVALID_PAGE_ID R" by auto
  from set_next_leaf_ok [OF 4(4) next_leaf_less [OF h]] 4(2,3) obtain ps' where 5: "set_next_leaf_id nx ps = Inr ps'"
    "node_holds ps' True nx R" "page_id ps' = page_id pn" "psize ps' = N" by auto
  from replace_all_ok [OF h ok(1)] fits(1) id obtain pl where 6: "replace_all pg L = Inr pl" "page_id pl = p" "psize pl = N"
    "node_holds pl True nx L" by auto
  have "page_id pn < 2 ^ 32" using 3(8) INVALID_PAGE_ID_less by simp
  from set_next_leaf_ok [OF 6(4) this] 6(2,3) obtain pl' where 7: "set_next_leaf_id (page_id pn) pl = Inr pl'"
    "node_holds pl' True (page_id pn) L" "page_id pl' = p" "psize pl' = N" by auto
  have "view s2 (page_id ps') \<noteq> None" using 3(7) 5(3) by simp
  from write_node [OF 3(6) 5(2,4) this] obtain s3 where 8: "io_write P ps' s2 = (s3, Inr ())" "room (Suc k) s3"
    "view s3 = (view s)(page_id pn \<mapsto> node_contents True nx R)" using 3(7) 5(3) by auto
  have "view s3 (page_id pl') \<noteq> None" using 8(3) used 7(3) by (auto simp: node_contents_def)
  from write_node [OF 8(2) 7(2,4) this] obtain s4 where 9: "io_write P pl' s3 = (s4, Inr ())" "room k s4"
    "view s4 = (view s)(page_id pn \<mapsto> node_contents True nx R, p \<mapsto> node_contents True (page_id pn) L)"
    using 8(3) 7(3) by auto
  show ?thesis using 3(1,2,5,8) 4(1) 5(1,3) 6(1) 7(1,3) 8(1) 9 by blast
qed

lemma split_leaf_ok:
  assumes rm: "room (7 + 4 * H + k) s" and cb: "quiet_root cb" and t: "is_tree N (view s) (bt_root T) H (fill c (Lf p es))" and c: "length c = H"
    and pg: "node_page N (view s) (Lf p es) pg" and e: "good_entry N True e" and full: "\<not> 24 + used True es + width True e \<le> N"
    and new: "skey e \<notin> skey ` set es" and ins: "inside (fst (bounds c (minus_inf, None))) (snd (bounds c (minus_inf, None))) (skey e)"
  shows "\<exists>s' T' t' H'. split_leaf P cb pg (path_of c) e (T, s) = ((T', s'), Inr ()) \<and> room k s' \<and> bt_unique T' = bt_unique T \<and>
    is_tree N (view s') (bt_root T') H' t' \<and> H' \<le> Suc H \<and> set (flat t') = insert e (set (flat (fill c (Lf p es)))) \<and>
    grown (view s) (set (pids (fill c (Lf p es)))) (view s') (set (pids t'))"
proof -
  let ?es = "list_insert (rank es (skey e)) e es"
  note th = tree_hole [OF t c ins]
  obtain nx where v: "view s p = Some (node_contents True nx es)" and h: "node_holds pg True nx es" and id: "page_id pg = p" "psize pg = N"
    using pg by auto
  have eo: "entry_ok True e" and w: "2 * width True e + 24 \<le> N" using e by (auto simp: good_entry_def width_def)
  have st: "search_target (e_key e) (Some (e_rid e)) = Inr (skey e)" using eo by (simp add: search_target_def entry_ok_def skey_def)
  note lb = lower_bound_ok [OF h th(2) st]
  from cut_ok [OF h eo rank_le [of es "skey e"], unfolded id(2), OF w full] obtain cut where
    cut: "split_index pg ?es = Inr cut" "1 \<le> cut" "cut < length ?es" "24 + used True (take cut ?es) \<le> N" "24 + used True (drop cut ?es) \<le> N"
    by blast
  obtain r R where r: "drop cut ?es = r # R" using cut(3) by (cases "drop cut ?es") auto
  define L where "L = take cut ?es"
  have L: "?es = L @ r # R" using append_take_drop_id [of cut ?es] unfolding r L_def by (rule sym)
  have ne: "L \<noteq> []" using cut(2,3) by (auto simp: L_def)
  have good: "\<forall>x\<in>set ?es. good_entry N True x" using t e by (auto simp: is_tree_def emb_fill set_list_insert)
  then have ok: "\<forall>x\<in>set L. entry_ok True x" "\<forall>x\<in>set (r # R). entry_ok True x" unfolding L by (auto simp: good_entry_def)
  have sh: "shape 0 (fst (bounds c (minus_inf, None))) (snd (bounds c (minus_inf, None))) (Lf p (L @ r # R))"
    using th(3) ins sorted_list_insert [OF th(2) new] by (simp add: set_list_insert flip: L)
  have rm4: "room (Suc (Suc (Suc (Suc (3 + 4 * length c + k))))) s" using rm c by (simp add: eval_nat_numeral)
  have "view s p \<noteq> None" using v by auto
  from write_leaf_halves [OF rm4 h id this ok] cut(4,5) obtain s2 pn ps ps' pl pl' s3 s4 where
    w: "io_allocate P BTREE_LEAF s = (s2, Inr pn)" "node_new pn = Inr pn" "replace_all pn (r # R) = Inr ps" "set_next_leaf_id nx ps = Inr ps'"
      "page_id ps' = page_id pn" "replace_all pg L = Inr pl" "set_next_leaf_id (page_id pn) pl = Inr pl'" "page_id pl' = p"
      "io_write P ps' s2 = (s3, Inr ())" "io_write P pl' s3 = (s4, Inr ())" and n: "view s (page_id pn) = None" "page_id pn < INVALID_PAGE_ID"
    and rm': "room (3 + 4 * length c + k) s4"
    and v': "view s4 = (view s)(page_id pn \<mapsto> node_contents True nx (r # R), p \<mapsto> node_contents True (page_id pn) L)"
    unfolding r L_def [symmetric] by blast
  have up: "\<lparr>e_key = e_key r, e_rid = e_rid r, e_child = page_id pn\<rparr> = r\<lparr>e_child := page_id pn\<rparr>" by simp
  have run: "split_leaf P cb pg (path_of c) e (T, s) = insert_into_parent P cb (rev (path_of c)) (r\<lparr>e_child := page_id pn\<rparr>) p (T, s4)"
    unfolding up [symmetric] using entries_ok [OF h] lb cut(1,3) w r node_holdsD(7) [OF h]
    by (simp add: split_leaf_def op_defs item_def L_def)
  have pe: "pending N (view s4) c 0 (Lf p L) (r\<lparr>e_child := page_id pn\<rparr>) (Lf (page_id pn) (r # R))"
    unfolding v' by (rule leaf_split [OF t c v sh _ ne n]) (use good L in simp)
  have root: "bt_root T = pid_of (fill c (Lf p L))" using t by (cases c) (auto simp: is_tree_def pid_of_fill)
  from insert_into_parent_ok [OF rm' cb pe root] obtain s' T' t' H' where
    10: "insert_into_parent P cb (rev (path_of c)) (r\<lparr>e_child := page_id pn\<rparr>) p (T, s4) = ((T', s'), Inr ())" "room k s'"
      "bt_unique T' = bt_unique T" "is_tree N (view s') (bt_root T') H' t'" "H' \<le> Suc (length c + 0)"
      "flat t' = fst (around flat c) @ flat (Lf p L) @ flat (Lf (page_id pn) (r # R)) @ snd (around flat c)"
      "grown (view s4) (set (cpids c) \<union> set (pids (Lf p L)) \<union> set (pids (Lf (page_id pn) (r # R)))) (view s') (set (pids t'))"
    by auto
  have "set (flat t') = set (fst (around flat c)) \<union> set ?es \<union> set (snd (around flat c))" unfolding 10(6) L by auto
  then have "set (flat t') = insert e (set (flat (fill c (Lf p es))))" by (simp add: flat_fill set_list_insert Un_assoc)
  moreover have "grown (view s) (set (pids (fill c (Lf p es)))) (view s4) (set (cpids c) \<union> set (pids (Lf p L)) \<union> set (pids (Lf (page_id pn) (r # R))))"
    unfolding set_pids_fill v' using n(1) by (auto simp: grown_def)
  note grown_trans [OF this 10(7)]
  ultimately show ?thesis using run 10(1-5) c
    by (intro exI [of _ s'] exI [of _ T'] exI [of _ t'] exI [of _ H']) simp
qed

end

text \<open>The keys that may be inserted: above minus infinity, and such that an entry takes at most half a page.\<close>

definition insertable :: "nat \<Rightarrow> bytes \<Rightarrow> record_id \<Rightarrow> bool" where
  "insertable n key rid \<longleftrightarrow> MINUS_INFINITY < key \<and> rid_ok rid \<and> 2 * (length key + 14) + 24 \<le> n"

lemma good_leaf_entry: "insertable n key rid \<Longrightarrow> good_entry n True (leaf_entry key rid)"
  by (cases key) (auto simp: insertable_def good_entry_def entry_ok_def leaf_entry_def width_def MINUS_INFINITY_def)

lemma leaf_entry_sel [simp]: "e_key (leaf_entry key rid) = key" "e_rid (leaf_entry key rid) = rid" "skey (leaf_entry key rid) = (key, rid_bytes rid)"
  by (simp_all add: leaf_entry_def skey_def)

context page_store
begin

lemma insert_checked_ok:
  assumes rm: "room (7 + 4 * H + k) s" and cb: "quiet_root cb" and t: "is_tree N (view s) (bt_root T) H t" and H: "H \<le> MAX_DEPTH"
    and key: "insertable N key rid" and new: "(key, rid_bytes rid) \<notin> skey ` set (flat t)"
  shows "\<exists>s' T' t' H'. insert_checked P cb key rid (T, s) = ((T', s'), Inr ()) \<and> room k s' \<and> bt_unique T' = bt_unique T \<and>
    is_tree N (view s') (bt_root T') H' t' \<and> H' \<le> Suc H \<and> set (flat t') = insert (leaf_entry key rid) (set (flat t)) \<and>
    grown (view s) (set (pids t)) (view s') (set (pids t'))"
proof -
  let ?e = "leaf_entry key rid"
  have good: "good_entry N True ?e" by (rule good_leaf_entry [OF key])
  have tg: "search_target key (Some rid) = Inr (key, rid_bytes rid)" using key by (simp add: search_target_def insertable_def)
  have mi: "minus_inf \<le> (key, rid_bytes rid)" using key minus_inf_below by (auto simp: insertable_def intro: less_imp_le)
  from descend_ok [OF rm t tg mi H] obtain s1 leaf c p es where
    d: "descend P (bt_root T) key (Some rid) s = (s1, Inr (leaf, path_of c))" "t = fill c (Lf p es)" "length c = H"
    "node_page N (view s) (Lf p es) leaf"
    "inside (fst (bounds c (minus_inf, None))) (snd (bounds c (minus_inf, None))) (key, rid_bytes rid)" "room (7 + 4 * H + k) s1" "view s1 = view s" by blast
  note t' = t [unfolded d(2)]
  note th = tree_hole [OF t' d(3,5)]
  obtain nx where v: "view s p = Some (node_contents True nx es)" and h: "node_holds leaf True nx es" and id: "page_id leaf = p" "psize leaf = N"
    using d(4) by auto
  have nes: "(key, rid_bytes rid) \<notin> skey ` set es" using new d(2) by (auto simp: flat_fill)
  have eo: "entry_ok True ?e" and w: "24 + width True ?e \<le> N" using good by (auto simp: good_entry_def width_def)
  from insert_entry_ok [OF h th(2) eo] w id(2) obtain leaf' where
    i: "insert_entry leaf ?e = Inr (leaf', 24 + used True es + width True ?e \<le> N)" "page_id leaf' = page_id leaf" "psize leaf' = N"
    "node_holds leaf' True nx (if 24 + used True es + width True ?e \<le> N then list_insert (rank es (skey ?e)) ?e es else es)" by auto
  show ?thesis
  proof (cases "24 + used True es + width True ?e \<le> N")
    case True
    let ?es = "list_insert (rank es (key, rid_bytes rid)) ?e es"
    have h': "node_holds leaf' True nx ?es" "view s1 (page_id leaf') \<noteq> None" using i(2,4) True v d(7) id(1) by simp_all
    have "room (Suc k) s1" using room_le [OF d(6)] by simp
    from write_node [OF this h'(1) i(3) h'(2)] obtain s2 where 2: "io_write P leaf' s1 = (s2, Inr ())" "room k s2"
      "view s2 = (view s)(p \<mapsto> node_contents True nx ?es)" using d(7) i(2) id(1) by auto
    have "\<forall>x\<in>set ?es. good_entry N True x" using t' good by (auto simp: is_tree_def emb_fill set_list_insert)
    moreover have "shape 0 (fst (bounds c (minus_inf, None))) (snd (bounds c (minus_inf, None))) (Lf p ?es)"
      using th(3) d(5) sorted_list_insert [OF th(2), of ?e] nes by (simp add: set_list_insert)
    ultimately have "is_tree N (view s2) (bt_root T) H (fill c (Lf p ?es))" unfolding 2(3) by (intro leaf_update [OF t' d(3) v])
    moreover have "insert_checked P cb key rid (T, s) = ((T, s2), Inr ())"
      using d(1) i(1) True 2(1) by (simp add: insert_checked_def op_defs)
    moreover have "set (flat (fill c (Lf p ?es))) = insert ?e (set (flat t))" by (simp add: d(2) flat_fill set_list_insert)
    moreover have "grown (view s) (set (pids t)) (view s2) (set (pids (fill c (Lf p ?es))))"
      unfolding 2(3) d(2) set_pids_fill by (auto simp: grown_def)
    ultimately show ?thesis using 2(2) by (intro exI [of _ s2] exI [of _ T] exI [of _ "fill c (Lf p ?es)"] exI [of _ H]) simp
  next
    case False
    have t1: "is_tree N (view s1) (bt_root T) H (fill c (Lf p es))" "node_page N (view s1) (Lf p es) leaf'"
      using t' d(7) v i(2-4) False id(1) by auto
    from split_leaf_ok [OF d(6) cb t1(1) d(3) t1(2) good False] nes d(5) obtain s' T' t'' H' where
      "split_leaf P cb leaf' (path_of c) ?e (T, s1) = ((T', s'), Inr ())" "room k s'" "bt_unique T' = bt_unique T"
      "is_tree N (view s') (bt_root T') H' t''" "H' \<le> Suc H" "set (flat t'') = insert ?e (set (flat t))"
      "grown (view s1) (set (pids t)) (view s') (set (pids t''))" unfolding d(2) leaf_entry_sel by blast
    moreover have "insert_checked P cb key rid (T, s) = split_leaf P cb leaf' (path_of c) ?e (T, s1)"
      using d(1) i(1) False by (simp add: insert_checked_def op_defs)
    ultimately show ?thesis unfolding d(7) by auto
  qed
qed

text \<open>A unique index refuses a key it has, NULL apart, and is then as before.\<close>

lemma bt_insert_ok:
  assumes rm: "room (7 + 4 * H + k) s" and cb: "quiet_root cb" and t: "is_tree N (view s) (bt_root T) H t" and H: "H \<le> MAX_DEPTH"
    and key: "insertable N key rid" and new: "(key, rid_bytes rid) \<notin> skey ` set (flat t)"
  shows "\<exists>s' T'. room k s' \<and> bt_unique T' = bt_unique T \<and>
    (if bt_unique T \<and> \<not> is_null_key key \<and> key \<in> e_key ` set (flat t)
     then bt_insert P cb key rid (T, s) = Some ((T, s'), Inl UniqueViolation) \<and> view s' = view s \<and> T' = T
     else bt_insert P cb key rid (T, s) = Some ((T', s'), Inr ()) \<and>
       (\<exists>t' H'. is_tree N (view s') (bt_root T') H' t' \<and> H' \<le> Suc H \<and> set (flat t') = insert (leaf_entry key rid) (set (flat t)) \<and>
          grown (view s) (set (pids t)) (view s') (set (pids t'))))"
proof (cases "bt_unique T \<and> \<not> is_null_key key")
  case True
  have mk: "MINUS_INFINITY < key" using key by (simp add: insertable_def)
  from bt_contains_ok [OF rm t mk H] obtain s1 where
    1: "bt_contains P T key s = Some (s1, Inr (key \<in> e_key ` set (flat t)))" "room (7 + 4 * H + k) s1" "view s1 = view s" by blast
  show ?thesis
  proof (cases "key \<in> e_key ` set (flat t)")
    case in_tree: True
    moreover have "room k s1" using room_le [OF 1(2)] by simp
    ultimately show ?thesis using True 1(1,3) by (intro exI [of _ s1] exI [of _ T]) (simp add: bt_insert_def)
  next
    case False
    from insert_checked_ok [OF 1(2) cb t [folded 1(3)] H key new] obtain s' T' t' H' where
      "insert_checked P cb key rid (T, s1) = ((T', s'), Inr ())" "room k s'" "bt_unique T' = bt_unique T"
      "is_tree N (view s') (bt_root T') H' t'" "H' \<le> Suc H" "set (flat t') = insert (leaf_entry key rid) (set (flat t))"
      "grown (view s) (set (pids t)) (view s') (set (pids t'))" unfolding 1(3) by blast
    moreover from this(1) have "bt_insert P cb key rid (T, s) = Some ((T', s'), Inr ())"
      using True False 1(1) by (simp add: bt_insert_def)
    ultimately show ?thesis using False by (intro exI [of _ s'] exI [of _ T']) auto
  qed
next
  case False
  from insert_checked_ok [OF rm cb t H key new] obtain s' T' t' H' where
    "insert_checked P cb key rid (T, s) = ((T', s'), Inr ())" "room k s'" "bt_unique T' = bt_unique T"
    "is_tree N (view s') (bt_root T') H' t'" "H' \<le> Suc H" "set (flat t') = insert (leaf_entry key rid) (set (flat t))"
    "grown (view s) (set (pids t)) (view s') (set (pids t'))" by blast
  moreover from this(1) have "bt_insert P cb key rid (T, s) = Some ((T', s'), Inr ())"
    using False by (cases "bt_unique T") (auto simp: bt_insert_def)
  ultimately show ?thesis using False by (intro exI [of _ s'] exI [of _ T']) auto
qed

lemma bt_create_ok:
  assumes "room (Suc (Suc (Suc k))) s" and cb: "quiet_root cb"
  shows "\<exists>s' T p. bt_create P u cb s = (s', Inr T) \<and> bt_unique T = u \<and> room k s' \<and> is_tree N (view s') (bt_root T) 0 (Lf p []) \<and>
    view s p = None \<and> (\<forall>q. q \<noteq> p \<longrightarrow> view s' q = view s q)"
proof -
  from alloc_node [OF assms(1), of True] obtain s1 pg where 1: "io_allocate P BTREE_LEAF s = (s1, Inr pg)"
    "node_holds pg True INVALID_PAGE_ID []" "psize pg = N" "view s (page_id pg) = None" "room (Suc k) s1"
    "view s1 = (view s)(page_id pg \<mapsto> node_contents True INVALID_PAGE_ID [])" by auto
  have "view s1 (page_id pg) \<noteq> None" using 1(6) by simp
  from write_node [OF 1(5,2,3) this] obtain s2 where 2: "io_write P pg s1 = (s2, Inr ())" "room k s2"
    "view s2 = (view s)(page_id pg \<mapsto> node_contents True INVALID_PAGE_ID [])" using 1(6) by auto
  from cb 2(2) obtain s3 where 3: "notify_root cb (page_id pg) s2 = (s3, Inr ())" "room k s3" "view s3 = view s2"
    unfolding quiet_root_def by blast
  have "bt_create P u cb s = (s3, Inr \<lparr>bt_root = page_id pg, bt_unique = u\<rparr>)"
    using 1(1) 2(1) 3(1) by (simp add: bt_create_def op_defs)
  moreover have "is_tree N (view s3) (page_id pg) 0 (Lf (page_id pg) [])"
    using 2(3) 3(3) by (auto simp: is_tree_def node_contents_def)
  ultimately show ?thesis using 1(4) 2(3) 3(2,3)
    by (intro exI [of _ s3] exI [of _ "\<lparr>bt_root = page_id pg, bt_unique = u\<rparr>"] exI [of _ "page_id pg"]) simp
qed

end

section \<open>Deletion\<close>

lemma rank_hit:
  assumes "sorted_entries es"
  shows "tg \<in> skey ` set es \<longleftrightarrow> rank es tg < length es \<and> skey (es ! rank es tg) = tg"
proof
  assume "tg \<in> skey ` set es"
  then obtain i where i: "i < length es" "skey (es ! i) = tg" by (auto simp: in_set_conv_nth)
  then have r: "rank es tg \<le> i" using rank_less [OF assms i(1), of tg] by simp
  then have l: "rank es tg < length es" using i(1) by simp
  then have "\<not> skey (es ! rank es tg) < tg" using rank_less [OF assms l, of tg] by simp
  moreover have "skey (es ! rank es tg) \<le> tg"
    using r i sorted_wrt_nth_less [OF assms, of "rank es tg" i] by (cases "rank es tg = i") auto
  ultimately show "rank es tg < length es \<and> skey (es ! rank es tg) = tg" using l by simp
qed (metis imageI nth_mem)

lemma remove_rank:
  assumes "sorted_entries es" and "rank es tg < length es" and "skey (es ! rank es tg) = tg"
  shows "take (rank es tg) es @ drop (Suc (rank es tg)) es = filter (\<lambda>e. skey e \<noteq> tg) es"
proof -
  let ?r = "rank es tg"
  have s: "es = take ?r es @ es ! ?r # drop (Suc ?r) es" using id_take_nth_drop [OF assms(2)] .
  have so: "sorted_entries (take ?r es @ es ! ?r # drop (Suc ?r) es)" using assms(1) s by simp
  have "filter (\<lambda>e. skey e \<noteq> tg) (take ?r es) = take ?r es" "filter (\<lambda>e. skey e \<noteq> tg) (drop (Suc ?r) es) = drop (Suc ?r) es"
    using so assms(3) by (auto simp: filter_id_conv sorted_wrt_append)
  then show ?thesis using arg_cong [OF s, of "filter (\<lambda>e. skey e \<noteq> tg)"] assms(3) by simp
qed

lemma skey_eq_iff: "rid_ok rid \<Longrightarrow> entry_ok leaf e \<Longrightarrow> skey e = (key, rid_bytes rid) \<longleftrightarrow> e_key e = key \<and> e_rid e = rid"
  by (auto simp: skey_def entry_ok_def rid_bytes_inject)

lemma remove_entry_ok:
  assumes h: "node_holds p True nx es" and s: "sorted_entries es" and rid: "rid_ok rid"
  shows "\<exists>p'. remove_entry p key rid = Inr (p', (key, rid_bytes rid) \<in> skey ` set es) \<and> page_id p' = page_id p \<and> psize p' = psize p \<and>
    node_holds p' True nx (filter (\<lambda>e. skey e \<noteq> (key, rid_bytes rid)) es)"
proof -
  let ?tg = "(key, rid_bytes rid)"
  have st: "search_target key (Some rid) = Inr ?tg" using rid by (simp add: search_target_def)
  note lb = lower_bound_ok [OF h s st] and d = node_holdsD [OF h]
  show ?thesis
  proof (cases "?tg \<in> skey ` set es")
    case True
    then have r: "rank es ?tg < length es" "skey (es ! rank es ?tg) = ?tg" using rank_hit [OF s] by blast+
    then have "e_key (es ! rank es ?tg) = key \<and> e_rid (es ! rank es ?tg) = rid" using skey_eq_iff [OF rid d(9)] by auto
    then show ?thesis using delete_entry_ok [OF h r(1)] remove_rank [OF s r] True lb d(5) r(1) entry_at_ok [OF h r(1)]
      by (auto simp: remove_entry_def)
  next
    case False
    then have "filter (\<lambda>e. skey e \<noteq> ?tg) es = es" by (simp add: filter_id_conv) (metis imageI)
    moreover have "remove_entry p key rid = Inr (p, False)"
    proof (cases "rank es ?tg < length es")
      case r: True
      then have "\<not> (e_key (es ! rank es ?tg) = key \<and> e_rid (es ! rank es ?tg) = rid)"
        using rank_hit [OF s, of ?tg] False by (auto simp: skey_def)
      then show ?thesis using lb d(5) r entry_at_ok [OF h r] by (auto simp: remove_entry_def)
    qed (use lb d(5) in \<open>simp add: remove_entry_def\<close>)
    ultimately show ?thesis using h False by simp
  qed
qed

context page_store
begin

lemma bt_delete_ok:
  assumes rm: "room (Suc k) s" and t: "is_tree N (view s) (bt_root T) H t" and H: "H \<le> MAX_DEPTH"
    and key: "MINUS_INFINITY < key" and rid: "rid_ok rid"
  shows "\<exists>s' t'. bt_delete P T key rid s = (s', Inr ((key, rid_bytes rid) \<in> skey ` set (flat t))) \<and> room k s' \<and>
    is_tree N (view s') (bt_root T) H t' \<and> set (flat t') = {e \<in> set (flat t). skey e \<noteq> (key, rid_bytes rid)} \<and>
    set (pids t') = set (pids t) \<and> (\<forall>q. q \<notin> set (pids t) \<longrightarrow> view s' q = view s q)"
proof -
  let ?tg = "(key, rid_bytes rid)"
  have st: "search_target key (Some rid) = Inr ?tg" using rid by (simp add: search_target_def)
  have mi: "minus_inf \<le> ?tg" using minus_inf_below [OF key] by (rule less_imp_le)
  from descend_ok [OF rm t st mi H] obtain s1 leaf c p es where
    d: "descend P (bt_root T) key (Some rid) s = (s1, Inr (leaf, path_of c))" "t = fill c (Lf p es)" "length c = H"
    "node_page N (view s) (Lf p es) leaf"
    "inside (fst (bounds c (minus_inf, None))) (snd (bounds c (minus_inf, None))) ?tg" "room (Suc k) s1" "view s1 = view s" by blast
  note t' = t [unfolded d(2)]
  note th = tree_hole [OF t' d(3,5)]
  obtain nx where v: "view s p = Some (node_contents True nx es)" and h: "node_holds leaf True nx es" and id: "page_id leaf = p" "psize leaf = N"
    using d(4) by auto
  let ?es = "filter (\<lambda>e. skey e \<noteq> ?tg) es"
  from remove_entry_ok [OF h th(2) rid] obtain leaf' where
    r: "remove_entry leaf key rid = Inr (leaf', ?tg \<in> skey ` set es)" "page_id leaf' = page_id leaf" "psize leaf' = psize leaf" "node_holds leaf' True nx ?es"
    by blast
  have "\<forall>x\<in>set (fst (around flat c)). skey x \<noteq> ?tg" "\<forall>x\<in>set (snd (around flat c)). skey x \<noteq> ?tg"
    using around_inside [OF th(1) d(5)] by auto
  then have hit: "?tg \<in> skey ` set (flat t) \<longleftrightarrow> ?tg \<in> skey ` set es"
    and fl: "set (flat (fill c (Lf p ?es))) = {e \<in> set (flat t). skey e \<noteq> ?tg}" by (auto simp: d(2) flat_fill)
  show ?thesis
  proof (cases "?tg \<in> skey ` set es")
    case True
    have "view s1 (page_id leaf') \<noteq> None" "psize leaf' = N" using v d(7) r(2,3) id by simp_all
    from write_node [OF d(6) r(4) this(2,1)] obtain s2 where 2: "io_write P leaf' s1 = (s2, Inr ())" "room k s2"
      "view s2 = (view s)(p \<mapsto> node_contents True nx ?es)" using d(7) r(2) id by auto
    have "\<forall>x\<in>set ?es. good_entry N True x" using t' by (auto simp: is_tree_def emb_fill)
    moreover have "shape 0 (fst (bounds c (minus_inf, None))) (snd (bounds c (minus_inf, None))) (Lf p ?es)"
      using th(3) by (simp add: sorted_wrt_filter)
    ultimately have "is_tree N (view s2) (bt_root T) H (fill c (Lf p ?es))" unfolding 2(3) by (intro leaf_update [OF t' d(3) v])
    moreover have "bt_delete P T key rid s = (s2, Inr True)" using d(1) r(1) True 2(1) by (simp add: bt_delete_def op_defs)
    moreover have "set (pids (fill c (Lf p ?es))) = set (pids t)" by (simp add: d(2) set_pids_fill)
    moreover have "\<forall>q. q \<notin> set (pids t) \<longrightarrow> view s2 q = view s q" by (simp add: 2(3) d(2) set_pids_fill)
    ultimately show ?thesis using hit fl True 2(2) by (intro exI [of _ s2] exI [of _ "fill c (Lf p ?es)"]) simp
  next
    case False
    then have "\<forall>e\<in>set (flat t). skey e \<noteq> ?tg" using hit by (metis imageI)
    then have "{e \<in> set (flat t). skey e \<noteq> ?tg} = set (flat t)" by auto
    moreover have "bt_delete P T key rid s = (s1, Inr False)" using d(1) r(1) False by (simp add: bt_delete_def op_defs)
    ultimately show ?thesis using hit False room_mono [OF d(6)] t d(7) by (intro exI [of _ s1] exI [of _ t]) simp
  qed
qed

lemma delete_each_ok:
  assumes "room (length rs + k) s" and "is_tree N (view s) (bt_root T) H t" and "H \<le> MAX_DEPTH" and "MINUS_INFINITY < key"
    and "\<forall>r\<in>set rs. rid_ok r \<and> (key, rid_bytes r) \<in> skey ` set (flat t)" and "distinct rs"
  shows "\<exists>s' t'. delete_each P T key rs n s = (s', Inr (n + length rs)) \<and> room k s' \<and>
    is_tree N (view s') (bt_root T) H t' \<and> set (flat t') = {e \<in> set (flat t). \<forall>r\<in>set rs. skey e \<noteq> (key, rid_bytes r)} \<and>
    set (pids t') = set (pids t) \<and> (\<forall>q. q \<notin> set (pids t) \<longrightarrow> view s' q = view s q)"
  using assms
proof (induction rs arbitrary: s t n)
  case Nil
  then show ?case by (auto simp: lift_res_def)
next
  case (Cons r rs)
  have rm: "room (Suc (length rs + k)) s" and rid: "rid_ok r" and hit: "(key, rid_bytes r) \<in> skey ` set (flat t)" using Cons.prems by simp_all
  from bt_delete_ok [OF rm Cons.prems(2-4) rid] hit obtain s1 t1 where
    1: "bt_delete P T key r s = (s1, Inr True)" "room (length rs + k) s1" "is_tree N (view s1) (bt_root T) H t1"
    "set (flat t1) = {e \<in> set (flat t). skey e \<noteq> (key, rid_bytes r)}" "set (pids t1) = set (pids t)"
    "\<forall>q. q \<notin> set (pids t) \<longrightarrow> view s1 q = view s q" by auto
  have "\<forall>x\<in>set rs. rid_ok x \<and> (key, rid_bytes x) \<in> skey ` set (flat t1)"
  proof
    fix x assume x: "x \<in> set rs"
    then have ok: "rid_ok x" and "x \<noteq> r" and m: "(key, rid_bytes x) \<in> skey ` set (flat t)" using Cons.prems(5,6) by auto
    then have "rid_bytes x \<noteq> rid_bytes r" using rid rid_bytes_inject by blast
    then show "rid_ok x \<and> (key, rid_bytes x) \<in> skey ` set (flat t1)" using ok m unfolding 1(4) by auto
  qed
  moreover have "distinct rs" using Cons.prems(6) by simp
  ultimately obtain s2 t2 where
    2: "delete_each P T key rs (n + 1) s1 = (s2, Inr (n + 1 + length rs))" "room k s2" "is_tree N (view s2) (bt_root T) H t2"
    "set (flat t2) = {e \<in> set (flat t1). \<forall>r\<in>set rs. skey e \<noteq> (key, rid_bytes r)}" "set (pids t2) = set (pids t1)"
    "\<forall>q. q \<notin> set (pids t1) \<longrightarrow> view s2 q = view s1 q" using Cons.IH [OF 1(2,3) Cons.prems(3,4)] by blast
  have "delete_each P T key (r # rs) n s = (s2, Inr (n + length (r # rs)))" using 1(1) 2(1) by (simp add: bind_op_def)
  moreover have "set (flat t2) = {e \<in> set (flat t). \<forall>r\<in>set (r # rs). skey e \<noteq> (key, rid_bytes r)}" unfolding 2(4) 1(4) by auto
  moreover have "\<forall>q. q \<notin> set (pids t) \<longrightarrow> view s2 q = view s q" using 1(5,6) 2(6) by simp
  ultimately show ?case using 2(2,3,5) 1(5) by blast
qed

lemma delete_key_ok:
  assumes rm: "room (length (filter (\<lambda>e. e_key e = key) (flat t)) + k) s" and t: "is_tree N (view s) (bt_root T) H t" and H: "H \<le> MAX_DEPTH"
    and key: "MINUS_INFINITY < key"
  shows "\<exists>s' t'. delete_key P T key s = Some (s', Inr (length (filter (\<lambda>e. e_key e = key) (flat t)))) \<and> room k s' \<and>
    is_tree N (view s') (bt_root T) H t' \<and> set (flat t') = {e \<in> set (flat t). e_key e \<noteq> key} \<and>
    set (pids t') = set (pids t) \<and> (\<forall>q. q \<notin> set (pids t) \<longrightarrow> view s' q = view s q)"
proof -
  let ?ms = "filter (\<lambda>e. e_key e = key) (flat t)"
  have ok: "\<forall>e\<in>set (flat t). entry_ok True e"
    using t emb_leaves by (fastforce simp: is_tree_def flat_leaves good_entry_def)
  from bt_search_ok [OF rm t key H] obtain s1 where 1: "bt_search P T key s = Some (s1, Inr (map e_rid ?ms))"
    "room (length (map e_rid ?ms) + k) s1" "view s1 = view s" by auto
  have "sorted_entries ?ms" using is_tree_sorted [OF t] by (rule sorted_wrt_filter)
  then have "distinct (map skey ?ms)" by (auto simp: distinct_conv_nth sorted_wrt_iff_nth_less neq_iff)
  then have di: "distinct (map e_rid ?ms)" by (auto simp: distinct_map inj_on_def skey_def)
  have hit: "\<forall>r\<in>set (map e_rid ?ms). rid_ok r \<and> (key, rid_bytes r) \<in> skey ` set (flat t)"
    using ok by (force simp: entry_ok_def skey_def)
  from delete_each_ok [OF 1(2) t [folded 1(3)] H key hit di, of 0] obtain s2 t2 where
    2: "delete_each P T key (map e_rid ?ms) 0 s1 = (s2, Inr (length ?ms))" "room k s2" "is_tree N (view s2) (bt_root T) H t2"
    "set (flat t2) = {e \<in> set (flat t). \<forall>r\<in>set (map e_rid ?ms). skey e \<noteq> (key, rid_bytes r)}" "set (pids t2) = set (pids t)"
    "\<forall>q. q \<notin> set (pids t) \<longrightarrow> view s2 q = view s q" unfolding 1(3) by auto
  have "set (flat t2) = {e \<in> set (flat t). e_key e \<noteq> key}" unfolding 2(4) by (auto simp: skey_def)
  moreover have "delete_key P T key s = Some (s2, Inr (length ?ms))" using 1(1) 2(1) by (simp add: delete_key_def)
  ultimately show ?thesis using 2(2,3,5,6) by blast
qed

end

section \<open>An index as a set of keys with record ids\<close>

definition index_ok :: "nat \<Rightarrow> (nat \<rightharpoonup> contents) \<Rightarrow> bptree \<Rightarrow> nat \<Rightarrow> nat set \<Rightarrow> (bytes \<times> record_id) set \<Rightarrow> bool" where
  "index_ok n v T h U S \<longleftrightarrow> (\<exists>t. is_tree n v (bt_root T) h t \<and> set (pids t) = U \<and> key_row ` set (flat t) = S)"

lemma index_okI: "is_tree n v (bt_root T) h t \<Longrightarrow> set (pids t) = U \<Longrightarrow> key_row ` set (flat t) = S \<Longrightarrow> index_ok n v T h U S"
  by (auto simp: index_ok_def)

text \<open>The order of the leaves: by key, then by record id.\<close>

definition row_less :: "bytes \<times> record_id \<Rightarrow> bytes \<times> record_id \<Rightarrow> bool" where
  "row_less a b \<longleftrightarrow> (fst a, rid_bytes (snd a)) < (fst b, rid_bytes (snd b))"

definition row_in :: "key_range \<Rightarrow> bytes \<times> record_id \<Rightarrow> bool" where
  "row_in kr r \<longleftrightarrow>
     (case kr_low kr of None \<Rightarrow> True | Some low \<Rightarrow> if kr_include_low kr then low \<le> fst r else low < fst r) \<and>
     (case kr_high kr of None \<Rightarrow> True | Some high \<Rightarrow> if kr_include_high kr then fst r \<le> high else fst r < high)"

lemma tree_entries:
  assumes "is_tree n v root h t" and "e \<in> set (flat t)"
  shows "entry_ok True e" "e = leaf_entry (e_key e) (e_rid e)" "rid_ok (e_rid e)"
proof -
  show *: "entry_ok True e" using assms emb_leaves by (fastforce simp: is_tree_def flat_leaves good_entry_def)
  then show "e = leaf_entry (e_key e) (e_rid e)" "rid_ok (e_rid e)" by (simp_all add: entry_ok_def leaf_entry_def)
qed

lemma row_in_tree:
  assumes "is_tree n v root h t" and "rid_ok rid"
  shows "(key, rid) \<in> key_row ` set (flat t) \<longleftrightarrow> (key, rid_bytes rid) \<in> skey ` set (flat t)"
proof -
  have "(key, rid) = key_row e \<longleftrightarrow> (key, rid_bytes rid) = skey e" if "e \<in> set (flat t)" for e
  proof -
    note * = skey_eq_iff [OF assms(2) tree_entries(1) [OF assms(1) that], of key]
    show ?thesis unfolding eq_commute [of _ "skey e"] * key_row_def prod.inject by blast
  qed
  then show ?thesis unfolding image_iff by (rule bex_cong [OF refl])
qed

context page_store
begin

lemma index_insert_ok:
  assumes rm: "room (7 + 4 * h + k) s" and cb: "quiet_root cb" and ix: "index_ok N (view s) T h U S" and h: "h \<le> MAX_DEPTH"
    and key: "insertable N key rid" and new: "(key, rid) \<notin> S"
  shows "\<exists>s' T'. room k s' \<and>
    (if bt_unique T \<and> \<not> is_null_key key \<and> key \<in> fst ` S
     then bt_insert P cb key rid (T, s) = Some ((T, s'), Inl UniqueViolation) \<and> view s' = view s
     else bt_insert P cb key rid (T, s) = Some ((T', s'), Inr ()) \<and> bt_unique T' = bt_unique T \<and>
       (\<exists>h' U'. h' \<le> Suc h \<and> index_ok N (view s') T' h' U' (insert (key, rid) S) \<and> grown (view s) U (view s') U'))"
proof -
  obtain t where t: "is_tree N (view s) (bt_root T) h t" "set (pids t) = U" "key_row ` set (flat t) = S"
    using ix by (auto simp: index_ok_def)
  have "rid_ok rid" using key by (simp add: insertable_def)
  from new row_in_tree [OF t(1) this] t(3) have nk: "(key, rid_bytes rid) \<notin> skey ` set (flat t)" by simp
  have keys: "e_key ` set (flat t) = fst ` S" using t(3) by (force simp: key_row_def)
  have row: "key_row (leaf_entry key rid) = (key, rid)" by (simp add: key_row_def)
  from bt_insert_ok [OF rm cb t(1) h key nk] obtain s' T' where r: "room k s'" "bt_unique T' = bt_unique T"
    "if bt_unique T \<and> \<not> is_null_key key \<and> key \<in> fst ` S
     then bt_insert P cb key rid (T, s) = Some ((T, s'), Inl UniqueViolation) \<and> view s' = view s \<and> T' = T
     else bt_insert P cb key rid (T, s) = Some ((T', s'), Inr ()) \<and>
       (\<exists>t' H'. is_tree N (view s') (bt_root T') H' t' \<and> H' \<le> Suc h \<and> set (flat t') = insert (leaf_entry key rid) (set (flat t)) \<and>
          grown (view s) (set (pids t)) (view s') (set (pids t')))" unfolding keys by blast
  show ?thesis
  proof (cases "bt_unique T \<and> \<not> is_null_key key \<and> key \<in> fst ` S")
    case True
    then show ?thesis using r by auto
  next
    case False
    then obtain t' h' where t': "bt_insert P cb key rid (T, s) = Some ((T', s'), Inr ())" "is_tree N (view s') (bt_root T') h' t'" "h' \<le> Suc h"
      "set (flat t') = insert (leaf_entry key rid) (set (flat t))" "grown (view s) (set (pids t)) (view s') (set (pids t'))"
      using r(3) by (auto split: if_splits)
    have "index_ok N (view s') T' h' (set (pids t')) (insert (key, rid) S)"
      unfolding index_ok_def using t'(2,4) t(3) row by (metis image_insert)
    then show ?thesis using False r(1,2) t'(1,3,5) t(2) by auto
  qed
qed

lemma index_search_ok:
  assumes rm: "room k s" and ix: "index_ok N (view s) T h U S" and h: "h \<le> MAX_DEPTH" and key: "MINUS_INFINITY < key"
  shows "\<exists>s' rs. bt_search P T key s = Some (s', Inr rs) \<and> set rs = {r. (key, r) \<in> S} \<and>
    sorted_wrt (\<lambda>a b. rid_bytes a < rid_bytes b) rs \<and> room k s' \<and> view s' = view s"
proof -
  obtain t where t: "is_tree N (view s) (bt_root T) h t" "key_row ` set (flat t) = S" using ix by (auto simp: index_ok_def)
  let ?es = "filter (\<lambda>e. e_key e = key) (flat t)"
  have "set (map e_rid ?es) = {r. (key, r) \<in> S}" using t(2) by (force simp: key_row_def)
  moreover have "sorted_wrt (\<lambda>a b. rid_bytes a < rid_bytes b) (map e_rid ?es)"
    unfolding sorted_wrt_map using sorted_wrt_filter [OF is_tree_sorted [OF t(1)]]
    by (rule sorted_wrt_mono_rel [rotated]) (auto simp: skey_def)
  ultimately show ?thesis using bt_search_ok [OF rm t(1) key h] by blast
qed

lemma index_range_ok:
  assumes rm: "room k s" and ix: "index_ok N (view s) T h U S" and h: "h \<le> MAX_DEPTH"
    and low: "\<And>low. kr_low kr = Some low \<Longrightarrow> MINUS_INFINITY < low"
  shows "\<exists>s' rows. bt_range_scan P T kr s = Some (s', Inr rows) \<and> set rows = {r \<in> S. row_in kr r} \<and>
    sorted_wrt row_less rows \<and> room k s' \<and> view s' = view s"
proof -
  obtain t where t: "is_tree N (view s) (bt_root T) h t" "key_row ` set (flat t) = S" using ix by (auto simp: index_ok_def)
  let ?es = "filter (in_range kr) (flat t)"
  have "in_range kr e \<longleftrightarrow> row_in kr (key_row e)" for e by (simp add: in_range_def row_in_def key_row_def cong: option.case_cong)
  then have "set (map key_row ?es) = {r \<in> S. row_in kr r}" using t(2) by auto
  moreover have "sorted_wrt row_less (map key_row ?es)"
    unfolding sorted_wrt_map using sorted_wrt_filter [OF is_tree_sorted [OF t(1)]]
    by (rule sorted_wrt_mono_rel [rotated]) (auto simp: skey_def row_less_def key_row_def)
  ultimately show ?thesis using bt_range_scan_ok [OF rm t(1) low h] by blast
qed

lemma index_delete_ok:
  assumes rm: "room (Suc k) s" and ix: "index_ok N (view s) T h U S" and h: "h \<le> MAX_DEPTH"
    and key: "MINUS_INFINITY < key" and rid: "rid_ok rid"
  shows "\<exists>s'. bt_delete P T key rid s = (s', Inr ((key, rid) \<in> S)) \<and> room k s' \<and>
    index_ok N (view s') T h U (S - {(key, rid)}) \<and> (\<forall>q. q \<notin> U \<longrightarrow> view s' q = view s q)"
proof -
  obtain t where t: "is_tree N (view s) (bt_root T) h t" "set (pids t) = U" "key_row ` set (flat t) = S" using ix by (auto simp: index_ok_def)
  from bt_delete_ok [OF rm t(1) h key rid] obtain s' t' where
    d: "bt_delete P T key rid s = (s', Inr ((key, rid) \<in> S))" "room k s'" "is_tree N (view s') (bt_root T) h t'"
      "set (flat t') = {e \<in> set (flat t). skey e \<noteq> (key, rid_bytes rid)}" "set (pids t') = U" "\<forall>q. q \<notin> U \<longrightarrow> view s' q = view s q"
    unfolding t(2) t(3) [symmetric] row_in_tree [OF t(1) rid] by blast
  have "skey e = (key, rid_bytes rid) \<longleftrightarrow> key_row e = (key, rid)" if "e \<in> set (flat t)" for e
    using skey_eq_iff [OF rid tree_entries(1) [OF t(1) that]] by (auto simp: key_row_def)
  then have "key_row ` set (flat t') = S - {(key, rid)}" unfolding d(4) t(3) [symmetric] by auto
  then show ?thesis using d(1,2,6) index_okI [OF d(3,5)] by blast
qed

lemma index_delete_key_ok:
  assumes rm: "room (card {r. (key, r) \<in> S} + k) s" and ix: "index_ok N (view s) T h U S" and h: "h \<le> MAX_DEPTH" and key: "MINUS_INFINITY < key"
  shows "\<exists>s'. delete_key P T key s = Some (s', Inr (card {r. (key, r) \<in> S})) \<and> room k s' \<and>
    index_ok N (view s') T h U {r \<in> S. fst r \<noteq> key} \<and> (\<forall>q. q \<notin> U \<longrightarrow> view s' q = view s q)"
proof -
  obtain t where t: "is_tree N (view s) (bt_root T) h t" "set (pids t) = U" "key_row ` set (flat t) = S" using ix by (auto simp: index_ok_def)
  let ?es = "filter (\<lambda>e. e_key e = key) (flat t)"
  have "sorted_entries ?es" using is_tree_sorted [OF t(1)] by (rule sorted_wrt_filter)
  then have "distinct (map skey ?es)" by (auto simp: distinct_conv_nth sorted_wrt_iff_nth_less neq_iff)
  then have di: "distinct (map e_rid ?es)" by (auto simp: distinct_map inj_on_def skey_def)
  have "set (map e_rid ?es) = {r. (key, r) \<in> S}" using t(3) by (force simp: key_row_def)
  then have len: "length ?es = card {r. (key, r) \<in> S}" using distinct_card [OF di] by simp
  from delete_key_ok [OF rm [folded len] t(1) h key] obtain s' t' where
    d: "delete_key P T key s = Some (s', Inr (card {r. (key, r) \<in> S}))" "room k s'" "is_tree N (view s') (bt_root T) h t'"
      "set (flat t') = {e \<in> set (flat t). e_key e \<noteq> key}" "set (pids t') = U" "\<forall>q. q \<notin> U \<longrightarrow> view s' q = view s q"
    unfolding len t(2) by blast
  have "key_row ` {e \<in> X. e_key e \<noteq> key} = {r \<in> key_row ` X. fst r \<noteq> key}" for X
    by (force simp: key_row_def)
  from this [of "set (flat t)"] have "key_row ` set (flat t') = {r \<in> S. fst r \<noteq> key}" unfolding d(4) t(3) .
  then show ?thesis using d(1,2,6) index_okI [OF d(3,5)] by blast
qed

lemma index_create_ok:
  assumes "room (Suc (Suc (Suc k))) s" and "quiet_root cb"
  shows "\<exists>s' T p. bt_create P u cb s = (s', Inr T) \<and> bt_unique T = u \<and> room k s' \<and> index_ok N (view s') T 0 {p} {} \<and>
    view s p = None \<and> (\<forall>q. q \<noteq> p \<longrightarrow> view s' q = view s q)"
proof -
  from bt_create_ok [OF assms, of u] obtain s' T p where c: "bt_create P u cb s = (s', Inr T)" "bt_unique T = u" "room k s'"
    "is_tree N (view s') (bt_root T) 0 (Lf p [])" "view s p = None" "\<forall>q. q \<noteq> p \<longrightarrow> view s' q = view s q" by blast
  then have "index_ok N (view s') T 0 {p} {}" by (auto simp: index_ok_def intro!: exI [of _ "Lf p []"])
  then show ?thesis using c by blast
qed

end

end
