(* ===== verification/PagerStore.thy ===== *)
theory PagerStore
  imports Pager Heap TreeUpdate
begin

text \<open>
  The pager as a page store. Its pages of a type other than \<open>FREE\<close>, decoded, are the view that heaps
  and B+ trees have; \<open>read_page\<close>, \<open>write_page\<close> and \<open>allocate_page\<close> keep the laws of \<open>page_store\<close> over
  it, through the pool, the log with its LSN stamps and the free list, as long as the log has LSNs
  and the file page ids left. The transaction manager's hook may be any that satisfies
  \<open>hooked_pager\<close>; \<open>TransactionManager.before_write\<close> does.
\<close>

section \<open>What the pool does to the device\<close>

lemma evict_device:
  assumes "\<And>p b d d'. Q d \<Longrightarrow> wr p b d = Inr d' \<Longrightarrow> Q d'" and "Q d" and "evict wr pl d = ((pl', d'), r)"
  shows "Q d'"
  using assms by (auto simp: evict_def Let_def split: list.splits sum.splits if_splits)

lemma admit_device:
  assumes "\<And>p b d d'. Q d \<Longrightarrow> wr p b d = Inr d' \<Longrightarrow> Q d'" and "Q d" and "admit wr pid raw dirty pl d = ((pl', d'), r)"
  shows "Q d'"
proof -
  obtain pl1 d1 r1 where t: "take_frame wr pl d = ((pl1, d1), r1)" by (metis prod.exhaust)
  then have "Q d1" using evict_device [where Q = Q, OF assms(1,2)] assms(2) by (auto simp: take_frame_def split: list.splits)
  then show ?thesis using assms(3) t by (auto simp: admit_def Let_def split: sum.splits)
qed

lemma fetch_device:
  assumes "\<And>p b d d'. Q d \<Longrightarrow> wr p b d = Inr d' \<Longrightarrow> Q d'" and "Q d" and "fetch rd wr pid pl d = ((pl', d'), r)"
  shows "Q d'"
proof (cases "map_of (resident pl) pid")
  case None
  then consider e where "rd pid d = Inl e" "d' = d"
    | raw pl1 x where "admit wr pid raw False (pl\<lparr>misses := misses pl + 1\<rparr>) d = ((pl1, d'), x)"
    using assms(3) by (auto simp: fetch_def Let_def split: sum.splits prod.splits)
  then show ?thesis using assms(2) by cases (simp, rule admit_device [where Q = Q, OF assms(1,2)])
next
  case (Some i)
  then show ?thesis using assms(2,3) by (auto simp: fetch_def Let_def)
qed

lemma store_device:
  assumes "\<And>p b d d'. Q d \<Longrightarrow> wr p b d = Inr d' \<Longrightarrow> Q d'" and "Q d" and "store wr pid raw pl d = ((pl', d'), r)"
  shows "Q d'"
proof (cases "map_of (resident pl) pid")
  case None
  then consider "d' = d" | pl1 x where "admit wr pid raw True pl d = ((pl1, d'), x)"
    using assms(3) by (auto simp: store_def Let_def split: sum.splits prod.splits if_splits)
  then show ?thesis using assms(2) by cases (simp, rule admit_device [where Q = Q, OF assms(1,2)])
next
  case (Some i)
  then show ?thesis using assms(2,3) by (auto simp: store_def Let_def split: if_splits)
qed

text \<open>The log, if there is one, is in order and has given out LSNs below \<open>M\<close> only.\<close>

definition log_ready :: "nat \<Rightarrow> wal_log option \<Rightarrow> bool" where
  "log_ready M w \<longleftrightarrow> (\<forall>l. w = Some l \<longrightarrow> (\<exists>old staged. wal_ok l old staged) \<and> prev_bounded l \<and> next_lsn l \<le> M)"

lemma log_ready_mono: "log_ready M w \<Longrightarrow> M \<le> M' \<Longrightarrow> log_ready M' w"
  by (auto simp: log_ready_def)

lemma write_ahead_log_ready:
  assumes "log_ready M (fst d)" and "write_to_disk_write_ahead n p b d = Inr d'"
  shows "log_ready M (fst d')"
proof (cases "fst d")
  case None
  then show ?thesis using assms by (auto simp: write_to_disk_write_ahead_def)
next
  case (Some l)
  then obtain l' where f: "flush_through l (image_lsn p b) = Inr l'" and d': "fst d' = Some l'"
    using assms(2) by (auto simp: write_to_disk_write_ahead_def res_simps)
  from assms(1) Some obtain old staged where ok: "wal_ok l old staged" "prev_bounded l" "next_lsn l \<le> M"
    by (auto simp: log_ready_def)
  show ?thesis
  proof (cases "l' = l")
    case True
    then show ?thesis using ok d' by (auto simp: log_ready_def)
  next
    case False
    then obtain x where w: "wal_flush x l = Inr l'" using f by (auto simp: flush_through_def split: if_splits)
    show ?thesis using wal_flush_ok [OF ok(1) w] ok d' unfolding log_ready_def prev_bounded_def by auto
  qed
qed

lemma pager_fetch_log:
  assumes "pager_fetch pid pg = (pg', r)" and "log_ready M (wal pg)"
  shows "log_ready M (wal pg')"
proof -
  obtain pl d where f: "fetch (read_device (pg_size pg)) (write_to_disk_write_ahead (pg_size pg)) pid (pg_pool pg) (wal pg, db_file pg) = ((pl, d), r)"
    and w: "wal pg' = fst d"
    using assms(1) by (auto simp: pager_fetch_def with_pool_def split: prod.splits)
  show ?thesis
    unfolding w by (rule fetch_device [where Q = "\<lambda>d. log_ready M (fst d)", OF _ _ f]) (use write_ahead_log_ready assms(2) in auto)
qed

lemma pool_store_log:
  assumes "with_pool (store (write_to_disk_write_ahead n) pid raw) pg = (pg', r)" and "log_ready M (wal pg)"
  shows "log_ready M (wal pg')" "pg_closed pg' = pg_closed pg" "pg_verify pg' = pg_verify pg" "txns pg' = txns pg"
proof -
  obtain pl d where f: "store (write_to_disk_write_ahead n) pid raw (pg_pool pg) (wal pg, db_file pg) = ((pl, d), r)"
    and w: "wal pg' = fst d" "pg' = pg\<lparr>pg_pool := pl, wal := fst d, db_file := snd d\<rparr>"
    using assms(1) by (auto simp: with_pool_def split: prod.splits)
  show "log_ready M (wal pg')"
    unfolding w(1) by (rule store_device [where Q = "\<lambda>d. log_ready M (fst d)", OF _ _ f]) (use write_ahead_log_ready assms(2) in auto)
  show "pg_closed pg' = pg_closed pg" "pg_verify pg' = pg_verify pg" "txns pg' = txns pg" by (simp_all add: w(2))
qed

lemma append_update_room:
  assumes ok: "wal_ok l old staged" and pb: "prev_bounded l" and b: "next_lsn l < 256 ^ 8" "txn < 256 ^ 8" "pid < 256 ^ 4"
    "length before \<le> A" "A \<le> MAX_IMAGE_BYTES" and img: "\<And>k. k < 256 ^ 8 \<Longrightarrow> \<exists>b. img k = Inr b \<and> length b \<le> A"
  shows "\<exists>r l'. append_update l txn pid before img = Inr (r, l') \<and> (\<exists>staged. wal_ok l' old staged) \<and> prev_bounded l' \<and>
    next_lsn l' \<le> next_lsn l + 44 + 2 * A \<and> r_lsn r < 256 ^ 8 \<and> img (r_lsn r) = Inr (r_after_image r)"
proof -
  have open': "\<not> w_closed l" using ok by (simp add: wal_ok_def)
  show ?thesis
  proof (cases "supersedes l txn pid")
    case None
    obtain i where i: "img (next_lsn l) = Inr i" "length i \<le> A" using img b(1) by blast
    then have "length before \<le> MAX_IMAGE_BYTES" "length i \<le> MAX_IMAGE_BYTES" using b(4,5) by simp_all
    from wal_append_step [OF ok pb b(1-3) this, of UPDATE] obtain r l' where
      a: "wal_append l UPDATE txn pid before i = Inr (r, l')" "prev_bounded l'" "wal_ok l' old (staged @ [r])"
      "next_lsn l' = next_lsn l + 44 + length before + length i" by blast
    have "r_after_image r = i" "r_lsn r = next_lsn l"
      using wal_append_ok(4,9) [OF ok a(1)] i(2) b(4,5) by simp_all
    then show ?thesis using a i open' None b(1,4) by (auto simp: append_update_def)
  next
    case (Some tail)
    from supersedes_Some [OF ok Some] obtain front where t: "staged = front @ [tail]" by blast
    have rt: "record_ok tail" and lt: "r_lsn tail + record_size tail = next_lsn l"
      using ok wal_ok_next_lsn [OF ok] t by (simp_all add: wal_ok_def chained_append)
    then have "r_lsn tail < 256 ^ 8" using b(1) by linarith
    then obtain i where i: "img (r_lsn tail) = Inr i" "length i \<le> A" using img by blast
    define r where "r = \<lparr>r_lsn = r_lsn tail, r_prev_lsn = r_prev_lsn tail, r_transaction_id = txn, r_type = UPDATE,
      r_page_id = pid, r_before_image = r_before_image tail, r_after_image = i\<rparr>"
    have "record_ok r"
      using rt i(2) b by (intro record_okI) (auto simp: r_def record_ok_def image_ok_def record_to_bytes_def res_simps)
    then have "record_to_bytes r = Inr (enc r)" by (simp add: record_ok_def)
    then obtain l' where a: "append_update l txn pid before img = Inr (r, l')" and lo: "last_lsn_of l' = last_lsn_of l"
      using i(1) open' Some by (simp add: append_update_def Let_def r_def)
    have "length (r_after_image r) \<le> MAX_IMAGE_BYTES" using i(2) b(5) by (simp add: r_def)
    note w = append_update_replaces [OF ok [unfolded t] Some a this]
    have "next_lsn l' = r_lsn tail + record_size r"
      using wal_ok_next_lsn [OF w(1)] w(1,2,7) by (simp add: wal_ok_def chained_append)
    moreover have "record_size r = 44 + length (r_before_image tail) + length i" by (simp add: record_size_def r_def)
    moreover have "44 + length (r_before_image tail) \<le> record_size tail" by (simp add: record_size_def)
    ultimately have "next_lsn l' \<le> next_lsn l + 44 + 2 * A" using lt i(2) by linarith
    then show ?thesis using a w(1,3) pb lo \<open>r_lsn tail < 256 ^ 8\<close> w(7) by (auto simp: prev_bounded_def)
  qed
qed

section \<open>Images of pages\<close>

abbreviation page_of :: "nat \<Rightarrow> nat \<Rightarrow> bytes \<Rightarrow> page" where
  "page_of n p b \<equiv> \<lparr>page_id = p, buf = b, psize = n\<rparr>"

definition page_contents :: "nat \<Rightarrow> nat \<Rightarrow> bytes \<Rightarrow> contents" where
  "page_contents n p b =
     (let q = page_of n p b
      in (case get_page_type q of Inl _ \<Rightarrow> FREE | Inr t \<Rightarrow> t, next_page_id q, recs q))"

definition good_image :: "nat \<Rightarrow> nat \<Rightarrow> bytes \<Rightarrow> contents \<Rightarrow> bool" where
  "good_image n p b c \<longleftrightarrow> length b = n \<and> verify_checksum (page_of n p b) = Inr () \<and> page_holds (page_of n p b) c"

lemma good_image_contents: "good_image n p b c \<Longrightarrow> page_contents n p b = c"
  by (cases c) (auto simp: good_image_def page_contents_def page_holds_def Let_def)

lemma from_bytes_good:
  assumes "good_image n p b c"
  shows "from_bytes p b n x y = Inr (page_of n p b)"
proof -
  have h: "header_ok (page_of n p b)" using assms by (auto simp: good_image_def page_holds_def page_ok_def)
  have "validate_header (page_of n p b) = Inr ()"
    using header_okD [OF h] by (simp add: validate_header_def slot_offset_def)
  then show ?thesis using assms by (simp add: from_bytes_def page_new_def good_image_def)
qed

text \<open>Only the bytes from 12 on say what a page holds; the checksum and the LSN lie before.\<close>

lemma drop_slice_eq: "drop k xs = drop k ys \<Longrightarrow> k \<le> a \<Longrightarrow> slice xs a n = slice ys a n"
  unfolding slice_def by (metis drop_drop le_add_diff_inverse2)

lemma page_holds_cong:
  assumes d: "drop 12 (buf q) = drop 12 (buf p)" and i: "page_id q = page_id p" "psize q = psize p" "length (buf q) = length (buf p)"
    and p: "page_holds p c"
  shows "page_holds q c"
proof -
  have ok: "page_ok p" and h: "header_ok p" using p by (auto simp: page_holds_def page_ok_def)
  have s: "slice (buf q) a n = slice (buf p) a n" if "12 \<le> a" for a n using drop_slice_eq [OF d that] .
  have f: "slot_count q = slot_count p" "free_start q = free_start p" "free_end q = free_end p" "next_page_id q = next_page_id p"
    "get_page_type q = get_page_type p" "slot_at q j = slot_at p j" for j
    using slot_offset_ge [of j] by (simp_all add: header_defs get_page_type_def get_field_def slot_at_def s)
  have "rec_at q j = rec_at p j" if "j < slot_count p" for j
    using that ok header_okD [OF h] slot_offset_ge [of "slot_count p"]
    by (auto simp: rec_at_def f s page_ok_def slots_ok_def)
  then have "recs q = recs p" by (simp add: recs_def f)
  moreover from this have "page_ok q" using ok i f by (simp add: page_ok_def header_ok_def slots_ok_def)
  ultimately show ?thesis using p f by (simp add: page_holds_def)
qed

lemma to_bytes_good:
  assumes p: "page_holds p c" and n: "psize p = n"
  shows "\<exists>raw q. to_bytes p = Inr (raw, q) \<and> good_image n (page_id p) raw c \<and> page_holds q c \<and> page_id q = page_id p \<and>
    psize q = n \<and> free_space q = free_space p"
proof -
  have h: "header_ok p" using p by (auto simp: page_holds_def page_ok_def)
  note hd = header_okD [OF h]
  define q where "q = with_field 4 0 (compute_checksum p) p"
  have run: "to_bytes p = Inr (buf q, q)" using update_checksum_ok(1) [OF hd(1)] by (simp add: to_bytes_def q_def)
  have i: "page_id q = page_id p" "psize q = psize p" "length (buf q) = length (buf p)"
    using hd(1) by (simp_all add: q_def page_simps)
  have "drop 12 (buf q) = drop 12 (buf p)" using hd(1) by (simp add: q_def with_field_def slice_assign_def)
  from page_holds_cong [OF this i p] have c: "page_holds q c" .
  have len: "length (buf p) = n" using h n by (simp add: header_ok_def)
  have q: "q = page_of n (page_id p) (buf q)" using i n by (cases q) simp
  have "verify_checksum q = Inr ()"
    using update_checksum_ok(2) [OF hd(1)] by (simp add: verify_checksum_def q_def)
  then have "good_image n (page_id p) (buf q) c" using c q i(3) len by (simp add: good_image_def)
  moreover have "free_space q = free_space p"
    using hd(1,2) by (simp add: free_space_def q_def header_defs get_field_with_field page_simps)
  ultimately show ?thesis using run c i n by auto
qed

lemma stamp_good:
  assumes g: "good_image n p raw c" and k: "k < 256 ^ 8"
  shows "\<exists>img. stamp_lsn raw k = Inr img \<and> good_image n p img c"
proof -
  have n: "length raw = n" "24 \<le> n" "page_holds (page_of n p raw) c"
    using g header_okD(1,2) [of "page_of n p raw"] by (auto simp: good_image_def page_holds_def page_ok_def header_ok_def MIN_PAGE_SIZE_def)
  from stamp_lsn_ok [of raw k] n k obtain img where s: "stamp_lsn raw k = Inr img" "length img = n"
    "le_nat (slice img 0 4) = crc32 (drop 4 img)" "drop 12 img = drop 12 raw" by auto
  have "page_holds (page_of n p img) c" by (rule page_holds_cong [OF _ _ _ _ n(3)]) (simp_all add: s n(1))
  then show ?thesis using s by (auto simp: good_image_def verify_checksum_def checksum_def get_field_def compute_checksum_def)
qed

section \<open>Writing under a hook\<close>

lemma pages_length:
  assumes "pager_ok pg" and "pages pg p = Some b"
  shows "length b = pg_size pg"
proof -
  have fo: "frames_ok (pg_pool pg) []" and sz: "pool_page_size (pg_pool pg) = pg_size pg" and dv: "device_ok (pg_size pg) (wal pg, db_file pg)"
    using assms(1) by (simp_all add: pager_ok_def pager_store.store_ok_def)
  show ?thesis
  proof (cases "map_of (resident (pg_pool pg)) p")
    case None
    then show ?thesis using assms(2) page_at_length by (auto simp: pages_def pool_view_def read_device_page_at split: option.splits)
  next
    case (Some i)
    then show ?thesis using assms(2) frames_okD(4) [OF fo Some] sz by (simp add: pages_def pool_view_def)
  qed
qed

definition intent_fits :: "nat \<Rightarrow> write_intent option \<Rightarrow> bool" where
  "intent_fits n i \<longleftrightarrow>
     (case i of None \<Rightarrow> True
      | Some w \<Rightarrow> wi_transaction_id w < 256 ^ 8 \<and>
          (case wi_before_image w of None \<Rightarrow> True | Some b \<Rightarrow> length b \<le> n))"

text \<open>
  A hook, and a property \<open>tinv\<close> of the transaction state that it keeps and under which what it
  returns can be logged.
\<close>

locale hooked_pager =
  fixes n :: nat and hook :: "'t hook" and tinv :: "'t \<Rightarrow> bool" and type_name :: "page_type \<Rightarrow> string"
  assumes answers: "hook = Some h \<Longrightarrow> tinv t \<Longrightarrow> h pid why t = Inl (i, t') \<Longrightarrow> tinv t' \<and> intent_fits n i"
    and asks: "hook = Some h \<Longrightarrow> tinv t \<Longrightarrow> h pid why t = Inr f \<Longrightarrow> length b = n \<Longrightarrow> f b = (i, t') \<Longrightarrow>
      tinv t' \<and> intent_fits n i"
begin

definition ready :: "nat \<Rightarrow> 't pager \<Rightarrow> bool" where
  "ready M pg \<longleftrightarrow> pager_ok pg \<and> pg_size pg = n \<and> \<not> pg_closed pg \<and> tinv (txns pg) \<and> log_ready M (wal pg)"

lemma ready_mono: "ready M pg \<Longrightarrow> M \<le> M' \<Longrightarrow> ready M' pg"
  using log_ready_mono by (auto simp: ready_def)

lemma fetch_total:
  assumes r: "ready M pg" and p: "pages pg p = Some b"
  shows "\<exists>pg'. pager_fetch p pg = (pg', Inr b) \<and> ready M pg' \<and> pages pg \<subseteq>\<^sub>m pages pg' \<and> meta pg' = meta pg"
proof -
  obtain pg' x where f: "pager_fetch p pg = (pg', x)" by fastforce
  have ok: "pager_ok pg" using r by (simp add: ready_def)
  show ?thesis using pager_fetch_ok [OF ok f] pager_fetch_log [OF f] p r f by (auto simp: ready_def)
qed

lemma run_hook_total:
  assumes r: "ready M pg" and p: "pages pg p = Some b"
  shows "\<exists>pg' i. run_hook hook p why pg = (pg', Inr i) \<and> intent_fits n i \<and> ready M pg' \<and> pages pg \<subseteq>\<^sub>m pages pg' \<and> meta pg' = meta pg"
proof -
  have t: "pages (q\<lparr>txns := t\<rparr>) = pages q" "pager_ok (q\<lparr>txns := t\<rparr>) = pager_ok q"
    for q :: "'t pager" and t by (simp_all add: pages_def pager_ok_def)
  show ?thesis
  proof (cases hook)
    case None
    then show ?thesis using r by (simp add: run_hook_def intent_fits_def)
  next
    case (Some h)
    have ti: "tinv (txns pg)" using r by (simp add: ready_def)
    show ?thesis
    proof (cases "h p why (txns pg)")
      case (Inl x)
      then obtain i t' where x: "h p why (txns pg) = Inl (i, t')" by (metis prod.exhaust)
      from answers [OF Some ti x] show ?thesis using x Some r t by (auto simp: run_hook_def ready_def)
    next
      case (Inr f)
      from fetch_total [OF r p] obtain pg1 where 1: "pager_fetch p pg = (pg1, Inr b)" "ready M pg1" "pages pg \<subseteq>\<^sub>m pages pg1"
        "meta pg1 = meta pg" by blast
      have ok: "pager_ok pg" and sz: "pg_size pg = n" using r by (simp_all add: ready_def)
      obtain i t' where x: "f b = (i, t')" by fastforce
      from asks [OF Some ti Inr _ x] pages_length [OF ok p] sz have "tinv t'" "intent_fits n i" by simp_all
      then show ?thesis using 1 x Inr Some t
        by (intro exI [of _ "pg1\<lparr>txns := t'\<rparr>"] exI [of _ i]) (auto simp: run_hook_def bind_op_def Let_def ready_def)
    qed
  qed
qed

lemma log_change_total:
  assumes r: "ready M pg" and M: "M < 256 ^ 8" and i: "intent_fits n intent" and p: "p < 256 ^ 4" and n: "n \<le> MAX_IMAGE_BYTES"
    and img: "\<And>k. k < 256 ^ 8 \<Longrightarrow> \<exists>b. image_at p raw k = Inr b" and len: "length raw = n"
  shows "\<exists>pg' img k. log_change p raw intent pg = (pg', Inr img) \<and> ready (M + 44 + 2 * n) pg' \<and> pages pg' = pages pg \<and>
    length img = n \<and> (img = raw \<or> image_at p raw k = Inr img) \<and> k < 256 ^ 8 \<and>
    (meta pg' = meta pg \<or> p = META_PAGE_ID \<and> meta pg' = (meta pg)\<lparr>m_lsn := k\<rparr>)"
proof (cases "wal pg")
  case None
  then show ?thesis using r len ready_mono [OF r, of "M + 44 + 2 * n"]
    by (intro exI [of _ pg] exI [of _ raw] exI [of _ 0]) (simp add: log_change_def)
next
  case (Some l)
  from r Some obtain old staged where l: "wal_ok l old staged" "prev_bounded l" "next_lsn l \<le> M"
    by (auto simp: ready_def log_ready_def)
  define txn where "txn = (case intent of None \<Rightarrow> NO_TRANSACTION | Some i \<Rightarrow> wi_transaction_id i)"
  define before where "before = (case intent of None \<Rightarrow> [] | Some i \<Rightarrow> (case wi_before_image i of None \<Rightarrow> [] | Some b \<Rightarrow> b))"
  have tb: "txn < 256 ^ 8" "length before \<le> n"
    using i by (auto simp: txn_def before_def intent_fits_def NO_TRANSACTION_def split: option.splits)
  have im: "\<exists>b. image_at p raw k = Inr b \<and> length b \<le> n" if "k < 256 ^ 8" for k
    using img [OF that] image_at_length len by fastforce
  have nl: "next_lsn l < 256 ^ 8" using l(3) M by linarith
  from append_update_room [of l old staged txn p before n "image_at p raw", OF l(1,2) nl tb(1) p tb(2) n im] obtain rec l' where a: "append_update l txn p before (image_at p raw) = Inr (rec, l')"
    "\<exists>staged. wal_ok l' old staged" "prev_bounded l'" "next_lsn l' \<le> next_lsn l + 44 + 2 * n" "r_lsn rec < 256 ^ 8"
    "image_at p raw (r_lsn rec) = Inr (r_after_image rec)" by blast
  define pg' where "pg' = pg\<lparr>wal := Some l', meta := (if p = META_PAGE_ID then (meta pg)\<lparr>m_lsn := r_lsn rec\<rparr> else meta pg)\<rparr>"
  have run: "log_change p raw intent pg = (pg', Inr (r_after_image rec))"
    using Some a(1) by (simp add: log_change_def Let_def txn_def before_def pg'_def)
  have ok: "pager_ok pg" using r by (simp add: ready_def)
  note lc = log_change_ok [OF ok run]
  have "log_ready (M + 44 + 2 * n) (Some l')" using a(2-4) l(3) by (auto simp: log_ready_def)
  then have "ready (M + 44 + 2 * n) pg'" using r lc(1) by (simp add: ready_def pg'_def)
  then show ?thesis using run lc(2,4) len a(5,6)
    by (intro exI [of _ pg'] exI [of _ "r_after_image rec"] exI [of _ "r_lsn rec"]) (simp add: pg'_def)
qed

lemma write_at_total:
  assumes r: "ready M pg" and M: "M < 256 ^ 8" and p: "p < 256 ^ 4" and n: "n \<le> MAX_IMAGE_BYTES"
    and img: "\<And>k. k < 256 ^ 8 \<Longrightarrow> \<exists>b. image_at p raw k = Inr b" and len: "length raw = n"
    and cap: "cap \<Longrightarrow> pages pg p \<noteq> None"
  shows "\<exists>pg' img k. write_at hook p raw why cap pg = (pg', Inr ()) \<and> ready (M + 44 + 2 * n) pg' \<and>
    (pages pg)(p \<mapsto> img) \<subseteq>\<^sub>m pages pg' \<and> (img = raw \<or> image_at p raw k = Inr img) \<and> k < 256 ^ 8 \<and>
    (meta pg' = meta pg \<or> p = META_PAGE_ID \<and> meta pg' = (meta pg)\<lparr>m_lsn := k\<rparr>)"
proof -
  have "\<exists>pg1 i. (if cap then run_hook hook p why else lift_res (Inr None)) pg = (pg1, Inr i) \<and> intent_fits n i \<and>
      ready M pg1 \<and> pages pg \<subseteq>\<^sub>m pages pg1 \<and> meta pg1 = meta pg"
    using cap run_hook_total [OF r] r by (cases cap) (auto simp: lift_res_def intent_fits_def)
  then obtain pg1 i where 1: "(if cap then run_hook hook p why else lift_res (Inr None)) pg = (pg1, Inr i)" "intent_fits n i"
    "ready M pg1" "pages pg \<subseteq>\<^sub>m pages pg1" "meta pg1 = meta pg" by blast
  from log_change_total [OF 1(3) M 1(2) p n img len] obtain pg2 im k where 2: "log_change p raw i pg1 = (pg2, Inr im)"
    "ready (M + 44 + 2 * n) pg2" "pages pg2 = pages pg1" "length im = n" "im = raw \<or> image_at p raw k = Inr im" "k < 256 ^ 8"
    "meta pg2 = meta pg1 \<or> p = META_PAGE_ID \<and> meta pg2 = (meta pg1)\<lparr>m_lsn := k\<rparr>" by blast
  have ok2: "pager_ok pg2" and sz: "pg_size pg = n" "pg_size pg2 = n" using r 2(2) by (simp_all add: ready_def)
  from pool_store_ok [OF ok2, of im p] 2(4) sz obtain pg3 where 3: "with_pool (store (write_to_disk_write_ahead n) p im) pg2 = (pg3, Inr ())"
    "pager_ok pg3" "(pages pg2)(p \<mapsto> im) \<subseteq>\<^sub>m pages pg3" "pg_size pg3 = n" "meta pg3 = meta pg2" by auto
  have "log_ready (M + 44 + 2 * n) (wal pg2)" using 2(2) by (simp add: ready_def)
  then have "ready (M + 44 + 2 * n) pg3" using 2(2) 3(2,4) pool_store_log [OF 3(1)] by (simp add: ready_def)
  moreover have "write_at hook p raw why cap pg = (pg3, Inr ())"
    using 1(1) 2(1) 3(1) len sz by (simp add: write_at_def bind_op_def)
  moreover have "(pages pg)(p \<mapsto> im) \<subseteq>\<^sub>m pages pg3"
    using map_le_upd [OF 1(4), of p "Some im"] 3(3) unfolding 2(3) by (rule map_le_trans)
  ultimately show ?thesis using 1(5) 2(5-7) 3(5) by metis
qed

end

section \<open>The pager's view\<close>

definition all_view :: "'t pager \<Rightarrow> nat \<rightharpoonup> contents" where
  "all_view pg p =
     (if 0 < p \<and> p < m_page_count (meta pg) then map_option (page_contents (pg_size pg) p) (pages pg p) else None)"

definition store_view :: "'t pager \<Rightarrow> nat \<rightharpoonup> contents" where
  "store_view pg p = (case all_view pg p of None \<Rightarrow> None | Some c \<Rightarrow> if fst c = FREE then None else Some c)"

definition good_page :: "'t pager \<Rightarrow> nat \<Rightarrow> bool" where
  "good_page pg p \<longleftrightarrow> (\<exists>b. pages pg p = Some b \<and> good_image (pg_size pg) p b (page_contents (pg_size pg) p b))"

text \<open>
  Every allocated page decodes, and the meta page names a list \<open>fl\<close> of free pages.
\<close>

definition sound :: "nat list \<Rightarrow> 't pager \<Rightarrow> bool" where
  "sound fl pg \<longleftrightarrow> meta_fits (meta pg) \<and> m_page_size (meta pg) = pg_size pg \<and> 0 < m_page_count (meta pg) \<and>
     pages pg META_PAGE_ID \<noteq> None \<and> (\<forall>p. 0 < p \<longrightarrow> p < m_page_count (meta pg) \<longrightarrow> good_page pg p) \<and> distinct fl \<and>
     chain (all_view pg) FREE fl INVALID_PAGE_ID \<and>
     m_free_list_head (meta pg) = (case fl of [] \<Rightarrow> INVALID_PAGE_ID | p # _ \<Rightarrow> p)"

lemma good_page_view:
  assumes "pages pg p = Some b" and "good_image (pg_size pg) p b c" and "0 < p" and "p < m_page_count (meta pg)"
  shows "all_view pg p = Some c" "good_page pg p"
  using assms good_image_contents [OF assms(2)] by (auto simp: all_view_def good_page_def)

lemma all_view_good:
  assumes "sound fl pg" and "all_view pg p = Some c"
  obtains b where "pages pg p = Some b" "good_image (pg_size pg) p b c" "0 < p" "p < m_page_count (meta pg)"
proof -
  have p: "0 < p" "p < m_page_count (meta pg)" using assms(2) by (auto simp: all_view_def split: if_splits)
  then obtain b where "pages pg p = Some b" "good_image (pg_size pg) p b (page_contents (pg_size pg) p b)"
    using assms(1) by (auto simp: sound_def good_page_def)
  with assms(2) p that show thesis by (auto simp: all_view_def)
qed

lemma sound_pages: "sound fl pg \<Longrightarrow> 0 < p \<Longrightarrow> p < m_page_count (meta pg) \<Longrightarrow> \<exists>b. pages pg p = Some b"
  unfolding sound_def good_page_def by blast

text \<open>
  A step that keeps the pages: reads, hooks and writes of the meta page. The meta page in memory may
  get a new LSN.
\<close>

lemma sound_keep:
  assumes s: "sound fl pg" and sz: "pg_size pg' = pg_size pg" and m: "meta pg' = meta pg \<or> meta pg' = (meta pg)\<lparr>m_lsn := k\<rparr>" "k < 256 ^ 8"
    and le: "\<And>p b. 0 < p \<Longrightarrow> pages pg p = Some b \<Longrightarrow> pages pg' p = Some b" and z: "pages pg' META_PAGE_ID \<noteq> None"
  shows "sound fl pg'" and "all_view pg' = all_view pg"
proof -
  have mm: "m_page_count (meta pg') = m_page_count (meta pg)" "m_page_size (meta pg') = m_page_size (meta pg)"
    "m_free_list_head (meta pg') = m_free_list_head (meta pg)" "meta_fits (meta pg')"
    using m s by (auto simp: sound_def meta_fits_def meta_words_def)
  have g: "pages pg' p = pages pg p" if "0 < p" "p < m_page_count (meta pg)" for p
    using sound_pages [OF s that] le [OF that(1)] by metis
  show v: "all_view pg' = all_view pg" by (auto simp: fun_eq_iff all_view_def mm sz g)
  show "sound fl pg'"
    using s mm g z by (auto simp: sound_def good_page_def v sz)
qed

text \<open>A step that writes one page, possibly the first one past the end of the file.\<close>

lemma sound_write:
  assumes s: "sound fl pg" and sz: "pg_size pg' = pg_size pg" and p: "0 < p" "p < m_page_count (meta pg')" "p \<notin> set fl"
    and m: "meta pg' = meta pg \<or> p = m_page_count (meta pg) \<and> meta pg' = (meta pg)\<lparr>m_page_count := p + 1\<rparr>" "p + 1 < 256 ^ 4"
    and new: "pages pg' p = Some img" "good_image (pg_size pg) p img c"
    and le: "\<And>q b. q \<noteq> p \<Longrightarrow> pages pg q = Some b \<Longrightarrow> pages pg' q = Some b"
  shows "sound fl pg'" and "all_view pg' = (all_view pg)(p \<mapsto> c)"
proof -
  have mm: "m_page_size (meta pg') = m_page_size (meta pg)" "m_free_list_head (meta pg') = m_free_list_head (meta pg)"
    "meta_fits (meta pg')" using m s by (auto simp: sound_def meta_fits_def meta_words_def)
  have cnt: "q < m_page_count (meta pg') \<longleftrightarrow> q < m_page_count (meta pg) \<or> q = p" for q using m p(2) by auto
  have g: "pages pg' q = pages pg q" if "0 < q" "q < m_page_count (meta pg)" "q \<noteq> p" for q
    using sound_pages [OF s that(1,2)] le [OF that(3)] by metis
  note gp = good_page_view [OF new(1) _ p(1,2), of c]
  have v: "all_view pg' q = ((all_view pg)(p \<mapsto> c)) q" for q
  proof (cases "q = p")
    case True
    then show ?thesis using gp(1) new(2) sz by simp
  next
    case False
    then show ?thesis using g [of q] by (auto simp: all_view_def cnt sz)
  qed
  then show w: "all_view pg' = (all_view pg)(p \<mapsto> c)" by auto
  have "chain (all_view pg') FREE fl INVALID_PAGE_ID \<longleftrightarrow> chain (all_view pg) FREE fl INVALID_PAGE_ID"
    unfolding w using p(3) by (intro chain_cong) auto
  moreover have "good_page pg' q" if "0 < q" "q < m_page_count (meta pg')" for q
    using that gp(2) new(2) s g [of q] by (cases "q = p") (auto simp: sound_def good_page_def cnt sz)
  moreover have "pages pg' META_PAGE_ID \<noteq> None"
    using s le [of META_PAGE_ID] p(1) by (auto simp: sound_def META_PAGE_ID_def)
  ultimately show "sound fl pg'" using s mm p(2) by (simp add: sound_def sz)
qed

definition pager_io :: "'t hook \<Rightarrow> (page_type \<Rightarrow> string) \<Rightarrow> 't pager page_io" where
  "pager_io hook type_name =
     \<lparr>io_read = read_page, io_write = write_page hook type_name, io_allocate = allocate_page hook\<rparr>"

context hooked_pager
begin

definition room :: "nat \<Rightarrow> 't pager \<Rightarrow> bool" where
  "room k pg \<longleftrightarrow> (\<exists>M. ready M pg \<and> M + k * (44 + 2 * n) < 256 ^ 8) \<and> validate_page_size n = Inr () \<and> n < 65536 \<and>
     m_page_count (meta pg) + k < INVALID_PAGE_ID \<and> (\<exists>fl. sound fl pg)"

lemma read_page_law:
  assumes r: "room k pg" and v: "store_view pg p = Some c"
  shows "\<exists>pg' q. read_page p pg = (pg', Inr q) \<and> page_holds q c \<and> page_id q = p \<and> psize q = n \<and> room k pg' \<and> store_view pg' = store_view pg"
proof -
  from r obtain M fl where M: "ready M pg" "M + k * (44 + 2 * n) < 256 ^ 8" and s: "sound fl pg" by (auto simp: room_def)
  have sz: "pg_size pg = n" "\<not> pg_closed pg" using M(1) by (simp_all add: ready_def)
  have "all_view pg p = Some c" using v by (auto simp: store_view_def split: option.splits if_splits)
  from all_view_good [OF s this] obtain b where b: "pages pg p = Some b" "good_image n p b c" "0 < p" "p < m_page_count (meta pg)"
    using sz(1) by metis
  from fetch_total [OF M(1) b(1)] obtain pg' where f: "pager_fetch p pg = (pg', Inr b)" "ready M pg'" "pages pg \<subseteq>\<^sub>m pages pg'" "meta pg' = meta pg"
    by blast
  have sz': "pg_size pg' = n" using f(2) by (simp add: ready_def)
  have z: "pages pg' META_PAGE_ID \<noteq> None" using s f(3) by (auto simp: sound_def dest: map_leD)
  have "sound fl pg'" "all_view pg' = all_view pg"
    using sound_keep [OF s _ disjI1 [OF f(4)], of 0] sz(1) sz' map_leD [OF f(3)] z by simp_all
  then have "room k pg'" "store_view pg' = store_view pg"
    using r f(2,4) M(2) by (auto simp: room_def store_view_def fun_eq_iff)
  moreover have "read_page p pg = (pg', Inr (page_of n p b))"
    using b(3,4) sz sz' f(1) from_bytes_good [OF b(2)]
    by (simp add: read_page_def bind_op_def ensure_open_def check_page_id_def fetch_cached_def META_PAGE_ID_def)
  ultimately show ?thesis using b(2) by (auto simp: good_image_def)
qed

lemma good_image_at:
  assumes "good_image n p raw c" and "0 < p" and "k < 256 ^ 8"
  shows "\<exists>img. image_at p raw k = Inr img \<and> good_image n p img c"
  using stamp_good [OF assms(1,3)] assms(2) by (simp add: image_at_def META_PAGE_ID_def)

lemma write_page_at:
  assumes M: "ready M pg" "M < 256 ^ 8" and n: "n < 65536" and p: "0 < p" "p < 256 ^ 4" and g: "good_image n p raw c"
    and cap: "cap \<Longrightarrow> pages pg p \<noteq> None"
  shows "\<exists>pg' img. write_at hook p raw why cap pg = (pg', Inr ()) \<and> ready (M + 44 + 2 * n) pg' \<and>
    (pages pg)(p \<mapsto> img) \<subseteq>\<^sub>m pages pg' \<and> good_image n p img c \<and> meta pg' = meta pg"
proof -
  have len: "length raw = n" using g by (simp add: good_image_def)
  have mx: "n \<le> MAX_IMAGE_BYTES" using n by (simp add: MAX_IMAGE_BYTES_def)
  have im: "\<exists>b. image_at p raw k = Inr b" if "k < 256 ^ 8" for k using good_image_at [OF g p(1) that] by blast
  from write_at_total [where why = why and cap = cap, OF M p(2) mx im len cap] obtain pg' img k where
    w: "write_at hook p raw why cap pg = (pg', Inr ())" "ready (M + 44 + 2 * n) pg'" "(pages pg)(p \<mapsto> img) \<subseteq>\<^sub>m pages pg'"
    "img = raw \<or> image_at p raw k = Inr img" "k < 256 ^ 8" "meta pg' = meta pg \<or> p = META_PAGE_ID \<and> meta pg' = (meta pg)\<lparr>m_lsn := k\<rparr>"
    by blast
  have "good_image n p img c" using w(4) g good_image_at [OF g p(1) w(5)] by auto
  then show ?thesis using w p(1) by (auto simp: META_PAGE_ID_def)
qed

lemma write_page_law:
  assumes r: "room (Suc k) pg" and q: "page_holds q c" "psize q = n" and u: "store_view pg (page_id q) \<noteq> None" and t: "fst c \<noteq> FREE"
  shows "\<exists>pg'. write_page hook type_name q pg = (pg', Inr ()) \<and> room k pg' \<and> store_view pg' = (store_view pg)(page_id q \<mapsto> c)"
proof -
  let ?p = "page_id q"
  from r obtain M fl where M: "ready M pg" "M + Suc k * (44 + 2 * n) < 256 ^ 8" and s: "sound fl pg"
    and n: "n < 65536" "validate_page_size n = Inr ()" and cnt: "m_page_count (meta pg) + Suc k < INVALID_PAGE_ID"
    by (auto simp: room_def)
  have sz: "pg_size pg = n" "\<not> pg_closed pg" using M(1) by (simp_all add: ready_def)
  from u obtain c0 where c0: "all_view pg ?p = Some c0" "fst c0 \<noteq> FREE" by (auto simp: store_view_def split: option.splits if_splits)
  from all_view_good [OF s c0(1)] obtain b where b: "pages pg ?p = Some b" "0 < ?p" "?p < m_page_count (meta pg)" by metis
  have nf: "?p \<notin> set fl"
  proof
    assume "?p \<in> set fl"
    then obtain nx rs where "all_view pg ?p = Some (FREE, nx, rs)" using s chain_records by (metis sound_def)
    then show False using c0 by simp
  qed
  from to_bytes_good [OF q] obtain raw q' where tb: "to_bytes q = Inr (raw, q')" "good_image n ?p raw c" "page_holds q' c"
    "page_id q' = ?p" by blast
  have p32: "?p + 1 < 256 ^ 4" using b(3) cnt by (simp add: INVALID_PAGE_ID_def)
  have p32': "?p < 256 ^ 4" using p32 by simp
  have M': "M < 256 ^ 8" using M(2) by linarith
  have "True \<Longrightarrow> pages pg ?p \<noteq> None" using b(1) by simp
  from write_page_at [where why = "type_name (fst c)", OF M(1) M' n(1) b(2) p32' tb(2) this] obtain pg' img where
    w: "write_at hook ?p raw (type_name (fst c)) True pg = (pg', Inr ())" "ready (M + 44 + 2 * n) pg'"
    "(pages pg)(?p \<mapsto> img) \<subseteq>\<^sub>m pages pg'" "good_image n ?p img c" "meta pg' = meta pg" by blast
  have sz': "pg_size pg' = pg_size pg" using w(2) sz by (simp add: ready_def)
  have le: "pages pg' x = Some y" if "x \<noteq> ?p" "pages pg x = Some y" for x y using map_leD [OF w(3), of x y] that by simp
  have new: "pages pg' ?p = Some img" using map_leD [OF w(3), of ?p img] by simp
  have pc: "?p < m_page_count (meta pg')" and gi: "good_image (pg_size pg) ?p img c" using w(4,5) b(3) sz(1) by simp_all
  note sw = sound_write [OF s sz' b(2) pc nf disjI1 [OF w(5)] p32 new gi le]
  have "store_view pg' = (store_view pg)(?p \<mapsto> c)" using t by (auto simp: store_view_def sw(2) fun_eq_iff)
  moreover have "write_page hook type_name q pg = (pg', Inr ())"
    using b(2,3) sz tb w(1) page_holdsD(2) [of q' "fst c" "fst (snd c)" "snd (snd c)"]
    by (simp add: write_page_def bind_op_def ensure_open_def check_page_id_def META_PAGE_ID_def lift_res_def)
  moreover have "room k pg'" unfolding room_def
    using w(2,5) M(2) n cnt sw(1) by (auto intro!: exI [of _ "M + 44 + 2 * n"])
  ultimately show ?thesis by blast
qed

lemma write_meta_total:
  assumes M: "ready M pg" "M < 256 ^ 8" and n: "n < 65536" and s: "sound fl pg"
  shows "\<exists>pg'. write_meta hook pg = (pg', Inr ()) \<and> ready (M + 44 + 2 * n) pg' \<and> sound fl pg' \<and> all_view pg' = all_view pg \<and>
    m_page_count (meta pg') = m_page_count (meta pg)"
proof -
  have sz: "pg_size pg = n" using M(1) by (simp add: ready_def)
  have fits: "meta_fits (meta pg)" "m_page_size (meta pg) = n" "pages pg META_PAGE_ID \<noteq> None" using s sz by (simp_all add: sound_def)
  then obtain raw where raw: "meta_to_bytes (meta pg) = Inr raw" by (simp add: meta_to_bytes_def)
  have len: "length raw = n" using meta_to_bytes_length [OF raw] fits(2) by simp
  have mx: "n \<le> MAX_IMAGE_BYTES" "META_PAGE_ID < 256 ^ 4" using n by (simp_all add: MAX_IMAGE_BYTES_def META_PAGE_ID_def)
  have im: "\<exists>b. image_at META_PAGE_ID raw k = Inr b" if "k < 256 ^ 8" for k
    using stamp_meta_lsn_ok(2) [OF raw that] by (auto simp: image_at_def)
  have "True \<Longrightarrow> pages pg META_PAGE_ID \<noteq> None" using fits(3) by simp
  from write_at_total [where why = "''meta page''", OF M mx(2,1) im len this] obtain pg' img k where
    w: "write_at hook META_PAGE_ID raw ''meta page'' True pg = (pg', Inr ())" "ready (M + 44 + 2 * n) pg'"
      "(pages pg)(META_PAGE_ID \<mapsto> img) \<subseteq>\<^sub>m pages pg'" "k < 256 ^ 8" "meta pg' = meta pg \<or> meta pg' = (meta pg)\<lparr>m_lsn := k\<rparr>" by blast
  have run: "write_meta hook pg = (pg', Inr ())" using raw w(1) by (simp add: write_meta_def)
  have le: "pages pg' x = Some y" if "0 < x" "pages pg x = Some y" for x y
    using map_leD [OF w(3), of x y] that by (simp add: META_PAGE_ID_def)
  have z: "pages pg' META_PAGE_ID \<noteq> None" using map_leD [OF w(3), of META_PAGE_ID img] by simp
  have sz': "pg_size pg' = pg_size pg" using w(2) sz by (simp add: ready_def)
  note kp = sound_keep [OF s sz' w(5,4) le z]
  show ?thesis using run w(2,5) kp by auto
qed

lemma drop_cached_total:
  assumes "ready M pg"
  shows "\<exists>pg'. drop_cached p pg = (pg', Inr ()) \<and> ready M pg' \<and> meta pg' = meta pg \<and> (\<forall>q. q \<noteq> p \<longrightarrow> pages pg' q = pages pg q)"
proof -
  have ok: "pager_store.store_ok (pg_size pg) (pg_pool pg) (wal pg, db_file pg) []" using assms unfolding ready_def pager_ok_def by blast
  have sz: "pg_size pg = n" using assms by (simp add: ready_def)
  show ?thesis using assms pager_store.invalidate_ok [OF ok, of p] unfolding sz
    by (simp add: drop_cached_def ready_def pager_ok_def pages_def)
qed

lemma meta_frame [simp]: "ready M (pg\<lparr>meta := m\<rparr>) = ready M pg" "pages (pg\<lparr>meta := m\<rparr>) = pages pg"
  by (simp_all add: ready_def pager_ok_def pages_def)

text \<open>\<open>allocate_page\<close> once the id is chosen.\<close>

definition fill_page :: "page_type \<Rightarrow> nat \<Rightarrow> bool \<Rightarrow> ('t pager, page) op" where
  "fill_page t pid recycled pg =
     bind_op (lift_res (create pid t (pg_size pg))) (\<lambda>p.
     bind_op (if recycled then run_hook hook pid ''recycled from the free list'' else lift_res (Inr None)) (\<lambda>_.
     bind_op (drop_cached pid) (\<lambda>_.
     bind_op (lift_res (to_bytes p)) (\<lambda>(raw, p).
     bind_op (write_at hook pid raw ''allocated'' False) (\<lambda>_.
     bind_op (write_meta hook) (\<lambda>_. lift_res (Inr p))))))) pg"

lemma fill_page_total:
  assumes M: "ready M pg" "M + 2 * (44 + 2 * n) < 256 ^ 8" and n: "n < 65536" "validate_page_size n = Inr ()"
    and p: "0 < p" "p < m_page_count (meta pg)" "p \<notin> set fl" "p + 1 < 256 ^ 4" and rc: "recycled \<Longrightarrow> pages pg p \<noteq> None"
    and s: "sound fl pg0" "pages pg = pages pg0" "pg_size pg0 = n"
      "meta pg = meta pg0 \<or> p = m_page_count (meta pg0) \<and> meta pg = (meta pg0)\<lparr>m_page_count := p + 1\<rparr>"
  shows "\<exists>pg' q. fill_page t p recycled pg = (pg', Inr q) \<and> page_holds q (t, INVALID_PAGE_ID, []) \<and> page_id q = p \<and> psize q = n \<and>
    free_space q = int n - 24 \<and> ready (M + 2 * (44 + 2 * n)) pg' \<and> sound fl pg' \<and>
    all_view pg' = (all_view pg0)(p \<mapsto> (t, INVALID_PAGE_ID, [])) \<and> m_page_count (meta pg') = m_page_count (meta pg)"
proof -
  let ?c = "(t, INVALID_PAGE_ID, [])"
  have sz: "pg_size pg = n" using M(1) by (simp add: ready_def)
  from create_ok [OF n(2), of p t] n(1) obtain q0 where q0: "create p t n = Inr q0" "page_holds q0 ?c" "page_id q0 = p" "psize q0 = n"
    "free_space q0 = int n - 24" by (auto simp: page_holds_def)
  from to_bytes_good [OF q0(2,4)] obtain raw q where q: "to_bytes q0 = Inr (raw, q)" "good_image n p raw ?c" "page_holds q ?c"
    "page_id q = p" "psize q = n" "free_space q = int n - 24" using q0(3,5) by auto
  have "\<exists>pg1 i. (if recycled then run_hook hook p ''recycled from the free list'' else lift_res (Inr None)) pg = (pg1, Inr i) \<and>
      ready M pg1 \<and> pages pg \<subseteq>\<^sub>m pages pg1 \<and> meta pg1 = meta pg"
    using rc run_hook_total [OF M(1), of p _ "''recycled from the free list''"] M(1) by (cases recycled) (auto simp: lift_res_def)
  then obtain pg1 i where 1: "(if recycled then run_hook hook p ''recycled from the free list'' else lift_res (Inr None)) pg = (pg1, Inr i)"
    "ready M pg1" "pages pg \<subseteq>\<^sub>m pages pg1" "meta pg1 = meta pg" by blast
  from drop_cached_total [OF 1(2), of p] obtain pg2 where 2: "drop_cached p pg1 = (pg2, Inr ())" "ready M pg2" "meta pg2 = meta pg1"
    "\<forall>x. x \<noteq> p \<longrightarrow> pages pg2 x = pages pg1 x" by blast
  have M': "M < 256 ^ 8" "M + 44 + 2 * n < 256 ^ 8" and p': "p < 256 ^ 4" using M(2) p(4) by simp_all
  have "False \<Longrightarrow> pages pg2 p \<noteq> None" by simp
  from write_page_at [where why = "''allocated''", OF 2(2) M'(1) n(1) p(1) p' q(2) this] obtain pg3 img where
    3: "write_at hook p raw ''allocated'' False pg2 = (pg3, Inr ())" "ready (M + 44 + 2 * n) pg3"
    "(pages pg2)(p \<mapsto> img) \<subseteq>\<^sub>m pages pg3" "good_image n p img ?c" "meta pg3 = meta pg2" by blast
  have le: "pages pg3 x = Some y" if "x \<noteq> p" "pages pg0 x = Some y" for x y
    using map_leD [OF 3(3), of x y] map_leD [OF 1(3), of x y] 2(4) s(2) that by simp
  have new: "pages pg3 p = Some img" using map_leD [OF 3(3), of p img] by simp
  have sz3: "pg_size pg3 = pg_size pg0" using 3(2) s(3) by (simp add: ready_def)
  have mt: "meta pg3 = meta pg0 \<or> p = m_page_count (meta pg0) \<and> meta pg3 = (meta pg0)\<lparr>m_page_count := p + 1\<rparr>"
    and pc: "p < m_page_count (meta pg3)" and gi: "good_image (pg_size pg0) p img ?c"
    using s(3,4) p(2) 1(4) 2(3) 3(4,5) by simp_all
  note sw = sound_write [OF s(1) sz3 p(1) pc p(3) mt p(4) new gi le]
  from write_meta_total [OF 3(2) M'(2) n(1) sw(1)] obtain pg4 where 4: "write_meta hook pg3 = (pg4, Inr ())"
    "ready (M + 2 * (44 + 2 * n)) pg4" "sound fl pg4" "all_view pg4 = all_view pg3" "m_page_count (meta pg4) = m_page_count (meta pg3)"
    by (auto simp: algebra_simps)
  have "fill_page t p recycled pg = (pg4, Inr q)"
    using sz q0(1) 1(1) 2(1) q(1) 3(1) 4(1) by (simp add: fill_page_def bind_op_def lift_res_def)
  moreover have "m_page_count (meta pg4) = m_page_count (meta pg)" using 4(5) 3(5) 2(3) 1(4) by simp
  ultimately show ?thesis using q(3-6) 4(2-4) sw(2) by auto
qed

lemma allocate_page_fill:
  "allocate_page hook t pg =
     bind_op ensure_open (\<lambda>_. bind_op pick_page (\<lambda>(pid, recycled). fill_page t pid recycled)) pg"
  by (simp add: allocate_page_def fill_page_def [abs_def])

lemma free_view: "all_view pg p = Some (FREE, nx, rs) \<Longrightarrow> store_view pg p = None"
  by (simp add: store_view_def)

lemma allocate_page_law:
  assumes r: "room (Suc (Suc k)) pg" and t: "t \<noteq> FREE"
  shows "\<exists>pg' q. allocate_page hook t pg = (pg', Inr q) \<and> page_holds q (t, INVALID_PAGE_ID, []) \<and> psize q = n \<and>
    free_space q = int n - 24 \<and> store_view pg (page_id q) = None \<and> room k pg' \<and>
    store_view pg' = (store_view pg)(page_id q \<mapsto> (t, INVALID_PAGE_ID, []))"
proof -
  let ?c = "(t, INVALID_PAGE_ID, [])"
  from r obtain M fl where M: "ready M pg" "M + Suc (Suc k) * (44 + 2 * n) < 256 ^ 8" and s: "sound fl pg"
    and n: "n < 65536" "validate_page_size n = Inr ()" and cnt: "m_page_count (meta pg) + Suc (Suc k) < INVALID_PAGE_ID"
    by (auto simp: room_def)
  have sz: "pg_size pg = n" "\<not> pg_closed pg" using M(1) by (simp_all add: ready_def)
  have M2: "M + 2 * (44 + 2 * n) < 256 ^ 8" using M(2) by simp
  have finish: ?thesis
    if f: "allocate_page hook t pg = (pg', Inr q)" "page_holds q ?c" "psize q = n" "free_space q = int n - 24" "store_view pg (page_id q) = None"
      "ready (M + 2 * (44 + 2 * n)) pg'" "sound fl' pg'" "all_view pg' = (all_view pg)(page_id q \<mapsto> ?c)"
      "m_page_count (meta pg') \<le> m_page_count (meta pg) + 1" for pg' q fl'
  proof -
    have "store_view pg' = (store_view pg)(page_id q \<mapsto> ?c)" using t by (auto simp: store_view_def f(8) fun_eq_iff)
    moreover have "(M + 2 * (44 + 2 * n)) + k * (44 + 2 * n) < 256 ^ 8" using M(2) by simp
    then have "room k pg'" unfolding room_def using f(6,7,9) n cnt by (auto intro!: exI [of _ "M + 2 * (44 + 2 * n)"])
    ultimately show ?thesis using f(1-5) by blast
  qed
  show ?thesis
  proof (cases fl)
    case Nil
    let ?p = "m_page_count (meta pg)"
    define pg1 where "pg1 = pg\<lparr>meta := (meta pg)\<lparr>m_page_count := ?p + 1\<rparr>\<rparr>"
    have pick: "pick_page pg = (pg1, Inr (?p, False))" using s Nil by (simp add: pick_page_def sound_def pg1_def Let_def)
    have m1: "ready M pg1" "pages pg1 = pages pg" "meta pg1 = (meta pg)\<lparr>m_page_count := ?p + 1\<rparr>"
      using M(1) by (simp_all add: pg1_def)
    have p0: "0 < ?p" using s by (simp add: sound_def)
    have p32: "?p + 1 < 256 ^ 4" using cnt by (simp add: INVALID_PAGE_ID_def)
    have d: "?p < m_page_count (meta pg1)" "?p \<notin> set fl"
        "meta pg1 = meta pg \<or> ?p = m_page_count (meta pg) \<and> meta pg1 = (meta pg)\<lparr>m_page_count := ?p + 1\<rparr>"
      using m1(3) Nil by simp_all
    have nr: "False \<Longrightarrow> pages pg1 ?p \<noteq> None" by simp
    from fill_page_total [where t = t and recycled = False, OF m1(1) M2 n p0 d(1,2) p32 nr s m1(2) sz(1) d(3)] obtain pg' q where
      f: "fill_page t ?p False pg1 = (pg', Inr q)" "page_holds q ?c" "page_id q = ?p" "psize q = n" "free_space q = int n - 24"
      "ready (M + 2 * (44 + 2 * n)) pg'" "sound fl pg'" "all_view pg' = (all_view pg)(?p \<mapsto> ?c)"
      "m_page_count (meta pg') = m_page_count (meta pg1)" by blast
    have "allocate_page hook t pg = (pg', Inr q)"
      using pick f(1) sz(2) by (simp add: allocate_page_fill bind_op_def ensure_open_def)
    moreover have "store_view pg ?p = None" by (simp add: store_view_def all_view_def)
    ultimately show ?thesis using finish [of pg' q fl] f m1(3) by simp
  next
    case (Cons p rest)
    let ?nx = "case rest of [] \<Rightarrow> INVALID_PAGE_ID | x # _ \<Rightarrow> x"
    from s Cons obtain rs where vp: "all_view pg p = Some (FREE, ?nx, rs)" and ch: "chain (all_view pg) FREE rest INVALID_PAGE_ID"
      and hd: "m_free_list_head (meta pg) = p" and di: "distinct rest" "p \<notin> set rest" by (auto simp: sound_def)
    from all_view_good [OF s vp] obtain b where b: "pages pg p = Some b" "good_image n p b (FREE, ?nx, rs)" "0 < p"
      "p < m_page_count (meta pg)" using sz(1) by metis
    have pi: "p \<noteq> INVALID_PAGE_ID" using b(4) cnt by linarith
    from fetch_total [OF M(1) b(1)] obtain pg1 where f1: "pager_fetch p pg = (pg1, Inr b)" "ready M pg1" "pages pg \<subseteq>\<^sub>m pages pg1"
      "meta pg1 = meta pg" by blast
    define pg2 where "pg2 = pg1\<lparr>meta := (meta pg)\<lparr>m_free_list_head := ?nx\<rparr>\<rparr>"
    have sz1: "pg_size pg1 = n" using f1(2) by (simp add: ready_def)
    have nx: "next_page_id (page_of n p b) = ?nx" using b(2) by (simp add: good_image_def page_holds_def)
    have pick: "pick_page pg = (pg2, Inr (p, True))"
      using hd pi f1(1,4) sz1 from_bytes_good [OF b(2)] nx
      by (simp add: pick_page_def read_any_page_def bind_op_def Let_def pg2_def)
    have m2: "ready M pg2" "pages pg2 = pages pg1" "pg_size pg2 = n" "meta pg2 = (meta pg)\<lparr>m_free_list_head := ?nx\<rparr>"
      using f1(2) sz1 by (simp_all add: pg2_def)
    have nxb: "?nx < 256 ^ 4"
    proof (cases rest)
      case (Cons x xs)
      then have "x < m_page_count (meta pg)" using ch by (auto simp: all_view_def split: if_splits)
      then show ?thesis using Cons cnt by (simp add: INVALID_PAGE_ID_def)
    qed (simp add: INVALID_PAGE_ID_def)
    have z: "pages pg1 META_PAGE_ID \<noteq> None" using s f1(3) by (auto simp: sound_def dest: map_leD)
    note k1 = sound_keep [OF s _ disjI1 [OF f1(4)] _ map_leD [OF f1(3)] z, of 0]
    have s2: "sound rest pg2" and v2: "all_view pg2 = all_view pg"
    proof -
      have s1: "sound fl pg1" "all_view pg1 = all_view pg" using k1 sz sz1 by simp_all
      have "all_view pg2 = all_view pg1" using m2 sz1 f1(4) by (simp add: all_view_def fun_eq_iff)
      then show v: "all_view pg2 = all_view pg" using s1(2) by simp
      have "meta_fits (meta pg2)" using s nxb by (auto simp: sound_def m2(4) meta_fits_def meta_words_def)
      then show "sound rest pg2"
        using s1 ch di m2 sz1 f1(4) by (auto simp: sound_def v good_page_def)
    qed
    have d: "p < m_page_count (meta pg2)" "True \<Longrightarrow> pages pg2 p \<noteq> None" "p + 1 < 256 ^ 4"
      using b(1,4) m2(2,4) map_leD [OF f1(3)] cnt by (auto simp: INVALID_PAGE_ID_def)
    from fill_page_total [where t = t and recycled = True, OF m2(1) M2 n b(3) d(1) di(2) d(3,2) s2 refl m2(3) disjI1 [OF refl]] obtain pg' q where
      f: "fill_page t p True pg2 = (pg', Inr q)" "page_holds q ?c" "page_id q = p" "psize q = n" "free_space q = int n - 24"
      "ready (M + 2 * (44 + 2 * n)) pg'" "sound rest pg'" "all_view pg' = (all_view pg2)(p \<mapsto> ?c)"
      "m_page_count (meta pg') = m_page_count (meta pg2)" by blast
    have "allocate_page hook t pg = (pg', Inr q)"
      using pick f(1) sz(2) by (simp add: allocate_page_fill bind_op_def ensure_open_def)
    then show ?thesis using finish [of pg' q rest] f v2 m2(4) free_view [OF vp] by simp
  qed
qed

end

section \<open>The pager keeps the promise\<close>

sublocale hooked_pager \<subseteq> page_store "pager_io hook type_name" store_view room n
proof
  show "room k s" if "room (Suc k) s" for k s
  proof -
    from that obtain M where "ready M s" "M + Suc k * (44 + 2 * n) < 256 ^ 8" by (auto simp: room_def)
    moreover from this have "M + k * (44 + 2 * n) < 256 ^ 8" by simp
    ultimately show ?thesis using that by (auto simp: room_def)
  qed
  show "p < INVALID_PAGE_ID" if "room k s" "store_view s p \<noteq> None" for k s p
    using that by (auto simp: room_def store_view_def all_view_def split: if_splits)
qed (simp_all add: pager_io_def read_page_law write_page_law allocate_page_law del: split_paired_Ex not_None_eq)

text \<open>
  \<open>Database\<close> installs \<open>TransactionManager.before_write\<close> for the session that is writing; the manager
  asks for the page's bytes only for the first change of a page by a transaction.
\<close>

definition txn_hook :: "string \<Rightarrow> txn_manager hook" where
  "txn_hook s =
     Some (\<lambda>pid why m.
       case active_in m s of
         None \<Rightarrow> Inl (None, m)
       | Some t \<Rightarrow> if undo_has (undo t) pid then Inl (before_write m pid [] why s)
                   else Inr (\<lambda>current. before_write m pid current why s))"

definition ids_fit :: "txn_manager \<Rightarrow> bool" where
  "ids_fit m \<longleftrightarrow> (\<forall>s t. active_in m s = Some t \<longrightarrow> transaction_id t < 256 ^ 8)"

lemma ids_fit_set_txn: "ids_fit m \<Longrightarrow> transaction_id t < 256 ^ 8 \<Longrightarrow> ids_fit (set_txn t m)"
  unfolding ids_fit_def active_in_def set_txn_def by (auto simp: update_conv' split: option.splits if_splits)

lemma before_write_fits:
  assumes "ids_fit m" and "before_write m pid b why s = (i, m')" and "length b \<le> n"
  shows "ids_fit m' \<and> intent_fits n i"
proof (cases "active_in m s")
  case None
  then show ?thesis using assms by (auto simp: before_write_def intent_fits_def)
next
  case (Some t)
  then have "transaction_id t < 256 ^ 8" using assms(1) by (auto simp: ids_fit_def)
  then show ?thesis using Some assms ids_fit_set_txn
    by (auto simp: before_write_def intent_fits_def Let_def split: if_splits)
qed

interpretation txn_pager: hooked_pager n "txn_hook s" ids_fit type_name for n s type_name
proof
  fix h t pid why i t'
  assume h: "txn_hook s = Some h" and t: "ids_fit t" and a: "h pid why t = Inl (i, t')"
  have "(i, t') = (None, t) \<or> before_write t pid [] why s = (i, t')"
    using h a by (auto simp: txn_hook_def split: option.splits if_splits)
  then show "ids_fit t' \<and> intent_fits n i" using t before_write_fits [of t pid "[]"] by (auto simp: intent_fits_def)
next
  fix h t pid why f b i t'
  assume h: "txn_hook s = Some h" and t: "ids_fit t" and a: "h pid why t = Inr f" and b: "length b = n" and f: "f b = (i, t')"
  have "before_write t pid b why s = (i, t')" using h a f by (auto simp: txn_hook_def split: option.splits if_splits)
  then show "ids_fit t' \<and> intent_fits n i" using before_write_fits [OF t, of pid b why s i t' n] b by simp
qed

text \<open>The hook agrees with \<open>before_write\<close> given the page's current bytes, whether it asks for them or not.\<close>

lemma txn_hook_before_write:
  "txn_hook s = Some h \<Longrightarrow>
     (case h pid why m of Inl r \<Rightarrow> r | Inr f \<Rightarrow> f current) = before_write m pid current why s"
  by (auto simp: txn_hook_def before_write_def Let_def split: option.splits)

end
