(* ===== verification/Expr.thy ===== *)
theory Expr
  imports Key
begin

text \<open>
  Expressions and their evaluation: the expression nodes of \<open>engine/parser/ast.py\<close>, the bound column
  of \<open>engine/executor/binder.py\<close> with the binder's static types, and the evaluator with SQL's
  three-valued logic (\<open>engine/executor/expression.py\<close>). A row is a list of Python values,
  \<open>PyNone\<close> being NULL. The display fields of a node (\<open>node_id\<close>, \<open>span\<close>) are left out. Evaluation is
  pure, so an operand the code evaluates lazily is passed as its result and looked at only where
  the code evaluates it.
\<close>

section \<open>The nodes\<close>

datatype binary_operator =
    EQ | NEQ | LT | LTE | GT | GTE | ADD | SUBTRACT | MULTIPLY | DIVIDE | MODULO | AND_OP | OR_OP

datatype unary_operator = NOT_OP | NEGATE | PLUS

datatype aggregate_function = COUNT_FN | SUM_FN | AVG_FN | MIN_FN | MAX_FN

fun is_comparison :: "binary_operator \<Rightarrow> bool" where
  "is_comparison op = (op \<in> set [EQ, NEQ, LT, LTE, GT, GTE])"

fun is_logical :: "binary_operator \<Rightarrow> bool" where
  "is_logical op = (op \<in> set [AND_OP, OR_OP])"

record bound_column =
  bc_name :: pystr
  column_index :: nat
  bc_type :: data_type
  bc_table :: "pystr option"
  scan_position :: "nat option"
  table_name :: "pystr option"
  table_position :: "nat option"

datatype expression =
    Literal pyval "data_type option"
  | ColumnRef pystr "pystr option"
  | BoundColumnRef bound_column
  | Star "pystr option"
  | UnaryOp unary_operator expression
  | BinaryOp binary_operator expression expression
  | InList expression "expression list" bool
  | IsNullTest expression bool
  | FunctionCall aggregate_function "expression option"

type_synonym row = "pyval list"

section \<open>Numbers, kinds and comparisons\<close>

fun number_of :: "pyval \<Rightarrow> num_val option" where
  "number_of (PyInt n) = Some (IntV n)"
| "number_of (PyFloat w) = Some (FloatV w)"
| "number_of _ = None"

fun of_number :: "num_val \<Rightarrow> pyval" where
  "of_number (IntV n) = PyInt n"
| "of_number (FloatV w) = PyFloat w"

definition require_number :: "pyval \<Rightarrow> num_val res" where
  "require_number v = (case number_of v of None \<Rightarrow> Inl EvaluationError | Some n \<Rightarrow> Inr n)"

fun require_boolean :: "pyval \<Rightarrow> bool res" where
  "require_boolean (PyBool b) = Inr b"
| "require_boolean _ = Inl EvaluationError"

fun kind :: "pyval \<Rightarrow> string" where
  "kind (PyBool _) = ''BOOLEAN''"
| "kind (PyInt _) = ''number''"
| "kind (PyFloat _) = ''number''"
| "kind (PyStr _) = ''TEXT''"
| "kind PyNone = ''NoneType''"

definition require_comparable :: "pyval \<Rightarrow> pyval \<Rightarrow> unit res" where
  "require_comparable l r = guard_res (kind l = kind r) EvaluationError (Inr ())"

text \<open>
  Python's own \<open>==\<close> and \<open><\<close>. A \<open>bool\<close> is an \<open>int\<close>; values of different kinds are unequal, and
  ordering them raises.
\<close>

fun py_number :: "pyval \<Rightarrow> num_val option" where
  "py_number (PyBool b) = Some (IntV (of_bool b))"
| "py_number v = number_of v"

definition py_eq :: "pyval \<Rightarrow> pyval \<Rightarrow> bool" where
  "py_eq l r = (case (py_number l, py_number r) of
       (Some a, Some b) \<Rightarrow> num_eq a b
     | (None, None) \<Rightarrow> l = r
     | _ \<Rightarrow> False)"

definition py_ordered :: "(num_val \<Rightarrow> num_val \<Rightarrow> bool) \<Rightarrow> (pystr \<Rightarrow> pystr \<Rightarrow> bool) \<Rightarrow> pyval \<Rightarrow> pyval \<Rightarrow> bool res" where
  "py_ordered num txt l r = (case (py_number l, py_number r) of
       (Some a, Some b) \<Rightarrow> Inr (num a b)
     | _ \<Rightarrow> (case (l, r) of (PyStr s, PyStr t) \<Rightarrow> Inr (txt s t) | _ \<Rightarrow> Inl TypeError))"

fun compare :: "binary_operator \<Rightarrow> pyval \<Rightarrow> pyval \<Rightarrow> bool res" where
  "compare EQ l r = Inr (py_eq l r)"
| "compare NEQ l r = Inr (\<not> py_eq l r)"
| "compare LT l r = py_ordered num_less (<) l r"
| "compare LTE l r = py_ordered num_leq (\<le>) l r"
| "compare GT l r = py_ordered (\<lambda>a b. num_less b a) (>) l r"
| "compare GTE l r = py_ordered (\<lambda>a b. num_leq b a) (\<ge>) l r"
| "compare _ l r = Inl EvaluationError"

section \<open>Arithmetic\<close>

fun check_numeric_range :: "pyval \<Rightarrow> pyval res" where
  "check_numeric_range (PyInt n) =
     guard_res (INT64_MIN \<le> n \<and> n \<le> INT64_MAX) EvaluationError (Inr (PyInt n))"
| "check_numeric_range (PyFloat w) = guard_res (isfinite w) EvaluationError (Inr (PyFloat w))"
| "check_numeric_range v = Inr v"

text \<open>A binary operation of Python on numbers: of integers, or of doubles after conversion.\<close>

fun num_op :: "(int \<Rightarrow> int \<Rightarrow> int) \<Rightarrow> (f64 \<Rightarrow> f64 \<Rightarrow> f64) \<Rightarrow> num_val \<Rightarrow> num_val \<Rightarrow> num_val res" where
  "num_op fi ff (IntV a) (IntV b) = Inr (IntV (fi a b))"
| "num_op fi ff a b = bind_res (to_float a) (\<lambda>x. bind_res (to_float b) (\<lambda>y. Inr (FloatV (ff x y))))"

fun arithmetic :: "binary_operator \<Rightarrow> num_val \<Rightarrow> num_val \<Rightarrow> num_val res" where
  "arithmetic ADD = num_op (+) f_add"
| "arithmetic SUBTRACT = num_op (-) f_sub"
| "arithmetic MULTIPLY = num_op (*) f_mult"
| "arithmetic _ = (\<lambda>_ _. Inl EvaluationError)"

fun num_abs :: "num_val \<Rightarrow> num_val" where
  "num_abs (IntV n) = IntV \<bar>n\<bar>"
| "num_abs (FloatV w) = FloatV (f_abs w)"

fun num_uminus :: "num_val \<Rightarrow> num_val" where
  "num_uminus (IntV n) = IntV (- n)"
| "num_uminus (FloatV w) = FloatV (f_uminus w)"

abbreviation num_zero :: num_val where "num_zero \<equiv> IntV 0"

definition range_checked :: "num_val res \<Rightarrow> pyval res" where
  "range_checked r = bind_res r (\<lambda>n. check_numeric_range (of_number n))"

definition divide :: "pyval \<Rightarrow> pyval \<Rightarrow> pyval res" where
  "divide left right =
     bind_res (require_number left) (\<lambda>l. bind_res (require_number right) (\<lambda>r.
       if num_eq r num_zero then Inl EvaluationError
       else (case (l, r) of
               (IntV a, IntV b) \<Rightarrow>
                 (let quotient = \<bar>a\<bar> div \<bar>b\<bar>
                  in Inr (PyInt (if (a < 0) \<noteq> (b < 0) then - quotient else quotient)))
             | _ \<Rightarrow> range_checked
                      (bind_res (to_float l) (\<lambda>x. bind_res (to_float r) (\<lambda>y. Inr (FloatV (f_div x y))))))))"

definition EXACT_IN_DOUBLE :: int where "EXACT_IN_DOUBLE = 9007199254740992"

text \<open>
  \<open>float(Fraction(left) % Fraction(right))\<close>: the exact remainder, rounded once. \<open>Fraction\<close> refuses an
  infinity and a NaN.
\<close>

definition fraction_remainder :: "num_val \<Rightarrow> num_val \<Rightarrow> num_val res" where
  "fraction_remainder left right =
     (if n_isinf left \<or> n_isinf right then Inl OverflowError
      else if n_isnan left \<or> n_isnan right then Inl ValueError
      else let m = f_round (nat (n_scaled left mod n_scaled right)) 1
           in if m = 2047 * 2 ^ 52 then Inl OverflowError else Inr (FloatV (f_make False m)))"

fun is_int :: "num_val \<Rightarrow> bool" where
  "is_int (IntV _) = True"
| "is_int (FloatV _) = False"

definition exact_remainder :: "num_val \<Rightarrow> num_val \<Rightarrow> num_val res" where
  "exact_remainder left right =
     (let larger = (if num_less (num_abs left) (num_abs right) then num_abs right else num_abs left)
      in if is_int left \<noteq> is_int right \<and> num_less (IntV EXACT_IN_DOUBLE) larger
         then fraction_remainder left right
         else num_op (mod) f_mod left right)"

definition modulo :: "pyval \<Rightarrow> pyval \<Rightarrow> pyval res" where
  "modulo left right =
     bind_res (require_number left) (\<lambda>l. bind_res (require_number right) (\<lambda>r.
       if num_eq r num_zero then Inl EvaluationError
       else range_checked
              (bind_res (exact_remainder (num_abs l) (num_abs r))
                 (\<lambda>magnitude. Inr (if num_less l num_zero then num_uminus magnitude else magnitude)))))"

section \<open>Evaluation\<close>

fun evaluate_in_items :: "pyval \<Rightarrow> bool \<Rightarrow> bool \<Rightarrow> pyval res list \<Rightarrow> pyval res" where
  "evaluate_in_items value negated unknown [] = Inr (if unknown then PyNone else PyBool negated)"
| "evaluate_in_items value negated unknown (item # items) =
     bind_res item (\<lambda>candidate.
       if candidate = PyNone \<or> unknown then evaluate_in_items value negated True items
       else bind_res (require_comparable value candidate) (\<lambda>_.
         if py_eq value candidate then Inr (PyBool (\<not> negated))
         else evaluate_in_items value negated unknown items))"

fun evaluate_unary :: "unary_operator \<Rightarrow> pyval \<Rightarrow> pyval res" where
  "evaluate_unary NOT_OP v =
     (if v = PyNone then Inr PyNone else bind_res (require_boolean v) (\<lambda>b. Inr (PyBool (\<not> b))))"
| "evaluate_unary NEGATE v =
     (if v = PyNone then Inr PyNone
      else bind_res (require_number v) (\<lambda>n. check_numeric_range (of_number (num_uminus n))))"
| "evaluate_unary PLUS v =
     (if v = PyNone then Inr PyNone else bind_res (require_number v) (\<lambda>_. Inr v))"

definition evaluate_and :: "pyval res \<Rightarrow> pyval res \<Rightarrow> pyval res" where
  "evaluate_and left_res right_res =
     bind_res left_res (\<lambda>left.
     bind_res (if left = PyNone then Inr True else require_boolean left) (\<lambda>l.
       if \<not> l then Inr (PyBool False)
       else bind_res right_res (\<lambda>right.
            bind_res (if right = PyNone then Inr True else require_boolean right) (\<lambda>r.
              if \<not> r then Inr (PyBool False)
              else if left = PyNone \<or> right = PyNone then Inr PyNone
              else Inr (PyBool True)))))"

definition evaluate_or :: "pyval res \<Rightarrow> pyval res \<Rightarrow> pyval res" where
  "evaluate_or left_res right_res =
     bind_res left_res (\<lambda>left.
     bind_res (if left = PyNone then Inr False else require_boolean left) (\<lambda>l.
       if l then Inr (PyBool True)
       else bind_res right_res (\<lambda>right.
            bind_res (if right = PyNone then Inr False else require_boolean right) (\<lambda>r.
              if r then Inr (PyBool True)
              else if left = PyNone \<or> right = PyNone then Inr PyNone
              else Inr (PyBool False)))))"

definition evaluate_strict :: "binary_operator \<Rightarrow> pyval \<Rightarrow> pyval \<Rightarrow> pyval res" where
  "evaluate_strict op left right =
     (if left = PyNone \<or> right = PyNone then Inr PyNone
      else if is_comparison op
      then bind_res (require_comparable left right)
             (\<lambda>_. bind_res (compare op left right) (\<lambda>b. Inr (PyBool b)))
      else if op = DIVIDE then divide left right
      else if op = MODULO then modulo left right
      else bind_res (require_number left) (\<lambda>l. bind_res (require_number right)
             (\<lambda>r. range_checked (arithmetic op l r))))"

definition evaluate_binary :: "binary_operator \<Rightarrow> pyval res \<Rightarrow> pyval res \<Rightarrow> pyval res" where
  "evaluate_binary op left_res right_res =
     (if op = AND_OP then evaluate_and left_res right_res
      else if op = OR_OP then evaluate_or left_res right_res
      else bind_res left_res (\<lambda>left. bind_res right_res (evaluate_strict op left)))"

fun evaluate :: "expression \<Rightarrow> row \<Rightarrow> pyval res" where
  "evaluate (Literal v _) row = Inr v"
| "evaluate (BoundColumnRef c) row =
     guard_res (column_index c < length row) EvaluationError (Inr (row ! column_index c))"
| "evaluate (IsNullTest e negated) row =
     bind_res (evaluate e row) (\<lambda>v. Inr (PyBool (if negated then v \<noteq> PyNone else v = PyNone)))"
| "evaluate (InList e items negated) row =
     bind_res (evaluate e row)
       (\<lambda>v. evaluate_in_items v negated (v = PyNone) (map (\<lambda>item. evaluate item row) items))"
| "evaluate (UnaryOp op e) row = bind_res (evaluate e row) (evaluate_unary op)"
| "evaluate (BinaryOp op l r) row = evaluate_binary op (evaluate l row) (evaluate r row)"
| "evaluate (Star _) row = Inl EvaluationError"
| "evaluate (ColumnRef _ _) row = Inl EvaluationError"
| "evaluate (FunctionCall _ _) row = Inl EvaluationError"

fun is_true :: "pyval \<Rightarrow> bool res" where
  "is_true PyNone = Inr False"
| "is_true (PyBool b) = Inr b"
| "is_true _ = Inl EvaluationError"

section \<open>Static types\<close>

fun aggregate_type :: "aggregate_function \<Rightarrow> data_type option \<Rightarrow> data_type option" where
  "aggregate_type COUNT_FN _ = Some INTEGER"
| "aggregate_type AVG_FN _ = Some FLOAT"
| "aggregate_type _ t = t"

fun static_type :: "expression \<Rightarrow> data_type option" where
  "static_type (BoundColumnRef c) = Some (bc_type c)"
| "static_type (Literal _ t) = t"
| "static_type (IsNullTest _ _) = Some BOOLEAN"
| "static_type (FunctionCall f None) = aggregate_type f None"
| "static_type (FunctionCall f (Some e)) = aggregate_type f (static_type e)"
| "static_type (UnaryOp _ e) = static_type e"
| "static_type (BinaryOp op l r) =
     (if is_comparison op \<or> is_logical op then Some BOOLEAN
      else let left = static_type l; right = static_type r
           in if left = right then left
              else if left \<in> {Some INTEGER, Some FLOAT} \<and> right \<in> {Some INTEGER, Some FLOAT} then Some FLOAT
              else None)"
| "static_type _ = None"

definition require_predicate :: "expression \<Rightarrow> unit res" where
  "require_predicate e =
     guard_res (static_type e = None \<or> static_type e = Some BOOLEAN) BindingError (Inr ())"

section \<open>Three-valued logic\<close>

text \<open>The reference: truth values with the unknown between false and true, by the tables of SQL.\<close>

datatype truth_value = TV_FALSE | TV_UNKNOWN | TV_TRUE

fun tv_rank :: "truth_value \<Rightarrow> nat" where
  "tv_rank TV_FALSE = 0"
| "tv_rank TV_UNKNOWN = 1"
| "tv_rank TV_TRUE = 2"

definition tv_and :: "truth_value \<Rightarrow> truth_value \<Rightarrow> truth_value" where
  "tv_and a b = (if tv_rank a \<le> tv_rank b then a else b)"

definition tv_or :: "truth_value \<Rightarrow> truth_value \<Rightarrow> truth_value" where
  "tv_or a b = (if tv_rank a \<le> tv_rank b then b else a)"

fun tv_not :: "truth_value \<Rightarrow> truth_value" where
  "tv_not TV_FALSE = TV_TRUE"
| "tv_not TV_UNKNOWN = TV_UNKNOWN"
| "tv_not TV_TRUE = TV_FALSE"

fun of_tv :: "truth_value \<Rightarrow> pyval" where
  "of_tv TV_FALSE = PyBool False"
| "of_tv TV_UNKNOWN = PyNone"
| "of_tv TV_TRUE = PyBool True"

lemma of_tv_eq_PyNone [simp]: "of_tv t = PyNone \<longleftrightarrow> t = TV_UNKNOWN"
  by (cases t) simp_all

lemma require_boolean_Inr_iff [simp]: "require_boolean v = Inr b \<longleftrightarrow> v = PyBool b"
  by (cases v) auto

lemma require_boolean_cases: "require_boolean v = Inl EvaluationError \<or> (\<exists>b. v = PyBool b)"
  by (cases v) auto

text \<open>What a truth-valued operand can be, and the connectives on each.\<close>

lemma truth_operand_cases:
  obtains (err) e where "r = Inl e" | (null) "r = Inr PyNone" | (true) "r = Inr (PyBool True)" | (false) "r = Inr (PyBool False)"
    | (ill) v where "r = Inr v" and "v \<noteq> PyNone" and "require_boolean v = Inl EvaluationError"
proof (cases r)
  case (Inr v)
  then show ?thesis
  proof (cases v)
    case (PyBool b)
    with Inr show ?thesis by (cases b) (simp_all add: true false)
  qed (use Inr in \<open>simp_all add: null ill\<close>)
qed (rule err)

lemma evaluate_and_simps [simp]:
  "evaluate_and (Inl e) r = Inl e"
  "evaluate_and (Inr (PyBool False)) r = Inr (PyBool False)"
  "evaluate_and (Inr (PyBool True)) r =
     bind_res r (\<lambda>v. if v = PyNone then Inr PyNone else bind_res (require_boolean v) (\<lambda>b. Inr (PyBool b)))"
  "evaluate_and (Inr PyNone) r =
     bind_res r (\<lambda>v. if v = PyNone then Inr PyNone
                     else bind_res (require_boolean v) (\<lambda>b. Inr (if b then PyNone else PyBool False)))"
  by (cases r rule: truth_operand_cases; simp add: evaluate_and_def)+

lemma evaluate_or_simps [simp]:
  "evaluate_or (Inl e) r = Inl e"
  "evaluate_or (Inr (PyBool True)) r = Inr (PyBool True)"
  "evaluate_or (Inr (PyBool False)) r =
     bind_res r (\<lambda>v. if v = PyNone then Inr PyNone else bind_res (require_boolean v) (\<lambda>b. Inr (PyBool b)))"
  "evaluate_or (Inr PyNone) r =
     bind_res r (\<lambda>v. if v = PyNone then Inr PyNone
                     else bind_res (require_boolean v) (\<lambda>b. Inr (if b then PyBool True else PyNone)))"
  by (cases r rule: truth_operand_cases; simp add: evaluate_or_def)+

lemma evaluate_connective_ill:
  assumes "v \<noteq> PyNone" and "require_boolean v = Inl e"
  shows "evaluate_and (Inr v) r = Inl e" and "evaluate_or (Inr v) r = Inl e"
  using assms by (simp_all add: evaluate_and_def evaluate_or_def)

text \<open>
  C20: \<open>AND\<close>, \<open>OR\<close> and \<open>NOT\<close> are Kleene's connectives. On operands that come out true, false or NULL
  they compute minimum, maximum and reflection in the order false, unknown, true; and De Morgan's law and
  associativity hold as they stand for any operands, lazy evaluation and errors included: the two sides
  raise exactly together.
\<close>

theorem connectives_kleene:
  "evaluate_and (Inr (of_tv a)) (Inr (of_tv b)) = Inr (of_tv (tv_and a b)) \<and>
   evaluate_or (Inr (of_tv a)) (Inr (of_tv b)) = Inr (of_tv (tv_or a b)) \<and>
   evaluate_unary NOT_OP (of_tv a) = Inr (of_tv (tv_not a)) \<and>
   evaluate (UnaryOp NOT_OP (BinaryOp AND_OP p q)) row =
     evaluate (BinaryOp OR_OP (UnaryOp NOT_OP p) (UnaryOp NOT_OP q)) row \<and>
   evaluate (UnaryOp NOT_OP (BinaryOp OR_OP p q)) row =
     evaluate (BinaryOp AND_OP (UnaryOp NOT_OP p) (UnaryOp NOT_OP q)) row \<and>
   evaluate (BinaryOp AND_OP (BinaryOp AND_OP p q) r) row =
     evaluate (BinaryOp AND_OP p (BinaryOp AND_OP q r)) row \<and>
   evaluate (BinaryOp OR_OP (BinaryOp OR_OP p q) r) row =
     evaluate (BinaryOp OR_OP p (BinaryOp OR_OP q r)) row"
proof (intro conjI)
  show "evaluate_and (Inr (of_tv a)) (Inr (of_tv b)) = Inr (of_tv (tv_and a b))"
    by (cases a; cases b) (simp_all add: tv_and_def)
  show "evaluate_or (Inr (of_tv a)) (Inr (of_tv b)) = Inr (of_tv (tv_or a b))"
    by (cases a; cases b) (simp_all add: tv_or_def)
  show "evaluate_unary NOT_OP (of_tv a) = Inr (of_tv (tv_not a))"
    by (cases a) simp_all
  define x y z where "x = evaluate p row" and "y = evaluate q row" and "z = evaluate r row"
  note ev = x_def [symmetric] y_def [symmetric] z_def [symmetric] evaluate_binary_def
  show "evaluate (UnaryOp NOT_OP (BinaryOp AND_OP p q)) row =
     evaluate (BinaryOp OR_OP (UnaryOp NOT_OP p) (UnaryOp NOT_OP q)) row"
    by (cases x rule: truth_operand_cases; cases y rule: truth_operand_cases)
      (auto simp: ev evaluate_connective_ill)
  show "evaluate (UnaryOp NOT_OP (BinaryOp OR_OP p q)) row =
     evaluate (BinaryOp AND_OP (UnaryOp NOT_OP p) (UnaryOp NOT_OP q)) row"
    by (cases x rule: truth_operand_cases; cases y rule: truth_operand_cases)
      (auto simp: ev evaluate_connective_ill)
  show "evaluate (BinaryOp AND_OP (BinaryOp AND_OP p q) r) row =
     evaluate (BinaryOp AND_OP p (BinaryOp AND_OP q r)) row"
    by (cases x rule: truth_operand_cases; cases y rule: truth_operand_cases; cases z rule: truth_operand_cases)
      (auto simp: ev evaluate_connective_ill)
  show "evaluate (BinaryOp OR_OP (BinaryOp OR_OP p q) r) row =
     evaluate (BinaryOp OR_OP p (BinaryOp OR_OP q r)) row"
    by (cases x rule: truth_operand_cases; cases y rule: truth_operand_cases; cases z rule: truth_operand_cases)
      (auto simp: ev evaluate_connective_ill)
qed

section \<open>IN as a chain of equalities\<close>

text \<open>The reference: \<open>x = a OR x = b OR x = c\<close>; the grouping does not matter.\<close>

fun or_chain :: "expression \<Rightarrow> expression list \<Rightarrow> expression" where
  "or_chain x [] = Literal (PyBool False) (Some BOOLEAN)"
| "or_chain x [item] = BinaryOp EQ x item"
| "or_chain x (item # items) = BinaryOp OR_OP (BinaryOp EQ x item) (or_chain x items)"

definition eq_result :: "pyval \<Rightarrow> pyval res \<Rightarrow> pyval res" where
  "eq_result v item = bind_res item (evaluate_strict EQ v)"

fun or_results :: "pyval \<Rightarrow> pyval res list \<Rightarrow> pyval res" where
  "or_results v [] = Inr (PyBool False)"
| "or_results v [item] = eq_result v item"
| "or_results v (item # items) = evaluate_or (eq_result v item) (or_results v items)"

lemma evaluate_or_chain:
  "evaluate x row = Inr v \<Longrightarrow>
   evaluate (or_chain x items) row = or_results v (map (\<lambda>item. evaluate item row) items)"
  by (induction x items rule: or_chain.induct) (simp_all add: evaluate_binary_def eq_result_def)

lemma or_chain_raises:
  "evaluate x row = Inl e \<Longrightarrow> items \<noteq> [] \<Longrightarrow> evaluate (or_chain x items) row = Inl e"
  by (induction x items rule: or_chain.induct) (simp_all add: evaluate_binary_def)

lemma eq_result_simps [simp]:
  "eq_result v (Inl e) = Inl e"
  "eq_result PyNone (Inr c) = Inr PyNone"
  "eq_result v (Inr PyNone) = Inr PyNone"
  by (simp_all add: eq_result_def evaluate_strict_def)

lemma eq_result_compares:
  "v \<noteq> PyNone \<Longrightarrow> c \<noteq> PyNone \<Longrightarrow>
   eq_result v (Inr c) = bind_res (require_comparable v c) (\<lambda>_. Inr (PyBool (py_eq v c)))"
  by (simp add: eq_result_def evaluate_strict_def)

text \<open>Once the result is unknown, the remaining items are evaluated and never compared.\<close>

lemma in_items_unknown:
  "evaluate_in_items v n True [] = Inr PyNone"
  "evaluate_in_items v n True (Inl e # rs) = Inl e"
  "evaluate_in_items v n True (Inr c # rs) = evaluate_in_items v n True rs"
  by simp_all

lemma in_items_unknown_result: "\<exists>e. evaluate_in_items v n True rs \<in> {Inr PyNone, Inl e}"
proof (induction rs)
  case (Cons r rs)
  then show ?case by (cases r) auto
qed simp

lemma in_items_null_operand:
  "rs \<noteq> [] \<Longrightarrow> evaluate_in_items v n True rs = or_results PyNone rs"
proof (induction rs rule: induct_list012)
  case (2 r)
  then show ?case by (cases r) simp_all
next
  case (3 r q rs)
  then have IH: "evaluate_in_items v n True (q # rs) = or_results PyNone (q # rs)" by simp
  show ?case
  proof (cases r)
    case (Inr c)
    have "evaluate_in_items v n True (r # q # rs) = or_results PyNone (q # rs)"
      by (simp only: Inr in_items_unknown IH)
    moreover have "or_results PyNone (r # q # rs) = evaluate_or (Inr PyNone) (or_results PyNone (q # rs))"
      by (simp add: Inr)
    ultimately show ?thesis
      using in_items_unknown_result [of v n "q # rs"] IH by (cases "or_results PyNone (q # rs)") auto
  qed simp
qed simp

lemma evaluate_or_truth: "evaluate_or l r = Inr b \<Longrightarrow> b = PyNone \<or> (\<exists>x. b = PyBool x)"
  by (auto simp: evaluate_or_def res_simps split: if_splits)

lemma or_results_truth: "or_results v rs = Inr b \<Longrightarrow> b = PyNone \<or> (\<exists>x. b = PyBool x)"
proof (induction rs rule: induct_list012)
  case (2 r)
  then show ?case
    by (auto simp: eq_result_def evaluate_strict_def res_simps split: if_splits)
qed (auto dest: evaluate_or_truth)

lemma in_items_chain:
  "rs \<noteq> [] \<Longrightarrow> v \<noteq> PyNone \<Longrightarrow> Inr PyNone \<notin> set (butlast rs) \<Longrightarrow>
   evaluate_in_items v n False rs =
     bind_res (or_results v rs) (\<lambda>b. if n then evaluate_unary NOT_OP b else Inr b)"
proof (induction v rs rule: or_results.induct)
  case (2 v r)
  then show ?case by (cases r; cases "kind v = kind (projr r)") (auto simp: eq_result_compares require_comparable_def)
next
  case (3 v r q rs)
  show ?case
  proof (cases r)
    case (Inr c)
    with 3 have c: "c \<noteq> PyNone" and
      IH: "evaluate_in_items v n False (q # rs) =
         bind_res (or_results v (q # rs)) (\<lambda>b. if n then evaluate_unary NOT_OP b else Inr b)" by auto
    have step: "evaluate_in_items v n False (r # q # rs) = bind_res (require_comparable v c)
       (\<lambda>_. if py_eq v c then Inr (PyBool (\<not> n)) else evaluate_in_items v n False (q # rs))"
      using Inr c by (simp del: evaluate_in_items.simps(2) add: evaluate_in_items.simps(2) [of v n False "Inr c" "q # rs"])
    have "or_results v (r # q # rs) = evaluate_or (eq_result v (Inr c)) (or_results v (q # rs))"
      by (simp add: Inr)
    then show ?thesis
      unfolding step IH
      using eq_result_compares [OF 3(3) c]
      by (cases "kind v = kind c"; cases "py_eq v c"; cases "or_results v (q # rs)" rule: truth_operand_cases)
        (auto simp: require_comparable_def dest: or_results_truth)
  qed simp
qed simp

text \<open>
  \<open>x IN (a, b, c)\<close> is \<open>x = a OR x = b OR x = c\<close>, and \<open>NOT IN\<close> its negation, results and errors alike,
  whenever \<open>x\<close> is NULL or no item but the last comes out NULL.
\<close>

theorem in_is_or_chain:
  assumes "items \<noteq> []"
    and "evaluate x row = Inr PyNone \<or> (\<forall>item\<in>set (butlast items). evaluate item row \<noteq> Inr PyNone)"
  shows "evaluate (InList x items False) row = evaluate (or_chain x items) row \<and>
    evaluate (InList x items True) row = evaluate (UnaryOp NOT_OP (or_chain x items)) row"
proof (cases "evaluate x row")
  case (Inl e)
  then show ?thesis using assms(1) by (simp add: or_chain_raises)
next
  case (Inr v)
  let ?rs = "map (\<lambda>item. evaluate item row) items"
  have rs: "?rs \<noteq> []" using assms(1) by simp
  show ?thesis
  proof (cases "v = PyNone")
    case True
    with Inr in_items_null_operand [OF rs] in_items_unknown_result [of PyNone _ ?rs] show ?thesis
      by (auto simp: evaluate_or_chain res_simps)
  next
    case False
    with assms(2) Inr have "Inr PyNone \<notin> set (butlast ?rs)" by (auto simp: map_butlast [symmetric])
    from in_items_chain [OF rs False this] Inr False show ?thesis
      by (cases "or_results v ?rs") (simp_all add: evaluate_or_chain)
  qed
qed

theorem in_is_or_chain_witness:
  "evaluate (InList (BoundColumnRef \<lparr>bc_name = [105], column_index = 0, bc_type = INTEGER, bc_table = None,
       scan_position = None, table_name = None, table_position = None\<rparr>)
     [Literal (PyInt 1) (Some INTEGER), Literal PyNone None] True) [PyInt 2] = Inr PyNone"
  using in_is_or_chain [of "[Literal (PyInt 1) (Some INTEGER), Literal PyNone None]"
      "BoundColumnRef \<lparr>bc_name = [105], column_index = 0, bc_type = INTEGER, bc_table = None,
       scan_position = None, table_name = None, table_position = None\<rparr>" "[PyInt 2]"]
  by (simp add: evaluate_binary_def evaluate_strict_def require_comparable_def py_eq_def num_eq_def)



section \<open>Type soundness\<close>

text \<open>\<open>_type_of\<close> in \<open>engine/optimizer/rules.py\<close>.\<close>

fun type_of :: "pyval \<Rightarrow> data_type option" where
  "type_of (PyBool _) = Some BOOLEAN"
| "type_of (PyInt _) = Some INTEGER"
| "type_of (PyFloat _) = Some FLOAT"
| "type_of (PyStr _) = Some TEXT"
| "type_of PyNone = None"

text \<open>
  A value of a type, its integers at most \<open>hi\<close>; and the expressions whose literals and columns hold such
  values: what the parser and the row codec guarantee.
\<close>

fun has_type :: "int \<Rightarrow> data_type \<Rightarrow> pyval \<Rightarrow> bool" where
  "has_type hi INTEGER (PyInt n) = (INT64_MIN \<le> n \<and> n \<le> hi)"
| "has_type hi FLOAT (PyFloat w) = isfinite w"
| "has_type hi BOOLEAN (PyBool b) = True"
| "has_type hi TEXT (PyStr s) = True"
| "has_type hi _ _ = False"

fun typed_in :: "row \<Rightarrow> expression \<Rightarrow> bool" where
  "typed_in row (Literal v t) =
     (case t of None \<Rightarrow> v = PyNone | Some t \<Rightarrow> has_type INT64_MAX t v)"
| "typed_in row (BoundColumnRef c) =
     (column_index c < length row \<longrightarrow>
        row ! column_index c = PyNone \<or> has_type INT64_MAX (bc_type c) (row ! column_index c))"
| "typed_in row (UnaryOp _ e) = typed_in row e"
| "typed_in row (BinaryOp _ l r) = (typed_in row l \<and> typed_in row r)"
| "typed_in row (IsNullTest e _) = typed_in row e"
| "typed_in row (InList e items _) = (typed_in row e \<and> list_all (typed_in row) items)"
| "typed_in row (FunctionCall _ (Some e)) = typed_in row e"
| "typed_in row _ = True"

fun divides :: "expression \<Rightarrow> bool" where
  "divides (UnaryOp _ e) = divides e"
| "divides (BinaryOp op l r) = (op = DIVIDE \<or> divides l \<or> divides r)"
| "divides (IsNullTest e _) = divides e"
| "divides (InList e items _) = (divides e \<or> list_ex divides items)"
| "divides (FunctionCall _ (Some e)) = divides e"
| "divides _ = False"

lemma has_type_mono: "has_type hi t v \<Longrightarrow> hi \<le> hi' \<Longrightarrow> has_type hi' t v"
  by (cases "(hi, t, v)" rule: has_type.cases) auto

lemma has_type_type_of: "has_type hi t v \<Longrightarrow> type_of v = Some t"
  by (cases "(hi, t, v)" rule: has_type.cases) auto

lemma has_type_validates: "has_type INT64_MAX t v \<Longrightarrow> codec_validate t v = Inr ()"
  by (cases "(INT64_MAX, t, v)" rule: has_type.cases) auto

lemma check_numeric_range_Inr:
  "check_numeric_range v = Inr v' \<Longrightarrow> v' = v \<and> (case v of PyInt n \<Rightarrow> has_type INT64_MAX INTEGER v |
     PyFloat w \<Rightarrow> isfinite w | _ \<Rightarrow> True)"
  by (cases v) (auto simp: res_simps)

text \<open>The type of a number decides the type of a result: two integers give one, a float makes it a float.\<close>

abbreviation num_type :: "num_val \<Rightarrow> num_val \<Rightarrow> data_type" where
  "num_type a b \<equiv> (if is_int a \<and> is_int b then INTEGER else FLOAT)"

lemma range_checked_typed:
  "range_checked (Inr n) = Inr v \<Longrightarrow> has_type INT64_MAX (if is_int n then INTEGER else FLOAT) v"
  by (cases n) (auto simp: range_checked_def res_simps)

lemma num_op_kind: "num_op fi ff a b = Inr n \<Longrightarrow> is_int n \<longleftrightarrow> is_int a \<and> is_int b"
  by (cases "(fi, ff, a, b)" rule: num_op.cases) (auto simp: res_simps)

lemma arithmetic_kind: "arithmetic op a b = Inr n \<Longrightarrow> is_int n \<longleftrightarrow> is_int a \<and> is_int b"
  by (cases op) (auto dest: num_op_kind)

lemma exact_remainder_kind: "exact_remainder a b = Inr n \<Longrightarrow> is_int n \<longleftrightarrow> is_int a \<and> is_int b"
  by (auto simp: exact_remainder_def fraction_remainder_def Let_def split: if_splits dest: num_op_kind)

lemma is_int_num_abs [simp]: "is_int (num_abs a) = is_int a" "is_int (num_uminus a) = is_int a"
  by (cases a; simp)+

lemma range_checkedE:
  assumes "range_checked r = Inr v" obtains n where "r = Inr n" and "range_checked (Inr n) = Inr v"
  using assms by (cases r) (simp_all add: range_checked_def)

lemma require_number_Inr: "require_number v = Inr n \<longleftrightarrow> number_of v = Some n"
  by (auto simp: require_number_def split: option.splits)

lemma modulo_typed:
  assumes "modulo l r = Inr v" and "number_of l = Some a" and "number_of r = Some b"
  shows "has_type INT64_MAX (num_type a b) v"
proof -
  from assms have "range_checked (bind_res (exact_remainder (num_abs a) (num_abs b))
      (\<lambda>n. Inr (if num_less a num_zero then num_uminus n else n))) = Inr v"
    by (auto simp: modulo_def require_number_def split: if_splits)
  then obtain n where m: "exact_remainder (num_abs a) (num_abs b) = Inr n"
    and v: "range_checked (Inr (if num_less a num_zero then num_uminus n else n)) = Inr v"
    by (cases "exact_remainder (num_abs a) (num_abs b)") (auto elim: range_checkedE)
  from range_checked_typed [OF v] exact_remainder_kind [OF m] show ?thesis by (auto split: if_splits)
qed

lemma quotient_bounds:
  assumes "INT64_MIN \<le> a" and "a \<le> 2 ^ 63" and "b \<noteq> 0"
  shows "\<bar>a\<bar> div \<bar>b\<bar> \<le> 2 ^ 63"
proof -
  have "\<bar>a\<bar> div \<bar>b\<bar> \<le> \<bar>a\<bar> div 1" using assms(3) by (intro zdiv_mono2) auto
  with assms show ?thesis by (simp add: INT64_MIN_def)
qed

lemma num_eq_zero_int: "num_eq (IntV b) num_zero \<longleftrightarrow> b = 0"
  by (simp add: num_eq_def)

lemma divide_typed:
  assumes "divide l r = Inr v" and "number_of l = Some a" and "number_of r = Some b"
    and "is_int a \<Longrightarrow> has_type (2 ^ 63) INTEGER l"
  shows "has_type (2 ^ 63) (num_type a b) v"
proof (cases "is_int a \<and> is_int b")
  case True
  then obtain m n where mn: "a = IntV m" "b = IntV n" by (cases a; cases b) auto
  then have "l = PyInt m" using assms(2) by (cases l) auto
  with assms(4) mn have range: "INT64_MIN \<le> m" "m \<le> 2 ^ 63" by auto
  from assms mn have n: "n \<noteq> 0" and v: "v = PyInt (if (m < 0) \<noteq> (n < 0) then - (\<bar>m\<bar> div \<bar>n\<bar>) else \<bar>m\<bar> div \<bar>n\<bar>)"
    by (auto simp: divide_def require_number_def num_eq_zero_int Let_def split: if_splits)
  have "0 \<le> \<bar>m\<bar> div \<bar>n\<bar>" by (simp add: pos_imp_zdiv_nonneg_iff n)
  with quotient_bounds [OF range n] v True show ?thesis by (auto simp: INT64_MIN_def)
next
  case False
  with assms have "range_checked (bind_res (to_float a) (\<lambda>x. bind_res (to_float b) (\<lambda>y. Inr (FloatV (f_div x y))))) = Inr v"
    by (cases a; cases b) (auto simp: divide_def require_number_def simp del: to_float.simps split: if_splits)
  then obtain x y where "range_checked (Inr (FloatV (f_div x y))) = Inr v"
    by (cases "to_float a"; cases "to_float b") (auto simp: range_checked_def simp del: to_float.simps)
  from has_type_mono [OF range_checked_typed [OF this], of "2 ^ 63"]
  have "has_type (2 ^ 63) FLOAT v" by (simp add: INT64_MAX_def)
  with False show ?thesis by (simp only: if_False)
qed

abbreviation int_top :: "expression \<Rightarrow> int" where
  "int_top e \<equiv> (if divides e then 2 ^ 63 else INT64_MAX)"

lemma INT64_MAX_le: "INT64_MAX \<le> 2 ^ 63"
  by (simp add: INT64_MAX_def)

text \<open>What a strict operator returns, by the types of its operands.\<close>

lemma number_type:
  "has_type hi t v \<Longrightarrow> number_of v = Some n \<Longrightarrow> t = (if is_int n then INTEGER else FLOAT)"
  by (cases v) (auto dest: has_type_type_of)

lemma strict_typed:
  assumes ev: "evaluate_strict op l r = Inr v" and op: "\<not> is_comparison op" "\<not> is_logical op"
    and l: "l = PyNone \<or> has_type hi s l" and r: "r = PyNone \<or> has_type hi t r"
    and hi: "hi = 2 ^ 63 \<or> hi = INT64_MAX \<and> op \<noteq> DIVIDE"
  shows "v = PyNone \<or> has_type hi (if s = INTEGER \<and> t = INTEGER then INTEGER else FLOAT) v \<and>
           s \<in> {INTEGER, FLOAT} \<and> t \<in> {INTEGER, FLOAT}"
proof (cases "l = PyNone \<or> r = PyNone")
  case True
  with ev show ?thesis by (simp add: evaluate_strict_def)
next
  case False
  have le: "INT64_MAX \<le> hi" using hi INT64_MAX_le by auto
  from False ev op have "\<exists>a b. number_of l = Some a \<and> number_of r = Some b \<and>
      (op = DIVIDE \<and> divide l r = Inr v \<or> op = MODULO \<and> modulo l r = Inr v \<or>
       range_checked (arithmetic op a b) = Inr v)"
    by (auto simp: evaluate_strict_def divide_def modulo_def require_number_def split: option.splits if_splits)
  then obtain a b where num: "number_of l = Some a" "number_of r = Some b"
    and cases: "op = DIVIDE \<and> divide l r = Inr v \<or> op = MODULO \<and> modulo l r = Inr v \<or>
       range_checked (arithmetic op a b) = Inr v" by blast
  from False l r have lt: "has_type hi s l" and rt: "has_type hi t r" by auto
  note ab = number_type [OF lt num(1)] number_type [OF rt num(2)]
  have "has_type hi (num_type a b) v"
    using cases
  proof (elim disjE conjE)
    assume d: "op = DIVIDE" "divide l r = Inr v"
    with hi have hi63: "hi = 2 ^ 63" by auto
    have "has_type (2 ^ 63) INTEGER l" if "is_int a" using lt ab(1) that hi63 by simp
    from divide_typed [OF d(2) num this] hi63 show ?thesis by simp
  next
    assume "modulo l r = Inr v"
    from has_type_mono [OF modulo_typed [OF this num] le] show ?thesis .
  next
    assume "range_checked (arithmetic op a b) = Inr v"
    then obtain n where n: "arithmetic op a b = Inr n" and v: "range_checked (Inr n) = Inr v"
      by (rule range_checkedE)
    from has_type_mono [OF range_checked_typed [OF v] le] arithmetic_kind [OF n] show ?thesis
      by (simp only: split: if_splits)
  qed
  with ab show ?thesis by (auto split: if_splits)
qed

lemma connective_typed:
  "evaluate_and l r = Inr v \<Longrightarrow> v = PyNone \<or> has_type hi BOOLEAN v"
  "evaluate_or l r = Inr v \<Longrightarrow> v = PyNone \<or> has_type hi BOOLEAN v"
  by (auto simp: evaluate_and_def evaluate_or_def res_simps split: if_splits)

lemma comparison_typed:
  "is_comparison op \<Longrightarrow> evaluate_strict op l r = Inr v \<Longrightarrow> v = PyNone \<or> has_type hi BOOLEAN v"
  by (auto simp: evaluate_strict_def res_simps split: if_splits)

lemma unary_typed:
  assumes "evaluate_unary op v = Inr w" and "v = PyNone \<or> has_type hi t v" and "INT64_MAX \<le> hi"
  shows "w = PyNone \<or> has_type hi t w"
proof (cases op)
  case NOT_OP
  with assms(1,2) show ?thesis by (cases v; cases t) (auto split: if_splits)
next
  case NEGATE
  show ?thesis
  proof (cases "v = PyNone")
    case False
    with assms NEGATE obtain n where n: "number_of v = Some n"
      and w: "range_checked (Inr (num_uminus n)) = Inr w"
      by (auto simp: res_simps require_number_Inr range_checked_def)
    from False assms(2) have "has_type hi t v" by simp
    from number_type [OF this n] has_type_mono [OF range_checked_typed [OF w] assms(3)] show ?thesis by simp
  qed (use assms(1) NEGATE in simp)
next
  case PLUS
  with assms show ?thesis by (auto simp: res_simps split: if_splits)
qed

lemma evaluate_has_type:
  "typed_in row e \<Longrightarrow> static_type e = Some t \<Longrightarrow> evaluate e row = Inr v \<Longrightarrow>
   hi = 2 ^ 63 \<or> hi = INT64_MAX \<and> \<not> divides e \<Longrightarrow> v = PyNone \<or> has_type hi t v"
proof (induction e arbitrary: t v)
  case (Literal w s)
  with has_type_mono [of INT64_MAX t v hi] INT64_MAX_le show ?case by auto
next
  case (BoundColumnRef c)
  with has_type_mono [of INT64_MAX t v hi] INT64_MAX_le show ?case by (auto simp: res_simps)
next
  case (UnaryOp op e)
  from UnaryOp.prems obtain w where w: "evaluate e row = Inr w" "evaluate_unary op w = Inr v"
    by (auto simp: res_simps)
  from UnaryOp have "w = PyNone \<or> has_type hi t w" by (auto intro: w(1))
  moreover from UnaryOp.prems(4) INT64_MAX_le have "INT64_MAX \<le> hi" by auto
  ultimately show ?case by (rule unary_typed [OF w(2)])
next
  case (BinaryOp op l r)
  show ?case
  proof (cases "is_logical op")
    case True
    with BinaryOp.prems show ?thesis
      by (auto simp: evaluate_binary_def dest: connective_typed)
  next
    case False
    with BinaryOp.prems(3) obtain a b where ab: "evaluate l row = Inr a" "evaluate r row = Inr b"
      and v: "evaluate_strict op a b = Inr v" by (auto simp: evaluate_binary_def res_simps)
    show ?thesis
    proof (cases "is_comparison op")
      case True
      with BinaryOp.prems(2) comparison_typed [OF True v] show ?thesis
        by (simp del: is_comparison.simps is_logical.simps)
    next
      case no: False
      with False BinaryOp.prems(2) obtain s u where su: "static_type l = Some s" "static_type r = Some u"
        and t: "t = (if s = u then s else FLOAT)"
        by (cases "static_type l"; cases "static_type r")
          (auto simp: Let_def simp del: is_comparison.simps is_logical.simps split: if_splits)
      from BinaryOp.prems(1,4) have sub: "typed_in row l" "typed_in row r"
        "hi = 2 ^ 63 \<or> hi = INT64_MAX \<and> \<not> divides l" "hi = 2 ^ 63 \<or> hi = INT64_MAX \<and> \<not> divides r" by auto
      note at = BinaryOp.IH(1) [OF sub(1) su(1) ab(1) sub(3)]
      note bt = BinaryOp.IH(2) [OF sub(2) su(2) ab(2) sub(4)]
      from BinaryOp.prems(4) have "hi = 2 ^ 63 \<or> hi = INT64_MAX \<and> op \<noteq> DIVIDE" by auto
      from strict_typed [OF v no False at bt this] t show ?thesis by (auto split: if_splits)
    qed
  qed
next
  case (InList e items n)
  then show ?case by simp
qed (auto simp: res_simps)


definition demo_column :: "nat \<Rightarrow> data_type \<Rightarrow> expression" where
  "demo_column i t = BoundColumnRef \<lparr>bc_name = [97 + i], column_index = i, bc_type = t, bc_table = None,
     scan_position = Some i, table_name = None, table_position = None\<rparr>"


text \<open>The exception is real: the smallest INTEGER divided by minus one.\<close>

lemma division_leaves_int64:
  "evaluate (BinaryOp DIVIDE (demo_column 0 INTEGER) (Literal (PyInt (- 1)) (Some INTEGER))) [PyInt INT64_MIN]
     = Inr (PyInt 9223372036854775808)"
  "codec_validate INTEGER (PyInt 9223372036854775808) = Inl TypeMismatchError"
  by (simp_all add: demo_column_def evaluate_binary_def evaluate_strict_def divide_def require_number_def
      num_eq_zero_int INT64_MIN_def INT64_MAX_def Let_def guard_res_def)

end
