(* ===== verification/ExprErrors.thy ===== *)
theory ExprErrors
  imports Expr
begin

text \<open>
  Which exceptions evaluation can raise. Python's own \<open>OverflowError\<close> comes out of the conversion of an
  integer to a double, and \<open>Fraction\<close> refuses infinities and NaN; the lemmas show that neither happens on
  values of at most 64 bits, so that the only exception is then the engine's \<open>EvaluationError\<close>.
\<close>

section \<open>Rounding does not overflow below the largest double\<close>

lemma round_half_even_le: "p \<le> k * q \<Longrightarrow> 0 < q \<Longrightarrow> round_half_even p q \<le> k"
proof -
  assume p: "p \<le> k * q" and q: "0 < q"
  then have "p div q \<le> k" by (metis div_le_mono nonzero_mult_div_cancel_right not_gr_zero)
  moreover have "p mod q = 0" if "p div q = k"
  proof -
    have "p = k * q + p mod q" using that by (metis div_mult_mod_eq)
    with p show ?thesis by linarith
  qed
  ultimately show ?thesis using q
    by (cases "p div q = k") (auto simp: round_half_even_def Let_def)
qed

lemma ilog2_bounds: "0 < n \<Longrightarrow> 2 ^ ilog2 n \<le> n \<and> n < 2 ^ Suc (ilog2 n)"
proof -
  assume "0 < n"
  then obtain k where k: "2 ^ k \<le> n" "n < 2 ^ Suc k"
    using ex_power_ivl1 [of 2 n] by auto
  with ilog2_power [OF k] show ?thesis by simp
qed

text \<open>The largest double is \<open>2 ^ 53 - 1\<close> units of \<open>2 ^ 2045\<close>.\<close>

lemma f_round_finite:
  assumes "p \<le> (2 ^ 53 - 1) * 2 ^ e" and e: "e = 2045"
  shows "f_round p 1 < 2047 * 2 ^ 52"
proof -
  define s where "s = ilog2 p - 52"
  have "round_half_even p (2 ^ s) + s * 2 ^ 52 < 2047 * 2 ^ 52"
  proof (cases "p = 0")
    case True
    then show ?thesis by (simp add: s_def round_half_even_def ilog2.simps)
  next
    case False
    then have lower: "2 ^ ilog2 p \<le> p" and upper: "p < 2 ^ Suc (ilog2 p)" using ilog2_bounds [of p] by auto
    have "p < 2 ^ 53 * 2 ^ e" using assms(1)
      by (metis diff_less le_less_trans mult_less_cancel2 zero_less_numeral zero_less_one zero_less_power)
    also have "\<dots> = 2 ^ (53 + e)" by (simp only: power_add)
    finally have "(2 :: nat) ^ ilog2 p < 2 ^ (53 + e)" using lower by linarith
    then have "ilog2 p < 53 + e" by (metis one_less_numeral_iff power_less_imp_less_exp semiring_norm(76))
    then have se: "s \<le> e" by (simp add: s_def)
    show ?thesis
    proof (cases "s = e")
      case True
      from round_half_even_le [OF assms(1)] have "round_half_even p (2 ^ s) \<le> 2 ^ 53 - 1" by (simp add: True)
      then show ?thesis unfolding True e by simp
    next
      case False
      with se e have s: "s \<le> 2044" by simp
      have "Suc (ilog2 p) \<le> 53 + s" by (simp add: s_def)
      then have "(2 :: nat) ^ Suc (ilog2 p) \<le> 2 ^ (53 + s)" by (rule power_increasing) simp
      with upper have "p \<le> 2 ^ 53 * 2 ^ s" by (simp only: power_add)
      from round_half_even_le [OF this] have "round_half_even p (2 ^ s) \<le> 2 ^ 53" by simp
      moreover have "s * 2 ^ 52 \<le> 2044 * 2 ^ 52" using s by (rule mult_le_mono1)
      ultimately show ?thesis by simp
    qed
  qed
  then show ?thesis by (simp add: f_round_def s_def [symmetric] add.commute)
qed

lemma mag_int_finite: "m < 2047 * 2 ^ 52 \<Longrightarrow> e = 2045 \<Longrightarrow> mag_int m \<le> (2 ^ 53 - 1) * 2 ^ e"
proof -
  assume m: "m < 2047 * 2 ^ 52" and e: "e = 2045"
  have f: "m mod 2 ^ 52 \<le> 2 ^ 52 - 1" by simp
  have one: "(1 :: nat) \<le> 2 ^ e" by simp
  show ?thesis
  proof (cases "m div 2 ^ 52")
    case 0
    have "m mod 2 ^ 52 * 1 \<le> (2 ^ 53 - 1) * 2 ^ e" using one by (intro mult_le_mono) auto
    with 0 show ?thesis by (simp add: mag_int_def Let_def)
  next
    case (Suc k)
    have "m div 2 ^ 52 < 2047" using m by (simp add: less_mult_imp_div_less)
    with Suc e have "k \<le> e" by simp
    then have "(2 ^ 52 + m mod 2 ^ 52) * 2 ^ k \<le> (2 ^ 53 - 1) * 2 ^ e"
      using f by (intro mult_le_mono power_increasing) auto
    with Suc show ?thesis by (simp add: mag_int_def Let_def)
  qed
qed
section \<open>Values of at most 64 bits\<close>

text \<open>An integer up to \<open>2 ^ 63\<close> in size, which is what division may leave, or a finite float.\<close>

fun n_sane :: "num_val \<Rightarrow> bool" where
  "n_sane (IntV n) = (\<bar>n\<bar> \<le> 2 ^ 63)"
| "n_sane (FloatV w) = isfinite w"

definition sane :: "pyval \<Rightarrow> bool" where
  "sane v = (case number_of v of None \<Rightarrow> True | Some n \<Rightarrow> n_sane n)"

fun literals_sane :: "expression \<Rightarrow> bool" where
  "literals_sane (Literal v _) = sane v"
| "literals_sane (UnaryOp _ e) = literals_sane e"
| "literals_sane (BinaryOp _ l r) = (literals_sane l \<and> literals_sane r)"
| "literals_sane (IsNullTest e _) = literals_sane e"
| "literals_sane (InList e items _) = (literals_sane e \<and> list_all literals_sane items)"
| "literals_sane (FunctionCall _ (Some e)) = literals_sane e"
| "literals_sane _ = True"

lemma sane_simps [simp]:
  "sane PyNone" "sane (PyBool b)" "sane (PyStr s)"
  by (simp_all add: sane_def)

lemma sane_of_number [simp]: "sane (of_number n) = n_sane n"
  by (cases n) (simp_all add: sane_def)

lemma f_make_of_mag [simp]:
  "f_mag (f_make b (f_mag w)) = f_mag w" "f_neg (f_make b (f_mag w)) = b"
  by (rule f_mag_f_make f_neg_f_make, rule f_mag_less)+

lemma number_of_sane: "sane v \<Longrightarrow> number_of v = Some n \<Longrightarrow> n_sane n"
  by (simp add: sane_def)

lemma n_sane_uminus [simp]: "n_sane (num_uminus n) = n_sane n"
  by (cases n) (simp_all add: f_uminus_def isfinite_def)

lemma n_sane_abs [simp]: "n_sane (num_abs n) = n_sane n"
  by (cases n) (simp_all add: f_abs_def isfinite_def)

lemma to_float_sane: "n_sane a \<Longrightarrow> \<exists>w. to_float a = Inr w"
proof (cases a)
  case (IntV n)
  assume "n_sane a"
  define e :: nat where "e = 2045"
  have "nat \<bar>n\<bar> \<le> 2 ^ 63" using \<open>n_sane a\<close> IntV by simp
  then have "nat \<bar>n\<bar> * 2 ^ 1074 \<le> 2 ^ 63 * 2 ^ 1074" by (intro mult_le_mono1)
  also have "\<dots> = 2 ^ (63 + 1074)" by (simp only: power_add)
  also have "\<dots> \<le> 2 ^ e" unfolding e_def by (rule power_increasing) simp_all
  also have "\<dots> \<le> (2 ^ 53 - 1) * 2 ^ e" by simp
  finally have "f_round (nat \<bar>n\<bar> * 2 ^ 1074) 1 < 2047 * 2 ^ 52" by (rule f_round_finite) (simp add: e_def)
  with IntV show ?thesis by (simp add: float_of_int_def Let_def)
qed simp

lemma n_scaled_abs: "0 \<le> n_scaled (num_abs n)"
  by (cases n) (simp_all add: f_num_def f_abs_def)

lemma n_scaled_zero: "num_eq n num_zero \<longleftrightarrow> n_scaled n = 0" if "n_sane n"
  using that by (cases n) (simp_all add: num_eq_def isfinite_not_special)

lemma n_scaled_abs_zero: "n_scaled (num_abs n) = 0 \<longleftrightarrow> n_scaled n = 0"
proof (cases n)
  case (FloatV w)
  then show ?thesis by (simp add: f_abs_def f_num_eq_0_iff)
qed simp

lemma n_scaled_float_bound:
  "n_sane n \<Longrightarrow> \<not> is_int n \<Longrightarrow> e = 2045 \<Longrightarrow> nat (n_scaled (num_abs n)) \<le> (2 ^ 53 - 1) * 2 ^ e"
proof (cases n)
  case (FloatV w)
  assume "n_sane n" and e: "e = 2045"
  with FloatV have "f_mag w < 2047 * 2 ^ 52" by (simp add: isfinite_def)
  from mag_int_finite [OF this e] FloatV show ?thesis by (simp add: f_abs_def f_num_def)
qed simp

lemma exact_remainder_sane:
  assumes "n_sane a" and "n_sane b" and "\<not> num_eq b num_zero"
  shows "\<exists>n. exact_remainder (num_abs a) (num_abs b) = Inr n"
proof (cases "is_int a = is_int b")
  case True
  obtain x y where "to_float (num_abs a) = Inr x" "to_float (num_abs b) = Inr y"
    using to_float_sane assms(1,2) by (metis n_sane_abs)
  with True show ?thesis
    by (cases a; cases b) (simp_all add: exact_remainder_def)
next
  case False
  obtain x y where xy: "to_float (num_abs a) = Inr x" "to_float (num_abs b) = Inr y"
    using to_float_sane assms(1,2) by (metis n_sane_abs)
  let ?A = "n_scaled (num_abs a)" and ?B = "n_scaled (num_abs b)"
  define e :: nat where "e = 2045"
  have pos: "0 \<le> ?A" "0 < ?B"
    using n_scaled_abs [of a] n_scaled_abs [of b] n_scaled_abs_zero [of b] n_scaled_zero [OF assms(2)] assms(3)
    by auto
  then have "?A mod ?B \<le> ?A" "?A mod ?B \<le> ?B"
    using zmod_le_nonneg_dividend [of ?A ?B] pos_mod_bound [of ?B ?A] by linarith+
  then have "nat (?A mod ?B) \<le> nat ?A" "nat (?A mod ?B) \<le> nat ?B" by (simp_all add: nat_mono)
  moreover have "nat ?A \<le> (2 ^ 53 - 1) * 2 ^ e \<or> nat ?B \<le> (2 ^ 53 - 1) * 2 ^ e"
    using False n_scaled_float_bound [OF assms(1) _ e_def] n_scaled_float_bound [OF assms(2) _ e_def] by blast
  ultimately have "nat (?A mod ?B) \<le> (2 ^ 53 - 1) * 2 ^ e" by (meson le_trans)
  then have "f_round (nat (?A mod ?B)) 1 < 2047 * 2 ^ 52" by (rule f_round_finite) (simp add: e_def)
  moreover have "\<not> n_isinf (num_abs c) \<and> \<not> n_isnan (num_abs c)" if "n_sane c" for c
    using that by (cases c) (simp_all add: isfinite_not_special f_abs_def isfinite_def f_isinf_def f_isnan_def)
  ultimately have "\<exists>n. fraction_remainder (num_abs a) (num_abs b) = Inr n"
    using assms(1,2) by (simp add: fraction_remainder_def Let_def)
  moreover have "\<exists>n. num_op (mod) f_mod (num_abs a) (num_abs b) = Inr n"
    using xy False by (cases a; cases b) simp_all
  ultimately show ?thesis by (simp add: exact_remainder_def Let_def)
qed

section \<open>Evaluation raises EvaluationError only\<close>

definition safe :: "pyval res \<Rightarrow> bool" where
  "safe r = (case r of Inl e \<Rightarrow> e = EvaluationError | Inr v \<Rightarrow> sane v)"

lemma safe_simps [simp]: "safe (Inr v) = sane v" "safe (Inl e) = (e = EvaluationError)"
  by (simp_all add: safe_def)

lemma safe_bind: "safe m \<Longrightarrow> (\<And>v. sane v \<Longrightarrow> m = Inr v \<Longrightarrow> safe (f v)) \<Longrightarrow> safe (bind_res m f)"
  by (cases m) auto

lemma safe_require_number:
  "sane v \<Longrightarrow> (\<And>n. n_sane n \<Longrightarrow> number_of v = Some n \<Longrightarrow> safe (f n)) \<Longrightarrow> safe (bind_res (require_number v) f)"
  by (auto simp: require_number_def number_of_sane split: option.splits)

lemma safe_require_boolean: "(\<And>b. safe (f b)) \<Longrightarrow> safe (bind_res (require_boolean v) f)"
  by (cases v) auto

lemma safe_range_checked: "safe (range_checked r)" if "r = Inr n \<or> r = Inl EvaluationError"
proof -
  have "safe (check_numeric_range v)" for v
    by (cases v) (auto simp: guard_res_def sane_def INT64_MIN_def INT64_MAX_def)
  with that show ?thesis by (auto simp: range_checked_def)
qed

lemma num_op_sane: "n_sane a \<Longrightarrow> n_sane b \<Longrightarrow> \<exists>n. num_op fi ff a b = Inr n"
proof -
  assume ab: "n_sane a" "n_sane b"
  obtain x y where "to_float a = Inr x" "to_float b = Inr y"
    using to_float_sane ab by metis
  then show ?thesis by (cases a; cases b) auto
qed

lemma safe_arithmetic: "n_sane a \<Longrightarrow> n_sane b \<Longrightarrow> safe (range_checked (arithmetic op a b))"
proof -
  assume ab: "n_sane a" "n_sane b"
  have "\<exists>n. arithmetic op a b = Inr n \<or> arithmetic op a b = Inl EvaluationError"
    using num_op_sane [OF ab] by (cases op) auto
  then show ?thesis using safe_range_checked by blast
qed

lemma safe_divide: "sane l \<Longrightarrow> sane r \<Longrightarrow> safe (divide l r)"
  unfolding divide_def
proof (intro safe_require_number)
  fix a b assume ab: "n_sane a" "n_sane b"
  obtain x y where xy: "to_float a = Inr x" "to_float b = Inr y"
    using to_float_sane ab by metis
  have "\<bar>m\<bar> div \<bar>n\<bar> \<le> 2 ^ 63 \<and> 0 \<le> \<bar>m\<bar> div \<bar>n\<bar>" if "\<bar>m\<bar> \<le> 2 ^ 63" "n \<noteq> 0" for m n :: int
  proof -
    have "\<bar>m\<bar> div \<bar>n\<bar> \<le> \<bar>m\<bar> div 1" using that(2) by (intro zdiv_mono2) auto
    with that show ?thesis by (auto simp: pos_imp_zdiv_nonneg_iff)
  qed
  note q = this
  show "safe (if num_eq b num_zero then Inl EvaluationError else (case (a, b) of
       (IntV a, IntV b) \<Rightarrow> (let quotient = \<bar>a\<bar> div \<bar>b\<bar>
          in Inr (PyInt (if (a < 0) \<noteq> (b < 0) then - quotient else quotient)))
     | _ \<Rightarrow> range_checked (bind_res (to_float a) (\<lambda>x. bind_res (to_float b) (\<lambda>y. Inr (FloatV (f_div x y)))))))"
    using xy safe_range_checked [of "Inr (FloatV (f_div x y))"] ab q
    by (cases a; cases b) (auto simp: Let_def sane_def num_eq_zero_int simp del: to_float.simps(1))
qed

lemma safe_modulo: "sane l \<Longrightarrow> sane r \<Longrightarrow> safe (modulo l r)"
  unfolding modulo_def
proof (intro safe_require_number)
  fix a b assume ab: "n_sane a" "n_sane b"
  show "safe (if num_eq b num_zero then Inl EvaluationError
       else range_checked (bind_res (exact_remainder (num_abs a) (num_abs b))
              (\<lambda>m. Inr (if num_less a num_zero then num_uminus m else m))))"
    using exact_remainder_sane [OF ab] safe_range_checked by fastforce
qed

lemma safe_compare: "kind l = kind r \<Longrightarrow> l \<noteq> PyNone \<Longrightarrow> \<exists>b. compare op l r \<in> {Inr b, Inl EvaluationError}"
  by (cases l; cases r; cases op) (simp_all add: py_ordered_def)

lemma safe_strict: "sane l \<Longrightarrow> sane r \<Longrightarrow> safe (evaluate_strict op l r)"
proof (cases "l = PyNone \<or> r = PyNone")
  case False
  assume lr: "sane l" "sane r"
  have "safe (bind_res (require_comparable l r) (\<lambda>_. bind_res (compare op l r) (\<lambda>b. Inr (PyBool b))))"
    using safe_compare [of l r op] False by (cases "kind l = kind r") (auto simp: require_comparable_def)
  then show ?thesis
    unfolding evaluate_strict_def
    using False lr by (auto intro: safe_divide safe_modulo safe_require_number safe_arithmetic)
qed (simp add: evaluate_strict_def)

lemma safe_connectives:
  "safe l \<Longrightarrow> safe r \<Longrightarrow> safe (evaluate_and l r)" "safe l \<Longrightarrow> safe r \<Longrightarrow> safe (evaluate_or l r)"
  by (cases l rule: truth_operand_cases; cases r rule: truth_operand_cases;
      simp add: evaluate_connective_ill)+

lemma safe_unary: "sane v \<Longrightarrow> safe (evaluate_unary op v)"
proof (cases op)
  case NEGATE
  assume "sane v"
  then have "safe (bind_res (require_number v) (\<lambda>n. check_numeric_range (of_number (num_uminus n))))"
    using safe_range_checked [of "Inr _"] by (intro safe_require_number) (auto simp: range_checked_def)
  with NEGATE show ?thesis by simp
qed (auto intro: safe_require_boolean safe_require_number)

lemma safe_in: "sane v \<Longrightarrow> \<forall>r\<in>set rs. safe r \<Longrightarrow> safe (evaluate_in_items v n u rs)"
proof (induction rs arbitrary: u)
  case (Cons r rs)
  then show ?case
    by (cases r) (auto simp: require_comparable_def guard_res_def)
qed simp

lemma evaluate_safe: "literals_sane e \<Longrightarrow> \<forall>v\<in>set row. sane v \<Longrightarrow> safe (evaluate e row)"
proof (induction e)
  case (BoundColumnRef c)
  then show ?case by (simp add: guard_res_def)
next
  case (BinaryOp op l r)
  then have s: "safe (evaluate l row)" "safe (evaluate r row)" by auto
  then have "safe (bind_res (evaluate l row) (\<lambda>a. bind_res (evaluate r row) (evaluate_strict op a)))"
    by (intro safe_bind safe_strict)
  with s show ?case by (simp add: evaluate_binary_def safe_connectives)
next
  case (InList e items n)
  then have "safe (evaluate e row)" "\<forall>r\<in>set (map (\<lambda>i. evaluate i row) items). safe r"
    by (auto simp: list_all_iff)
  then show ?case by (auto intro!: safe_bind safe_in)
next
  case (UnaryOp op e)
  then show ?case by (auto intro!: safe_bind safe_unary)
next
  case (IsNullTest e n)
  then show ?case by (auto intro!: safe_bind)
qed auto

text \<open>
  C19: On values of at most 64 bits evaluation raises nothing but \<open>EvaluationError\<close>, and what it returns is
  again such a value: no conversion to a double overflows, no remainder is refused and no comparison meets
  two kinds. A literal beyond them, which the lexer accepts, breaks this: adding a float to an integer of
  1100 bits raises Python's \<open>OverflowError\<close>.
\<close>

theorem evaluate_errors:
  assumes "literals_sane e" and "\<forall>v\<in>set row. sane v"
  shows "(case evaluate e row of Inl err \<Rightarrow> err = EvaluationError | Inr v \<Rightarrow> sane v) \<and>
    evaluate (BinaryOp ADD (Literal (PyInt (2 ^ 1100)) (Some INTEGER)) (Literal (PyFloat 0) (Some FLOAT))) row
      = Inl OverflowError"
proof -
  have "ilog2 (2 ^ 1100 * 2 ^ 1074) = 2174"
    by (rule ilog2_power) (simp_all only: power_add [symmetric], simp_all)
  then have "f_round (nat \<bar>2 ^ 1100\<bar> * 2 ^ 1074) 1 = 2047 * 2 ^ 52"
    by (simp add: f_round_def nat_power_eq)
  then have "float_of_int (2 ^ 1100) = Inl OverflowError" by (simp add: float_of_int_def Let_def)
  moreover have "is_comparison ADD = False" by simp
  ultimately have "evaluate_strict ADD (PyInt (2 ^ 1100)) (PyFloat 0) = Inl OverflowError"
    by (simp only: evaluate_strict_def require_number_def number_of.simps arithmetic.simps num_op.simps
        to_float.simps range_checked_def bind_res_simps option.case pyval.distinct binary_operator.distinct
        if_False simp_thms)
  then show ?thesis
    using evaluate_safe [OF assms] by (simp only: safe_def evaluate.simps evaluate_binary_def
        bind_res_simps binary_operator.distinct if_False simp_thms)
qed

theorem evaluate_errors_witness:
  "(case evaluate (BinaryOp MODULO (demo_column 0 INTEGER) (Literal (PyFloat 0) (Some FLOAT))) [PyInt 5] of
      Inl err \<Rightarrow> err = EvaluationError | Inr v \<Rightarrow> sane v)"
  using evaluate_errors [of "BinaryOp MODULO (demo_column 0 INTEGER) (Literal (PyFloat 0) (Some FLOAT))" "[PyInt 5]"]
  by (simp add: demo_column_def sane_def isfinite_def f_mag_def)

end
