(* ===== verification/Nullability.thy ===== *)
theory Nullability
  imports Expr
begin

text \<open>
  The proof that a predicate rejects NULL-extended rows (\<open>engine/optimizer/nullability.py\<close>): an
  abstract interpretation of expressions over sets of truth values. A \<open>Truth\<close> flag is a set of
  \<open>truth_value\<close>. The lemmas show that the analysis is sound: the set it computes holds every truth value
  the evaluator can return on a row in which all columns of the given scan positions are NULL.
\<close>

section \<open>Truth tables\<close>

type_synonym truth = "truth_value set"

definition ANY :: truth where "ANY = {TV_TRUE, TV_FALSE, TV_UNKNOWN}"

fun and_table :: "truth_value \<Rightarrow> truth_value \<Rightarrow> truth_value" where
  "and_table TV_TRUE TV_TRUE = TV_TRUE"
| "and_table TV_TRUE TV_FALSE = TV_FALSE"
| "and_table TV_TRUE TV_UNKNOWN = TV_UNKNOWN"
| "and_table TV_FALSE TV_TRUE = TV_FALSE"
| "and_table TV_FALSE TV_FALSE = TV_FALSE"
| "and_table TV_FALSE TV_UNKNOWN = TV_FALSE"
| "and_table TV_UNKNOWN TV_TRUE = TV_UNKNOWN"
| "and_table TV_UNKNOWN TV_FALSE = TV_FALSE"
| "and_table TV_UNKNOWN TV_UNKNOWN = TV_UNKNOWN"

fun or_table :: "truth_value \<Rightarrow> truth_value \<Rightarrow> truth_value" where
  "or_table TV_TRUE TV_TRUE = TV_TRUE"
| "or_table TV_TRUE TV_FALSE = TV_TRUE"
| "or_table TV_TRUE TV_UNKNOWN = TV_TRUE"
| "or_table TV_FALSE TV_TRUE = TV_TRUE"
| "or_table TV_FALSE TV_FALSE = TV_FALSE"
| "or_table TV_FALSE TV_UNKNOWN = TV_UNKNOWN"
| "or_table TV_UNKNOWN TV_TRUE = TV_TRUE"
| "or_table TV_UNKNOWN TV_FALSE = TV_UNKNOWN"
| "or_table TV_UNKNOWN TV_UNKNOWN = TV_UNKNOWN"

fun not_table :: "truth_value \<Rightarrow> truth_value" where
  "not_table TV_TRUE = TV_FALSE"
| "not_table TV_FALSE = TV_TRUE"
| "not_table TV_UNKNOWN = TV_UNKNOWN"

definition combine :: "(truth_value \<Rightarrow> truth_value \<Rightarrow> truth_value) \<Rightarrow> truth \<Rightarrow> truth \<Rightarrow> truth" where
  "combine table left right = (\<Union>first\<in>left. (\<Union>second\<in>right. {table first second}))"

definition map_truth :: "(truth_value \<Rightarrow> truth_value) \<Rightarrow> truth \<Rightarrow> truth" where
  "map_truth table operand = (\<Union>value\<in>operand. {table value})"

section \<open>The analysis\<close>

definition in_sources :: "nat option \<Rightarrow> nat set \<Rightarrow> bool" where
  "in_sources position sources = (case position of None \<Rightarrow> False | Some p \<Rightarrow> p \<in> sources)"

fun literal_truth :: "pyval \<Rightarrow> truth" where
  "literal_truth (PyBool b) = (if b then {TV_TRUE} else {TV_FALSE})"
| "literal_truth PyNone = {TV_UNKNOWN}"
| "literal_truth _ = ANY"

lemma size_item: "(x :: expression) \<in> set items \<Longrightarrow> size x \<le> size_list size items"
  using size_list_estimation' [of x items "size x" size] by simp

function (sequential) truth_of :: "expression \<Rightarrow> nat set \<Rightarrow> truth"
  and definitely_null :: "expression \<Rightarrow> nat set \<Rightarrow> bool" where
  "truth_of (Literal v _) sources = literal_truth v"
| "truth_of (IsNullTest e negated) sources =
     (if definitely_null e sources then (if negated then {TV_FALSE} else {TV_TRUE})
      else {TV_TRUE, TV_FALSE})"
| "truth_of (UnaryOp NOT_OP e) sources = map_truth not_table (truth_of e sources)"
| "truth_of (BinaryOp AND_OP l r) sources = combine and_table (truth_of l sources) (truth_of r sources)"
| "truth_of (BinaryOp OR_OP l r) sources = combine or_table (truth_of l sources) (truth_of r sources)"
| "truth_of (BinaryOp op l r) sources =
     (if is_comparison op \<and> (definitely_null l sources \<or> definitely_null r sources) then {TV_UNKNOWN}
      else ANY)"
| "truth_of (InList e items _) sources =
     (if definitely_null e sources then {TV_UNKNOWN}
      else if list_all (\<lambda>item. definitely_null item sources) items then {TV_UNKNOWN}
      else ANY)"
| "truth_of (BoundColumnRef c) sources =
     (if in_sources (scan_position c) sources then {TV_UNKNOWN} else ANY)"
| "truth_of _ sources = ANY"
| "definitely_null (Literal v _) sources = (v = PyNone)"
| "definitely_null (BoundColumnRef c) sources = in_sources (scan_position c) sources"
| "definitely_null (UnaryOp NOT_OP e) sources = (truth_of (UnaryOp NOT_OP e) sources = {TV_UNKNOWN})"
| "definitely_null (UnaryOp _ e) sources = definitely_null e sources"
| "definitely_null (BinaryOp op l r) sources =
     (if is_logical op \<or> is_comparison op then truth_of (BinaryOp op l r) sources = {TV_UNKNOWN}
      else definitely_null l sources \<or> definitely_null r sources)"
| "definitely_null _ sources = False"
  by pat_completeness auto

termination
  by (relation "measure (\<lambda>x. case x of Inl (e, _) \<Rightarrow> 2 * size e | Inr (e, _) \<Rightarrow> 2 * size e + 1)")
    (auto simp: less_Suc_eq_le dest: size_item)

text \<open>The loop of \<open>rejects_nulls\<close>, which stops once the outcome is exactly FALSE.\<close>

fun conjoin :: "truth \<Rightarrow> nat set \<Rightarrow> expression list \<Rightarrow> truth" where
  "conjoin outcome sources [] = outcome"
| "conjoin outcome sources (predicate # predicates) =
     (let outcome = combine and_table outcome (truth_of predicate sources)
      in if outcome = {TV_FALSE} then outcome else conjoin outcome sources predicates)"

definition rejects_nulls :: "expression list \<Rightarrow> nat set \<Rightarrow> bool" where
  "rejects_nulls predicates sources = (TV_TRUE \<notin> conjoin {TV_TRUE} sources predicates)"

section \<open>Soundness\<close>

text \<open>
  What the parser guarantees of an \<open>IN\<close>: its list is not empty. And what an outer join does to the rows of
  a side that found no partner.
\<close>

fun lists_nonempty :: "expression \<Rightarrow> bool" where
  "lists_nonempty (UnaryOp _ e) = lists_nonempty e"
| "lists_nonempty (BinaryOp _ l r) = (lists_nonempty l \<and> lists_nonempty r)"
| "lists_nonempty (IsNullTest e _) = lists_nonempty e"
| "lists_nonempty (InList e items _) = (items \<noteq> [] \<and> lists_nonempty e \<and> list_all lists_nonempty items)"
| "lists_nonempty _ = True"

fun null_extended :: "nat set \<Rightarrow> row \<Rightarrow> expression \<Rightarrow> bool" where
  "null_extended sources row (BoundColumnRef c) =
     (in_sources (scan_position c) sources \<and> column_index c < length row \<longrightarrow> row ! column_index c = PyNone)"
| "null_extended sources row (UnaryOp _ e) = null_extended sources row e"
| "null_extended sources row (BinaryOp _ l r) = (null_extended sources row l \<and> null_extended sources row r)"
| "null_extended sources row (IsNullTest e _) = null_extended sources row e"
| "null_extended sources row (InList e items _) =
     (null_extended sources row e \<and> list_all (null_extended sources row) items)"
| "null_extended sources row _ = True"

lemma tables:
  "and_table a b = tv_and a b" "or_table a b = tv_or a b" "not_table a = tv_not a"
  by (cases a; cases b; simp add: tv_and_def tv_or_def)+

lemma combine_iff: "t \<in> combine table l r \<longleftrightarrow> (\<exists>a\<in>l. \<exists>b\<in>r. t = table a b)"
  by (auto simp: combine_def)

lemma map_truth_iff: "t \<in> map_truth table s \<longleftrightarrow> (\<exists>a\<in>s. t = table a)"
  by (auto simp: map_truth_def)

lemma ANY_iff [simp]: "t \<in> ANY"
  by (cases t) (simp_all add: ANY_def)

lemma truth_of_nonempty: "truth_of e sources \<noteq> {}"
  by (induction e sources rule: truth_of_definitely_null.induct(1) [where Q = "\<lambda>_ _. True"])
    (auto simp: combine_def map_truth_def ANY_def elim!: literal_truth.elims split: if_splits)

lemma of_tv_eq_iff [simp]: "of_tv a = of_tv b \<longleftrightarrow> a = b"
  by (cases a; cases b) simp_all

lemma PyNone_eq_of_tv [simp]: "PyNone = of_tv t \<longleftrightarrow> t = TV_UNKNOWN"
  by (cases t) simp_all

lemma truth_of_value: "v = PyNone \<or> (\<exists>b. v = PyBool b) \<Longrightarrow> \<exists>t. v = of_tv t"
  by (metis (full_types) of_tv.simps)

lemma tv_ex: "(\<exists>a. P a) \<longleftrightarrow> P TV_FALSE \<or> P TV_UNKNOWN \<or> P TV_TRUE"
  by (metis truth_value.exhaust)

lemma and_result:
  assumes "evaluate_and l r = Inr (of_tv t)"
  shows "\<exists>a. l = Inr (of_tv a) \<and> (a = TV_FALSE \<and> t = TV_FALSE \<or> (\<exists>b. r = Inr (of_tv b) \<and> t = tv_and a b))"
proof (cases l rule: truth_operand_cases)
  case true
  with assms show ?thesis
    by (cases r rule: truth_operand_cases; cases t) (auto simp: tv_and_def tv_ex)
next
  case false
  with assms show ?thesis by (cases t) (auto simp: tv_ex)
next
  case null
  with assms show ?thesis
    by (cases r rule: truth_operand_cases; cases t) (auto simp: tv_and_def tv_ex)
qed (use assms in \<open>simp_all add: evaluate_connective_ill\<close>)

lemma or_result:
  assumes "evaluate_or l r = Inr (of_tv t)"
  shows "\<exists>a. l = Inr (of_tv a) \<and> (a = TV_TRUE \<and> t = TV_TRUE \<or> (\<exists>b. r = Inr (of_tv b) \<and> t = tv_or a b))"
proof (cases l rule: truth_operand_cases)
  case false
  with assms show ?thesis
    by (cases r rule: truth_operand_cases; cases t) (auto simp: tv_or_def tv_ex)
next
  case true
  with assms show ?thesis by (cases t) (auto simp: tv_ex)
next
  case null
  with assms show ?thesis
    by (cases r rule: truth_operand_cases; cases t) (auto simp: tv_or_def tv_ex)
qed (use assms in \<open>simp_all add: evaluate_connective_ill\<close>)

lemma not_result: "evaluate_unary NOT_OP v = Inr (of_tv t) \<Longrightarrow> \<exists>a. v = of_tv a \<and> t = tv_not a"
  by (cases v; cases t) (auto simp: tv_ex)

lemma truth_valued:
  "evaluate_unary NOT_OP v = Inr w \<Longrightarrow> \<exists>t. w = of_tv t"
  "evaluate_and l r = Inr w \<Longrightarrow> \<exists>t. w = of_tv t"
  "evaluate_or l r = Inr w \<Longrightarrow> \<exists>t. w = of_tv t"
  "is_comparison op \<Longrightarrow> evaluate_strict op a b = Inr w \<Longrightarrow> \<exists>t. w = of_tv t"
  by (intro truth_of_value;
      auto simp: evaluate_and_def evaluate_or_def evaluate_strict_def res_simps split: if_splits)+

lemma strict_null: "evaluate_strict op PyNone b = Inr PyNone" "evaluate_strict op a PyNone = Inr PyNone"
  by (simp_all add: evaluate_strict_def)

lemma in_items_all_null:
  "\<forall>r\<in>set rs. \<forall>v. r = Inr v \<longrightarrow> v = PyNone \<Longrightarrow> rs \<noteq> [] \<or> u \<Longrightarrow>
   evaluate_in_items v n u rs = Inr w \<Longrightarrow> w = PyNone"
proof (induction rs arbitrary: u)
  case (Cons r rs)
  then show ?case by (cases r) auto
qed simp

lemma binary_op_cases:
  "op = AND_OP \<or> op = OR_OP \<or> is_comparison op \<and> \<not> is_logical op \<or> \<not> is_comparison op \<and> \<not> is_logical op"
  by auto

lemma truth_of_strict:
  "\<not> is_logical op \<Longrightarrow> truth_of (BinaryOp op l r) sources =
     (if is_comparison op \<and> (definitely_null l sources \<or> definitely_null r sources) then {TV_UNKNOWN} else ANY)"
  by (cases op) simp_all

lemma literal_truth_sound [simp]: "t \<in> literal_truth (of_tv t)"
  by (cases t) simp_all

lemma truth_analysis_sound:
  "(lists_nonempty e \<longrightarrow> null_extended sources row e \<longrightarrow>
     (\<forall>t. evaluate e row = Inr (of_tv t) \<longrightarrow> t \<in> truth_of e sources)) \<and>
   (lists_nonempty e \<longrightarrow> null_extended sources row e \<longrightarrow> definitely_null e sources \<longrightarrow>
     (\<forall>v. evaluate e row = Inr v \<longrightarrow> v = PyNone))"
proof (induction e)
  case (Literal v t)
  then show ?case by auto
next
  case (BoundColumnRef c)
  then show ?case by (auto simp: res_simps)
next
  case (IsNullTest e n)
  show ?case
  proof (intro conjI impI allI)
    fix t assume "lists_nonempty (IsNullTest e n)" "null_extended sources row (IsNullTest e n)"
      and "evaluate (IsNullTest e n) row = Inr (of_tv t)"
    with IsNullTest show "t \<in> truth_of (IsNullTest e n) sources"
      by (cases t) (auto simp: res_simps)
  qed simp
next
  case (UnaryOp op e)
  have sound: "t \<in> truth_of (UnaryOp op e) sources"
    if "lists_nonempty e" "null_extended sources row e" "evaluate (UnaryOp op e) row = Inr (of_tv t)" for t
  proof (cases "op = NOT_OP")
    case True
    with that(3) obtain v where v: "evaluate e row = Inr v" "evaluate_unary NOT_OP v = Inr (of_tv t)"
      by (auto simp: res_simps)
    from not_result [OF v(2)] obtain a where "v = of_tv a" "t = tv_not a" by blast
    with UnaryOp that v True show ?thesis by (auto simp: map_truth_iff tables)
  qed (cases op; simp)
  moreover have "v = PyNone"
    if "lists_nonempty e" "null_extended sources row e" "definitely_null (UnaryOp op e) sources"
      and ev: "evaluate (UnaryOp op e) row = Inr v" for v
  proof (cases "op = NOT_OP")
    case True
    with ev truth_valued(1) obtain t where t: "v = of_tv t" by (auto simp: res_simps)
    from sound [OF that(1,2)] ev t that(3) True show ?thesis by auto
  next
    case False
    with that(3) have "definitely_null e sources" by (cases op) simp_all
    with UnaryOp that(1,2) ev False show ?thesis by (cases op) (auto simp: res_simps)
  qed
  ultimately show ?case by auto
next
  case (BinaryOp op l r)
  have sound: "t \<in> truth_of (BinaryOp op l r) sources"
    if wf: "lists_nonempty (BinaryOp op l r)" "null_extended sources row (BinaryOp op l r)"
      and ev: "evaluate (BinaryOp op l r) row = Inr (of_tv t)" for t
  proof -
    consider "op = AND_OP" | "op = OR_OP" | (strict) "\<not> is_logical op" by auto
    then show ?thesis
    proof cases
      case 1
      with ev have "evaluate_and (evaluate l row) (evaluate r row) = Inr (of_tv t)"
        by (simp add: evaluate_binary_def)
      from and_result [OF this] obtain a where a: "evaluate l row = Inr (of_tv a)"
        and t: "a = TV_FALSE \<and> t = TV_FALSE \<or> (\<exists>b. evaluate r row = Inr (of_tv b) \<and> t = tv_and a b)"
        by blast
      from BinaryOp wf a have al: "a \<in> truth_of l sources" by auto
      from truth_of_nonempty obtain c where c: "c \<in> truth_of r sources" by blast
      have zero: "tv_and TV_FALSE c = TV_FALSE" by (cases c) (simp_all add: tv_and_def)
      have "b \<in> truth_of r sources" if "evaluate r row = Inr (of_tv b)" for b
        using BinaryOp(2) wf that by auto
      with t zero c have "\<exists>b\<in>truth_of r sources. t = tv_and a b" by (metis (no_types))
      with al show ?thesis unfolding 1 truth_of.simps combine_iff tables by blast
    next
      case 2
      with ev have "evaluate_or (evaluate l row) (evaluate r row) = Inr (of_tv t)"
        by (simp add: evaluate_binary_def)
      from or_result [OF this] obtain a where a: "evaluate l row = Inr (of_tv a)"
        and t: "a = TV_TRUE \<and> t = TV_TRUE \<or> (\<exists>b. evaluate r row = Inr (of_tv b) \<and> t = tv_or a b)"
        by blast
      from BinaryOp wf a have al: "a \<in> truth_of l sources" by auto
      from truth_of_nonempty obtain c where c: "c \<in> truth_of r sources" by blast
      have zero: "tv_or TV_TRUE c = TV_TRUE" by (cases c) (simp_all add: tv_or_def)
      have "b \<in> truth_of r sources" if "evaluate r row = Inr (of_tv b)" for b
        using BinaryOp(2) wf that by auto
      with t zero c have "\<exists>b\<in>truth_of r sources. t = tv_or a b" by (metis (no_types))
      with al show ?thesis unfolding 2 truth_of.simps combine_iff tables by blast
    next
      case strict
      with ev obtain a b where ab: "evaluate l row = Inr a" "evaluate r row = Inr b"
        and s: "evaluate_strict op a b = Inr (of_tv t)" by (auto simp: evaluate_binary_def res_simps)
      have "t = TV_UNKNOWN" if "definitely_null l sources \<or> definitely_null r sources"
        using that BinaryOp wf ab s by (auto simp: strict_null)
      then show ?thesis by (simp add: truth_of_strict [OF strict] del: is_comparison.simps)
    qed
  qed
  moreover have "v = PyNone"
    if wf: "lists_nonempty (BinaryOp op l r)" "null_extended sources row (BinaryOp op l r)"
      and dn: "definitely_null (BinaryOp op l r) sources" and ev: "evaluate (BinaryOp op l r) row = Inr v" for v
  proof (cases "is_logical op \<or> is_comparison op")
    case True
    then have "\<exists>t. v = of_tv t"
      using ev truth_valued(2,3) [of _ _ v] truth_valued(4) [of op _ _ v]
      by (auto simp: evaluate_binary_def res_simps)
    with sound [OF wf] ev dn True show ?thesis by (auto simp del: is_logical.simps is_comparison.simps)
  next
    case False
    with ev obtain a b where ab: "evaluate l row = Inr a" "evaluate r row = Inr b"
      and s: "evaluate_strict op a b = Inr v" by (auto simp: evaluate_binary_def res_simps)
    from False dn have "definitely_null l sources \<or> definitely_null r sources"
      by (simp del: is_logical.simps is_comparison.simps)
    with BinaryOp wf ab s show ?thesis by (auto simp: strict_null)
  qed
  ultimately show ?case by blast
next
  case (InList e items n)
  have "t \<in> truth_of (InList e items n) sources"
    if wf: "lists_nonempty (InList e items n)" "null_extended sources row (InList e items n)"
      and ev: "evaluate (InList e items n) row = Inr (of_tv t)" for t
  proof -
    from ev obtain v where v: "evaluate e row = Inr v"
      and r: "evaluate_in_items v n (v = PyNone) (map (\<lambda>i. evaluate i row) items) = Inr (of_tv t)"
      by (auto simp: res_simps)
    have "t = TV_UNKNOWN" if "definitely_null e sources"
    proof -
      from that InList(1) wf v have "v = PyNone" by auto
      with r in_items_unknown_result [of v n "map (\<lambda>i. evaluate i row) items"] show ?thesis by auto
    qed
    moreover have "t = TV_UNKNOWN" if "list_all (\<lambda>i. definitely_null i sources) items"
    proof -
      have "\<forall>x\<in>set (map (\<lambda>i. evaluate i row) items). \<forall>v. x = Inr v \<longrightarrow> v = PyNone"
        using that InList(2) wf by (auto simp: list_all_iff)
      from in_items_all_null [OF this _ r] wf show ?thesis by simp
    qed
    ultimately show ?thesis by auto
  qed
  then show ?case by auto
qed auto

lemma conjoin_true:
  assumes "\<forall>p\<in>set ps. TV_TRUE \<in> truth_of p sources" and "TV_TRUE \<in> outcome"
  shows "TV_TRUE \<in> conjoin outcome sources ps"
  using assms
proof (induction ps arbitrary: outcome)
  case (Cons p ps)
  then have "TV_TRUE \<in> combine and_table outcome (truth_of p sources)"
    by (auto simp: combine_iff intro!: bexI [of _ TV_TRUE])
  with Cons show ?case by (auto simp: Let_def)
qed simp

text \<open>
  C13: The analysis is sound. On a row in which every column of the given scan positions is NULL, the truth
  value a predicate comes out with lies in the set \<open>truth_of\<close> computes, whatever the other columns hold; so
  when \<open>rejects_nulls\<close> says yes, the predicates cannot all be true of such a row, and a filter drops it.
\<close>

theorem nullability_sound:
  assumes "\<forall>p\<in>set ps. lists_nonempty p \<and> null_extended sources row p"
  shows "(\<forall>p\<in>set ps. \<forall>t. evaluate p row = Inr (of_tv t) \<longrightarrow> t \<in> truth_of p sources) \<and>
    (rejects_nulls ps sources \<longrightarrow> (\<exists>p\<in>set ps. evaluate p row \<noteq> Inr (PyBool True)))"
proof (intro conjI ballI allI impI)
  fix p t assume "p \<in> set ps" "evaluate p row = Inr (of_tv t)"
  with truth_analysis_sound assms show "t \<in> truth_of p sources" by blast
next
  assume rej: "rejects_nulls ps sources"
  show "\<exists>p\<in>set ps. evaluate p row \<noteq> Inr (PyBool True)"
  proof (rule ccontr)
    assume "\<not> ?thesis"
    then have "\<forall>p\<in>set ps. evaluate p row = Inr (of_tv TV_TRUE)" by simp
    with truth_analysis_sound assms have "\<forall>p\<in>set ps. TV_TRUE \<in> truth_of p sources" by blast
    from conjoin_true [OF this, of "{TV_TRUE}"] rej show False by (simp add: rejects_nulls_def)
  qed
qed

theorem nullability_sound_witness:
  "evaluate (BinaryOp EQ (demo_column 1 INTEGER) (Literal (PyInt 5) (Some INTEGER))) [PyInt 1, PyNone]
     \<noteq> Inr (PyBool True)"
  using nullability_sound [of "[BinaryOp EQ (demo_column 1 INTEGER) (Literal (PyInt 5) (Some INTEGER))]"
      "{1}" "[PyInt 1, PyNone]"]
  by (simp add: demo_column_def rejects_nulls_def in_sources_def combine_def)

end
