(* ===== verification/Operators.thy ===== *)
theory Operators
  imports Plan Heap Snapshot
begin

text \<open>
  The physical operators in the iterator model (\<open>engine/executor/operators.py\<close>). What a child operator
  will return to the coming calls of \<open>next()\<close> is a \<open>stream\<close>: rows, and then either the end or an
  exception. An operator is a record of its fields, the stream of its input among them; its \<open>_produce\<close> is
  a step on that record, and \<open>drain\<close> runs it to the stream its parent sees, so that operators compose as
  the code's tree does. \<open>_on_open\<close>, where it reads its input, is a function from the stream of that input.
  Counters, tracer events and the pauses of the step controller are left out.
\<close>

section \<open>Streams and the operator protocol\<close>

type_synonym stream = "row list \<times> db_error option"

fun pull :: "(stream, row option) op" where
  "pull (row # rows, e) = ((rows, e), Inr (Some row))"
| "pull ([], None) = (([], None), Inr None)"
| "pull ([], Some e) = (([], Some e), Inl e)"

text \<open>\<open>Operator.next\<close>: an operator that has said \<open>None\<close> once keeps saying it.\<close>

record 'b operator =
  opened :: bool
  exhausted :: bool
  body :: 'b

definition op_new :: "'b \<Rightarrow> 'b operator" where
  "op_new b = \<lparr>opened = False, exhausted = False, body = b\<rparr>"

definition op_open :: "('b \<Rightarrow> 'b res) \<Rightarrow> ('b operator, unit) op" where
  "op_open on_open p =
     (if opened p then (p, Inr ())
      else (case on_open (body p) of
              Inl e \<Rightarrow> (p\<lparr>opened := True\<rparr>, Inl e)
            | Inr b \<Rightarrow> (p\<lparr>opened := True, body := b\<rparr>, Inr ())))"

definition op_next :: "('b, row option) op \<Rightarrow> ('b operator, row option) op" where
  "op_next produce p =
     (if \<not> opened p then (p, Inl RuntimeError)
      else if exhausted p then (p, Inr None)
      else (case produce (body p) of
              (b, Inl e) \<Rightarrow> (p\<lparr>body := b\<rparr>, Inl e)
            | (b, Inr None) \<Rightarrow> (p\<lparr>body := b, exhausted := True\<rparr>, Inr None)
            | (b, Inr (Some row)) \<Rightarrow> (p\<lparr>body := b\<rparr>, Inr (Some row))))"

text \<open>\<open>Operator.__iter__\<close>: the calls of \<open>next()\<close> until \<open>None\<close>.\<close>

partial_function (option) drain :: "('s, row option) op \<Rightarrow> 's \<Rightarrow> stream option" where
  "drain step s =
     (case step s of
        (s', Inl e) \<Rightarrow> Some ([], Some e)
      | (s', Inr r) \<Rightarrow>
          (case r of
             None \<Rightarrow> Some ([], None)
           | Some row \<Rightarrow> Option.bind (drain step s') (\<lambda>(rows, e). Some (row # rows, e))))"

section \<open>Scans\<close>

record row_layout =
  lay_offset :: nat
  lay_width :: nat
  lay_total :: nat

definition blank :: "row_layout \<Rightarrow> row" where
  "blank l = replicate (lay_total l) PyNone"

definition place :: "row_layout option \<Rightarrow> row \<Rightarrow> row" where
  "place layout row =
     (case layout of
        None \<Rightarrow> row
      | Some l \<Rightarrow> if lay_total l = lay_width l then row
                  else slice_assign (blank l) (lay_offset l) (lay_offset l + lay_width l) row)"

record scan_config =
  sc_schema :: "column list"
  sc_layout :: "row_layout option"
  sc_snapshot :: "snapshot option"

definition visible_row :: "scan_config \<Rightarrow> bytes \<Rightarrow> row option res" where
  "visible_row c payload =
     bind_res (read_tuple_header payload) (\<lambda>header.
       if (case sc_snapshot c of None \<Rightarrow> False | Some s \<Rightarrow> \<not> visible header s) then Inr None
       else bind_res (decode_record (sc_schema c) (strip_tuple_header payload))
              (\<lambda>row. Inr (Some (place (sc_layout c) row))))"

text \<open>What the generators of \<open>HeapFile.scan\<close> and \<open>BPlusTree.range_scan\<close> still hold.\<close>

record 'a generator =
  left_over :: "'a list"
  failure :: "db_error option"

definition gen_next :: "('a generator, 'a option) op" where
  "gen_next g = (case left_over g of
       x # xs \<Rightarrow> (g\<lparr>left_over := xs\<rparr>, Inr (Some x))
     | [] \<Rightarrow> (g, case failure g of None \<Rightarrow> Inr None | Some e \<Rightarrow> Inl e))"

function seq_scan_produce :: "scan_config \<Rightarrow> ((record_id \<times> bytes) generator, row option) op" where
  "seq_scan_produce c g =
     (case gen_next g of
        (g', Inl e) \<Rightarrow> (g', Inl e)
      | (g', Inr None) \<Rightarrow> (g', Inr None)
      | (g', Inr (Some (rid, payload))) \<Rightarrow>
          (case visible_row c payload of
             Inl e \<Rightarrow> (g', Inl e)
           | Inr None \<Rightarrow> seq_scan_produce c g'
           | Inr (Some row) \<Rightarrow> (g', Inr (Some row))))"
  by auto
termination
  by (relation "measure (\<lambda>(c, g). length (left_over g))") (auto simp: gen_next_def split: list.splits option.splits)

function index_scan_produce ::
  "scan_config \<Rightarrow> (record_id \<Rightarrow> bytes res) \<Rightarrow> ((bytes \<times> record_id) generator, row option) op" where
  "index_scan_produce c fetch g =
     (case gen_next g of
        (g', Inl e) \<Rightarrow> (g', Inl e)
      | (g', Inr None) \<Rightarrow> (g', Inr None)
      | (g', Inr (Some (key, rid))) \<Rightarrow>
          (case fetch rid of
             Inl e \<Rightarrow> if e = RecordNotFoundError then index_scan_produce c fetch g' else (g', Inl e)
           | Inr payload \<Rightarrow>
               (case visible_row c payload of
                  Inl e \<Rightarrow> (g', Inl e)
                | Inr None \<Rightarrow> index_scan_produce c fetch g'
                | Inr (Some row) \<Rightarrow> (g', Inr (Some row)))))"
  by auto
termination
  by (relation "measure (\<lambda>(c, fetch, g). length (left_over g))")
    (auto simp: gen_next_def split: list.splits option.splits)

section \<open>Filter and projection\<close>

definition matches :: "expression \<Rightarrow> row \<Rightarrow> bool res" where
  "matches predicate row = bind_res (evaluate predicate row) is_true"

lemma pull_shorter: "pull s = (s', Inr (Some row)) \<Longrightarrow> length (fst s') < length (fst s)"
  by (cases s rule: pull.cases) auto

lemma pull_end: "pull s = (s', Inr None) \<Longrightarrow> s = ([], None) \<and> s' = ([], None)"
  by (cases s rule: pull.cases) auto

function filter_produce :: "expression \<Rightarrow> (stream, row option) op" where
  "filter_produce predicate child =
     (case pull child of
        (child', Inl e) \<Rightarrow> (child', Inl e)
      | (child', Inr None) \<Rightarrow> (child', Inr None)
      | (child', Inr (Some row)) \<Rightarrow>
          (case matches predicate row of
             Inl e \<Rightarrow> (child', Inl e)
           | Inr True \<Rightarrow> (child', Inr (Some row))
           | Inr False \<Rightarrow> filter_produce predicate child'))"
  by auto
termination
  by (relation "measure (\<lambda>(p, child). length (fst child))") (auto dest: pull_shorter [OF sym])

definition project_row :: "expression list \<Rightarrow> row \<Rightarrow> row res" where
  "project_row projections row = map_res (\<lambda>p. evaluate p row) projections"

definition project_produce :: "expression list \<Rightarrow> (stream, row option) op" where
  "project_produce projections =
     bind_op pull (\<lambda>r child. case r of
         None \<Rightarrow> (child, Inr None)
       | Some row \<Rightarrow> (child, bind_res (project_row projections row) (\<lambda>out. Inr (Some out))))"

section \<open>Joins\<close>

record join_config =
  jc_predicate :: expression
  jc_slices :: "(nat \<times> nat) list"
  jc_preserve_left :: bool
  jc_preserve_right :: bool

definition merge_rows :: "(nat \<times> nat) list \<Rightarrow> row \<Rightarrow> row \<Rightarrow> row" where
  "merge_rows slices left right =
     foldl (\<lambda>merged (offset, width). slice_assign merged offset (offset + width) (slice right offset width)) left slices"

subsection \<open>Nested loops\<close>

record nested_loop =
  nl_left :: stream
  nl_buffered :: "row list"
  nl_left_row :: "row option"
  nl_position :: nat
  nl_left_matched :: bool
  nl_draining :: bool
  nl_right_matched :: "nat set"

definition nl_open :: "stream \<Rightarrow> stream \<Rightarrow> nested_loop res" where
  "nl_open left right =
     (case right of
        (rows, Some e) \<Rightarrow> Inl e
      | (rows, None) \<Rightarrow>
          Inr \<lparr>nl_left = left, nl_buffered = rows, nl_left_row = None, nl_position = 0,
               nl_left_matched = False, nl_draining = False, nl_right_matched = {}\<rparr>)"

function nl_unmatched_right :: "join_config \<Rightarrow> (nested_loop, row option) op" where
  "nl_unmatched_right c s =
     (if jc_preserve_right c \<and> nl_position s < length (nl_buffered s) then
        (let index = nl_position s; s = s\<lparr>nl_position := Suc index\<rparr>
         in if index \<notin> nl_right_matched s then (s, Inr (Some (nl_buffered s ! index)))
            else nl_unmatched_right c s)
      else (s, Inr None))"
  by auto
termination
  by (relation "measure (\<lambda>(c, s). length (nl_buffered s) - nl_position s)") auto

text \<open>The inner loop over the buffered right rows, for the left row in hand.\<close>

function nl_scan :: "join_config \<Rightarrow> row \<Rightarrow> (nested_loop, row option) op" where
  "nl_scan c left s =
     (if nl_position s < length (nl_buffered s) then
        (let index = nl_position s; right = nl_buffered s ! index; s = s\<lparr>nl_position := Suc index\<rparr>;
             merged = merge_rows (jc_slices c) left right
         in (case matches (jc_predicate c) merged of
               Inl e \<Rightarrow> (s, Inl e)
             | Inr True \<Rightarrow> (s\<lparr>nl_left_matched := True, nl_right_matched := insert index (nl_right_matched s)\<rparr>,
                           Inr (Some merged))
             | Inr False \<Rightarrow> nl_scan c left s))
      else (s, Inr None))"
  by auto
termination
  by (relation "measure (\<lambda>(c, left, s). length (nl_buffered s) - nl_position s)") auto

declare nl_scan.simps [simp del] nl_unmatched_right.simps [simp del]

lemma nl_scan_left: "nl_scan c left s = (s', r) \<Longrightarrow> nl_left s' = nl_left s"
proof (induction c left s rule: nl_scan.induct)
  case (1 c left s)
  from 1(2) show ?case
    by (subst (asm) nl_scan.simps)
      (auto simp: Let_def split: if_splits sum.splits bool.splits dest: 1(1) [OF _ refl refl refl refl])
qed

function nl_produce :: "join_config \<Rightarrow> (nested_loop, row option) op" where
  "nl_produce c s =
     (if nl_draining s then nl_unmatched_right c s
      else (case nl_left_row s of
          None \<Rightarrow>
            (case pull (nl_left s) of
               (l, Inl e) \<Rightarrow> (s\<lparr>nl_left := l\<rparr>, Inl e)
             | (l, Inr None) \<Rightarrow> nl_unmatched_right c (s\<lparr>nl_left := l, nl_draining := True, nl_position := 0\<rparr>)
             | (l, Inr (Some row)) \<Rightarrow>
                 nl_produce c (s\<lparr>nl_left := l, nl_left_row := Some row, nl_position := 0, nl_left_matched := False\<rparr>))
        | Some left \<Rightarrow>
            (case nl_scan c left s of
               (s', Inl e) \<Rightarrow> (s', Inl e)
             | (s', Inr (Some merged)) \<Rightarrow> (s', Inr (Some merged))
             | (s', Inr None) \<Rightarrow>
                 (let s' = s'\<lparr>nl_left_row := None\<rparr>
                  in if jc_preserve_left c \<and> \<not> nl_left_matched s' then (s', Inr (Some left))
                     else nl_produce c s'))))"
  by auto
termination
  by (relation "measure (\<lambda>(c, s). 2 * length (fst (nl_left s)) + (if nl_left_row s = None then 0 else 1))")
    (auto dest: pull_shorter [OF sym] nl_scan_left [OF sym])

declare nl_produce.simps [simp del]

subsection \<open>Hash join\<close>

text \<open>Python dictionaries: keys are equal when \<open>==\<close> says so, and entries keep the order of insertion.\<close>

fun dict_get :: "('k \<Rightarrow> 'k \<Rightarrow> bool) \<Rightarrow> ('k \<times> 'v) list \<Rightarrow> 'k \<Rightarrow> 'v option" where
  "dict_get eq [] k = None"
| "dict_get eq ((k', v) # d) k = (if eq k' k then Some v else dict_get eq d k)"

fun dict_set :: "('k \<Rightarrow> 'k \<Rightarrow> bool) \<Rightarrow> ('k \<times> 'v) list \<Rightarrow> 'k \<Rightarrow> 'v \<Rightarrow> ('k \<times> 'v) list" where
  "dict_set eq [] k v = [(k, v)]"
| "dict_set eq ((k', v') # d) k v = (if eq k' k then (k', v) # d else (k', v') # dict_set eq d k v)"

record hash_config =
  hc_join :: join_config
  hc_build_key :: expression
  hc_probe_key :: expression
  hc_residual :: "expression option"

record hash_join =
  hj_right :: stream
  hj_build :: "row list"
  hj_table :: "(pyval \<times> nat list) list"
  hj_build_matched :: "nat set"
  hj_bucket :: "nat list"
  hj_probe_row :: row
  hj_position :: nat
  hj_drain :: nat
  hj_draining :: bool
  hj_probe_matched :: bool

definition table_add :: "(pyval \<times> nat list) list \<Rightarrow> pyval \<Rightarrow> nat \<Rightarrow> (pyval \<times> nat list) list" where
  "table_add table key index =
     dict_set py_eq table key ((case dict_get py_eq table key of None \<Rightarrow> [] | Some is \<Rightarrow> is) @ [index])"

text \<open>The loop of \<open>_on_open\<close> over the build side.\<close>

fun build_table :: "expression \<Rightarrow> nat \<Rightarrow> (pyval \<times> nat list) list \<Rightarrow> row list \<Rightarrow> (pyval \<times> nat list) list res" where
  "build_table build_key index table [] = Inr table"
| "build_table build_key index table (row # rows) =
     bind_res (evaluate build_key row) (\<lambda>key.
       build_table build_key (Suc index) (if key = PyNone then table else table_add table key index) rows)"

definition hj_open :: "hash_config \<Rightarrow> stream \<Rightarrow> stream \<Rightarrow> hash_join res" where
  "hj_open c left right =
     bind_res (build_table (hc_build_key c) 0 [] (fst left)) (\<lambda>table.
       case snd left of
         Some e \<Rightarrow> Inl e
       | None \<Rightarrow> Inr \<lparr>hj_right = right, hj_build = fst left, hj_table = table, hj_build_matched = {},
                       hj_bucket = [], hj_probe_row = [], hj_position = 0, hj_drain = 0,
                       hj_draining = False, hj_probe_matched = False\<rparr>)"

function hj_unmatched_build :: "hash_config \<Rightarrow> (hash_join, row option) op" where
  "hj_unmatched_build c s =
     (if jc_preserve_left (hc_join c) \<and> hj_drain s < length (hj_build s) then
        (let index = hj_drain s; s = s\<lparr>hj_drain := Suc index\<rparr>
         in if index \<notin> hj_build_matched s then (s, Inr (Some (hj_build s ! index)))
            else hj_unmatched_build c s)
      else (s, Inr None))"
  by auto
termination
  by (relation "measure (\<lambda>(c, s). length (hj_build s) - hj_drain s)") auto

text \<open>
  \<open>HashJoin._matches\<close> is inherited and evaluates the whole join predicate, not the residual alone; the
  residual only decides whether it is evaluated at all.
\<close>

definition hj_matches :: "hash_config \<Rightarrow> row \<Rightarrow> bool res" where
  "hj_matches c merged =
     (case hc_residual c of None \<Rightarrow> Inr True | Some _ \<Rightarrow> matches (jc_predicate (hc_join c)) merged)"

text \<open>The inner loop over the bucket of the probe row in hand.\<close>

function hj_scan :: "hash_config \<Rightarrow> (hash_join, row option) op" where
  "hj_scan c s =
     (if hj_position s < length (hj_bucket s) then
        (let index = hj_bucket s ! hj_position s; s = s\<lparr>hj_position := Suc (hj_position s)\<rparr>;
             merged = merge_rows (jc_slices (hc_join c)) (hj_build s ! index) (hj_probe_row s)
         in (case hj_matches c merged of
               Inl e \<Rightarrow> (s, Inl e)
             | Inr True \<Rightarrow>
                 (s\<lparr>hj_probe_matched := True,
                    hj_build_matched := (if jc_preserve_left (hc_join c) then insert index (hj_build_matched s)
                                         else hj_build_matched s)\<rparr>, Inr (Some merged))
             | Inr False \<Rightarrow> hj_scan c s))
      else (s, Inr None))"
  by auto
termination
  by (relation "measure (\<lambda>(c, s). length (hj_bucket s) - hj_position s)") auto

declare hj_scan.simps [simp del] hj_unmatched_build.simps [simp del]

lemma hj_scan_right: "hj_scan c s = (s', r) \<Longrightarrow> hj_right s' = hj_right s \<and> hj_draining s' = hj_draining s"
proof (induction c s rule: hj_scan.induct)
  case (1 c s)
  from 1(2) show ?case
    by (subst (asm) hj_scan.simps)
      (auto simp: Let_def split: if_splits sum.splits bool.splits dest: 1(1) [OF _ refl refl refl])
qed

function hj_produce :: "hash_config \<Rightarrow> (hash_join, row option) op" where
  "hj_produce c s =
     (case hj_scan c s of
        (s, Inl e) \<Rightarrow> (s, Inl e)
      | (s, Inr (Some merged)) \<Rightarrow> (s, Inr (Some merged))
      | (s, Inr None) \<Rightarrow>
          (if jc_preserve_right (hc_join c) \<and> hj_bucket s \<noteq> [] \<and> \<not> hj_probe_matched s
           then (s\<lparr>hj_bucket := []\<rparr>, Inr (Some (hj_probe_row s)))
           else if hj_draining s then hj_unmatched_build c s
           else (case pull (hj_right s) of
               (right, Inl e) \<Rightarrow> (s\<lparr>hj_right := right\<rparr>, Inl e)
             | (right, Inr None) \<Rightarrow> hj_produce c (s\<lparr>hj_right := right, hj_draining := True\<rparr>)
             | (right, Inr (Some probe)) \<Rightarrow>
                 (let s = s\<lparr>hj_right := right\<rparr>
                  in (case evaluate (hc_probe_key c) probe of
                        Inl e \<Rightarrow> (s, Inl e)
                      | Inr key \<Rightarrow>
                          (let bucket = (if key = PyNone then []
                                         else case dict_get py_eq (hj_table s) key of None \<Rightarrow> [] | Some b \<Rightarrow> b)
                           in if bucket = [] then
                                (if jc_preserve_right (hc_join c) then (s, Inr (Some probe))
                                 else hj_produce c s)
                              else hj_produce c (s\<lparr>hj_probe_row := probe, hj_bucket := bucket, hj_position := 0,
                                                   hj_probe_matched := False\<rparr>)))))))"
  by auto
termination
proof (relation "measure (\<lambda>(c, s). 2 * length (fst (hj_right s)) + (if hj_draining s then 0 else 1))")
qed (auto dest!: hj_scan_right [OF sym] pull_shorter [OF sym] pull_end [OF sym])

declare hj_produce.simps [simp del]

section \<open>Aggregation\<close>

record accumulator =
  ac_function :: aggregate_function
  ac_count :: int
  ac_sum :: pyval
  ac_min :: pyval
  ac_max :: pyval

definition acc_new :: "aggregate_function \<Rightarrow> accumulator" where
  "acc_new f = \<lparr>ac_function = f, ac_count = 0, ac_sum = PyNone, ac_min = PyNone, ac_max = PyNone\<rparr>"

text \<open>Python's \<open>+\<close>, and \<open>min(a, b)\<close> and \<open>max(a, b)\<close>, which return \<open>a\<close> unless \<open>b\<close> is beyond it.\<close>

definition py_add :: "pyval \<Rightarrow> pyval \<Rightarrow> pyval res" where
  "py_add l r = (case (py_number l, py_number r) of
       (Some a, Some b) \<Rightarrow> bind_res (num_op (+) f_add a b) (\<lambda>n. Inr (of_number n))
     | _ \<Rightarrow> (case (l, r) of (PyStr s, PyStr t) \<Rightarrow> Inr (PyStr (s @ t)) | _ \<Rightarrow> Inl TypeError))"

definition py_less :: "pyval \<Rightarrow> pyval \<Rightarrow> bool res" where
  "py_less l r = py_ordered num_less (<) l r"

definition py_min :: "pyval \<Rightarrow> pyval \<Rightarrow> pyval res" where
  "py_min a b = bind_res (py_less b a) (\<lambda>lt. Inr (if lt then b else a))"

definition py_max :: "pyval \<Rightarrow> pyval \<Rightarrow> pyval res" where
  "py_max a b = bind_res (py_less a b) (\<lambda>lt. Inr (if lt then b else a))"

definition acc_add :: "accumulator \<Rightarrow> pyval \<Rightarrow> bool \<Rightarrow> accumulator res" where
  "acc_add a v rows =
     (if rows then Inr (a\<lparr>ac_count := ac_count a + 1\<rparr>)
      else if v = PyNone then Inr a
      else bind_res (if ac_sum a = PyNone then Inr v else py_add (ac_sum a) v) (\<lambda>total.
           bind_res (check_numeric_range total) (\<lambda>s.
           bind_res (if ac_min a = PyNone then Inr v else py_min (ac_min a) v) (\<lambda>lo.
           bind_res (if ac_max a = PyNone then Inr v else py_max (ac_max a) v) (\<lambda>hi.
             Inr (a\<lparr>ac_count := ac_count a + 1, ac_sum := s, ac_min := lo, ac_max := hi\<rparr>))))))"

text \<open>\<open>sum / count\<close>: the exact quotient of two integers rounded once, or a division of doubles.\<close>

definition true_divide :: "pyval \<Rightarrow> int \<Rightarrow> pyval res" where
  "true_divide s count = (case py_number s of
       None \<Rightarrow> Inl TypeError
     | Some (IntV n) \<Rightarrow>
         (let m = f_round (nat \<bar>n\<bar> * 2 ^ 1074) (nat count)
          in if m = 2047 * 2 ^ 52 then Inl OverflowError else Inr (PyFloat (f_make (n < 0) m)))
     | Some (FloatV w) \<Rightarrow> bind_res (float_of_int count) (\<lambda>c. Inr (PyFloat (f_div w c))))"

definition acc_value :: "accumulator \<Rightarrow> pyval res" where
  "acc_value a = (case ac_function a of
       COUNT_FN \<Rightarrow> Inr (PyInt (ac_count a))
     | SUM_FN \<Rightarrow> Inr (ac_sum a)
     | AVG_FN \<Rightarrow> if ac_count a = 0 then Inr PyNone else true_divide (ac_sum a) (ac_count a)
     | MIN_FN \<Rightarrow> Inr (ac_min a)
     | MAX_FN \<Rightarrow> Inr (ac_max a))"

record aggregate_config =
  ag_keys :: "expression list"
  ag_aggregates :: "bound_aggregate list"
  ag_having :: "expression option"

definition key_eq :: "row \<Rightarrow> row \<Rightarrow> bool" where
  "key_eq = list_all2 py_eq"

text \<open>Feeding one row to the accumulators of its group.\<close>

fun add_row :: "row \<Rightarrow> bound_aggregate list \<Rightarrow> accumulator list \<Rightarrow> accumulator list res" where
  "add_row row (entry # entries) (a # as) =
     bind_res (if counts_rows entry then Inr PyNone
               else case ba_argument entry of None \<Rightarrow> Inl TypeError | Some e \<Rightarrow> evaluate e row) (\<lambda>v.
     bind_res (acc_add a v (counts_rows entry)) (\<lambda>a'.
     bind_res (add_row row entries as) (\<lambda>as'. Inr (a' # as'))))"
| "add_row row _ _ = Inr []"

definition fresh_accumulators :: "aggregate_config \<Rightarrow> accumulator list" where
  "fresh_accumulators c = map (\<lambda>entry. acc_new (ba_function entry)) (ag_aggregates c)"

type_synonym groups = "(row \<times> accumulator list) list"

text \<open>
  The list \<open>order\<close> repeats the keys of the dictionary \<open>groups\<close> in the order of their insertion, which is the
  order of the association list here.
\<close>

fun group_rows :: "aggregate_config \<Rightarrow> groups \<Rightarrow> row list \<Rightarrow> groups res" where
  "group_rows c groups [] = Inr groups"
| "group_rows c groups (row # rows) =
     bind_res (project_row (ag_keys c) row) (\<lambda>key.
     bind_res (add_row row (ag_aggregates c)
                 (case dict_get key_eq groups key of None \<Rightarrow> fresh_accumulators c | Some as \<Rightarrow> as)) (\<lambda>as.
       group_rows c (dict_set key_eq groups key as) rows))"

fun group_output :: "aggregate_config \<Rightarrow> groups \<Rightarrow> row list res" where
  "group_output c [] = Inr []"
| "group_output c ((key, as) # groups) =
     bind_res (map_res acc_value as) (\<lambda>values.
     bind_res (case ag_having c of None \<Rightarrow> Inr True | Some h \<Rightarrow> matches h (key @ values)) (\<lambda>keep.
     bind_res (group_output c groups) (\<lambda>rest. Inr (if keep then (key @ values) # rest else rest))))"

definition ha_open :: "aggregate_config \<Rightarrow> stream \<Rightarrow> row list res" where
  "ha_open c child =
     bind_res (group_rows c [] (fst child)) (\<lambda>groups.
       case snd child of
         Some e \<Rightarrow> Inl e
       | None \<Rightarrow> group_output c (if ag_keys c = [] \<and> groups = [] then [([], fresh_accumulators c)] else groups))"

text \<open>The aggregate and the sort emit a buffer from a cursor.\<close>

record buffer =
  bf_rows :: "row list"
  bf_position :: nat

definition emit_produce :: "(buffer, row option) op" where
  "emit_produce b =
     (if length (bf_rows b) \<le> bf_position b then (b, Inr None)
      else (b\<lparr>bf_position := Suc (bf_position b)\<rparr>, Inr (Some (bf_rows b ! bf_position b))))"

section \<open>Sorting, limits, duplicates\<close>

text \<open>
  \<open>_sort_key\<close> pairs a value with 0, or NULL with 1; the comparison of two keys compares values only when both
  are there. \<open>list.sort\<close> is stable, also with \<open>reverse\<close>, and raises when it meets a number and a text.
\<close>

definition sort_key :: "pyval \<Rightarrow> nat \<times> pyval" where
  "sort_key v = (case v of PyNone \<Rightarrow> (1, PyInt 0) | PyBool b \<Rightarrow> (0, PyInt (of_bool b)) | _ \<Rightarrow> (0, v))"

definition sort_less :: "pyval \<Rightarrow> pyval \<Rightarrow> bool" where
  "sort_less v w =
     (let (p, a) = sort_key v; (q, b) = sort_key w
      in if p \<noteq> q then p < q else py_less a b = Inr True)"

definition sort_comparable :: "pyval \<Rightarrow> pyval \<Rightarrow> bool" where
  "sort_comparable v w =
     (let (p, a) = sort_key v; (q, b) = sort_key w in p \<noteq> q \<or> py_less a b \<noteq> Inl TypeError)"

fun insert_stable :: "('a \<Rightarrow> 'a \<Rightarrow> bool) \<Rightarrow> 'a \<Rightarrow> 'a list \<Rightarrow> 'a list" where
  "insert_stable lt x [] = [x]"
| "insert_stable lt x (y # ys) = (if lt y x then y # insert_stable lt x ys else x # y # ys)"

definition sort_stable :: "('a \<Rightarrow> 'a \<Rightarrow> bool) \<Rightarrow> 'a list \<Rightarrow> 'a list" where
  "sort_stable lt xs = foldr (insert_stable lt) xs []"

definition list_sort :: "('a \<Rightarrow> pyval) \<Rightarrow> bool \<Rightarrow> 'a list \<Rightarrow> 'a list res" where
  "list_sort key reverse xs =
     (if list_all (\<lambda>x. list_all (\<lambda>y. sort_comparable (key x) (key y)) xs) xs
      then Inr (if reverse then rev (sort_stable (\<lambda>x y. sort_less (key x) (key y)) (rev xs))
                else sort_stable (\<lambda>x y. sort_less (key x) (key y)) xs)
      else Inl TypeError)"

fun sort_passes :: "bound_sort_key list \<Rightarrow> row list \<Rightarrow> row list res" where
  "sort_passes [] rows = Inr rows"
| "sort_passes (k # keys) rows =
     (if list_all (\<lambda>row. output_index k < length row) rows
      then bind_res (list_sort (\<lambda>row. row ! output_index k) (descending k) rows) (sort_passes keys)
      else Inl IndexError)"

definition sort_open :: "bound_sort_key list \<Rightarrow> stream \<Rightarrow> row list res" where
  "sort_open keys child =
     (case snd child of Some e \<Rightarrow> Inl e | None \<Rightarrow> sort_passes (rev keys) (fst child))"

record limit_op =
  lm_child :: stream
  lm_emitted :: nat
  lm_skipped :: nat

function limit_produce :: "nat \<Rightarrow> nat \<Rightarrow> (limit_op, row option) op" where
  "limit_produce count offset s =
     (if lm_skipped s < offset then
        (case pull (lm_child s) of
           (child, Inl e) \<Rightarrow> (s\<lparr>lm_child := child\<rparr>, Inl e)
         | (child, Inr None) \<Rightarrow> (s\<lparr>lm_child := child\<rparr>, Inr None)
         | (child, Inr (Some _)) \<Rightarrow>
             limit_produce count offset (s\<lparr>lm_child := child, lm_skipped := Suc (lm_skipped s)\<rparr>))
      else if count \<le> lm_emitted s then (s, Inr None)
      else (case pull (lm_child s) of
           (child, Inl e) \<Rightarrow> (s\<lparr>lm_child := child\<rparr>, Inl e)
         | (child, Inr None) \<Rightarrow> (s\<lparr>lm_child := child\<rparr>, Inr None)
         | (child, Inr (Some row)) \<Rightarrow>
             (s\<lparr>lm_child := child, lm_emitted := Suc (lm_emitted s)\<rparr>, Inr (Some row))))"
  by auto
termination
  by (relation "measure (\<lambda>(c, offset, s). offset - lm_skipped s)") auto

text \<open>The key of \<open>DISTINCT\<close>: the type name travels with the value, and a NULL has a marker of its own.\<close>

definition distinct_key :: "row \<Rightarrow> (string \<times> pyval) list" where
  "distinct_key row = map (\<lambda>v. case v of
       PyNone \<Rightarrow> (''null'', PyNone)
     | PyFloat w \<Rightarrow> (''float'', PyFloat (f_add w 0))
     | PyInt _ \<Rightarrow> (''int'', v)
     | PyBool _ \<Rightarrow> (''bool'', v)
     | PyStr _ \<Rightarrow> (''str'', v)) row"

definition distinct_key_eq :: "(string \<times> pyval) list \<Rightarrow> (string \<times> pyval) list \<Rightarrow> bool" where
  "distinct_key_eq = list_all2 (\<lambda>(s, v) (t, w). s = t \<and> py_eq v w)"

record distinct_op =
  ds_child :: stream
  ds_seen :: "(string \<times> pyval) list list"

function distinct_produce :: "(distinct_op, row option) op" where
  "distinct_produce s =
     (case pull (ds_child s) of
        (child, Inl e) \<Rightarrow> (s\<lparr>ds_child := child\<rparr>, Inl e)
      | (child, Inr None) \<Rightarrow> (s\<lparr>ds_child := child\<rparr>, Inr None)
      | (child, Inr (Some row)) \<Rightarrow>
          (if list_ex (distinct_key_eq (distinct_key row)) (ds_seen s)
           then distinct_produce (s\<lparr>ds_child := child\<rparr>)
           else (s\<lparr>ds_child := child, ds_seen := distinct_key row # ds_seen s\<rparr>, Inr (Some row))))"
  by auto
termination
  by (relation "measure (\<lambda>s. length (fst (ds_child s)))") (auto dest: pull_shorter [OF sym])

declare filter_produce.simps [simp del] limit_produce.simps [simp del] distinct_produce.simps [simp del]
  seq_scan_produce.simps [simp del] index_scan_produce.simps [simp del]

end
