(* ===== verification/StreamLaws.thy ===== *)
theory StreamLaws
  imports Operators "HOL-Library.Sublist"
begin

text \<open>
  What the streaming operators compute. Streams compose by \<open>then_stream\<close>, which stops at an exception,
  and \<open>stream_bind\<close>, which replaces each row by a stream. Each operator, run from the state its
  \<open>_on_open\<close> leaves to the end of its input, ends, and its stream is given in closed form.
\<close>

section \<open>Streams\<close>

definition then_stream :: "stream \<Rightarrow> stream \<Rightarrow> stream" where
  "then_stream a b = (case snd a of Some e \<Rightarrow> a | None \<Rightarrow> (fst a @ fst b, snd b))"

abbreviation no_rows :: stream where "no_rows \<equiv> ([], None)"

fun flat_map :: "('a \<Rightarrow> stream) \<Rightarrow> 'a list \<Rightarrow> stream" where
  "flat_map f [] = no_rows"
| "flat_map f (x # xs) = then_stream (f x) (flat_map f xs)"

definition stream_bind :: "(row \<Rightarrow> stream) \<Rightarrow> stream \<Rightarrow> stream" where
  "stream_bind f s = then_stream (flat_map f (fst s)) ([], snd s)"

lemma then_stream_simps [simp]:
  "then_stream ([], None) s = s"
  "then_stream (rows, Some e) s = (rows, Some e)"
  "then_stream (rows, None) (rows', e') = (rows @ rows', e')"
  by (simp_all add: then_stream_def)

lemma then_stream_no_rows [simp]: "then_stream s no_rows = s"
  by (cases s; cases "snd s") auto

lemma then_stream_assoc: "then_stream (then_stream a b) c = then_stream a (then_stream b c)"
  by (cases a; cases b; cases c; cases "snd a"; cases "snd b") auto

lemma flat_append: "flat_map f (xs @ ys) = then_stream (flat_map f xs) (flat_map f ys)"
  by (induction xs) (simp_all add: then_stream_assoc)

lemma flat_singletons [simp]: "flat_map (\<lambda>x. ([x], None)) xs = (xs, None)"
  by (induction xs) simp_all

lemma stream_bind_Cons: "stream_bind f (x # xs, e) = then_stream (f x) (stream_bind f (xs, e))"
  by (simp add: stream_bind_def then_stream_assoc)

lemma stream_bind_Nil [simp]: "stream_bind f ([], e) = ([], e)"
  by (simp add: stream_bind_def)

text \<open>A stream without an exception.\<close>

lemma then_stream_ok: "snd (then_stream a b) = None \<longleftrightarrow> snd a = None \<and> snd b = None"
  by (cases a; cases b; cases "snd a") auto

lemma then_stream_rows: "snd a = None \<Longrightarrow> fst (then_stream a b) = fst a @ fst b"
  by (simp add: then_stream_def)

lemma flat_ok: "snd (flat_map f xs) = None \<longleftrightarrow> (\<forall>x\<in>set xs. snd (f x) = None)"
  by (induction xs) (simp_all add: then_stream_ok)

lemma flat_rows: "snd (flat_map f xs) = None \<Longrightarrow> fst (flat_map f xs) = concat (map (\<lambda>x. fst (f x)) xs)"
  by (induction xs) (auto simp: then_stream_ok then_stream_rows)

section \<open>Draining an operator\<close>

lemma drain_cases:
  "step s = (s', Inl e) \<Longrightarrow> drain step s = Some ([], Some e)"
  "step s = (s', Inr None) \<Longrightarrow> drain step s = Some no_rows"
  "step s = (s', Inr (Some row)) \<Longrightarrow> drain step s' = Some t \<Longrightarrow>
     drain step s = Some (then_stream ([row], None) t)"
  by (subst drain.simps; cases t; simp)+

lemma drain_cong: "step s = step s' \<Longrightarrow> drain step s = drain step s'"
  by (subst (1 2) drain.simps) simp

lemma drain_pull: "drain pull s = Some s"
proof (cases s)
  case (Pair rows e)
  have "drain pull (rows, e) = Some (rows, e)"
  proof (induction rows)
    case Nil
    show ?case by (cases e) (auto intro: drain_cases)
  next
    case (Cons r rows)
    from drain_cases(3) [OF pull.simps(1) Cons] show ?case by simp
  qed
  with Pair show ?thesis by simp
qed

text \<open>The protocol of \<open>Operator.next\<close> adds nothing to what the operator produces.\<close>

lemma drain_op_next:
  "drain produce b = Some t \<Longrightarrow> drain (op_next produce) \<lparr>opened = True, exhausted = False, body = b\<rparr> = Some t"
proof (induction "fst t" arbitrary: b t)
  case Nil
  obtain b' r where p: "produce b = (b', r)" by force
  with Nil show ?case
    by (subst (asm) drain.simps, subst drain.simps)
      (auto simp: op_next_def split: sum.splits option.splits bind_split_asm)
next
  case (Cons row rows)
  obtain b' r where p: "produce b = (b', r)" by force
  with Cons(2,3) obtain t' where r: "r = Inr (Some row)" and t': "drain produce b' = Some t'"
    and t: "t = (row # fst t', snd t')" and rows: "rows = fst t'"
    by (subst (asm) drain.simps) (auto split: sum.splits option.splits bind_split_asm)
  from drain_cases(3) [of "op_next produce", OF _ Cons(1) [OF rows t'], of "\<lparr>opened = True, exhausted = False, body = b\<rparr>" row]
  show ?case using p r t by (cases t') (simp add: op_next_def)
qed

section \<open>Filter and projection\<close>

definition filter_row :: "expression \<Rightarrow> row \<Rightarrow> stream" where
  "filter_row predicate row = (case matches predicate row of
       Inl e \<Rightarrow> ([], Some e) | Inr keep \<Rightarrow> (if keep then [row] else [], None))"

lemma drain_filter: "drain (filter_produce p) (rows, e) = Some (stream_bind (filter_row p) (rows, e))"
proof (induction rows)
  case Nil
  show ?case
    by (cases e) (auto intro: drain_cases simp: filter_produce.simps)
next
  case (Cons r rows)
  have step: "filter_produce p (r # rows, e) = (case matches p r of Inl err \<Rightarrow> ((rows, e), Inl err)
      | Inr True \<Rightarrow> ((rows, e), Inr (Some r)) | Inr False \<Rightarrow> filter_produce p (rows, e))"
    by (subst filter_produce.simps) simp
  show ?case
  proof (cases "matches p r")
    case (Inl err)
    with step have "drain (filter_produce p) (r # rows, e) = Some ([], Some err)"
      by (intro drain_cases) auto
    with Inl show ?thesis by (simp add: stream_bind_Cons filter_row_def)
  next
    case (Inr b)
    show ?thesis
    proof (cases b)
      case True
      with step Inr have "filter_produce p (r # rows, e) = ((rows, e), Inr (Some r))" by simp
      from drain_cases(3) [of "filter_produce p", OF this Cons] Inr True show ?thesis
        by (simp add: stream_bind_Cons filter_row_def)
    next
      case False
      with step Inr have "filter_produce p (r # rows, e) = filter_produce p (rows, e)" by simp
      from drain_cong [of "filter_produce p", OF this] Inr False Cons show ?thesis
        by (simp add: stream_bind_Cons filter_row_def)
    qed
  qed
qed

definition project_out :: "expression list \<Rightarrow> row \<Rightarrow> stream" where
  "project_out projections row = (case project_row projections row of
       Inl e \<Rightarrow> ([], Some e) | Inr out \<Rightarrow> ([out], None))"

lemma drain_project: "drain (project_produce ps) (rows, e) = Some (stream_bind (project_out ps) (rows, e))"
proof (induction rows)
  case Nil
  show ?case
    by (cases e) (auto intro: drain_cases simp: project_produce_def bind_op_def)
next
  case (Cons r rows)
  show ?case
  proof (cases "project_row ps r")
    case (Inl err)
    then have "drain (project_produce ps) (r # rows, e) = Some ([], Some err)"
      by (intro drain_cases) (simp add: project_produce_def bind_op_def)
    with Inl show ?thesis by (simp add: stream_bind_Cons project_out_def)
  next
    case (Inr out)
    then have "project_produce ps (r # rows, e) = ((rows, e), Inr (Some out))"
      by (simp add: project_produce_def bind_op_def)
    from drain_cases(3) [of "project_produce ps", OF this Cons] Inr show ?thesis
      by (simp add: stream_bind_Cons project_out_def)
  qed
qed

section \<open>Limit\<close>

text \<open>
  A limit whose input has rows enough never sees how the input ends: it stops pulling.
\<close>

definition limit_spec :: "nat \<Rightarrow> nat \<Rightarrow> stream \<Rightarrow> stream" where
  "limit_spec count offset s =
     (if offset + count \<le> length (fst s) then (take count (drop offset (fst s)), None)
      else (drop offset (fst s), snd s))"

lemma drain_emitting:
  "offset \<le> lm_skipped s \<Longrightarrow> drain (limit_produce count offset) s =
     Some (limit_spec (count - lm_emitted s) 0 (lm_child s))"
proof (induction "fst (lm_child s)" arbitrary: s)
  case Nil
  then obtain e where c: "lm_child s = ([], e)" by (cases "lm_child s") auto
  show ?case
  proof (cases "count \<le> lm_emitted s")
    case True
    with Nil have "limit_produce count offset s = (s, Inr None)" by (subst limit_produce.simps) simp
    from drain_cases(2) [of "limit_produce count offset", OF this] True c show ?thesis by (simp add: limit_spec_def)
  next
    case False
    with Nil c have "limit_produce count offset s = (s\<lparr>lm_child := ([], e)\<rparr>, case e of None \<Rightarrow> Inr None | Some x \<Rightarrow> Inl x)"
      by (subst limit_produce.simps) (cases e; simp)
    with False c show ?thesis by (cases e) (auto intro: drain_cases simp: limit_spec_def)
  qed
next
  case (Cons row rows)
  then obtain e where c: "lm_child s = (row # rows, e)" by (cases "lm_child s") auto
  show ?case
  proof (cases "count \<le> lm_emitted s")
    case True
    with Cons have "limit_produce count offset s = (s, Inr None)" by (subst limit_produce.simps) simp
    from drain_cases(2) [of "limit_produce count offset", OF this] True c show ?thesis by (simp add: limit_spec_def)
  next
    case False
    let ?s = "s\<lparr>lm_child := (rows, e), lm_emitted := Suc (lm_emitted s)\<rparr>"
    from False Cons(3) c have "limit_produce count offset s = (?s, Inr (Some row))"
      by (subst limit_produce.simps) simp
    moreover have "drain (limit_produce count offset) ?s = Some (limit_spec (count - Suc (lm_emitted s)) 0 (rows, e))"
      using Cons(1) [of ?s] Cons(3) by simp
    ultimately have "drain (limit_produce count offset) s =
        Some (then_stream ([row], None) (limit_spec (count - Suc (lm_emitted s)) 0 (rows, e)))"
      by (rule drain_cases(3))
    moreover from False have "count - lm_emitted s = Suc (count - Suc (lm_emitted s))" by simp
    ultimately show ?thesis using c by (simp add: limit_spec_def)
  qed
qed

lemma drain_limit:
  "lm_emitted s = 0 \<Longrightarrow> lm_skipped s \<le> offset \<Longrightarrow>
   drain (limit_produce count offset) s = Some (limit_spec count (offset - lm_skipped s) (lm_child s))"
proof (induction "offset - lm_skipped s" arbitrary: s)
  case 0
  then show ?case using drain_emitting [of offset s count] by simp
next
  case (Suc n)
  then have skip: "lm_skipped s < offset" by simp
  show ?case
  proof (cases "lm_child s" rule: pull.cases)
    case (1 row rows e)
    let ?s = "s\<lparr>lm_child := (rows, e), lm_skipped := Suc (lm_skipped s)\<rparr>"
    from skip 1 have "limit_produce count offset s = limit_produce count offset ?s"
      by (subst limit_produce.simps) simp
    from drain_cong [of "limit_produce count offset", OF this]
    have "drain (limit_produce count offset) s = drain (limit_produce count offset) ?s" .
    also have "\<dots> = Some (limit_spec count (offset - Suc (lm_skipped s)) (rows, e))"
      using Suc(1) [of ?s] Suc(2,3) skip by simp
    also have "offset - lm_skipped s = Suc (offset - Suc (lm_skipped s))" using skip by simp
    ultimately show ?thesis using 1 by (simp add: limit_spec_def)
  next
    case 2
    with skip have "limit_produce count offset s = (s\<lparr>lm_child := ([], None)\<rparr>, Inr None)"
      by (subst limit_produce.simps) simp
    from drain_cases(2) [of "limit_produce count offset", OF this] 2 show ?thesis by (simp add: limit_spec_def)
  next
    case (3 e)
    with skip have "limit_produce count offset s = (s\<lparr>lm_child := ([], Some e)\<rparr>, Inl e)"
      by (subst limit_produce.simps) simp
    from drain_cases(1) [of "limit_produce count offset", OF this] 3 skip show ?thesis by (simp add: limit_spec_def)
  qed
qed

section \<open>Scans\<close>

definition visible_out :: "row option res \<Rightarrow> stream" where
  "visible_out r = (case r of Inl e \<Rightarrow> ([], Some e) | Inr None \<Rightarrow> no_rows | Inr (Some row) \<Rightarrow> ([row], None))"

definition generated :: "('a \<Rightarrow> stream) \<Rightarrow> 'a list \<Rightarrow> db_error option \<Rightarrow> stream" where
  "generated f xs e = then_stream (flat_map f xs) ([], e)"

lemma generated_simps [simp]:
  "generated f [] e = ([], e)"
  "generated f (x # xs) e = then_stream (f x) (generated f xs e)"
  by (simp_all add: generated_def then_stream_assoc)

lemma gen_next_simps [simp]:
  "gen_next \<lparr>left_over = x # xs, failure = e\<rparr> = (\<lparr>left_over = xs, failure = e\<rparr>, Inr (Some x))"
  "gen_next \<lparr>left_over = [], failure = None\<rparr> = (\<lparr>left_over = [], failure = None\<rparr>, Inr None)"
  "gen_next \<lparr>left_over = [], failure = Some err\<rparr> = (\<lparr>left_over = [], failure = Some err\<rparr>, Inl err)"
  by (simp_all add: gen_next_def)

text \<open>
  A loop that takes the items of a generator one by one, emits a row for some, skips others and passes
  exceptions on: what both scans are.
\<close>

lemma drain_generator:
  assumes nil: "step \<lparr>left_over = [], failure = e\<rparr> = (case e of None \<Rightarrow> (\<lparr>left_over = [], failure = e\<rparr>, Inr None)
      | Some err \<Rightarrow> (\<lparr>left_over = [], failure = e\<rparr>, Inl err))"
    and cons: "\<And>x xs. step \<lparr>left_over = x # xs, failure = e\<rparr> =
      (case r x of Inl err \<Rightarrow> (\<lparr>left_over = xs, failure = e\<rparr>, Inl err)
       | Inr None \<Rightarrow> step \<lparr>left_over = xs, failure = e\<rparr>
       | Inr (Some row) \<Rightarrow> (\<lparr>left_over = xs, failure = e\<rparr>, Inr (Some row)))"
  shows "drain step \<lparr>left_over = xs, failure = e\<rparr> = Some (generated (\<lambda>x. visible_out (r x)) xs e)"
proof (induction xs)
  case Nil
  then show ?case using nil by (cases e) (auto intro: drain_cases)
next
  case (Cons x xs)
  show ?case
  proof (cases "r x")
    case (Inl err)
    then show ?thesis using cons [of x xs] by (auto intro: drain_cases simp: visible_out_def)
  next
    case (Inr o')
    show ?thesis
    proof (cases o')
      case None
      with Inr cons [of x xs] have "step \<lparr>left_over = x # xs, failure = e\<rparr> = step \<lparr>left_over = xs, failure = e\<rparr>" by simp
      from drain_cong [OF this] Cons None Inr show ?thesis by (simp add: visible_out_def)
    next
      case (Some row)
      with Inr cons [of x xs] have "step \<lparr>left_over = x # xs, failure = e\<rparr> = (\<lparr>left_over = xs, failure = e\<rparr>, Inr (Some row))" by simp
      from drain_cases(3) [OF this Cons] Some Inr show ?thesis by (simp add: visible_out_def)
    qed
  qed
qed

lemma drain_seq_scan:
  "drain (seq_scan_produce c) \<lparr>left_over = xs, failure = e\<rparr> =
     Some (generated (\<lambda>(rid, payload). visible_out (visible_row c payload)) xs e)"
proof -
  have "drain (seq_scan_produce c) \<lparr>left_over = xs, failure = e\<rparr> =
     Some (generated (\<lambda>x. visible_out (visible_row c (snd x))) xs e)"
  proof (rule drain_generator)
    fix x :: "record_id \<times> bytes" and xs
    show "seq_scan_produce c \<lparr>left_over = x # xs, failure = e\<rparr> =
      (case visible_row c (snd x) of Inl err \<Rightarrow> (\<lparr>left_over = xs, failure = e\<rparr>, Inl err)
       | Inr None \<Rightarrow> seq_scan_produce c \<lparr>left_over = xs, failure = e\<rparr>
       | Inr (Some row) \<Rightarrow> (\<lparr>left_over = xs, failure = e\<rparr>, Inr (Some row)))"
      by (subst seq_scan_produce.simps) (cases x; simp)
  qed (subst seq_scan_produce.simps; cases e; simp)
  then show ?thesis by (simp add: case_prod_beta')
qed

text \<open>What an index scan makes of one entry: a record that is gone is skipped.\<close>

definition fetch_row :: "scan_config \<Rightarrow> (record_id \<Rightarrow> bytes res) \<Rightarrow> record_id \<Rightarrow> row option res" where
  "fetch_row c fetch rid = (case fetch rid of
       Inl e \<Rightarrow> if e = RecordNotFoundError then Inr None else Inl e
     | Inr payload \<Rightarrow> visible_row c payload)"

lemma drain_index_scan:
  "drain (index_scan_produce c fetch) \<lparr>left_over = xs, failure = e\<rparr> =
     Some (generated (\<lambda>(key, rid). visible_out (fetch_row c fetch rid)) xs e)"
proof -
  have "drain (index_scan_produce c fetch) \<lparr>left_over = xs, failure = e\<rparr> =
     Some (generated (\<lambda>x. visible_out (fetch_row c fetch (snd x))) xs e)"
  proof (rule drain_generator)
    fix x :: "bytes \<times> record_id" and xs
    show "index_scan_produce c fetch \<lparr>left_over = x # xs, failure = e\<rparr> =
      (case fetch_row c fetch (snd x) of Inl err \<Rightarrow> (\<lparr>left_over = xs, failure = e\<rparr>, Inl err)
       | Inr None \<Rightarrow> index_scan_produce c fetch \<lparr>left_over = xs, failure = e\<rparr>
       | Inr (Some row) \<Rightarrow> (\<lparr>left_over = xs, failure = e\<rparr>, Inr (Some row)))"
      by (subst index_scan_produce.simps) (cases x; simp add: fetch_row_def split: sum.splits)
  qed (subst index_scan_produce.simps; cases e; simp)
  then show ?thesis by (simp add: case_prod_beta')
qed

section \<open>Duplicates\<close>

fun first_seen :: "(string \<times> pyval) list list \<Rightarrow> row list \<Rightarrow> row list" where
  "first_seen seen [] = []"
| "first_seen seen (row # rows) =
     (if list_ex (distinct_key_eq (distinct_key row)) seen then first_seen seen rows
      else row # first_seen (distinct_key row # seen) rows)"

lemma drain_distinct:
  "drain distinct_produce \<lparr>ds_child = (rows, e), ds_seen = seen\<rparr> = Some (first_seen seen rows, e)"
proof (induction rows arbitrary: seen)
  case Nil
  show ?case by (cases e) (auto intro: drain_cases simp: distinct_produce.simps)
next
  case (Cons row rows)
  show ?case
  proof (cases "list_ex (distinct_key_eq (distinct_key row)) seen")
    case True
    then have "distinct_produce \<lparr>ds_child = (row # rows, e), ds_seen = seen\<rparr> =
        distinct_produce \<lparr>ds_child = (rows, e), ds_seen = seen\<rparr>"
      by (subst distinct_produce.simps) simp
    from drain_cong [of distinct_produce, OF this] True Cons show ?thesis by simp
  next
    case False
    then have "distinct_produce \<lparr>ds_child = (row # rows, e), ds_seen = seen\<rparr> =
        (\<lparr>ds_child = (rows, e), ds_seen = distinct_key row # seen\<rparr>, Inr (Some row))"
      by (subst distinct_produce.simps) simp
    from drain_cases(3) [of distinct_produce, OF this Cons] False show ?thesis by simp
  qed
qed

abbreviation same_row :: "row \<Rightarrow> row \<Rightarrow> bool" where
  "same_row r s \<equiv> distinct_key_eq (distinct_key r) (distinct_key s)"

lemma first_seen_covers:
  "row \<in> set rows \<Longrightarrow> reflp_on (set rows) same_row \<Longrightarrow>
   (\<exists>k\<in>set seen. distinct_key_eq (distinct_key row) k) \<or> (\<exists>s\<in>set (first_seen seen rows). same_row row s)"
proof (induction rows arbitrary: seen)
  case (Cons r rows)
  have refl: "reflp_on (set rows) same_row" "same_row r r" using Cons.prems(2) by (auto simp: reflp_on_def)
  show ?case
  proof (cases "row = r")
    case True
    with refl(2) show ?thesis by (auto simp: list_ex_iff)
  next
    case False
    with Cons.prems have "row \<in> set rows" by simp
    with Cons.IH [OF this refl(1), of seen] Cons.IH [OF this refl(1), of "distinct_key r # seen"]
    show ?thesis by (auto simp: list_ex_iff)
  qed
qed simp

lemma first_seen_distinct:
  "sorted_wrt (\<lambda>r s. \<not> same_row s r) (first_seen seen rows) \<and>
   (\<forall>r\<in>set (first_seen seen rows). \<forall>k\<in>set seen. \<not> distinct_key_eq (distinct_key r) k)"
  by (induction rows arbitrary: seen) (force simp: list_ex_iff)+

lemma first_seen_subseq: "subseq (first_seen seen rows) rows"
  by (induction rows arbitrary: seen) auto

end
