(* ===== verification/JoinLaws.thy ===== *)
theory JoinLaws
  imports StreamLaws "HOL-Library.Multiset"
begin

text \<open>
  What the two join algorithms compute. The cursors of the nested loop and of the hash join are run to the
  end of their inputs and their streams given in closed form; the closed forms agree as bags of rows.
\<close>

section \<open>The nested loop\<close>

definition pair_row :: "join_config \<Rightarrow> row \<Rightarrow> row \<Rightarrow> stream" where
  "pair_row c l r = filter_row (jc_predicate c) (merge_rows (jc_slices c) l r)"

definition partners :: "join_config \<Rightarrow> row \<Rightarrow> row \<Rightarrow> bool" where
  "partners c l r \<longleftrightarrow> matches (jc_predicate c) (merge_rows (jc_slices c) l r) = Inr True"

definition hits :: "join_config \<Rightarrow> row list \<Rightarrow> row \<Rightarrow> nat set" where
  "hits c rs l = {i. i < length rs \<and> partners c l (rs ! i)}"

definition left_tail :: "join_config \<Rightarrow> row list \<Rightarrow> row \<Rightarrow> stream" where
  "left_tail c rs l = (if jc_preserve_left c \<and> \<not> (\<exists>r\<in>set rs. partners c l r) then [l] else [], None)"

definition leftover :: "nat set \<Rightarrow> row list \<Rightarrow> nat \<Rightarrow> row list" where
  "leftover matched rows i = map ((!) rows) (filter (\<lambda>j. j \<notin> matched) [i..<length rows])"

lemma leftover_step:
  "i < length rows \<Longrightarrow> leftover m rows i = (if i \<in> m then [] else [rows ! i]) @ leftover m rows (Suc i)"
  by (simp add: leftover_def upt_conv_Cons)

lemma leftover_end: "length rows \<le> i \<Longrightarrow> leftover m rows i = []"
  by (simp add: leftover_def)

definition right_tail :: "join_config \<Rightarrow> nat set \<Rightarrow> row list \<Rightarrow> nat \<Rightarrow> stream" where
  "right_tail c matched rs i = (if jc_preserve_right c then leftover matched rs i else [], None)"

lemma drain_unmatched_right:
  assumes "nl_draining s"
  shows "drain (nl_produce c) s = Some (right_tail c (nl_right_matched s) (nl_buffered s) (nl_position s))"
  using assms
proof (induction "length (nl_buffered s) - nl_position s" arbitrary: s)
  case 0
  then have "nl_produce c s = (s, Inr None)"
    by (subst nl_produce.simps, subst nl_unmatched_right.simps) simp
  from drain_cases(2) [of "nl_produce c", OF this] 0(1) show ?case by (simp add: right_tail_def leftover_end)
next
  case (Suc n)
  define s1 where "s1 = s\<lparr>nl_position := Suc (nl_position s)\<rparr>"
  from Suc(2) have lt: "nl_position s < length (nl_buffered s)" by simp
  have IH: "drain (nl_produce c) s1 =
      Some (right_tail c (nl_right_matched s) (nl_buffered s) (Suc (nl_position s)))"
    using Suc(1) [of s1] Suc(2,3) by (simp add: s1_def)
  show ?case
  proof (cases "jc_preserve_right c")
    case False
    then have "nl_produce c s = (s, Inr None)"
      using Suc(3) by (subst nl_produce.simps, subst nl_unmatched_right.simps) simp
    from drain_cases(2) [of "nl_produce c", OF this] False show ?thesis by (simp add: right_tail_def)
  next
    case True
    have step: "nl_produce c s = (if nl_position s \<in> nl_right_matched s then nl_produce c s1
        else (s1, Inr (Some (nl_buffered s ! nl_position s))))"
      using Suc(3) True lt
      by (subst (1 2) nl_produce.simps, subst nl_unmatched_right.simps) (simp add: s1_def Let_def)
    show ?thesis
    proof (cases "nl_position s \<in> nl_right_matched s")
      case in_m: True
      with step have "nl_produce c s = nl_produce c s1" by simp
      from drain_cong [of "nl_produce c", OF this] IH True lt in_m show ?thesis
        by (simp add: right_tail_def leftover_step [OF lt])
    next
      case out: False
      with step have "nl_produce c s = (s1, Inr (Some (nl_buffered s ! nl_position s)))" by simp
      from drain_cases(3) [of "nl_produce c", OF this IH] True out show ?thesis
        by (simp add: right_tail_def leftover_step [OF lt])
    qed
  qed
qed

text \<open>The state in which the loop over the buffer leaves a left row.\<close>

definition after_left :: "join_config \<Rightarrow> row \<Rightarrow> nested_loop \<Rightarrow> nested_loop" where
  "after_left c l s = s\<lparr>nl_left_row := None, nl_position := length (nl_buffered s),
     nl_left_matched := (nl_left_matched s \<or> (\<exists>r\<in>set (drop (nl_position s) (nl_buffered s)). partners c l r)),
     nl_right_matched := nl_right_matched s \<union> {i. nl_position s \<le> i \<and> i \<in> hits c (nl_buffered s) l}\<rparr>"

lemma after_left_hit:
  assumes "nl_position s < length (nl_buffered s)" and "partners c l (nl_buffered s ! nl_position s)"
  shows "after_left c l (s\<lparr>nl_position := Suc (nl_position s), nl_left_matched := True,
      nl_right_matched := insert (nl_position s) (nl_right_matched s)\<rparr>) = after_left c l s"
proof -
  have "(\<exists>r\<in>set (drop (nl_position s) (nl_buffered s)). partners c l r)"
    using assms by (metis Cons_nth_drop_Suc list.set_intros(1))
  moreover have "insert (nl_position s) (nl_right_matched s) \<union> {i. Suc (nl_position s) \<le> i \<and> i \<in> hits c (nl_buffered s) l} =
      nl_right_matched s \<union> {i. nl_position s \<le> i \<and> i \<in> hits c (nl_buffered s) l}"
    using assms by (auto simp: hits_def Suc_le_eq order.order_iff_strict)
  ultimately show ?thesis by (simp add: after_left_def)
qed

lemma after_left_miss:
  assumes "nl_position s < length (nl_buffered s)" and "\<not> partners c l (nl_buffered s ! nl_position s)"
  shows "after_left c l (s\<lparr>nl_position := Suc (nl_position s)\<rparr>) = after_left c l s"
proof -
  have "(\<exists>r\<in>set (drop (nl_position s) (nl_buffered s)). partners c l r) \<longleftrightarrow>
      (\<exists>r\<in>set (drop (Suc (nl_position s)) (nl_buffered s)). partners c l r)"
    using assms by (simp add: Cons_nth_drop_Suc [symmetric])
  moreover have "{i. Suc (nl_position s) \<le> i \<and> i \<in> hits c (nl_buffered s) l} =
      {i. nl_position s \<le> i \<and> i \<in> hits c (nl_buffered s) l}"
    using assms(2) by (auto simp: hits_def Suc_le_eq order.order_iff_strict)
  ultimately show ?thesis by (simp add: after_left_def)
qed

lemma drain_left_row:
  assumes "nl_left_row s = Some l" and "\<not> nl_draining s" and "nl_position s \<le> length (nl_buffered s)"
    and "drain (nl_produce c) (after_left c l s) = Some t"
  shows "drain (nl_produce c) s = Some (then_stream (flat_map (pair_row c l) (drop (nl_position s) (nl_buffered s)))
    (then_stream (if jc_preserve_left c \<and> \<not> nl_left_matched (after_left c l s) then [l] else [], None) t))"
  using assms
proof (induction "length (nl_buffered s) - nl_position s" arbitrary: s)
  case 0
  then have scan: "nl_scan c l s = (s, Inr None)" by (subst nl_scan.simps) simp
  have pos: "nl_position s = length (nl_buffered s)" using 0 by simp
  then have after: "after_left c l s = s\<lparr>nl_left_row := None\<rparr>"
    by (cases s) (auto simp: after_left_def hits_def)
  show ?case
  proof (cases "jc_preserve_left c \<and> \<not> nl_left_matched s")
    case True
    with 0 scan have "nl_produce c s = (after_left c l s, Inr (Some l))"
      by (subst nl_produce.simps) (simp add: after Let_def)
    from drain_cases(3) [of "nl_produce c", OF this 0(5)] True 0(1) show ?thesis by (simp add: after)
  next
    case False
    with 0 scan have "nl_produce c s = nl_produce c (after_left c l s)"
      by (subst nl_produce.simps) (auto simp: after Let_def)
    from drain_cong [of "nl_produce c", OF this] False 0(1,5) show ?thesis by (auto simp: after)
  qed
next
  case (Suc n)
  define right where "right = nl_buffered s ! nl_position s"
  define s1 where "s1 = s\<lparr>nl_position := Suc (nl_position s)\<rparr>"
  define s2 where "s2 = s1\<lparr>nl_left_matched := True, nl_right_matched := insert (nl_position s) (nl_right_matched s)\<rparr>"
  from Suc(2) have lt: "nl_position s < length (nl_buffered s)" by simp
  then have drop: "drop (nl_position s) (nl_buffered s) = right # drop (Suc (nl_position s)) (nl_buffered s)"
    by (simp add: right_def Cons_nth_drop_Suc)
  have scan: "nl_scan c l s = (case matches (jc_predicate c) (merge_rows (jc_slices c) l right) of
       Inl e \<Rightarrow> (s1, Inl e)
     | Inr True \<Rightarrow> (s2, Inr (Some (merge_rows (jc_slices c) l right)))
     | Inr False \<Rightarrow> nl_scan c l s1)"
    using lt by (subst nl_scan.simps) (simp add: s1_def s2_def right_def Let_def cong: sum.case_cong bool.case_cong)
  let ?tail = "then_stream (if jc_preserve_left c \<and> \<not> nl_left_matched (after_left c l s) then [l] else [], None) t"
  show ?case
  proof (cases "matches (jc_predicate c) (merge_rows (jc_slices c) l right)")
    case (Inl e)
    with scan Suc(3,4) have "nl_produce c s = (s1, Inl e)" by (subst nl_produce.simps) simp
    from drain_cases(1) [of "nl_produce c", OF this] Inl show ?thesis
      by (simp add: drop pair_row_def filter_row_def)
  next
    case (Inr b)
    show ?thesis
    proof (cases b)
      case True
      with scan Inr Suc(3,4) have step: "nl_produce c s = (s2, Inr (Some (merge_rows (jc_slices c) l right)))"
        by (subst nl_produce.simps) simp
      have after: "after_left c l s2 = after_left c l s"
        unfolding s2_def s1_def
        using after_left_hit [OF lt] Inr True by (simp add: partners_def right_def)
      have "drain (nl_produce c) s2 = Some (then_stream (flat_map (pair_row c l) (drop (nl_position s2) (nl_buffered s2)))
          (then_stream (if jc_preserve_left c \<and> \<not> nl_left_matched (after_left c l s2) then [l] else [], None) t))"
        by (intro Suc(1)) (use Suc(2-5) Suc(6) [folded after] in \<open>simp_all add: s2_def s1_def\<close>)
      then have "drain (nl_produce c) s2 = Some (then_stream (flat_map (pair_row c l) (drop (Suc (nl_position s)) (nl_buffered s))) ?tail)"
        unfolding after by (simp add: s2_def s1_def)
      from drain_cases(3) [of "nl_produce c", OF step this] Inr True show ?thesis
        by (simp add: drop pair_row_def filter_row_def then_stream_assoc)
    next
      case False
      with scan Inr have "nl_scan c l s = nl_scan c l s1" by simp
      then have step: "nl_produce c s = nl_produce c s1"
        using Suc(3,4) by (subst (1 2) nl_produce.simps) (simp add: s1_def)
      have after: "after_left c l s1 = after_left c l s"
        unfolding s1_def using after_left_miss [OF lt] Inr False by (simp add: partners_def right_def)
      have "drain (nl_produce c) s1 = Some (then_stream (flat_map (pair_row c l) (drop (nl_position s1) (nl_buffered s1)))
          (then_stream (if jc_preserve_left c \<and> \<not> nl_left_matched (after_left c l s1) then [l] else [], None) t))"
        by (intro Suc(1)) (use Suc(2-5) Suc(6) [folded after] in \<open>simp_all add: s1_def\<close>)
      with drain_cong [of "nl_produce c", OF step] Inr False show ?thesis
        unfolding after by (simp add: drop pair_row_def filter_row_def s1_def)
    qed
  qed
qed

text \<open>Every left row against the whole buffer; then the right rows no left row matched.\<close>

definition left_block :: "join_config \<Rightarrow> row list \<Rightarrow> row \<Rightarrow> stream" where
  "left_block c rs l = then_stream (flat_map (pair_row c l) rs) (left_tail c rs l)"

lemma drain_nested_loop:
  assumes "nl_left s = (ls, e)" and "nl_left_row s = None" and "\<not> nl_draining s"
    and "nl_position s \<le> length (nl_buffered s)"
  shows "drain (nl_produce c) s =
    Some (then_stream (generated (left_block c (nl_buffered s)) ls e)
            (right_tail c (nl_right_matched s \<union> (\<Union>l\<in>set ls. hits c (nl_buffered s) l)) (nl_buffered s) 0))"
  using assms
proof (induction ls arbitrary: s)
  case Nil
  show ?case
  proof (cases e)
    case None
    define s1 where "s1 = s\<lparr>nl_left := no_rows, nl_draining := True, nl_position := 0\<rparr>"
    have "nl_produce c s = nl_produce c s1"
      using Nil None by (subst (1 2) nl_produce.simps) (simp add: s1_def)
    from drain_cong [of "nl_produce c", OF this] drain_unmatched_right [of s1 c]
    show ?thesis by (simp add: s1_def None)
  next
    case (Some err)
    with Nil have "nl_produce c s = (s\<lparr>nl_left := ([], Some err)\<rparr>, Inl err)"
      by (subst nl_produce.simps) simp
    from drain_cases(1) [of "nl_produce c", OF this] Some show ?thesis by simp
  qed
next
  case (Cons l ls)
  let ?rs = "nl_buffered s"
  define s1 where "s1 = s\<lparr>nl_left := (ls, e), nl_left_row := Some l, nl_position := 0, nl_left_matched := False\<rparr>"
  have step: "nl_produce c s = nl_produce c s1"
    using Cons(2-4) by (subst nl_produce.simps) (simp add: s1_def)
  define s2 where "s2 = after_left c l s1"
  have s2: "nl_left s2 = (ls, e)" "nl_left_row s2 = None" "\<not> nl_draining s2" "nl_position s2 = length ?rs"
    "nl_buffered s2 = ?rs" "nl_right_matched s2 = nl_right_matched s \<union> hits c ?rs l"
    "nl_left_matched s2 \<longleftrightarrow> (\<exists>r\<in>set ?rs. partners c l r)"
    using Cons(4) by (auto simp: s2_def s1_def after_left_def)
  let ?t = "then_stream (generated (left_block c ?rs) ls e)
      (right_tail c (nl_right_matched s \<union> hits c ?rs l \<union> (\<Union>l\<in>set ls. hits c ?rs l)) ?rs 0)"
  have t: "drain (nl_produce c) s2 = Some ?t"
    using Cons(1) [of s2] s2 by simp
  have "drain (nl_produce c) s1 = Some (then_stream (flat_map (pair_row c l) (drop (nl_position s1) (nl_buffered s1)))
    (then_stream (if jc_preserve_left c \<and> \<not> nl_left_matched (after_left c l s1) then [l] else [], None) ?t))"
    by (rule drain_left_row) (use Cons(4) t in \<open>simp_all add: s1_def s2_def\<close>)
  moreover have "(if jc_preserve_left c \<and> \<not> nl_left_matched (after_left c l s1) then [l] else [], None) = left_tail c ?rs l"
    using s2(7) by (simp add: left_tail_def s2_def)
  ultimately have "drain (nl_produce c) s1 =
      Some (then_stream (flat_map (pair_row c l) ?rs) (then_stream (left_tail c ?rs l) ?t))"
    by (simp add: s1_def)
  with drain_cong [of "nl_produce c", OF step] show ?case
    by (simp add: left_block_def [of c ?rs l] then_stream_assoc Un_assoc)
qed

text \<open>The leftovers by row instead of by index.\<close>

lemma leftover_filter:
  assumes "\<And>i. i < length rows \<Longrightarrow> i \<in> m \<longleftrightarrow> P (rows ! i)"
  shows "leftover m rows 0 = filter (\<lambda>r. \<not> P r) rows"
proof -
  have "filter (\<lambda>j. j \<notin> m) [0..<length rows] = filter (\<lambda>j. \<not> P (rows ! j)) [0..<length rows]"
    by (rule filter_cong) (simp_all add: assms)
  then have "leftover m rows 0 = filter (\<lambda>r. \<not> P r) (map ((!) rows) [0..<length rows])"
    by (simp add: leftover_def filter_map o_def)
  then show ?thesis by (simp add: map_nth)
qed

definition nested_loop_spec :: "join_config \<Rightarrow> stream \<Rightarrow> row list \<Rightarrow> stream" where
  "nested_loop_spec c left rs =
     then_stream (generated (left_block c rs) (fst left) (snd left))
       (if jc_preserve_right c then filter (\<lambda>r. \<not> (\<exists>l\<in>set (fst left). partners c l r)) rs else [], None)"

lemma nested_loop_result:
  assumes "nl_open left (rs, None) = Inr s"
  shows "drain (nl_produce c) s = Some (nested_loop_spec c left rs)"
proof -
  from assms have s: "s = \<lparr>nl_left = left, nl_buffered = rs, nl_left_row = None, nl_position = 0,
       nl_left_matched = False, nl_draining = False, nl_right_matched = {}\<rparr>" by (simp add: nl_open_def)
  obtain ls e where left: "left = (ls, e)" by force
  have "leftover (\<Union>l\<in>set ls. hits c rs l) rs 0 = filter (\<lambda>r. \<not> (\<exists>l\<in>set ls. partners c l r)) rs"
    by (rule leftover_filter) (auto simp: hits_def)
  with drain_nested_loop [of s ls e c] show ?thesis
    by (simp add: s left nested_loop_spec_def right_tail_def)
qed

section \<open>Dictionaries\<close>

text \<open>
  What a dictionary asks of \<open>==\<close> on its keys, and what it gives back: after a set, the new value under
  every equal key and the old ones elsewhere.
\<close>

locale key_equality =
  fixes eq :: "'k \<Rightarrow> 'k \<Rightarrow> bool" and ok :: "'k \<Rightarrow> bool"
  assumes eq_refl: "ok k \<Longrightarrow> eq k k"
    and eq_sym: "ok k \<Longrightarrow> ok k' \<Longrightarrow> eq k k' \<Longrightarrow> eq k' k"
    and eq_trans: "ok k \<Longrightarrow> ok k' \<Longrightarrow> ok k'' \<Longrightarrow> eq k k' \<Longrightarrow> eq k' k'' \<Longrightarrow> eq k k''"
begin

lemma eq_cong: "ok k \<Longrightarrow> ok k' \<Longrightarrow> ok x \<Longrightarrow> eq k k' \<Longrightarrow> eq k x \<longleftrightarrow> eq k' x"
  using eq_sym eq_trans by meson

lemma dict_get_set:
  "\<forall>(k0, v0)\<in>set d. ok k0 \<Longrightarrow> ok k \<Longrightarrow> ok k' \<Longrightarrow>
   dict_get eq (dict_set eq d k v) k' = (if eq k k' then Some v else dict_get eq d k')"
proof (induction d)
  case (Cons entry d)
  obtain k0 v0 where entry: "entry = (k0, v0)" by force
  with Cons.prems have k0: "ok k0" by simp
  show ?case
  proof (cases "eq k0 k")
    case True
    with eq_cong [OF k0 Cons.prems(2,3) True] show ?thesis by (simp add: entry)
  next
    case False
    have "\<not> eq k0 k'" if "eq k k'"
      using False that eq_trans [OF k0 Cons.prems(3,2)] eq_sym [OF Cons.prems(2,3)] by blast
    with False Cons show ?thesis by (auto simp: entry)
  qed
qed simp

lemma dict_set_keys: "\<forall>(k0, v0)\<in>set d. ok k0 \<Longrightarrow> ok k \<Longrightarrow> \<forall>(k0, v0)\<in>set (dict_set eq d k v). ok k0"
  by (induction d) (auto split: if_splits)

end

text \<open>Values without NaN: Python's \<open>==\<close> is an equivalence on them, across integers, floats and booleans.\<close>

definition ordinary :: "pyval \<Rightarrow> bool" where
  "ordinary v = (case v of PyFloat w \<Rightarrow> isfinite w | _ \<Rightarrow> True)"

fun py_scaled :: "pyval \<Rightarrow> int + pyval" where
  "py_scaled (PyInt n) = Inl (n_scaled (IntV n))"
| "py_scaled (PyFloat w) = Inl (n_scaled (FloatV w))"
| "py_scaled (PyBool b) = Inl (n_scaled (IntV (of_bool b)))"
| "py_scaled v = Inr v"

lemma py_eq_scaled: "ordinary v \<Longrightarrow> ordinary w \<Longrightarrow> py_eq v w \<longleftrightarrow> py_scaled v = py_scaled w"
  by (cases v; cases w) (auto simp: py_eq_def ordinary_def num_eq_def isfinite_not_special)

interpretation py_key: key_equality py_eq ordinary
  by unfold_locales (simp_all add: py_eq_scaled)

lemma key_eq_scaled:
  "list_all ordinary v \<Longrightarrow> list_all ordinary w \<Longrightarrow> key_eq v w \<longleftrightarrow> map py_scaled v = map py_scaled w"
  unfolding key_eq_def list_all2_conv_all_nth list_eq_iff_nth_eq list_all_length
  by (auto simp: py_eq_scaled)

interpretation row_key: key_equality key_eq "list_all ordinary"
  by unfold_locales (simp_all add: key_eq_scaled)

section \<open>The hash table\<close>

definition bucket_of :: "pyval list \<Rightarrow> pyval \<Rightarrow> nat list" where
  "bucket_of keys key = filter (\<lambda>i. keys ! i \<noteq> PyNone \<and> py_eq (keys ! i) key) [0..<length keys]"

definition table_ok :: "(pyval \<times> nat list) list \<Rightarrow> pyval list \<Rightarrow> bool" where
  "table_ok table keys \<longleftrightarrow> (\<forall>(k, v)\<in>set table. ordinary k) \<and>
     (\<forall>key. ordinary key \<longrightarrow>
        (case dict_get py_eq table key of None \<Rightarrow> [] | Some is \<Rightarrow> is) = bucket_of keys key)"

lemma bucket_of_snoc:
  "bucket_of (keys @ [k]) key =
     bucket_of keys key @ (if k \<noteq> PyNone \<and> py_eq k key then [length keys] else [])"
proof -
  have "filter (\<lambda>i. (keys @ [k]) ! i \<noteq> PyNone \<and> py_eq ((keys @ [k]) ! i) key) [0..<length keys] =
      filter (\<lambda>i. keys ! i \<noteq> PyNone \<and> py_eq (keys ! i) key) [0..<length keys]"
    by (rule filter_cong) (simp_all add: nth_append)
  then show ?thesis by (simp add: bucket_of_def)
qed

lemma table_add_ok:
  assumes "table_ok table keys" and "ordinary k" and "k \<noteq> PyNone"
  shows "table_ok (table_add table k (length keys)) (keys @ [k])"
proof -
  let ?old = "case dict_get py_eq table k of None \<Rightarrow> [] | Some is \<Rightarrow> is"
  have ok: "\<forall>(k, v)\<in>set table. ordinary k" and get: "\<And>key. ordinary key \<Longrightarrow>
      (case dict_get py_eq table key of None \<Rightarrow> [] | Some is \<Rightarrow> is) = bucket_of keys key"
    using assms(1) by (auto simp: table_ok_def)
  have "(case dict_get py_eq (table_add table k (length keys)) key of None \<Rightarrow> [] | Some is \<Rightarrow> is) =
      bucket_of (keys @ [k]) key" if key: "ordinary key" for key
  proof (cases "py_eq k key")
    case True
    have "py_eq (keys ! i) k \<longleftrightarrow> py_eq (keys ! i) key" if "ordinary (keys ! i)" for i
      using py_key.eq_sym py_key.eq_trans that assms(2) key True by metis
    have "bucket_of keys k = bucket_of keys key"
    proof -
      have "dict_get py_eq table k = dict_get py_eq table key"
        using ok by (induction table) (use True assms(2) key py_eq_scaled in auto)
      then show ?thesis using get [OF assms(2)] get [OF key] by simp
    qed
    with True assms(3) get [OF assms(2)] show ?thesis
      by (simp add: table_add_def py_key.dict_get_set [OF ok assms(2) key] bucket_of_snoc)
  next
    case False
    with get [OF key] show ?thesis
      by (simp add: table_add_def py_key.dict_get_set [OF ok assms(2) key] bucket_of_snoc)
  qed
  moreover have "\<forall>(k, v)\<in>set (table_add table k (length keys)). ordinary k"
    unfolding table_add_def by (rule py_key.dict_set_keys [OF ok assms(2)])
  ultimately show ?thesis by (simp add: table_ok_def)
qed

lemma table_skip_ok: "table_ok table keys \<Longrightarrow> table_ok table (keys @ [PyNone])"
  by (simp add: table_ok_def bucket_of_snoc)

text \<open>Building the table: the keys of the build rows, in order, and a table that finds their indices.\<close>

lemma build_table_ok:
  assumes "table_ok table keys" and "build_table bk (length keys) table rows = Inr table'"
    and "\<And>row k. row \<in> set rows \<Longrightarrow> evaluate bk row = Inr k \<Longrightarrow> ordinary k"
  shows "\<exists>ks. map (evaluate bk) rows = map Inr ks \<and> table_ok table' (keys @ ks)"
  using assms
proof (induction rows arbitrary: keys table)
  case Nil
  then show ?case by (intro exI [of _ "[]"]) simp
next
  case (Cons row rows)
  then obtain k where k: "evaluate bk row = Inr k"
    and rest: "build_table bk (length (keys @ [k])) (if k = PyNone then table else table_add table k (length keys)) rows = Inr table'"
    by (auto simp: bind_res_Inr)
  have "table_ok (if k = PyNone then table else table_add table k (length keys)) (keys @ [k])"
    using table_add_ok [OF Cons.prems(1) Cons.prems(3) [OF list.set_intros(1) k]] table_skip_ok [OF Cons.prems(1)]
    by simp
  from Cons.IH [OF this rest] Cons.prems(3) obtain ks
    where "map (evaluate bk) rows = map Inr ks" "table_ok table' ((keys @ [k]) @ ks)" by auto
  with k show ?case by (intro exI [of _ "k # ks"]) simp
qed

lemma table_ok_Nil: "table_ok [] []"
  by (simp add: table_ok_def bucket_of_def)

section \<open>The hash join\<close>

definition hj_pair :: "hash_config \<Rightarrow> row list \<Rightarrow> row \<Rightarrow> nat \<Rightarrow> row" where
  "hj_pair c build probe i = merge_rows (jc_slices (hc_join c)) (build ! i) probe"

definition hj_row :: "hash_config \<Rightarrow> row list \<Rightarrow> row \<Rightarrow> nat \<Rightarrow> stream" where
  "hj_row c build probe i = (case hj_matches c (hj_pair c build probe i) of
       Inl e \<Rightarrow> ([], Some e) | Inr keep \<Rightarrow> (if keep then [hj_pair c build probe i] else [], None))"

definition hj_hit :: "hash_config \<Rightarrow> row list \<Rightarrow> row \<Rightarrow> nat \<Rightarrow> bool" where
  "hj_hit c build probe i \<longleftrightarrow> hj_matches c (hj_pair c build probe i) = Inr True"

text \<open>The state after the bucket of the probe row in hand is used up.\<close>

definition after_bucket :: "hash_config \<Rightarrow> hash_join \<Rightarrow> hash_join" where
  "after_bucket c s = s\<lparr>hj_position := length (hj_bucket s),
     hj_probe_matched := (hj_probe_matched s \<or> (\<exists>i\<in>set (drop (hj_position s) (hj_bucket s)). hj_hit c (hj_build s) (hj_probe_row s) i)),
     hj_build_matched := (if jc_preserve_left (hc_join c)
       then hj_build_matched s \<union> {i \<in> set (drop (hj_position s) (hj_bucket s)). hj_hit c (hj_build s) (hj_probe_row s) i}
       else hj_build_matched s)\<rparr>"

lemma drain_bucket:
  assumes "hj_position s \<le> length (hj_bucket s)" and "drain (hj_produce c) (after_bucket c s) = Some t"
  shows "drain (hj_produce c) s =
    Some (then_stream (flat_map (hj_row c (hj_build s) (hj_probe_row s)) (drop (hj_position s) (hj_bucket s))) t)"
  using assms
proof (induction "length (hj_bucket s) - hj_position s" arbitrary: s)
  case 0
  then have "after_bucket c s = s" by (cases s) (auto simp: after_bucket_def)
  with 0 show ?case by simp
next
  case (Suc n)
  define i where "i = hj_bucket s ! hj_position s"
  define s1 where "s1 = s\<lparr>hj_position := Suc (hj_position s)\<rparr>"
  define s2 where "s2 = s1\<lparr>hj_probe_matched := True,
    hj_build_matched := (if jc_preserve_left (hc_join c) then insert i (hj_build_matched s) else hj_build_matched s)\<rparr>"
  let ?m = "hj_pair c (hj_build s) (hj_probe_row s) i"
  from Suc(2) have lt: "hj_position s < length (hj_bucket s)" by simp
  then have drop: "drop (hj_position s) (hj_bucket s) = i # drop (Suc (hj_position s)) (hj_bucket s)"
    by (simp add: i_def Cons_nth_drop_Suc)
  have scan: "hj_scan c s = (case hj_matches c ?m of
       Inl e \<Rightarrow> (s1, Inl e) | Inr True \<Rightarrow> (s2, Inr (Some ?m)) | Inr False \<Rightarrow> hj_scan c s1)"
    using lt by (subst hj_scan.simps)
      (simp add: s1_def s2_def i_def hj_pair_def Let_def cong: sum.case_cong bool.case_cong)
  show ?case
  proof (cases "hj_matches c ?m")
    case (Inl e)
    with scan have "hj_produce c s = (s1, Inl e)" by (subst hj_produce.simps) simp
    from drain_cases(1) [of "hj_produce c", OF this] Inl show ?thesis by (simp add: drop hj_row_def)
  next
    case (Inr b)
    show ?thesis
    proof (cases b)
      case True
      with scan Inr have step: "hj_produce c s = (s2, Inr (Some ?m))" by (subst hj_produce.simps) simp
      have hit: "hj_hit c (hj_build s) (hj_probe_row s) i" using Inr True by (simp add: hj_hit_def)
      then have "{x \<in> set (drop (hj_position s) (hj_bucket s)). hj_hit c (hj_build s) (hj_probe_row s) x} =
          insert i {x \<in> set (drop (Suc (hj_position s)) (hj_bucket s)). hj_hit c (hj_build s) (hj_probe_row s) x}"
        unfolding drop by auto
      with hit have after: "after_bucket c s2 = after_bucket c s"
        by (simp add: s2_def s1_def after_bucket_def drop)
      have "drain (hj_produce c) s2 = Some (then_stream (flat_map (hj_row c (hj_build s2) (hj_probe_row s2))
          (drop (hj_position s2) (hj_bucket s2))) t)"
        by (intro Suc(1)) (use Suc(2,3) Suc(4) [folded after] in \<open>simp_all add: s2_def s1_def\<close>)
      then have "drain (hj_produce c) s2 = Some (then_stream (flat_map (hj_row c (hj_build s) (hj_probe_row s))
          (drop (Suc (hj_position s)) (hj_bucket s))) t)" by (simp add: s2_def s1_def)
      from drain_cases(3) [of "hj_produce c", OF step this] Inr True show ?thesis
        by (simp add: drop hj_row_def then_stream_assoc)
    next
      case False
      with scan Inr have "hj_scan c s = hj_scan c s1" by simp
      then have step: "hj_produce c s = hj_produce c s1" by (subst (1 2) hj_produce.simps) simp
      have hit: "\<not> hj_hit c (hj_build s) (hj_probe_row s) i" using Inr False by (simp add: hj_hit_def)
      then have "{x \<in> set (drop (hj_position s) (hj_bucket s)). hj_hit c (hj_build s) (hj_probe_row s) x} =
          {x \<in> set (drop (Suc (hj_position s)) (hj_bucket s)). hj_hit c (hj_build s) (hj_probe_row s) x}"
        unfolding drop by auto
      with hit have after: "after_bucket c s1 = after_bucket c s"
        by (simp add: s1_def after_bucket_def drop)
      have "drain (hj_produce c) s1 = Some (then_stream (flat_map (hj_row c (hj_build s1) (hj_probe_row s1))
          (drop (hj_position s1) (hj_bucket s1))) t)"
        by (intro Suc(1)) (use Suc(2,3) Suc(4) [folded after] in \<open>simp_all add: s1_def\<close>)
      with drain_cong [of "hj_produce c", OF step] Inr False show ?thesis
        by (simp add: drop hj_row_def s1_def)
    qed
  qed
qed

text \<open>Between two probe rows: the bucket is used up and its row, if unmatched, is out.\<close>

definition settled :: "hash_config \<Rightarrow> hash_join \<Rightarrow> bool" where
  "settled c s \<longleftrightarrow> length (hj_bucket s) \<le> hj_position s \<and>
     \<not> (jc_preserve_right (hc_join c) \<and> hj_bucket s \<noteq> [] \<and> \<not> hj_probe_matched s)"

lemma hj_scan_used_up: "length (hj_bucket s) \<le> hj_position s \<Longrightarrow> hj_scan c s = (s, Inr None)"
  by (subst hj_scan.simps) simp

definition build_tail :: "hash_config \<Rightarrow> nat set \<Rightarrow> row list \<Rightarrow> nat \<Rightarrow> stream" where
  "build_tail c matched build i = (if jc_preserve_left (hc_join c) then leftover matched build i else [], None)"

lemma drain_unmatched_build:
  assumes "hj_draining s" and "settled c s"
  shows "drain (hj_produce c) s = Some (build_tail c (hj_build_matched s) (hj_build s) (hj_drain s))"
  using assms
proof (induction "length (hj_build s) - hj_drain s" arbitrary: s)
  case 0
  then have "hj_produce c s = (s, Inr None)"
    by (subst hj_produce.simps, subst hj_unmatched_build.simps) (simp add: hj_scan_used_up settled_def)
  from drain_cases(2) [of "hj_produce c", OF this] 0(1) show ?case by (simp add: build_tail_def leftover_end)
next
  case (Suc n)
  define s1 where "s1 = s\<lparr>hj_drain := Suc (hj_drain s)\<rparr>"
  from Suc(2) have lt: "hj_drain s < length (hj_build s)" by simp
  have s1: "hj_draining s1" "settled c s1" using Suc(3,4) by (simp_all add: s1_def settled_def)
  have IH: "drain (hj_produce c) s1 = Some (build_tail c (hj_build_matched s) (hj_build s) (Suc (hj_drain s)))"
    using Suc(1) [of s1] Suc(2) s1 by (simp add: s1_def)
  have produce: "hj_produce c x = hj_unmatched_build c x" if "hj_draining x" "settled c x" for x
    using that by (subst hj_produce.simps) (auto simp: hj_scan_used_up settled_def)
  show ?case
  proof (cases "jc_preserve_left (hc_join c)")
    case False
    then have "hj_produce c s = (s, Inr None)"
      unfolding produce [OF Suc(3,4)] by (subst hj_unmatched_build.simps) simp
    from drain_cases(2) [of "hj_produce c", OF this] False show ?thesis by (simp add: build_tail_def)
  next
    case True
    have step: "hj_produce c s = (if hj_drain s \<in> hj_build_matched s then hj_produce c s1
        else (s1, Inr (Some (hj_build s ! hj_drain s))))"
      unfolding produce [OF Suc(3,4)] produce [OF s1]
      using True lt by (subst hj_unmatched_build.simps) (simp add: s1_def Let_def)
    show ?thesis
    proof (cases "hj_drain s \<in> hj_build_matched s")
      case in_m: True
      with step have "hj_produce c s = hj_produce c s1" by simp
      from drain_cong [of "hj_produce c", OF this] IH True in_m show ?thesis
        by (simp add: build_tail_def leftover_step [OF lt])
    next
      case out: False
      with step have "hj_produce c s = (s1, Inr (Some (hj_build s ! hj_drain s)))" by simp
      from drain_cases(3) [of "hj_produce c", OF this IH] True out show ?thesis
        by (simp add: build_tail_def leftover_step [OF lt])
    qed
  qed
qed

definition probe_tail :: "hash_config \<Rightarrow> row list \<Rightarrow> nat list \<Rightarrow> row \<Rightarrow> stream" where
  "probe_tail c build bucket p =
     (if jc_preserve_right (hc_join c) \<and> \<not> (\<exists>i\<in>set bucket. hj_hit c build p i) then [p] else [], None)"

definition probe_block :: "hash_config \<Rightarrow> row list \<Rightarrow> pyval list \<Rightarrow> row \<Rightarrow> stream" where
  "probe_block c build keys p = (case evaluate (hc_probe_key c) p of
       Inl e \<Rightarrow> ([], Some e)
     | Inr k \<Rightarrow> then_stream (flat_map (hj_row c build p) (bucket_of keys k)) (probe_tail c build (bucket_of keys k) p))"

definition probe_hits :: "hash_config \<Rightarrow> row list \<Rightarrow> pyval list \<Rightarrow> row \<Rightarrow> nat set" where
  "probe_hits c build keys p =
     {i. \<exists>k. evaluate (hc_probe_key c) p = Inr k \<and> i \<in> set (bucket_of keys k) \<and> hj_hit c build p i}"

lemma bucket_of_None [simp]: "bucket_of keys PyNone = []"
  by (auto simp: bucket_of_def filter_empty_conv py_eq_def split: option.splits)

lemma table_lookup:
  assumes "table_ok table keys" and "ordinary k"
  shows "(if k = PyNone then [] else case dict_get py_eq table k of None \<Rightarrow> [] | Some b \<Rightarrow> b) = bucket_of keys k"
  using assms by (simp add: table_ok_def)

lemma build_tail_cong:
  "(jc_preserve_left (hc_join c) \<Longrightarrow> m = m') \<Longrightarrow> build_tail c m b i = build_tail c m' b i"
  by (simp add: build_tail_def)

lemma drain_hash_join:
  assumes "hj_right s = (ps, e)" and "settled c s" and "\<not> hj_draining s" and "table_ok (hj_table s) keys"
    and "\<And>p k. p \<in> set ps \<Longrightarrow> evaluate (hc_probe_key c) p = Inr k \<Longrightarrow> ordinary k"
  shows "drain (hj_produce c) s =
    Some (then_stream (generated (probe_block c (hj_build s) keys) ps e)
            (build_tail c (hj_build_matched s \<union> (\<Union>p\<in>set ps. probe_hits c (hj_build s) keys p)) (hj_build s) (hj_drain s)))"
  using assms
proof (induction ps arbitrary: s)
  case Nil
  have scan: "hj_scan c s = (s, Inr None)" and emit: "\<not> (jc_preserve_right (hc_join c) \<and> hj_bucket s \<noteq> [] \<and> \<not> hj_probe_matched s)"
    using Nil by (simp_all add: settled_def hj_scan_used_up)
  show ?case
  proof (cases e)
    case None
    define s1 where "s1 = s\<lparr>hj_right := no_rows, hj_draining := True\<rparr>"
    have "hj_produce c s = hj_produce c s1"
      using Nil None scan by (subst hj_produce.simps) (auto simp: s1_def settled_def)
    moreover have "settled c s1" using Nil by (simp add: s1_def settled_def)
    ultimately show ?thesis using drain_cong [of "hj_produce c" s s1] drain_unmatched_build [of s1 c]
      by (simp add: s1_def None)
  next
    case (Some err)
    with Nil scan have "hj_produce c s = (s\<lparr>hj_right := ([], Some err)\<rparr>, Inl err)"
      by (subst hj_produce.simps) (auto simp: settled_def)
    from drain_cases(1) [of "hj_produce c", OF this] Some show ?thesis by simp
  qed
next
  case (Cons p ps)
  let ?B = "hj_build s"
  define s1 where "s1 = s\<lparr>hj_right := (ps, e)\<rparr>"
  have scan: "hj_scan c s = (s, Inr None)" and emit: "\<not> (jc_preserve_right (hc_join c) \<and> hj_bucket s \<noteq> [] \<and> \<not> hj_probe_matched s)"
    using Cons(3) by (simp_all add: settled_def hj_scan_used_up)
  have pull: "pull (hj_right s) = ((ps, e), Inr (Some p))" using Cons(2) by simp
  have s1: "hj_right s1 = (ps, e)" "settled c s1" "\<not> hj_draining s1" "table_ok (hj_table s1) keys"
    using Cons(3-5) by (simp_all add: s1_def settled_def)
  have ordinary: "\<And>q k. q \<in> set ps \<Longrightarrow> evaluate (hc_probe_key c) q = Inr k \<Longrightarrow> ordinary k"
    using Cons(6) by (meson list.set_intros(2))
  have table: "hj_table s = hj_table s1" by (simp add: s1_def)
  show ?case
  proof (cases "evaluate (hc_probe_key c) p")
    case (Inl err)
    then have "hj_produce c s = (s1, Inl err)"
      using scan emit pull Cons(4) by (subst hj_produce.simps) (auto simp: s1_def Let_def)
    from drain_cases(1) [of "hj_produce c", OF this] Inl show ?thesis by (simp add: probe_block_def)
  next
    case (Inr k)
    define bucket where "bucket = bucket_of keys k"
    have lookup: "(if k = PyNone then [] else case dict_get py_eq (hj_table s) k of None \<Rightarrow> [] | Some b \<Rightarrow> b) = bucket"
      unfolding bucket_def by (rule table_lookup [OF Cons(5) Cons(6) [OF list.set_intros(1) Inr]])
    have hits: "probe_hits c ?B keys p = {i \<in> set bucket. hj_hit c ?B p i}"
      by (simp add: probe_hits_def Inr bucket_def)
    have produce: "hj_produce c s = (if bucket = [] then (if jc_preserve_right (hc_join c) then (s1, Inr (Some p)) else hj_produce c s1)
        else hj_produce c (s1\<lparr>hj_probe_row := p, hj_bucket := bucket, hj_position := 0, hj_probe_matched := False\<rparr>))"
      using scan emit pull Cons(4) Inr lookup
      by (subst hj_produce.simps) (auto simp: s1_def Let_def)
    show ?thesis
    proof (cases "bucket = []")
      case True
      have IH: "drain (hj_produce c) s1 = Some (then_stream (generated (probe_block c ?B keys) ps e)
          (build_tail c (hj_build_matched s \<union> (\<Union>p\<in>set ps. probe_hits c ?B keys p)) ?B (hj_drain s)))"
        using Cons(1) [OF s1 ordinary] by (simp add: s1_def)
      have block: "probe_block c ?B keys p = (if jc_preserve_right (hc_join c) then [p] else [], None)"
        using True by (simp add: probe_block_def Inr bucket_def probe_tail_def)
      have no_hits: "probe_hits c ?B keys p = {}" by (simp add: hits True)
      show ?thesis
      proof (cases "jc_preserve_right (hc_join c)")
        case pr: True
        with produce True have "hj_produce c s = (s1, Inr (Some p))" by simp
        from drain_cases(3) [of "hj_produce c", OF this IH] pr show ?thesis
          by (simp add: block no_hits then_stream_assoc)
      next
        case pr: False
        with produce True have "hj_produce c s = hj_produce c s1" by simp
        from drain_cong [of "hj_produce c", OF this] IH pr show ?thesis
          by (simp add: block no_hits)
      qed
    next
      case False
      define s2 where "s2 = s1\<lparr>hj_probe_row := p, hj_bucket := bucket, hj_position := 0, hj_probe_matched := False\<rparr>"
      define a where "a = after_bucket c s2"
      define pm where "pm = (\<exists>i\<in>set bucket. hj_hit c ?B p i)"
      have a: "hj_right a = (ps, e)" "\<not> hj_draining a" "table_ok (hj_table a) keys" "hj_build a = ?B" "hj_drain a = hj_drain s"
        "hj_position a = length bucket" "hj_bucket a = bucket" "hj_probe_row a = p" "hj_probe_matched a = pm"
        "hj_build_matched a = (if jc_preserve_left (hc_join c) then hj_build_matched s \<union> probe_hits c ?B keys p else hj_build_matched s)"
        using Cons(4,5) by (simp_all add: a_def s2_def s1_def after_bucket_def pm_def hits)
      let ?rest = "then_stream (generated (probe_block c ?B keys) ps e)
          (build_tail c (hj_build_matched s \<union> probe_hits c ?B keys p \<union> (\<Union>p\<in>set ps. probe_hits c ?B keys p)) ?B (hj_drain s))"
      have rest: "drain (hj_produce c) x = Some ?rest"
        if "hj_right x = (ps, e)" "settled c x" "\<not> hj_draining x" "table_ok (hj_table x) keys"
          "hj_build x = ?B" "hj_drain x = hj_drain s" "hj_build_matched x = hj_build_matched a" for x
      proof -
        have "drain (hj_produce c) x = Some (then_stream (generated (probe_block c ?B keys) ps e)
          (build_tail c (hj_build_matched a \<union> (\<Union>p\<in>set ps. probe_hits c ?B keys p)) ?B (hj_drain s)))"
          using Cons(1) [OF that(1-4) ordinary] that(5-7) by simp
        moreover have "build_tail c (hj_build_matched a \<union> (\<Union>p\<in>set ps. probe_hits c ?B keys p)) ?B (hj_drain s) =
          build_tail c (hj_build_matched s \<union> probe_hits c ?B keys p \<union> (\<Union>p\<in>set ps. probe_hits c ?B keys p)) ?B (hj_drain s)"
          by (rule build_tail_cong) (simp add: a(10))
        ultimately show ?thesis by simp
      qed
      have t: "drain (hj_produce c) a = Some (then_stream (probe_tail c ?B bucket p) ?rest)"
      proof (cases "jc_preserve_right (hc_join c) \<and> \<not> pm")
        case True
        define b where "b = a\<lparr>hj_bucket := []\<rparr>"
        have "hj_produce c a = (b, Inr (Some p))"
          using True False a by (subst hj_produce.simps) (simp add: hj_scan_used_up b_def)
        moreover have "drain (hj_produce c) b = Some ?rest"
          by (rule rest) (simp_all add: b_def a settled_def)
        ultimately have "drain (hj_produce c) a = Some (then_stream ([p], None) ?rest)"
          by (rule drain_cases(3))
        with True show ?thesis by (simp add: probe_tail_def pm_def [symmetric])
      next
        case no: False
        have "drain (hj_produce c) a = Some ?rest"
          by (rule rest) (use no in \<open>auto simp: a settled_def\<close>)
        moreover have "probe_tail c ?B bucket p = no_rows"
          using no by (auto simp: probe_tail_def pm_def)
        ultimately show ?thesis by simp
      qed
      from False produce have "hj_produce c s = hj_produce c s2" by (simp add: s2_def)
      with drain_cong have "drain (hj_produce c) s = drain (hj_produce c) s2" by metis
      also have "\<dots> = Some (then_stream (flat_map (hj_row c (hj_build s2) (hj_probe_row s2)) (drop (hj_position s2) (hj_bucket s2)))
          (then_stream (probe_tail c ?B bucket p) ?rest))"
        by (rule drain_bucket) (use t in \<open>simp_all add: a_def s2_def\<close>)
      also have "\<dots> = Some (then_stream (then_stream (flat_map (hj_row c ?B p) bucket) (probe_tail c ?B bucket p)) ?rest)"
        by (simp add: s2_def s1_def then_stream_assoc)
      finally show ?thesis
        by (simp add: probe_block_def [of c ?B keys p] Inr bucket_def [symmetric] then_stream_assoc Un_assoc)
    qed
  qed
qed

end
