(* ===== verification/SortLaws.thy ===== *)
theory SortLaws
  imports StreamLaws "HOL-Library.Product_Lexorder" "HOL-Library.Multiset"
begin

text \<open>
  What \<open>ORDER BY\<close>, \<open>LIMIT\<close>, \<open>DISTINCT\<close> and \<open>GROUP BY\<close> compute. The sort runs one stable pass per key, the
  least significant first; the lemmas show that this is the lexicographic order of the keys.
\<close>

section \<open>The order of values\<close>

text \<open>A position in the order of one column: values before NULL, numbers by what they are worth.\<close>

fun sort_rank :: "pyval \<Rightarrow> nat \<times> int \<times> pystr" where
  "sort_rank PyNone = (1, 0, [])"
| "sort_rank (PyInt n) = (0, n_scaled (IntV n), [])"
| "sort_rank (PyFloat w) = (0, n_scaled (FloatV w), [])"
| "sort_rank (PyBool b) = (0, n_scaled (IntV (of_bool b)), [])"
| "sort_rank (PyStr s) = (0, 0, s)"

lemma sort_less_rank:
  "sane v \<Longrightarrow> sane w \<Longrightarrow> sort_comparable v w \<Longrightarrow> sort_less v w \<longleftrightarrow> sort_rank v < sort_rank w"
  by (cases v; cases w)
    (auto simp: sort_less_def sort_comparable_def sort_key_def py_less_def py_ordered_def num_less_def
      sane_def isfinite_not_special)

section \<open>Stable sorting\<close>

lemma insert_stable_insort:
  "\<forall>y\<in>set ys. lt y x \<longleftrightarrow> g y < g x \<Longrightarrow> insert_stable lt x ys = insort_key (g :: _ \<Rightarrow> 'b::linorder) x ys"
  by (induction ys) auto

lemma sort_stable_sort_key:
  "\<forall>x\<in>set xs. \<forall>y\<in>set xs. lt x y \<longleftrightarrow> g x < g y \<Longrightarrow> sort_stable lt xs = List.sort_key (g :: _ \<Rightarrow> 'b::linorder) xs"
proof (induction xs)
  case (Cons x xs)
  then have "sort_stable lt xs = List.sort_key g xs" by simp
  moreover have "insert_stable lt x (List.sort_key g xs) = insort_key g x (List.sort_key g xs)"
    by (rule insert_stable_insort) (use Cons.prems in simp)
  ultimately show ?case by (simp add: sort_stable_def sort_key_def)
qed (simp add: sort_stable_def)

text \<open>One pass: the column read by a key, and the rows in the order of its ranks.\<close>

definition key_rank :: "bound_sort_key \<Rightarrow> row \<Rightarrow> nat \<times> int \<times> pystr" where
  "key_rank k row = sort_rank (row ! output_index k)"

definition pass :: "bound_sort_key \<Rightarrow> row list \<Rightarrow> row list" where
  "pass k rows = (if descending k then rev (List.sort_key (key_rank k) (rev rows)) else List.sort_key (key_rank k) rows)"

lemma pass_laws:
  "mset (pass k rows) = mset rows"
  "sorted_wrt (\<lambda>r s. if descending k then key_rank k s \<le> key_rank k r else key_rank k r \<le> key_rank k s) (pass k rows)"
  "filter (\<lambda>s. key_rank k s = v) (pass k rows) = filter (\<lambda>s. key_rank k s = v) rows"
proof -
  show "mset (pass k rows) = mset rows" by (simp add: pass_def)
  have "sorted_wrt (\<lambda>r s. key_rank k r \<le> key_rank k s) (List.sort_key (key_rank k) xs)" for xs
    using sorted_sort_key [of "key_rank k" xs] by (simp add: sorted_wrt_map)
  then show "sorted_wrt (\<lambda>r s. if descending k then key_rank k s \<le> key_rank k r else key_rank k r \<le> key_rank k s) (pass k rows)"
    by (simp add: pass_def sorted_wrt_rev)
  have "filter (\<lambda>s. key_rank k s = v) (List.sort_key (key_rank k) xs) = filter (\<lambda>s. key_rank k s = v) xs" for xs
    by (rule sort_key_stable)
  then show "filter (\<lambda>s. key_rank k s = v) (pass k rows) = filter (\<lambda>s. key_rank k s = v) rows"
    by (simp add: pass_def rev_filter [symmetric])
qed

definition sortable :: "bound_sort_key \<Rightarrow> row list \<Rightarrow> bool" where
  "sortable k rows \<longleftrightarrow> (\<forall>r\<in>set rows. output_index k < length r \<and> sane (r ! output_index k) \<and>
     (\<forall>s\<in>set rows. sort_comparable (r ! output_index k) (s ! output_index k)))"

lemma sort_pass:
  assumes "sortable k rows"
  shows "list_sort (\<lambda>row. row ! output_index k) (descending k) rows = Inr (pass k rows)"
proof -
  let ?key = "\<lambda>row. row ! output_index k"
  have less: "sort_less (?key x) (?key y) \<longleftrightarrow> key_rank k x < key_rank k y" if "x \<in> set rows" "y \<in> set rows" for x y
    using assms that sort_less_rank by (simp add: sortable_def key_rank_def)
  have "sort_stable (\<lambda>x y. sort_less (?key x) (?key y)) xs = List.sort_key (key_rank k) xs" if "set xs = set rows" for xs
    by (rule sort_stable_sort_key) (simp add: less that)
  from this [of rows] this [of "rev rows"] assms show ?thesis
    by (simp add: list_sort_def pass_def sortable_def list_all_iff)
qed

fun passes :: "bound_sort_key list \<Rightarrow> row list \<Rightarrow> row list" where
  "passes [] rows = rows"
| "passes (k # keys) rows = pass k (passes keys rows)"

lemma passes_mset [simp]: "mset (passes keys rows) = mset rows"
  by (induction keys) (simp_all add: pass_laws)

lemma passes_set [simp]: "set (passes keys rows) = set rows"
  by (metis passes_mset set_mset_mset)

lemma sort_passes_append: "sort_passes (ks @ [k]) rows = bind_res (sort_passes ks rows) (sort_passes [k])"
  by (induction ks arbitrary: rows) (auto simp: bind_res_def split: sum.splits)

lemma sort_passes_ok:
  assumes "\<forall>k\<in>set keys. sortable k rows"
  shows "sort_passes (rev keys) rows = Inr (passes keys rows)"
  using assms
proof (induction keys)
  case (Cons k keys)
  then have "sortable k (passes keys rows)" by (simp add: sortable_def)
  from sort_pass [OF this] Cons this show ?case
    by (simp add: sort_passes_append sortable_def list_all_iff)
qed simp

section \<open>The lexicographic order of the keys\<close>

fun row_before :: "bound_sort_key list \<Rightarrow> row \<Rightarrow> row \<Rightarrow> bool" where
  "row_before [] r s = True"
| "row_before (k # keys) r s =
     (if key_rank k r = key_rank k s then row_before keys r s
      else if descending k then key_rank k s < key_rank k r else key_rank k r < key_rank k s)"

lemma sorted_blocks:
  assumes "sorted_wrt Q xs" and "\<And>v. sorted_wrt R (filter (\<lambda>x. f x = v) xs)"
    and "\<And>x y. Q x y \<Longrightarrow> f x \<noteq> f y \<Longrightarrow> P x y" and "\<And>x y. R x y \<Longrightarrow> f x = f y \<Longrightarrow> P x y"
  shows "sorted_wrt P xs"
  using assms(1,2)
proof (induction xs)
  case (Cons x xs)
  have "sorted_wrt R (filter (\<lambda>y. f y = v) xs)" for v using Cons.prems(2) [of v] by (auto split: if_splits)
  with Cons have "sorted_wrt P xs" by simp
  moreover have "P x y" if "y \<in> set xs" for y
  proof (cases "f y = f x")
    case True
    with Cons.prems(2) [of "f x"] that assms(4) show ?thesis by simp
  next
    case False
    with Cons.prems(1) that assms(3) [of x y] show ?thesis by simp
  qed
  ultimately show ?case by simp
qed simp

lemma passes_sorted: "sorted_wrt (row_before keys) (passes keys rows)"
proof (induction keys)
  case Nil
  show ?case by (induction rows) simp_all
next
  case (Cons k keys)
  show ?case unfolding passes.simps
  proof (rule sorted_blocks [where f = "key_rank k"])
    show "sorted_wrt (\<lambda>r s. if descending k then key_rank k s \<le> key_rank k r else key_rank k r \<le> key_rank k s) (pass k (passes keys rows))"
      by (rule pass_laws(2))
    show "sorted_wrt (row_before keys) (filter (\<lambda>x. key_rank k x = v) (pass k (passes keys rows)))" for v
      unfolding pass_laws(3) by (rule sorted_wrt_filter [OF Cons])
  qed (auto split: if_splits)
qed

definition same_keys :: "bound_sort_key list \<Rightarrow> row \<Rightarrow> row \<Rightarrow> bool" where
  "same_keys keys r s \<longleftrightarrow> (\<forall>k\<in>set keys. key_rank k s = key_rank k r)"

lemma passes_stable: "filter (same_keys keys r) (passes keys rows) = filter (same_keys keys r) rows"
proof (induction keys)
  case (Cons k keys)
  have split: "filter (same_keys (k # keys) r) xs = filter (same_keys keys r) (filter (\<lambda>s. key_rank k s = key_rank k r) xs)"
    and flip: "filter (same_keys (k # keys) r) xs = filter (\<lambda>s. key_rank k s = key_rank k r) (filter (same_keys keys r) xs)" for xs
    by (auto simp: same_keys_def intro!: filter_cong)
  have "filter (same_keys (k # keys) r) (passes (k # keys) rows) = filter (same_keys (k # keys) r) (passes keys rows)"
    unfolding passes.simps split pass_laws(3) ..
  also have "\<dots> = filter (same_keys (k # keys) r) rows" unfolding flip Cons ..
  finally show ?case .
qed simp


text \<open>The values of a column, as a key of the sort reads them.\<close>

definition typed_column :: "row list \<Rightarrow> nat \<Rightarrow> bool" where
  "typed_column rows i \<longleftrightarrow>
     (\<exists>t. \<forall>row\<in>set rows. i < length row \<and> (row ! i = PyNone \<or> has_type (2 ^ 63) t (row ! i)))"

lemma typed_sane: "has_type (2 ^ 63) t v \<Longrightarrow> sane v"
  by (cases "(2 ^ 63 :: int, t, v)" rule: has_type.cases) (auto simp: sane_def INT64_MIN_def)

lemma typed_comparable:
  "v = PyNone \<or> has_type (2 ^ 63) t v \<Longrightarrow> w = PyNone \<or> has_type (2 ^ 63) t w \<Longrightarrow> sort_comparable v w"
  by (cases v; cases w; cases t) (simp_all add: sort_comparable_def sort_key_def py_less_def py_ordered_def)

lemma typed_sortable: "typed_column rows (output_index k) \<Longrightarrow> sortable k rows"
  unfolding typed_column_def sortable_def using typed_sane typed_comparable by (metis sane_simps(1))

text \<open>
  C15: \<open>ORDER BY\<close> never fails on columns of one type, and returns the rows it read, each once, in the
  lexicographic order of the keys, every key ascending or descending on its own, rows that agree on
  all keys in the order they came in. In that order a NULL is after every value of an ascending key,
  so before every value of a descending one.
\<close>

theorem sort_orders:
  assumes "\<forall>k\<in>set keys. typed_column rows (output_index k)"
  shows "\<exists>out. sort_open keys (rows, None) = Inr out \<and> mset out = mset rows \<and> sorted_wrt (row_before keys) out \<and>
    (\<forall>r. filter (same_keys keys r) out = filter (same_keys keys r) rows) \<and>
    (\<forall>v. sort_rank v \<le> sort_rank PyNone \<and> (sort_rank v = sort_rank PyNone \<longrightarrow> v = PyNone))"
proof -
  have "sort_passes (rev keys) rows = Inr (passes keys rows)"
    using assms typed_sortable sort_passes_ok by blast
  moreover have "sort_rank v \<le> sort_rank PyNone \<and> (sort_rank v = sort_rank PyNone \<longrightarrow> v = PyNone)" for v
    by (cases v) simp_all
  ultimately show ?thesis using passes_sorted passes_stable by (simp add: sort_open_def)
qed

theorem sort_orders_witness:
  "\<exists>out. sort_open [\<lparr>output_index = 1, descending = True\<rparr>, \<lparr>output_index = 0, descending = False\<rparr>]
       ([[PyInt 2, PyNone], [PyInt 3, PyBool True], [PyInt 1, PyNone]], None) = Inr out \<and>
     sorted_wrt (row_before [\<lparr>output_index = 1, descending = True\<rparr>, \<lparr>output_index = 0, descending = False\<rparr>]) out"
proof -
  have "typed_column [[PyInt 2, PyNone], [PyInt 3, PyBool True], [PyInt 1, PyNone]] 0"
    unfolding typed_column_def by (rule exI [of _ INTEGER]) (simp add: INT64_MIN_def)
  moreover have "typed_column [[PyInt 2, PyNone], [PyInt 3, PyBool True], [PyInt 1, PyNone]] 1"
    unfolding typed_column_def by (rule exI [of _ BOOLEAN]) simp
  ultimately show ?thesis
    using sort_orders [of "[\<lparr>output_index = 1, descending = True\<rparr>, \<lparr>output_index = 0, descending = False\<rparr>]"
        "[[PyInt 2, PyNone], [PyInt 3, PyBool True], [PyInt 1, PyNone]]"] by auto
qed

section \<open>Duplicates\<close>

text \<open>
  When two values are the same for \<open>DISTINCT\<close>: of one type and equal; NULL is the same as NULL, the two
  zeros are the same, and 1, 1.0 and TRUE are three different values.
\<close>

fun same_value :: "pyval \<Rightarrow> pyval \<Rightarrow> bool" where
  "same_value (PyFloat a) (PyFloat b) = (f_num a = f_num b)"
| "same_value v w = (v = w)"

lemma f_add_zero:
  assumes "isfinite w"
  shows "isfinite (f_add w 0)" "f_num (f_add w 0) = f_num w"
proof -
  have zero: "f_num 0 = 0" "\<not> f_neg 0" "\<not> f_isnan 0" "\<not> f_isinf 0"
    by (simp_all add: f_num_eq_0_iff f_mag_def f_neg_def f_isnan_def f_isinf_def)
  have mag: "f_mag w < 2047 * 2 ^ 52" using assms by (simp add: isfinite_def)
  have add: "f_add w 0 = (if f_num w = 0 then f_make False 0 else w)"
  proof -
    have "f_make (f_num w < 0) (f_round (nat \<bar>f_num w\<bar>) 1) = w" if "f_num w \<noteq> 0"
    proof -
      have "nat \<bar>f_num w\<bar> = mag_int (f_mag w)" by (simp add: f_num_def)
      moreover have "f_num w < 0 \<longleftrightarrow> f_neg w" using that by (auto simp: f_num_def)
      ultimately show ?thesis using f_round_mag_int [OF mag] by simp
    qed
    with isfinite_not_special [OF assms] zero show ?thesis by (simp add: f_add_def Let_def)
  qed
  have "f_num (f_make False 0) = 0" by (simp add: f_num_eq_0_iff)
  with add assms show "isfinite (f_add w 0)" "f_num (f_add w 0) = f_num w" by (auto simp: isfinite_def)
qed

definition tagged :: "pyval \<Rightarrow> string \<times> pyval" where
  "tagged v = (case v of PyNone \<Rightarrow> (''null'', PyNone) | PyFloat w \<Rightarrow> (''float'', PyFloat (f_add w 0)) | PyInt _ \<Rightarrow> (''int'', v)
     | PyBool _ \<Rightarrow> (''bool'', v) | PyStr _ \<Rightarrow> (''str'', v))"

lemma distinct_key_tagged: "distinct_key row = map tagged row"
  by (simp add: distinct_key_def tagged_def fun_eq_iff)

lemma tagged_same:
  "sane v \<Longrightarrow> sane u \<Longrightarrow> fst (tagged v) = fst (tagged u) \<and> py_eq (snd (tagged v)) (snd (tagged u)) \<longleftrightarrow> same_value v u"
  by (cases v; cases u) (auto simp: tagged_def py_eq_def num_eq_def sane_def f_add_zero isfinite_not_special)

lemma distinct_key_eq_same:
  assumes "\<forall>v\<in>set r. sane v" and "\<forall>v\<in>set s. sane v"
  shows "same_row r s \<longleftrightarrow> list_all2 same_value r s"
proof -
  have "same_row r s \<longleftrightarrow> list_all2 (\<lambda>v u. fst (tagged v) = fst (tagged u) \<and> py_eq (snd (tagged v)) (snd (tagged u))) r s"
    by (simp add: distinct_key_eq_def distinct_key_tagged list_all2_map1 list_all2_map2 case_prod_beta)
  also have "\<dots> \<longleftrightarrow> list_all2 same_value r s"
    unfolding list_all2_conv_all_nth using assms tagged_same by (metis nth_mem)
  finally show ?thesis .
qed

lemma same_value_laws:
  "same_value v v" "same_value v w \<longleftrightarrow> same_value w v" "same_value u v \<Longrightarrow> same_value v w \<Longrightarrow> same_value u w"
  by (cases u; cases v; cases w; auto)+

definition alike :: "row \<Rightarrow> row \<Rightarrow> bool" where
  "alike = list_all2 same_value"

lemma alike_laws: "alike r r" "alike r s \<Longrightarrow> alike s r" "alike q r \<Longrightarrow> alike r s \<Longrightarrow> alike q s"
proof -
  show "alike r r" by (simp add: alike_def list_all2_refl same_value_laws(1))
  show "alike s r" if "alike r s"
    using that by (simp add: alike_def list_all2_conv_all_nth) (metis same_value_laws(2))
  show "alike q s" if "alike q r" "alike r s"
    using list_all2_trans [of same_value same_value same_value q r s] same_value_laws(3) that by (simp add: alike_def)
qed

definition first_of :: "row list \<Rightarrow> nat \<Rightarrow> bool" where
  "first_of rows i \<longleftrightarrow> (\<forall>j<i. \<not> alike (rows ! i) (rows ! j))"

lemma first_seen_exact:
  assumes "\<forall>row\<in>set (before @ rows). \<forall>v\<in>set row. sane v"
    and "\<And>r. \<forall>v\<in>set r. sane v \<Longrightarrow> list_ex (distinct_key_eq (distinct_key r)) seen \<longleftrightarrow> (\<exists>b\<in>set before. alike r b)"
  shows "first_seen seen rows =
    map ((!) (before @ rows)) (filter (first_of (before @ rows)) [length before..<length (before @ rows)])"
  using assms
proof (induction rows arbitrary: before seen)
  case (Cons r rows)
  let ?all = "before @ r # rows"
  have sane: "\<forall>v\<in>set r. sane v" using Cons.prems(1) by simp
  have first: "first_of ?all (length before) \<longleftrightarrow> \<not> (\<exists>b\<in>set before. alike r b)"
    unfolding first_of_def by (auto simp: nth_append in_set_conv_nth dest: nth_mem)
  have upt: "[length before..<Suc (length before + length rows)] =
      length before # [Suc (length before)..<Suc (length before + length rows)]"
    using upt_rec [of "length before" "Suc (length before + length rows)"] by (simp del: upt_Suc)
  show ?case
  proof (cases "\<exists>b\<in>set before. alike r b")
    case True
    have "(\<exists>b\<in>set (before @ [r]). alike q b) \<longleftrightarrow> (\<exists>b\<in>set before. alike q b)" for q
      using True alike_laws(3) by auto
    with Cons.IH [of "before @ [r]" seen] Cons.prems True sane first show ?thesis by (simp add: upt del: upt_Suc)
  next
    case False
    have "list_ex (distinct_key_eq (distinct_key q)) (distinct_key r # seen) \<longleftrightarrow> (\<exists>b\<in>set (before @ [r]). alike q b)"
      if "\<forall>v\<in>set q. sane v" for q
      using Cons.prems(2) [OF that] distinct_key_eq_same [OF that sane] by (auto simp: alike_def)
    with Cons.IH [of "before @ [r]" "distinct_key r # seen"] Cons.prems False sane first show ?thesis by (simp add: upt del: upt_Suc)
  qed
qed simp

text \<open>
  C16: \<open>DISTINCT\<close> keeps the first of every set of equal rows, in the order of the input, and nothing else:
  its output is the rows whose values no earlier row repeats, where values are the same when their types
  and values are, NULLs among themselves and both zeros included. An exception of the input comes after
  the rows before it.
\<close>

theorem distinct_keeps_first:
  assumes "\<forall>row\<in>set rows. \<forall>v\<in>set row. sane v"
  shows "drain (op_next distinct_produce) (fst (op_open Inr (op_new \<lparr>ds_child = (rows, e), ds_seen = []\<rparr>))) =
    Some (map ((!) rows) (filter (first_of rows) [0..<length rows]), e)"
proof -
  have "first_seen [] rows = map ((!) rows) (filter (first_of rows) [0..<length rows])"
    using first_seen_exact [of "[]" rows "[]"] assms by simp
  with drain_op_next [of distinct_produce, OF drain_distinct [of rows e "[]"]] show ?thesis
    by (simp add: op_open_def op_new_def)
qed

theorem distinct_keeps_first_witness:
  "drain (op_next distinct_produce)
     (fst (op_open Inr (op_new \<lparr>ds_child = ([[PyNone], [PyInt 1], [PyNone], [PyBool True], [PyInt 1]], None), ds_seen = []\<rparr>))) =
   Some ([[PyNone], [PyInt 1], [PyBool True]], None)"
proof -
  let ?rows = "[[PyNone], [PyInt 1], [PyNone], [PyBool True], [PyInt 1]]"
  have "filter (first_of ?rows) [0..<length ?rows] = [0, 1, 3]"
    by (simp add: upt_rec numeral_eq_Suc first_of_def alike_def All_less_Suc)
  with distinct_keeps_first [of ?rows None] show ?thesis by (simp add: sane_def)
qed

end
