(* ===== verification/GroupLaws.thy ===== *)
theory GroupLaws
  imports JoinLaws SortLaws
begin

text \<open>
  What the hash aggregate computes: one group per distinct key, in the order the keys first appear, each fed
  exactly the rows of its key, in order.
\<close>

section \<open>Feeding the accumulators of one group\<close>

fun fold_res :: "('s \<Rightarrow> 'a \<Rightarrow> 's res) \<Rightarrow> 's \<Rightarrow> 'a list \<Rightarrow> 's res" where
  "fold_res f s [] = Inr s"
| "fold_res f s (x # xs) = bind_res (f s x) (\<lambda>s. fold_res f s xs)"

lemma fold_res_append: "fold_res f s (xs @ ys) = bind_res (fold_res f s xs) (\<lambda>s. fold_res f s ys)"
  by (induction xs arbitrary: s) (auto simp: bind_res_def split: sum.split)

definition feed :: "aggregate_config \<Rightarrow> row list \<Rightarrow> accumulator list res" where
  "feed c rows = fold_res (\<lambda>as row. add_row row (ag_aggregates c) as) (fresh_accumulators c) rows"

lemma feed_snoc: "feed c (rows @ [row]) = bind_res (feed c rows) (add_row row (ag_aggregates c))"
  by (simp add: feed_def fold_res_append) (simp add: bind_res_def split: sum.split)

lemma add_row_counts:
  assumes "add_row row entries as = Inr bs" and "length as = length entries"
    and "\<forall>i<length entries. ac_function (as ! i) = ba_function (entries ! i) \<and>
      (counts_rows (entries ! i) \<longrightarrow> ac_count (as ! i) = n)"
  shows "length bs = length entries \<and> (\<forall>i<length entries. ac_function (bs ! i) = ba_function (entries ! i) \<and>
      (counts_rows (entries ! i) \<longrightarrow> ac_count (bs ! i) = n + 1))"
  using assms
proof (induction row entries as arbitrary: bs rule: add_row.induct)
  case (1 row entry entries a as)
  from "1.prems"(1) obtain v a' as' where ev: "(if counts_rows entry then Inr PyNone
        else case ba_argument entry of None \<Rightarrow> Inl TypeError | Some e \<Rightarrow> evaluate e row) = Inr v"
    and v: "acc_add a v (counts_rows entry) = Inr a'" "add_row row entries as = Inr as'" "bs = a' # as'"
    unfolding add_row.simps bind_res_Inr by blast
  have a': "ac_function a' = ac_function a" "counts_rows entry \<Longrightarrow> ac_count a' = ac_count a + 1"
    using v(1) by (auto simp: acc_add_def bind_res_Inr split: if_splits)
  have tail: "\<forall>i<length entries. ac_function (as ! i) = ba_function (entries ! i) \<and> (counts_rows (entries ! i) \<longrightarrow> ac_count (as ! i) = n)"
    using "1.prems"(3) by (metis Suc_less_eq length_Cons nth_Cons_Suc)
  have hd: "ac_function a = ba_function entry" "counts_rows entry \<Longrightarrow> ac_count a = n" using "1.prems"(3) by auto
  from "1.IH" [OF ev v(1,2) _ tail] "1.prems"(2) a' hd show ?case
    by (auto simp: v(3) nth_Cons split: nat.split)
qed auto

lemma feed_counts:
  "feed c rows = Inr as \<Longrightarrow> length as = length (ag_aggregates c) \<and>
     (\<forall>i<length as. ac_function (as ! i) = ba_function (ag_aggregates c ! i) \<and>
        (counts_rows (ag_aggregates c ! i) \<longrightarrow> ac_count (as ! i) = int (length rows)))"
proof (induction rows arbitrary: as rule: rev_induct)
  case Nil
  then show ?case by (auto simp: feed_def fresh_accumulators_def acc_new_def)
next
  case (snoc row rows)
  from snoc.prems obtain bs where bs: "feed c rows = Inr bs" "add_row row (ag_aggregates c) bs = Inr as"
    by (auto simp: feed_snoc bind_res_Inr)
  from snoc.IH [OF bs(1)] add_row_counts [OF bs(2), of "int (length rows)"] show ?case by auto
qed

section \<open>Groups\<close>

definition key_of :: "aggregate_config \<Rightarrow> row \<Rightarrow> row" where
  "key_of c row = projr (project_row (ag_keys c) row)"

definition key_ok :: "aggregate_config \<Rightarrow> row \<Rightarrow> bool" where
  "key_ok c row \<longleftrightarrow> (\<forall>k. project_row (ag_keys c) row = Inr k \<longrightarrow> list_all ordinary k)"

definition members :: "aggregate_config \<Rightarrow> row list \<Rightarrow> row \<Rightarrow> row list" where
  "members c rows key = filter (\<lambda>row. key_eq (key_of c row) key) rows"

definition first_keys :: "aggregate_config \<Rightarrow> row list \<Rightarrow> row list" where
  "first_keys c rows = map (\<lambda>i. key_of c (rows ! i))
     (filter (\<lambda>i. \<forall>j<i. \<not> key_eq (key_of c (rows ! j)) (key_of c (rows ! i))) [0..<length rows])"

lemma first_keys_snoc:
  "first_keys c (rows @ [row]) =
     first_keys c rows @ (if members c rows (key_of c row) = [] then [key_of c row] else [])"
proof -
  have "filter (\<lambda>i. \<forall>j<i. \<not> key_eq (key_of c ((rows @ [row]) ! j)) (key_of c ((rows @ [row]) ! i))) [0..<length rows] =
      filter (\<lambda>i. \<forall>j<i. \<not> key_eq (key_of c (rows ! j)) (key_of c (rows ! i))) [0..<length rows]"
    by (rule filter_cong) (auto simp: nth_append)
  moreover have "(\<forall>j<length rows. \<not> key_eq (key_of c (rows ! j)) (key_of c row)) \<longleftrightarrow> members c rows (key_of c row) = []"
    by (auto simp: members_def filter_empty_conv in_set_conv_nth dest: nth_mem)
  ultimately show ?thesis
    by (auto simp: first_keys_def nth_append intro!: map_cong)
qed

definition groups_ok :: "aggregate_config \<Rightarrow> row list \<Rightarrow> groups \<Rightarrow> bool" where
  "groups_ok c rows groups \<longleftrightarrow> map fst groups = first_keys c rows \<and> (\<forall>(k, as)\<in>set groups. list_all ordinary k) \<and>
     (\<forall>row\<in>set rows. list_all ordinary (key_of c row)) \<and>
     (\<forall>k. list_all ordinary k \<longrightarrow>
        (case dict_get key_eq groups k of None \<Rightarrow> members c rows k = []
         | Some as \<Rightarrow> members c rows k \<noteq> [] \<and> feed c (members c rows k) = Inr as))"

lemma dict_set_fst:
  "map fst (dict_set eq d k v) = map fst d @ (if dict_get eq d k = None then [k] else [])"
  by (induction d) (auto split: if_splits)

lemma groups_ok_step:
  assumes ok: "groups_ok c rows groups" and key: "project_row (ag_keys c) row = Inr k" "list_all ordinary k"
    and add: "add_row row (ag_aggregates c) (case dict_get key_eq groups k of None \<Rightarrow> fresh_accumulators c | Some as \<Rightarrow> as) = Inr as"
  shows "groups_ok c (rows @ [row]) (dict_set key_eq groups k as)"
proof -
  have kof: "key_of c row = k" by (simp add: key_of_def key(1))
  have ords: "\<forall>(k0, v0)\<in>set groups. list_all ordinary k0" using ok by (simp add: groups_ok_def)
  have get: "case dict_get key_eq groups q of None \<Rightarrow> members c rows q = []
      | Some as \<Rightarrow> members c rows q \<noteq> [] \<and> feed c (members c rows q) = Inr as" if "list_all ordinary q" for q
    using ok that by (simp add: groups_ok_def)
  have fed: "feed c (members c rows k @ [row]) = Inr as"
    using get [OF key(2)] add by (auto simp: feed_snoc bind_res_Inr split: option.splits) (simp add: feed_def)
  have "map fst (dict_set key_eq groups k as) = first_keys c (rows @ [row])"
    using ok get [OF key(2)] by (auto simp: dict_set_fst first_keys_snoc kof groups_ok_def split: option.splits)
  moreover have "\<forall>(k0, v0)\<in>set (dict_set key_eq groups k as). list_all ordinary k0"
    by (rule row_key.dict_set_keys [OF ords key(2)])
  moreover have "case dict_get key_eq (dict_set key_eq groups k as) q of None \<Rightarrow> members c (rows @ [row]) q = []
      | Some as \<Rightarrow> members c (rows @ [row]) q \<noteq> [] \<and> feed c (members c (rows @ [row]) q) = Inr as"
    if q: "list_all ordinary q" for q
  proof (cases "key_eq k q")
    case True
    have "members c (rows @ [row]) q = members c rows q @ [row]" using True by (simp add: members_def kof)
    moreover have "members c rows q = members c rows k"
      unfolding members_def
    proof (rule filter_cong [OF refl])
      fix r assume "r \<in> set rows"
      with ok have "list_all ordinary (key_of c r)" by (simp add: groups_ok_def)
      with True key(2) q show "key_eq (key_of c r) q \<longleftrightarrow> key_eq (key_of c r) k"
        using row_key.eq_sym row_key.eq_trans by meson
    qed
    ultimately show ?thesis using fed True by (simp add: row_key.dict_get_set [OF ords key(2) q])
  next
    case False
    have same: "members c (rows @ [row]) q = members c rows q" using False by (simp add: members_def kof)
    show ?thesis unfolding row_key.dict_get_set [OF ords key(2) q] same using get [OF q] False by simp
  qed
  moreover have "\<forall>r\<in>set (rows @ [row]). list_all ordinary (key_of c r)" using ok key(2) kof by (simp add: groups_ok_def)
  ultimately show ?thesis unfolding groups_ok_def by blast
qed

lemma group_rows_ok:
  assumes "groups_ok c before groups" and "group_rows c groups rows = Inr groups'" and "\<forall>row\<in>set rows. key_ok c row"
  shows "groups_ok c (before @ rows) groups'"
  using assms
proof (induction rows arbitrary: before groups)
  case (Cons row rows)
  from Cons.prems(2) obtain k as where k: "project_row (ag_keys c) row = Inr k"
    "add_row row (ag_aggregates c) (case dict_get key_eq groups k of None \<Rightarrow> fresh_accumulators c | Some as \<Rightarrow> as) = Inr as"
    and rest: "group_rows c (dict_set key_eq groups k as) rows = Inr groups'"
    unfolding group_rows.simps bind_res_Inr by blast
  have "list_all ordinary k" using Cons.prems(3) k(1) by (simp add: key_ok_def)
  from Cons.IH [OF groups_ok_step [OF Cons.prems(1) k(1) this k(2)] rest] Cons.prems(3) show ?case by simp
qed simp

lemma first_keys_distinct: "sorted_wrt (\<lambda>a b. \<not> key_eq a b) (first_keys c rows)"
proof -
  have "sorted_wrt (<) (filter P [0..<length rows])" for P by (rule sorted_wrt_filter) simp
  then show ?thesis unfolding first_keys_def sorted_wrt_map by (rule sorted_wrt_mono_rel [rotated]) auto
qed

lemma dict_get_entry:
  assumes "sorted_wrt (\<lambda>a b. \<not> key_eq a b) (map fst d)" and "(k, v) \<in> set d" and "list_all ordinary k"
  shows "dict_get key_eq d k = Some v"
  using assms
proof (induction d)
  case (Cons e d)
  obtain k' v' where e: "e = (k', v')" by force
  show ?case
  proof (cases "(k, v) \<in> set d")
    case True
    then have "k \<in> set (map fst d)" by force
    with Cons True show ?thesis by (auto simp: e)
  next
    case False
    with Cons.prems row_key.eq_refl show ?thesis by (simp add: e)
  qed
qed simp

text \<open>
  C17: \<open>GROUP BY\<close> partitions its input. The groups are the distinct keys in the order they first appear, a
  NULL being a key like any other and equal numbers one key; each is fed exactly the rows of its key, in
  their order, and \<open>COUNT(*)\<close> is their number.
\<close>

theorem group_by_partitions:
  assumes "group_rows c [] rows = Inr groups" and "\<forall>row\<in>set rows. key_ok c row"
  shows "map fst groups = first_keys c rows \<and>
    (\<forall>(key, as)\<in>set groups. members c rows key \<noteq> [] \<and> feed c (members c rows key) = Inr as \<and>
       (\<forall>i<length as. counts_rows (ag_aggregates c ! i) \<longrightarrow>
          acc_value (as ! i) = Inr (PyInt (int (length (members c rows key))))))"
proof -
  have "groups_ok c [] []" by (simp add: groups_ok_def first_keys_def members_def)
  from group_rows_ok [OF this assms] have ok: "groups_ok c rows groups" by simp
  then have keys: "map fst groups = first_keys c rows" by (simp add: groups_ok_def)
  have "members c rows key \<noteq> [] \<and> feed c (members c rows key) = Inr as" if e: "(key, as) \<in> set groups" for key as
  proof -
    from e ok have ord: "list_all ordinary key" by (auto simp: groups_ok_def)
    have "dict_get key_eq groups key = Some as"
      by (rule dict_get_entry [OF _ e ord]) (simp add: keys first_keys_distinct)
    with ok ord show ?thesis by (force simp: groups_ok_def)
  qed
  moreover have "acc_value (as ! i) = Inr (PyInt (int (length xs)))"
    if "feed c xs = Inr as" "i < length as" "counts_rows (ag_aggregates c ! i)" for xs as i
    using feed_counts [OF that(1)] that(2,3) by (simp add: acc_value_def counts_rows_def)
  ultimately show ?thesis using keys by blast
qed

definition demo_aggregate :: aggregate_config where
  "demo_aggregate = \<lparr>ag_keys = [demo_column 0 INTEGER],
     ag_aggregates = [\<lparr>ba_function = COUNT_FN, ba_argument = None, ba_slot = 1, ba_label = []\<rparr>], ag_having = None\<rparr>"

theorem group_by_partitions_witness:
  "\<exists>groups. group_rows demo_aggregate [] [[PyInt 4], [PyNone], [PyInt 4]] = Inr groups \<and>
     map fst groups = [[PyInt 4], [PyNone]]"
proof -
  let ?rows = "[[PyInt 4], [PyNone], [PyInt 4]]"
  note ev = demo_aggregate_def demo_column_def project_row_def
  obtain groups where g: "group_rows demo_aggregate [] ?rows = Inr groups"
    by (simp add: ev fresh_accumulators_def acc_new_def counts_rows_def acc_add_def key_eq_def py_eq_def num_eq_def)
  have kof: "key_of demo_aggregate [v] = [v]" for v by (simp add: key_of_def ev)
  have eqs: "key_eq [PyInt 4] [PyInt 4]" "\<not> key_eq [PyNone] [PyInt 4]" "\<not> key_eq [PyInt 4] [PyNone]"
    by (simp_all add: key_eq_def py_eq_def num_eq_def)
  have "\<forall>row\<in>set ?rows. key_ok demo_aggregate row" by (simp add: key_ok_def ev ordinary_def)
  from group_by_partitions [OF g this] have "map fst groups = first_keys demo_aggregate ?rows" by blast
  also have "\<dots> = [[PyInt 4], [PyNone]]"
    using first_keys_snoc [of demo_aggregate "[]" "[PyInt 4]"] first_keys_snoc [of demo_aggregate "[[PyInt 4]]" "[PyNone]"]
      first_keys_snoc [of demo_aggregate "[[PyInt 4], [PyNone]]" "[PyInt 4]"]
    by (simp add: members_def kof eqs) (simp add: first_keys_def)
  finally have "map fst groups = [[PyInt 4], [PyNone]]" .
  with g show ?thesis by simp
qed

end
