(* ===== verification/Access.thy ===== *)
theory Access
  imports Plan TreeUpdate
begin

text \<open>
  The parts of the physical planner (\<open>engine/planner/physical.py\<close>) that decide what a plan computes
  rather than what it costs: conjunctions taken apart and rebuilt, the tables an expression reads, the
  equality a hash join is built on, and the comparisons an index scan absorbs into its range of keys.
\<close>

section \<open>Conjunctions and tables\<close>

fun split_conjunction :: "expression \<Rightarrow> expression list" where
  "split_conjunction (BinaryOp op l r) =
     (if op = AND_OP then split_conjunction l @ split_conjunction r else [BinaryOp op l r])"
| "split_conjunction e = [e]"

definition rebuild_conjunction :: "expression list \<Rightarrow> expression option" where
  "rebuild_conjunction terms =
     (case terms of [] \<Rightarrow> None | term # rest \<Rightarrow> Some (foldl (BinaryOp AND_OP) term rest))"

fun walk_expression :: "expression \<Rightarrow> expression list" where
  "walk_expression (UnaryOp op e) = UnaryOp op e # walk_expression e"
| "walk_expression (BinaryOp op l r) = BinaryOp op l r # walk_expression l @ walk_expression r"
| "walk_expression (IsNullTest e n) = IsNullTest e n # walk_expression e"
| "walk_expression (InList e items n) = InList e items n # walk_expression e @ concat (map walk_expression items)"
| "walk_expression (FunctionCall f (Some e)) = FunctionCall f (Some e) # walk_expression e"
| "walk_expression e = [e]"

fun scan_of :: "expression \<Rightarrow> nat option" where
  "scan_of (BoundColumnRef c) = scan_position c"
| "scan_of _ = None"

definition tables_of :: "expression \<Rightarrow> nat set" where
  "tables_of e = set (List.map_filter scan_of (walk_expression e))"

section \<open>The equality of a hash join\<close>

fun equijoin_keys :: "nat list \<Rightarrow> expression list \<Rightarrow> nat set \<Rightarrow> (expression \<times> expression \<times> nat) option" where
  "equijoin_keys [] conjuncts left_tables = None"
| "equijoin_keys (index # applicable) conjuncts left_tables =
     (case conjuncts ! index of
        BinaryOp EQ left_side right_side \<Rightarrow>
          (if tables_of left_side = {} \<or> tables_of right_side = {}
           then equijoin_keys applicable conjuncts left_tables
           else if tables_of left_side \<subseteq> left_tables \<and> tables_of right_side \<inter> left_tables = {}
           then Some (left_side, right_side, index)
           else if tables_of right_side \<subseteq> left_tables \<and> tables_of left_side \<inter> left_tables = {}
           then Some (right_side, left_side, index)
           else equijoin_keys applicable conjuncts left_tables)
      | _ \<Rightarrow> equijoin_keys applicable conjuncts left_tables)"

text \<open>
  What \<open>_join\<close> hands to the two algorithms. For an inner join the terms are the applicable conjuncts of
  the pool and the predicate is their conjunction; for an outer join the predicate is its own \<open>ON\<close> and the
  terms are the conjuncts of that.
\<close>

definition inner_predicate :: "expression list \<Rightarrow> nat list \<Rightarrow> expression option" where
  "inner_predicate conjuncts applicable = rebuild_conjunction (map ((!) conjuncts) applicable)"

definition residual_of :: "expression list \<Rightarrow> nat list \<Rightarrow> nat \<Rightarrow> expression option" where
  "residual_of conjuncts applicable hashed =
     rebuild_conjunction (map ((!) conjuncts) (filter (\<lambda>index. index \<noteq> hashed) applicable))"

definition outer_equijoin_keys :: "expression \<Rightarrow> nat set \<Rightarrow> (expression \<times> expression \<times> nat) option" where
  "outer_equijoin_keys predicate left_tables =
     (let terms = split_conjunction predicate in equijoin_keys [0..<length terms] terms left_tables)"

section \<open>Index bounds\<close>

text \<open>The bounds are a \<open>key_range\<close> of theory \<open>BPlusTree\<close>, the arguments of its \<open>range_scan\<close>.\<close>

fun mirrored :: "binary_operator \<Rightarrow> binary_operator" where
  "mirrored LT = GT"
| "mirrored LTE = GTE"
| "mirrored GT = LT"
| "mirrored GTE = LTE"
| "mirrored op = op"

fun as_column_comparison :: "expression \<Rightarrow> (bound_column \<times> binary_operator \<times> pyval) option" where
  "as_column_comparison (BinaryOp op l r) =
     (if \<not> is_comparison op \<or> op = NEQ then None
      else (case (l, r) of
              (BoundColumnRef c, Literal v _) \<Rightarrow> Some (c, op, v)
            | (Literal v _, BoundColumnRef c) \<Rightarrow> Some (c, mirrored op, v)
            | _ \<Rightarrow> None))"
| "as_column_comparison _ = None"

fun raises_low :: "bytes \<Rightarrow> bytes option \<Rightarrow> bool" where
  "raises_low key None = True"
| "raises_low key (Some b) = (b < key)"

fun lowers_high :: "bytes \<Rightarrow> bytes option \<Rightarrow> bool" where
  "lowers_high key None = True"
| "lowers_high key (Some b) = (key < b)"

definition narrow :: "binary_operator \<Rightarrow> bytes \<Rightarrow> key_range \<Rightarrow> key_range" where
  "narrow op key k =
     (case op of
        EQ \<Rightarrow>
          (let k = (if raises_low key (kr_low k) then k\<lparr>kr_low := Some key, kr_include_low := True\<rparr> else k)
           in if lowers_high key (kr_high k) then k\<lparr>kr_high := Some key, kr_include_high := True\<rparr> else k)
      | GT \<Rightarrow> (if raises_low key (kr_low k) \<or> kr_low k = Some key
               then k\<lparr>kr_low := Some key, kr_include_low := False\<rparr> else k)
      | GTE \<Rightarrow> (if raises_low key (kr_low k) then k\<lparr>kr_low := Some key, kr_include_low := True\<rparr> else k)
      | LT \<Rightarrow> (if lowers_high key (kr_high k) \<or> kr_high k = Some key
               then k\<lparr>kr_high := Some key, kr_include_high := False\<rparr> else k)
      | LTE \<Rightarrow> (if lowers_high key (kr_high k) then k\<lparr>kr_high := Some key, kr_include_high := True\<rparr> else k)
      | _ \<Rightarrow> k)"

text \<open>One candidate: \<open>None\<close> when it is left to the filter, otherwise its operator and key.\<close>

definition usable_bound :: "data_type \<Rightarrow> expression \<Rightarrow> (binary_operator \<times> bytes) option res" where
  "usable_bound dt comparison =
     (case as_column_comparison comparison of
        None \<Rightarrow> Inr None
      | Some (c, op, value) \<Rightarrow>
          if value = PyNone then Inr None
          else (case encode_key value dt of
                  Inl e \<Rightarrow> if e = IndexingError then Inr None else Inl e
                | Inr key \<Rightarrow>
                    bind_res (decode_key key dt) (\<lambda>again.
                      Inr (if py_eq again value then Some (op, key) else None))))"

fun fold_bounds :: "data_type \<Rightarrow> key_range \<Rightarrow> nat set \<Rightarrow> (nat \<times> expression) list \<Rightarrow> (key_range \<times> nat set) res" where
  "fold_bounds dt k absorbed [] = Inr (k, absorbed)"
| "fold_bounds dt k absorbed ((position, comparison) # candidates) =
     bind_res (usable_bound dt comparison) (\<lambda>b.
       case b of
         None \<Rightarrow> fold_bounds dt k absorbed candidates
       | Some (op, key) \<Rightarrow> fold_bounds dt (narrow op key k) (insert position absorbed) candidates)"

definition bounds_for :: "data_type \<Rightarrow> (nat \<times> expression) list \<Rightarrow> (key_range \<times> nat set) option res" where
  "bounds_for dt candidates =
     bind_res (fold_bounds dt full_range {} candidates) (\<lambda>(k, absorbed).
       Inr (if absorbed = {} then None
            else if kr_low k = None
            then Some (k\<lparr>kr_low := Some SMALLEST_VALUE_KEY, kr_include_low := True\<rparr>, absorbed)
            else Some (k, absorbed)))"

section \<open>The comparisons are the bounds\<close>

fun key_holds :: "binary_operator \<Rightarrow> bytes \<Rightarrow> bytes \<Rightarrow> bool" where
  "key_holds EQ k b = (k = b)"
| "key_holds GT k b = (b < k)"
| "key_holds GTE k b = (b \<le> k)"
| "key_holds LT k b = (k < b)"
| "key_holds LTE k b = (k \<le> b)"
| "key_holds _ k b = True"

definition low_ok :: "bytes option \<Rightarrow> bool \<Rightarrow> bytes \<Rightarrow> bool" where
  "low_ok low incl k = (case low of None \<Rightarrow> True | Some l \<Rightarrow> if incl then l \<le> k else l < k)"

definition high_ok :: "bytes option \<Rightarrow> bool \<Rightarrow> bytes \<Rightarrow> bool" where
  "high_ok high incl k = (case high of None \<Rightarrow> True | Some h \<Rightarrow> if incl then k \<le> h else k < h)"

lemma low_ok_simps [simp]:
  "low_ok None incl k" "low_ok (Some l) True k = (l \<le> k)" "low_ok (Some l) False k = (l < k)"
  by (simp_all add: low_ok_def)

lemma high_ok_simps [simp]:
  "high_ok None incl k" "high_ok (Some h) True k = (k \<le> h)" "high_ok (Some h) False k = (k < h)"
  by (simp_all add: high_ok_def)

lemma raise_low:
  "low_ok (if raises_low b low then Some b else low) (raises_low b low \<or> incl) k \<longleftrightarrow> low_ok low incl k \<and> b \<le> k"
  "low_ok (if raises_low b low \<or> low = Some b then Some b else low) (\<not> (raises_low b low \<or> low = Some b) \<and> incl) k \<longleftrightarrow>
     low_ok low incl k \<and> b < k"
proof -
  show "low_ok (if raises_low b low then Some b else low) (raises_low b low \<or> incl) k \<longleftrightarrow> low_ok low incl k \<and> b \<le> k"
  proof (cases low)
    case (Some l)
    then show ?thesis by (cases "l < b"; cases incl) (simp_all, (meson leD leI le_less_trans less_le_trans order.trans less_imp_le)+)
  qed simp
  show "low_ok (if raises_low b low \<or> low = Some b then Some b else low) (\<not> (raises_low b low \<or> low = Some b) \<and> incl) k \<longleftrightarrow>
     low_ok low incl k \<and> b < k"
  proof (cases low)
    case (Some l)
    then show ?thesis
      by (cases "l < b"; cases "l = b"; cases incl) (simp_all, (meson leD leI le_less_trans less_le_trans order.trans less_imp_le linorder_neqE)+)
  qed simp
qed

lemma lower_high:
  "high_ok (if lowers_high b high then Some b else high) (lowers_high b high \<or> incl) k \<longleftrightarrow> high_ok high incl k \<and> k \<le> b"
  "high_ok (if lowers_high b high \<or> high = Some b then Some b else high) (\<not> (lowers_high b high \<or> high = Some b) \<and> incl) k \<longleftrightarrow>
     high_ok high incl k \<and> k < b"
proof -
  show "high_ok (if lowers_high b high then Some b else high) (lowers_high b high \<or> incl) k \<longleftrightarrow> high_ok high incl k \<and> k \<le> b"
  proof (cases high)
    case (Some h)
    then show ?thesis by (cases "b < h"; cases incl) (simp_all, (meson leD leI le_less_trans less_le_trans order.trans less_imp_le)+)
  qed simp
  show "high_ok (if lowers_high b high \<or> high = Some b then Some b else high) (\<not> (lowers_high b high \<or> high = Some b) \<and> incl) k \<longleftrightarrow>
     high_ok high incl k \<and> k < b"
  proof (cases high)
    case (Some h)
    then show ?thesis
      by (cases "b < h"; cases "h = b"; cases incl) (simp_all, (meson leD leI le_less_trans less_le_trans order.trans less_imp_le linorder_neqE)+)
  qed simp
qed

lemma row_in_bounds:
  "row_in kr (k, r) \<longleftrightarrow> low_ok (kr_low kr) (kr_include_low kr) k \<and> high_ok (kr_high kr) (kr_include_high kr) k"
  by (cases "kr_low kr"; cases "kr_high kr"; simp add: row_in_def low_ok_def high_ok_def)

lemma key_eq_holds: "key_holds EQ k b \<longleftrightarrow> b \<le> k \<and> k \<le> b"
  by (simp add: eq_iff conj_commute)

lemma narrow_fields:
  "narrow GT b kr = kr\<lparr>kr_low := (if raises_low b (kr_low kr) \<or> kr_low kr = Some b then Some b else kr_low kr),
     kr_include_low := (\<not> (raises_low b (kr_low kr) \<or> kr_low kr = Some b) \<and> kr_include_low kr)\<rparr>"
  "narrow GTE b kr = kr\<lparr>kr_low := (if raises_low b (kr_low kr) then Some b else kr_low kr),
     kr_include_low := (raises_low b (kr_low kr) \<or> kr_include_low kr)\<rparr>"
  "narrow LT b kr = kr\<lparr>kr_high := (if lowers_high b (kr_high kr) \<or> kr_high kr = Some b then Some b else kr_high kr),
     kr_include_high := (\<not> (lowers_high b (kr_high kr) \<or> kr_high kr = Some b) \<and> kr_include_high kr)\<rparr>"
  "narrow LTE b kr = kr\<lparr>kr_high := (if lowers_high b (kr_high kr) then Some b else kr_high kr),
     kr_include_high := (lowers_high b (kr_high kr) \<or> kr_include_high kr)\<rparr>"
  "narrow EQ b kr = narrow LTE b (narrow GTE b kr)"
  by (cases kr; simp add: narrow_def Let_def)+

lemma narrow_row_in:
  assumes "op \<in> {EQ, GT, GTE, LT, LTE}"
  shows "row_in (narrow op b kr) (k, r) \<longleftrightarrow> row_in kr (k, r) \<and> key_holds op k b"
proof -
  have GTE: "row_in (narrow GTE b kr) (k, r) \<longleftrightarrow> row_in kr (k, r) \<and> b \<le> k" for kr
    using raise_low(1) [of b "kr_low kr" "kr_include_low kr" k] unfolding row_in_bounds narrow_fields by auto
  have LTE: "row_in (narrow LTE b kr) (k, r) \<longleftrightarrow> row_in kr (k, r) \<and> k \<le> b" for kr
    using lower_high(1) [of b "kr_high kr" "kr_include_high kr" k] unfolding row_in_bounds narrow_fields by auto
  from assms consider "op = EQ" | "op = GT" | "op = GTE" | "op = LT" | "op = LTE" by blast
  then show ?thesis
  proof cases
    case 1
    then show ?thesis unfolding narrow_fields(5) key_eq_holds LTE GTE 1 by blast
  next
    case 2
    then show ?thesis using raise_low(2) [of b "kr_low kr" "kr_include_low kr" k]
      unfolding row_in_bounds narrow_fields 2 by auto
  next
    case 4
    then show ?thesis using lower_high(2) [of b "kr_high kr" "kr_include_high kr" k]
      unfolding row_in_bounds narrow_fields 4 by auto
  qed (simp_all add: GTE LTE)
qed

text \<open>Python's comparisons of the column's value with the literal, by their scaled values.\<close>

definition finite_value :: "pyval \<Rightarrow> bool" where
  "finite_value v = (case v of PyFloat w \<Rightarrow> isfinite w | _ \<Rightarrow> True)"

lemma encode_keyable: "encode_key v dt = Inr k \<Longrightarrow> finite_value v \<Longrightarrow> keyable dt v"
  by (cases v; cases dt)
    (auto simp: keyable_def finite_value_def guard_res_Inr bind_res_Inr INT64_MIN_def INT64_MAX_def)

lemma has_type_keyable: "has_type INT64_MAX dt v \<Longrightarrow> keyable dt v \<and> stored_value dt v = v"
  by (cases "(INT64_MAX, dt, v)" rule: has_type.cases) (auto simp: keyable_def)

definition scaled_by :: "pyval \<Rightarrow> int \<Rightarrow> bool" where
  "scaled_by v n \<longleftrightarrow> (\<exists>x. number_of v = Some x \<and> n_scaled x = n \<and> \<not> n_isnan x \<and> \<not> n_isinf x)"

lemma strict_scaled:
  assumes "scaled_by v m" and "scaled_by x n"
  shows "evaluate_strict EQ v x = Inr (PyBool (m = n))" "evaluate_strict LT v x = Inr (PyBool (m < n))"
    "evaluate_strict LTE v x = Inr (PyBool (m \<le> n))" "evaluate_strict GT v x = Inr (PyBool (n < m))"
    "evaluate_strict GTE v x = Inr (PyBool (n \<le> m))"
proof -
  from assms obtain a b where "number_of v = Some a" "number_of x = Some b"
    and s: "n_scaled a = m" "n_scaled b = n" "\<not> n_isnan a" "\<not> n_isinf a" "\<not> n_isnan b" "\<not> n_isinf b"
    by (auto simp: scaled_by_def)
  then have py: "py_number v = Some a" "py_number x = Some b" "kind v = ''number''" "kind x = ''number''" "v \<noteq> PyNone" "x \<noteq> PyNone"
    by (cases v; cases x; auto)+
  show "evaluate_strict EQ v x = Inr (PyBool (m = n))" "evaluate_strict LT v x = Inr (PyBool (m < n))"
    "evaluate_strict LTE v x = Inr (PyBool (m \<le> n))" "evaluate_strict GT v x = Inr (PyBool (n < m))"
    "evaluate_strict GTE v x = Inr (PyBool (n \<le> m))"
    using s by (auto simp: evaluate_strict_def require_comparable_def py py_eq_def py_ordered_def
        num_eq_def num_less_def num_leq_def)
qed

lemma scaled_by_finite: "isfinite w \<Longrightarrow> scaled_by (PyFloat w) (f_num w)"
  by (simp add: scaled_by_def isfinite_not_special)

lemma scaled_by_int: "scaled_by (PyInt n) (n * 2 ^ 1074)"
  by (simp add: scaled_by_def)

lemma scaled_eq: "scaled_by v m \<Longrightarrow> scaled_by x n \<Longrightarrow> py_eq v x \<longleftrightarrow> m = n"
  by (cases v; cases x) (auto simp: scaled_by_def py_eq_def num_eq_def)

definition key_relation :: "binary_operator \<Rightarrow> pyval \<Rightarrow> pyval \<Rightarrow> bytes \<Rightarrow> bytes \<Rightarrow> bool" where
  "key_relation op v x k b \<longleftrightarrow> evaluate_strict op v x = Inr (PyBool (key_holds op k b))"

lemma float_literal:
  assumes "encode_key x FLOAT = Inr b" and "x \<noteq> PyNone" and "finite_value x"
    and "decode_key b FLOAT = Inr again" and "py_eq again x"
  shows "\<exists>u. isfinite u \<and> stored_value FLOAT x = PyFloat u \<and> scaled_by x (f_num u)"
proof (cases x)
  case (PyFloat w)
  with assms(3) show ?thesis using scaled_by_finite by (auto simp: finite_value_def)
next
  case (PyInt n)
  with assms(1) obtain u where u: "float_of_int n = Inr u" and b: "b = TAG_VALUE # be_bytes 8 (unat (float_to_sortable u))"
    by (auto simp: bind_res_Inr)
  from float_of_int_finite [OF u] have fin: "isfinite u" .
  from u have st: "stored_value FLOAT x = PyFloat u" by (simp add: PyInt)
  have "keyable FLOAT x" using encode_keyable assms(1,3) by blast
  with key_decodes [of FLOAT x] PyInt assms(1,4) have again: "again = key_value FLOAT x" by auto
  define z where "z = (if num_eq (FloatV u) (FloatV 0) then 0 else u)"
  have zf: "isfinite z" using fin by (simp add: z_def isfinite_def f_mag_def)
  have fin0: "isfinite 0" by (simp add: isfinite_def f_mag_def)
  have zn: "f_num z = f_num u" using num_eq_finite [OF fin fin0] by (simp add: z_def)
  have "again = PyFloat z" by (simp add: again key_value_def st z_def)
  with assms(5) scaled_eq [OF scaled_by_finite [OF zf] scaled_by_int [of n]] PyInt zn
  have "f_num u = n * 2 ^ 1074" by simp
  with fin st scaled_by_int [of n] show ?thesis unfolding PyInt by metis
qed (use assms in auto)

lemma bound_by_key:
  assumes v: "has_type INT64_MAX dt v" and k: "encode_key v dt = Inr k"
    and x: "encode_key x dt = Inr b" "x \<noteq> PyNone" "finite_value x" "decode_key b dt = Inr again" "py_eq again x"
    and op: "op \<in> {EQ, GT, GTE, LT, LTE}"
  shows "evaluate_strict op v x = Inr (PyBool (key_holds op k b))"
proof -
  from has_type_keyable [OF v] have kv: "keyable dt v" "stored_value dt v = v" by auto
  have kx: "keyable dt x" using encode_keyable x(1,3) by blast
  note fwd = key_order [OF kv(1) kx k x(1), unfolded kv(2)]
  note bwd = key_order [OF kx kv(1) x(1) k, unfolded kv(2)]
  have le: "k \<le> b \<longleftrightarrow> k < b \<or> k = b" "b \<le> k \<longleftrightarrow> b < k \<or> k = b" by auto
  have scaled: "evaluate_strict op v x = Inr (PyBool (key_holds op k b))"
    if "scaled_by v m" "scaled_by x n" "k < b \<longleftrightarrow> m < n" "b < k \<longleftrightarrow> n < m" "k = b \<longleftrightarrow> m = n" for m n
    using op strict_scaled [OF that(1,2)] that(3-5) le by auto
  show ?thesis
  proof (cases dt)
    case INTEGER
    with v x(1,2) obtain m n where mn: "v = PyInt m" "x = PyInt n" by (cases v; cases x) auto
    with scaled [OF scaled_by_int [of m, folded mn] scaled_by_int [of n, folded mn]] fwd bwd INTEGER show ?thesis by simp
  next
    case FLOAT
    with v obtain w where w: "v = PyFloat w" "isfinite w" by (cases v) auto
    from float_literal [of x b again] x FLOAT obtain u where u: "isfinite u" "stored_value FLOAT x = PyFloat u" "scaled_by x (f_num u)" by auto
    from scaled [OF _ u(3), of "f_num w"] scaled_by_finite [OF w(2)] fwd bwd FLOAT w u(1,2) show ?thesis
      by (simp add: num_less_finite num_eq_finite)
  next
    case BOOLEAN
    with v x(1,2) obtain p q where "v = PyBool p" "x = PyBool q" by (cases v; cases x) auto
    with op fwd bwd BOOLEAN le show ?thesis
      by (cases p; cases q) (auto simp: evaluate_strict_def require_comparable_def py_eq_def py_ordered_def num_eq_def num_less_def num_leq_def)
  next
    case TEXT
    with v x(1,2) obtain s t where "v = PyStr s" "x = PyStr t" by (cases v; cases x) auto
    with op fwd bwd TEXT le show ?thesis
      by (auto simp: evaluate_strict_def require_comparable_def py_eq_def py_ordered_def)
  qed
qed

section \<open>Index bounds are exact\<close>

text \<open>The comparisons are on column \<open>ci\<close>, against finite literals.\<close>

definition comparison_on :: "nat \<Rightarrow> expression \<Rightarrow> bool" where
  "comparison_on ci e =
     (case as_column_comparison e of None \<Rightarrow> True | Some (c, op, x) \<Rightarrow> column_index c = ci \<and> finite_value x)"

lemma py_eq_sym: "py_eq v x \<longleftrightarrow> py_eq x v"
proof -
  have "num_eq a b \<longleftrightarrow> num_eq b a" for a b by (auto simp: num_eq_def)
  then show ?thesis by (auto simp: py_eq_def split: option.splits)
qed

lemma mirrored_strict:
  assumes "is_comparison op" and "op \<noteq> NEQ"
  shows "evaluate_strict (mirrored op) v x = evaluate_strict op x v"
proof -
  have kinds: "require_comparable v x = require_comparable x v" by (simp add: require_comparable_def eq_commute)
  have flip: "py_ordered f g v x = py_ordered (\<lambda>a b. f b a) (\<lambda>s t. g t s) x v" for f g
    by (cases v; cases x) (simp_all add: py_ordered_def)
  have "compare (mirrored op) v x = compare op x v"
    using assms by (cases op) (simp_all add: flip py_eq_sym)
  with assms kinds show ?thesis by (cases op) (auto simp: evaluate_strict_def)
qed

lemma column_comparison_evaluates:
  assumes "as_column_comparison e = Some (c, op, x)" and "column_index c < length row"
  shows "op \<in> {EQ, GT, GTE, LT, LTE} \<and> evaluate e row = evaluate_strict op (row ! column_index c) x"
proof -
  from assms obtain bop l r where e: "e = BinaryOp bop l r" and cmp: "is_comparison bop" "bop \<noteq> NEQ"
    by (cases e) (auto split: if_splits)
  with assms(1) consider
      (straight) t where "l = BoundColumnRef c" "r = Literal x t" "op = bop"
    | (turned) t where "l = Literal x t" "r = BoundColumnRef c" "op = mirrored bop"
    by (auto split: expression.splits)
  then show ?thesis
  proof cases
    case straight
    with cmp assms(2) e show ?thesis by (cases bop) (auto simp: evaluate_binary_def)
  next
    case turned
    with cmp assms(2) e mirrored_strict [OF cmp, of "row ! column_index c" x] show ?thesis
      by (cases bop) (auto simp: evaluate_binary_def)
  qed
qed

lemma usable_bound_cases:
  assumes "usable_bound dt e = Inr (Some (op, b))"
  obtains c x again where "as_column_comparison e = Some (c, op, x)" "x \<noteq> PyNone" "encode_key x dt = Inr b"
    "decode_key b dt = Inr again" "py_eq again x"
  using assms
  by (auto simp: usable_bound_def bind_res_Inr split: option.splits if_splits sum.splits)

lemma usable_bound_exact:
  assumes b: "usable_bound dt e = Inr (Some (op, b))" and on: "comparison_on ci e" and ci: "ci < length row"
    and v: "has_type INT64_MAX dt (row ! ci)" and k: "encode_key (row ! ci) dt = Inr k" and v0: "row ! ci \<noteq> PyNone"
  shows "row_in (narrow op b kr) (k, r) \<longleftrightarrow> row_in kr (k, r) \<and> evaluate e row = Inr (PyBool True)"
proof -
  from b obtain c x again where x: "as_column_comparison e = Some (c, op, x)" "x \<noteq> PyNone" "encode_key x dt = Inr b"
    "decode_key b dt = Inr again" "py_eq again x" by (rule usable_bound_cases)
  with on have cx: "column_index c = ci" "finite_value x" by (auto simp: comparison_on_def)
  from column_comparison_evaluates [OF x(1)] cx ci
  have op: "op \<in> {EQ, GT, GTE, LT, LTE}" and ev: "evaluate e row = evaluate_strict op (row ! ci) x" by auto
  from bound_by_key [OF v k x(3,2) cx(2) x(4,5) op] ev narrow_row_in [OF op] show ?thesis by simp
qed

text \<open>The NULL key is outside every range that starts at a value's key.\<close>

definition low_is_value :: "key_range \<Rightarrow> bool" where
  "low_is_value kr \<longleftrightarrow> (\<forall>b. kr_low kr = Some b \<longrightarrow> SMALLEST_VALUE_KEY \<le> b)"

lemma narrow_low_is_value: "low_is_value kr \<Longrightarrow> SMALLEST_VALUE_KEY \<le> b \<Longrightarrow> low_is_value (narrow op b kr)"
  by (auto simp: low_is_value_def narrow_def Let_def split: binary_operator.split)

lemma usable_bound_value: "usable_bound dt e = Inr (Some (op, b)) \<Longrightarrow> SMALLEST_VALUE_KEY \<le> b"
  by (erule usable_bound_cases) (simp add: key_bounds)

lemma null_outside: "low_is_value kr \<Longrightarrow> kr_low kr = Some b \<Longrightarrow> k < SMALLEST_VALUE_KEY \<Longrightarrow> \<not> row_in kr (k, r)"
  unfolding row_in_bounds low_is_value_def by (auto simp: low_ok_def split: if_splits)

lemma null_not_true:
  assumes "usable_bound dt e = Inr (Some (op, b))" and "comparison_on ci e" and "ci < length row" and "row ! ci = PyNone"
  shows "evaluate e row \<noteq> Inr (PyBool True)"
proof -
  from assms(1) obtain c x where x: "as_column_comparison e = Some (c, op, x)" by (rule usable_bound_cases)
  with assms(2-4) column_comparison_evaluates [OF x, of row] show ?thesis
    by (simp add: comparison_on_def evaluate_strict_def)
qed

definition absorbed_hold :: "(nat \<times> expression) list \<Rightarrow> nat set \<Rightarrow> row \<Rightarrow> bool" where
  "absorbed_hold candidates absorbed row \<longleftrightarrow>
     (\<forall>(position, e) \<in> set candidates. position \<in> absorbed \<longrightarrow> evaluate e row = Inr (PyBool True))"

lemma fold_bounds_exact:
  assumes "fold_bounds dt kr ab cs = Inr (kr', ab')" and "distinct (map fst cs)" and "fst ` set cs \<inter> ab = {}"
    and "\<forall>(p, e) \<in> set cs. comparison_on ci e" and "ci < length row" and "encode_key (row ! ci) dt = Inr k"
    and "low_is_value kr"
  shows "ab \<subseteq> ab' \<and> ab' \<subseteq> ab \<union> fst ` set cs \<and> low_is_value kr' \<and>
    (has_type INT64_MAX dt (row ! ci) \<longrightarrow> row ! ci \<noteq> PyNone \<longrightarrow>
       (row_in kr' (k, r) \<longleftrightarrow> row_in kr (k, r) \<and> absorbed_hold cs ab' row)) \<and>
    (row ! ci = PyNone \<longrightarrow> ab' \<noteq> ab \<longrightarrow> \<not> absorbed_hold cs ab' row)"
  using assms
proof (induction dt kr ab cs rule: fold_bounds.induct)
  case (1 dt kr ab)
  then show ?case by (simp add: absorbed_hold_def)
next
  case (2 dt kr ab p e cs)
  from "2.prems"(1) obtain ub where ub: "usable_bound dt e = Inr ub" by (auto simp: bind_res_Inr)
  have step: "absorbed_hold ((p, e) # cs) X row \<longleftrightarrow>
      (p \<in> X \<longrightarrow> evaluate e row = Inr (PyBool True)) \<and> absorbed_hold cs X row" for X
    by (simp add: absorbed_hold_def)
  show ?case
  proof (cases ub)
    case None
    have IH: "ab \<subseteq> ab' \<and> ab' \<subseteq> ab \<union> fst ` set cs \<and> low_is_value kr' \<and>
      (has_type INT64_MAX dt (row ! ci) \<longrightarrow> row ! ci \<noteq> PyNone \<longrightarrow>
         (row_in kr' (k, r) \<longleftrightarrow> row_in kr (k, r) \<and> absorbed_hold cs ab' row)) \<and>
      (row ! ci = PyNone \<longrightarrow> ab' \<noteq> ab \<longrightarrow> \<not> absorbed_hold cs ab' row)"
      using "2.IH"(1) [OF ub None] "2.prems" ub None by (simp add: bind_res_Inr)
    moreover have "p \<notin> ab'" using IH "2.prems"(2,3) by auto
    ultimately show ?thesis unfolding step by auto
  next
    case (Some ob)
    obtain op b where ob: "ob = (op, b)" by (cases ob)
    note ub' = ub [unfolded Some ob]
    have low: "low_is_value (narrow op b kr)"
      using narrow_low_is_value "2.prems"(7) usable_bound_value [OF ub'] by blast
    have on: "comparison_on ci e" using "2.prems"(4) by simp
    have fb: "fold_bounds dt (narrow op b kr) (insert p ab) cs = Inr (kr', ab')"
      using "2.prems"(1) ub' by (simp add: bind_res_Inr)
    have IH: "insert p ab \<subseteq> ab' \<and> ab' \<subseteq> insert p ab \<union> fst ` set cs \<and> low_is_value kr' \<and>
      (has_type INT64_MAX dt (row ! ci) \<longrightarrow> row ! ci \<noteq> PyNone \<longrightarrow>
         (row_in kr' (k, r) \<longleftrightarrow> row_in (narrow op b kr) (k, r) \<and> absorbed_hold cs ab' row)) \<and>
      (row ! ci = PyNone \<longrightarrow> ab' \<noteq> insert p ab \<longrightarrow> \<not> absorbed_hold cs ab' row)"
      using "2.IH"(2) [OF ub Some ob [symmetric] fb] "2.prems" low by auto
    show ?thesis unfolding step
      using IH usable_bound_exact [OF ub' on "2.prems"(5) _ "2.prems"(6)] null_not_true [OF ub' on "2.prems"(5)] by auto
  qed
qed

lemma range_absorbs:
  assumes "bounds_for dt candidates = Inr (Some (kr, absorbed))" and "distinct (map fst candidates)"
    and "\<forall>(position, e) \<in> set candidates. comparison_on ci e" and "ci < length row"
    and "row ! ci = PyNone \<or> has_type INT64_MAX dt (row ! ci)" and "encode_key (row ! ci) dt = Inr k"
  shows "row_in kr (k, rid) \<longleftrightarrow> absorbed_hold candidates absorbed row"
proof -
  from assms(1) obtain kr0 where f: "fold_bounds dt full_range {} candidates = Inr (kr0, absorbed)" and ne: "absorbed \<noteq> {}"
    and kr: "kr = (if kr_low kr0 = None then kr0\<lparr>kr_low := Some SMALLEST_VALUE_KEY, kr_include_low := True\<rparr> else kr0)"
  proof -
    from assms(1) obtain kr0 ab0 where f: "fold_bounds dt full_range {} candidates = Inr (kr0, ab0)"
      by (auto simp: bounds_for_def bind_res_Inr)
    with assms(1) that [of kr0] show ?thesis by (auto simp: bounds_for_def split: if_splits)
  qed
  have "low_is_value full_range" by (simp add: low_is_value_def)
  note F = fold_bounds_exact [OF f assms(2) _ assms(3,4,6) this, of rid]
  have lv: "low_is_value kr" "kr_low kr \<noteq> None" using F kr by (auto simp: low_is_value_def)
  show ?thesis
  proof (cases "row ! ci = PyNone")
    case True
    with key_bounds [OF assms(6)] have "k < SMALLEST_VALUE_KEY" by auto
    with lv null_outside have "\<not> row_in kr (k, rid)" by auto
    with F True ne show ?thesis by simp
  next
    case False
    with key_bounds [OF assms(6)] have "SMALLEST_VALUE_KEY \<le> k" by auto
    then have "row_in kr (k, rid) \<longleftrightarrow> row_in kr0 (k, rid)" by (auto simp: kr row_in_bounds)
    with F False assms(5) show ?thesis by (simp add: row_in_bounds)
  qed
qed

text \<open>
  C12: the range of an index scan is exactly the comparisons it replaces. For a row whose column value is
  NULL or of the column's type, the row's key is in the range that \<open>bounds_for\<close> folds from the
  candidates, whatever their order, operators and literals, if and only if every absorbed comparison
  evaluates to TRUE on it; in particular a NULL is in no range, a literal the key encoding cannot hold
  exactly is absorbed by none, and contradicting equalities leave no key.
\<close>

theorem bounds_exact:
  assumes "bounds_for dt candidates = Inr (Some (kr, absorbed))" and "distinct (map fst candidates)"
    and "\<forall>(position, e) \<in> set candidates. comparison_on ci e" and "ci < length row"
    and "row ! ci = PyNone \<or> has_type INT64_MAX dt (row ! ci)" and "encode_key (row ! ci) dt = Inr k"
  shows "row_in kr (k, rid) \<longleftrightarrow> absorbed_hold candidates absorbed row"
  using assms by (rule range_absorbs)

definition demo_candidates :: "(nat \<times> expression) list" where
  "demo_candidates =
     [(4, BinaryOp GT (demo_column 1 BOOLEAN) (Literal (PyBool False) (Some BOOLEAN))),
      (7, BinaryOp GTE (Literal (PyBool True) (Some BOOLEAN)) (demo_column 1 BOOLEAN)),
      (9, BinaryOp EQ (demo_column 1 BOOLEAN) (Literal (PyInt 1) (Some INTEGER)))]"

theorem bounds_exact_witness:
  "absorbed_hold demo_candidates {4, 7} [PyInt 3, PyBool True] \<and>
   \<not> absorbed_hold demo_candidates {4, 7} [PyInt 3, PyNone]"
proof -
  let ?kr = "\<lparr>kr_low = Some [TAG_VALUE, 0], kr_high = Some [TAG_VALUE, 1], kr_include_low = False, kr_include_high = True\<rparr>"
  have b: "bounds_for BOOLEAN demo_candidates = Inr (Some (?kr, {4, 7}))"
    by (simp add: bounds_for_def demo_candidates_def demo_column_def usable_bound_def decode_key_def tag_defs
        require_body_def py_eq_def num_eq_def narrow_def insert_commute)
  have side: "distinct (map fst demo_candidates)" "\<forall>(p, e) \<in> set demo_candidates. comparison_on 1 e"
    by (simp_all add: demo_candidates_def demo_column_def comparison_on_def finite_value_def)
  from bounds_exact [OF b side, of "[PyInt 3, PyBool True]" "[TAG_VALUE, 1]" rid]
    bounds_exact [OF b side, of "[PyInt 3, PyNone]" NULL_KEY rid]
  show ?thesis by (simp add: row_in_def tag_defs)
qed

end
