(* ===== verification/Physical.thy ===== *)
theory Physical
  imports JoinLaws Access
begin

text \<open>
  Physical plans (\<open>engine/planner/physical.py\<close>), the operator trees made of them (\<open>materialise\<close> in
  \<open>engine/executor/engine.py\<close>), and running such a tree. What the catalog and the storage provide (the rows
  a heap scan yields, the entries of an index range, the lookup of one record) is a record of functions,
  given by the heap and index theories. The theorem is that every plan runs to its end, and what it yields.
\<close>

section \<open>Plans\<close>

datatype physical_node =
    PhysicalSeqScan pystr "column list" row_layout
  | PhysicalIndexScan pystr "column list" pystr key_range row_layout
  | PhysicalFilter expression physical_node
  | PhysicalProject "expression list" "result_column list" physical_node
  | PhysicalNestedLoopJoin join_config physical_node physical_node
  | PhysicalHashJoin hash_config physical_node physical_node
  | PhysicalAggregate "expression list" "bound_aggregate list" "expression option" physical_node
  | PhysicalSort "bound_sort_key list" physical_node
  | PhysicalDistinct physical_node
  | PhysicalLimit nat nat physical_node

record database_view =
  dv_heap :: "pystr \<Rightarrow> (record_id \<times> bytes) generator"
  dv_get :: "pystr \<Rightarrow> record_id \<Rightarrow> bytes res"
  dv_range :: "pystr \<Rightarrow> key_range \<Rightarrow> (bytes \<times> record_id) generator"
  dv_snapshot :: "snapshot option"

definition scan_of_table :: "database_view \<Rightarrow> column list \<Rightarrow> row_layout \<Rightarrow> scan_config" where
  "scan_of_table db schema layout =
     \<lparr>sc_schema = schema, sc_layout = Some layout, sc_snapshot = dv_snapshot db\<rparr>"

section \<open>Running an operator tree\<close>

text \<open>
  \<open>iter(operator)\<close> opens the operator, which opens its children first, left before right, and then reads
  what it needs; after that come the calls of \<open>next()\<close>. \<open>Inl e\<close> is an exception from opening, \<open>Inr s\<close> the
  stream of an opened operator, and \<open>None\<close> a run that never ends.
\<close>

definition run_step :: "('b, row option) op \<Rightarrow> 'b res \<Rightarrow> stream res option" where
  "run_step produce started =
     (case started of
        Inl e \<Rightarrow> Some (Inl e)
      | Inr b \<Rightarrow> map_option Inr (drain (op_next produce) (fst (op_open Inr (op_new b)))))"

definition run_unary :: "(stream \<Rightarrow> stream res option) \<Rightarrow> stream res option \<Rightarrow> stream res option" where
  "run_unary f child = Option.bind child (\<lambda>c. case c of Inl e \<Rightarrow> Some (Inl e) | Inr s \<Rightarrow> f s)"

definition join_of :: "expression \<Rightarrow> (nat \<times> nat) list \<Rightarrow> join_kind \<Rightarrow> join_config" where
  "join_of predicate slices k =
     \<lparr>jc_predicate = predicate, jc_slices = slices, jc_preserve_left = preserves_left k, jc_preserve_right = preserves_right k\<rparr>"

fun run :: "database_view \<Rightarrow> physical_node \<Rightarrow> stream res option" where
  "run db (PhysicalSeqScan table schema layout) =
     run_step (seq_scan_produce (scan_of_table db schema layout)) (Inr (dv_heap db table))"
| "run db (PhysicalIndexScan table schema index kr layout) =
     run_step (index_scan_produce (scan_of_table db schema layout) (dv_get db table)) (Inr (dv_range db index kr))"
| "run db (PhysicalFilter predicate child) =
     run_unary (\<lambda>s. run_step (filter_produce predicate) (Inr s)) (run db child)"
| "run db (PhysicalProject projections columns child) =
     run_unary (\<lambda>s. run_step (project_produce projections) (Inr s)) (run db child)"
| "run db (PhysicalNestedLoopJoin c left right) =
     run_unary (\<lambda>l. run_unary (\<lambda>r. run_step (nl_produce c) (nl_open l r)) (run db right)) (run db left)"
| "run db (PhysicalHashJoin c left right) =
     run_unary (\<lambda>l. run_unary (\<lambda>r. run_step (hj_produce c) (hj_open c l r)) (run db right)) (run db left)"
| "run db (PhysicalAggregate keys aggregates having child) =
     run_unary (\<lambda>s. run_step emit_produce
       (bind_res (ha_open \<lparr>ag_keys = keys, ag_aggregates = aggregates, ag_having = having\<rparr> s)
          (\<lambda>rows. Inr \<lparr>bf_rows = rows, bf_position = 0\<rparr>))) (run db child)"
| "run db (PhysicalSort keys child) =
     run_unary (\<lambda>s. run_step emit_produce
       (bind_res (sort_open keys s) (\<lambda>rows. Inr \<lparr>bf_rows = rows, bf_position = 0\<rparr>))) (run db child)"
| "run db (PhysicalDistinct child) =
     run_unary (\<lambda>s. run_step distinct_produce (Inr \<lparr>ds_child = s, ds_seen = []\<rparr>)) (run db child)"
| "run db (PhysicalLimit limit offset child) =
     run_unary (\<lambda>s. run_step (limit_produce limit offset)
       (Inr \<lparr>lm_child = s, lm_emitted = 0, lm_skipped = 0\<rparr>)) (run db child)"

section \<open>Every plan runs to its end\<close>

lemma drain_ends:
  assumes "wf R" and "\<And>s s' row. step s = (s', Inr (Some row)) \<Longrightarrow> (s', s) \<in> R"
  shows "\<exists>t. drain step s = Some t"
  using assms(1)
proof (induction s rule: wf_induct_rule)
  case (less s)
  obtain s' r where step: "step s = (s', r)" by force
  show ?case
  proof (cases r)
    case (Inl e)
    with step drain_cases(1) [of step s s' e] show ?thesis by simp
  next
    case (Inr x)
    show ?thesis
    proof (cases x)
      case None
      with step Inr drain_cases(2) [of step s s'] show ?thesis by simp
    next
      case (Some row)
      with step Inr have "(s', s) \<in> R" using assms(2) [of s s' row] by simp
      from less.IH [OF this] obtain t where "drain step s' = Some t" ..
      with drain_cases(3) [of step s s' row] step Inr Some show ?thesis by simp
    qed
  qed
qed

lemma run_step_ends:
  assumes "\<And>b. started = Inr b \<Longrightarrow> \<exists>t. drain produce b = Some t"
  shows "\<exists>r. run_step produce started = Some r"
proof (cases started)
  case (Inr b)
  with assms obtain t where "drain produce b = Some t" by blast
  from drain_op_next [OF this] Inr show ?thesis by (auto simp: run_step_def op_open_def op_new_def)
qed (simp add: run_step_def)

lemma run_step_drain: "drain produce b = Some t \<Longrightarrow> run_step produce (Inr b) = Some (Inr t)"
  using drain_op_next [of produce b t] by (simp add: run_step_def op_open_def op_new_def)

lemma hj_scan_rest:
  "hj_scan c s = (s', r) \<Longrightarrow> hj_right s' = hj_right s \<and> hj_draining s' = hj_draining s \<and> hj_build s' = hj_build s \<and>
     hj_drain s' = hj_drain s \<and> hj_bucket s' = hj_bucket s \<and> hj_position s \<le> hj_position s' \<and>
     (\<forall>row. r = Inr (Some row) \<longrightarrow> hj_position s < hj_position s' \<and> hj_position s' \<le> length (hj_bucket s))"
proof (induction c s rule: hj_scan.induct)
  case (1 c s)
  let ?s = "s\<lparr>hj_position := Suc (hj_position s)\<rparr>"
  show ?case
  proof (cases "hj_position s < length (hj_bucket s)")
    case True
    note IH = 1(1) [OF True refl refl refl]
    show ?thesis
    proof (cases "hj_matches c (merge_rows (jc_slices (hc_join c)) (hj_build s ! (hj_bucket s ! hj_position s)) (hj_probe_row s))")
      case (Inr b)
      then show ?thesis using 1(2) True IH
        by (subst (asm) hj_scan.simps) (force simp: Let_def split: bool.splits)
    qed (use 1(2) True in \<open>subst (asm) hj_scan.simps, auto simp: Let_def\<close>)
  qed (use 1(2) in \<open>subst (asm) hj_scan.simps, auto\<close>)
qed

lemma hj_unmatched_build_rest:
  "hj_unmatched_build c s = (s', Inr (Some row)) \<Longrightarrow> hj_right s' = hj_right s \<and> hj_build s' = hj_build s \<and>
     hj_drain s < hj_drain s' \<and> hj_drain s' \<le> length (hj_build s)"
proof (induction c s rule: hj_unmatched_build.induct)
  case (1 c s)
  have c: "jc_preserve_left (hc_join c) \<and> hj_drain s < length (hj_build s)"
    using 1(2) by (subst (asm) hj_unmatched_build.simps) (auto split: if_splits)
  show ?case
  proof (cases "hj_drain s \<in> hj_build_matched s")
    case True
    then have "hj_unmatched_build c (s\<lparr>hj_drain := Suc (hj_drain s)\<rparr>) = (s', Inr (Some row))"
      using 1(2) c by (subst (asm) hj_unmatched_build.simps) (simp add: Let_def)
    with 1(1) [OF c refl refl] True show ?thesis by auto
  next
    case False
    then show ?thesis using 1(2) c by (subst (asm) hj_unmatched_build.simps) (auto simp: Let_def)
  qed
qed

definition hj_rank :: "(hash_join \<times> hash_join) set" where
  "hj_rank = measures [\<lambda>s. length (fst (hj_right s)), \<lambda>s. length (hj_build s) - hj_drain s,
     \<lambda>s. if hj_bucket s = [] then 0 else Suc (length (hj_bucket s) - hj_position s)]"

lemma hj_rank_shorter: "length (fst (hj_right s')) < length (fst (hj_right s)) \<Longrightarrow> (s', s) \<in> hj_rank"
  by (simp add: hj_rank_def)

lemma hj_rank_trans: "(s'', s') \<in> hj_rank \<Longrightarrow> (s', s) \<in> hj_rank \<Longrightarrow> (s'', s) \<in> hj_rank"
  unfolding hj_rank_def by auto

lemma hj_produce_rank: "hj_produce c s = (s', Inr (Some row)) \<Longrightarrow> (s', s) \<in> hj_rank"
proof (induction c s rule: hj_produce.induct)
  case (1 c s)
  obtain t r where scan: "hj_scan c s = (t, r)" by force
  note t = hj_scan_rest [OF scan]
  consider (raise) e where "r = Inl e" | (row) m where "r = Inr (Some m)" | (none) "r = Inr None"
    using t by (metis not_None_eq obj_sumE)
  then show ?case
  proof cases
    case raise
    with 1(4) scan show ?thesis by (subst (asm) hj_produce.simps) simp
  next
    case row
    with 1(4) scan have "s' = t" by (subst (asm) hj_produce.simps) simp
    with t row show ?thesis by (auto simp: hj_rank_def)
  next
    case none
    show ?thesis
    proof (cases "jc_preserve_right (hc_join c) \<and> hj_bucket t \<noteq> [] \<and> \<not> hj_probe_matched t")
      case True
      with 1(4) scan none have "s' = t\<lparr>hj_bucket := []\<rparr>" by (subst (asm) hj_produce.simps) auto
      with t True show ?thesis by (auto simp: hj_rank_def)
    next
      case tail: False
      show ?thesis
      proof (cases "hj_draining t")
        case True
        with 1(4) scan none tail have "hj_unmatched_build c t = (s', Inr (Some row))"
          by (subst (asm) hj_produce.simps) auto
        from hj_unmatched_build_rest [OF this] t show ?thesis by (auto simp: hj_rank_def)
      next
        case False
        note False' = False
        obtain q p where pull: "pull (hj_right t) = (q, p)" by (cases "pull (hj_right t)")
        show ?thesis
        proof (cases p)
          case (Inl e)
          with 1(4) scan none tail False pull show ?thesis by (subst (asm) hj_produce.simps) auto
        next
          case (Inr o')
          show ?thesis
          proof (cases o')
            case None
            with Inr pull pull_end [of "hj_right t" q] have q: "hj_right t = ([], None)" "q = ([], None)" by auto
            let ?x = "t\<lparr>hj_right := q, hj_draining := True\<rparr>"
            have "hj_produce c ?x = (s', Inr (Some row))"
              using 1(4) scan none tail False pull Inr None by (subst (asm) hj_produce.simps) auto
            then have "(s', ?x) \<in> hj_rank"
              using 1(1) [OF scan [unfolded none, symmetric] refl refl tail False pull [symmetric] Inr None] by blast
            with t q show ?thesis by (auto simp: hj_rank_def)
          next
            case (Some probe)
            with pull pull_shorter Inr have q: "length (fst q) < length (fst (hj_right s))" using t by metis
            have shorter: "(x, s) \<in> hj_rank" if "hj_right x = q" for x
              using q that by (intro hj_rank_shorter) simp
            show ?thesis
            proof (cases "evaluate (hc_probe_key c) probe")
              case (Inl e)
              with 1(4) scan none tail False pull \<open>p = Inr o'\<close> Some show ?thesis
                by (subst (asm) hj_produce.simps) (auto simp: Let_def)
            next
              case (Inr key)
              define bucket where "bucket = (if key = PyNone then [] else case dict_get py_eq (hj_table t) key of None \<Rightarrow> [] | Some b \<Rightarrow> b)"
              let ?y = "t\<lparr>hj_right := q, hj_probe_row := probe, hj_bucket := bucket, hj_position := 0, hj_probe_matched := False\<rparr>"
              have step: "(if bucket = [] then (if jc_preserve_right (hc_join c) then (t\<lparr>hj_right := q\<rparr>, Inr (Some probe))
                    else hj_produce c (t\<lparr>hj_right := q\<rparr>)) else hj_produce c ?y) = (s', Inr (Some row))"
                using 1(4) scan none tail False pull \<open>p = Inr o'\<close> Some Inr
                by (subst (asm) hj_produce.simps) (auto simp: Let_def bucket_def)
              show ?thesis
              proof (cases "bucket = []")
                case True
                show ?thesis using 1(2) [OF scan [unfolded none, symmetric] refl refl tail False pull [symmetric] \<open>p = Inr o'\<close> Some refl Inr _ True]
                    step True shorter hj_rank_trans [of s' "t\<lparr>hj_right := q\<rparr>" s] by (auto simp: bucket_def split: if_splits)
              next
                case False
                show ?thesis using 1(3) [OF scan [unfolded none, symmetric] refl refl tail False' pull [symmetric] \<open>p = Inr o'\<close> Some refl Inr _ False]
                    step False shorter hj_rank_trans [of s' ?y s] by (auto simp: bucket_def split: if_splits)
              qed
            qed
          qed
        qed
      qed
    qed
  qed
qed

lemma drain_emit: "drain emit_produce \<lparr>bf_rows = rows, bf_position = i\<rparr> = Some (drop i rows, None)"
proof (induction "length rows - i" arbitrary: i)
  case 0
  then have "emit_produce \<lparr>bf_rows = rows, bf_position = i\<rparr> = (\<lparr>bf_rows = rows, bf_position = i\<rparr>, Inr None)"
    by (simp add: emit_produce_def)
  from drain_cases(2) [of emit_produce, OF this] 0 show ?case by simp
next
  case (Suc n)
  then have lt: "i < length rows" by simp
  then have "emit_produce \<lparr>bf_rows = rows, bf_position = i\<rparr> = (\<lparr>bf_rows = rows, bf_position = Suc i\<rparr>, Inr (Some (rows ! i)))"
    by (simp add: emit_produce_def)
  from drain_cases(3) [of emit_produce, OF this Suc(1)] Suc(2) lt show ?case by (simp add: Cons_nth_drop_Suc)
qed

text \<open>What the operators yield from opened inputs: the closed forms of \<open>StreamLaws\<close> and \<open>JoinLaws\<close>.\<close>

definition emitted :: "row list res \<Rightarrow> stream res" where
  "emitted rows = bind_res rows (\<lambda>rows. Inr (rows, None))"

lemma run_emit:
  "run_step emit_produce (bind_res rows (\<lambda>rows. Inr \<lparr>bf_rows = rows, bf_position = 0\<rparr>)) = Some (emitted rows)"
  using run_step_drain [OF drain_emit, of "projr rows" 0] by (cases rows) (simp_all add: run_step_def emitted_def)

lemma run_streaming:
  "run_step (filter_produce p) (Inr s) = Some (Inr (stream_bind (filter_row p) s))"
  "run_step (project_produce ps) (Inr s) = Some (Inr (stream_bind (project_out ps) s))"
  "run_step distinct_produce (Inr \<lparr>ds_child = s, ds_seen = []\<rparr>) = Some (Inr (first_seen [] (fst s), snd s))"
  "run_step (limit_produce n m) (Inr \<lparr>lm_child = s, lm_emitted = 0, lm_skipped = 0\<rparr>) = Some (Inr (limit_spec n m s))"
  by (rule run_step_drain; cases s; simp add: drain_filter drain_project drain_distinct drain_limit)+

lemma run_scans:
  "run_step (seq_scan_produce c) (Inr g) =
     Some (Inr (generated (\<lambda>(rid, payload). visible_out (visible_row c payload)) (left_over g) (failure g)))"
  "run_step (index_scan_produce c fetch) (Inr h) =
     Some (Inr (generated (\<lambda>(key, rid). visible_out (fetch_row c fetch rid)) (left_over h) (failure h)))"
  by (rule run_step_drain; cases g; cases h; simp add: drain_seq_scan drain_index_scan)+

definition nested_loop_out :: "join_config \<Rightarrow> stream \<Rightarrow> stream \<Rightarrow> stream res" where
  "nested_loop_out c l r = (case snd r of Some e \<Rightarrow> Inl e | None \<Rightarrow> Inr (nested_loop_spec c l (fst r)))"

lemma run_nested_loop: "run_step (nl_produce c) (nl_open l r) = Some (nested_loop_out c l r)"
proof (cases "snd r")
  case None
  then obtain rs where r: "r = (rs, None)" by (cases r) simp
  obtain s where "nl_open l r = Inr s" by (simp add: nl_open_def r)
  with nested_loop_result [of l rs s c] run_step_drain [of "nl_produce c" s] show ?thesis
    by (simp add: r nested_loop_out_def)
next
  case (Some e)
  then show ?thesis by (cases r) (simp add: nl_open_def run_step_def nested_loop_out_def)
qed

lemma run_hash_join: "\<exists>out. run_step (hj_produce c) (hj_open c l r) = Some out"
proof (rule run_step_ends)
  have "wf hj_rank" by (simp add: hj_rank_def)
  then show "\<exists>t. drain (hj_produce c) b = Some t" for b by (rule drain_ends) (rule hj_produce_rank)
qed

lemma run_unary_ends: "\<exists>r. child = Some r \<Longrightarrow> (\<And>s. \<exists>r. f s = Some r) \<Longrightarrow> \<exists>r. run_unary f child = Some r"
  by (auto simp: run_unary_def split: sum.split)

text \<open>
  C7: every plan runs to its end. Whatever the plan, the tables, the index ranges and the values in the
  rows, opening the operator tree and calling \<open>next()\<close> on its root until it answers \<open>None\<close> takes finitely
  many steps: the result is an exception from opening, or the rows followed by the end or an exception.
\<close>

theorem plans_terminate:
  "\<exists>out. run db plan = Some out"
proof (induction plan)
  case (PhysicalHashJoin c left right)
  then show ?case by (auto intro!: run_unary_ends run_hash_join)
qed (auto simp: run_scans run_streaming run_nested_loop run_emit intro!: run_unary_ends)

end
