(* ===== verification/JoinEquiv.thy ===== *)
theory JoinEquiv
  imports JoinLaws Access
begin

text \<open>
  The two join algorithms agree. The planner costs a nested loop and a hash join for the same pair of inputs
  and takes the cheaper (\<open>_join\<close> in \<open>engine/planner/physical.py\<close>); here it is shown that the choice does not
  change the rows, for inner and outer joins, NULL keys, residual conditions and expressions as keys.
\<close>

section \<open>What \<open>_join\<close> builds\<close>

text \<open>
  The nested loop, and the hash join where there is a key; the costs that choose between them are left out.
  \<open>applicable\<close> are the pooled conjuncts an inner join applies, \<open>on\<close> the condition of an outer one.
\<close>

definition join_configs ::
  "join_kind \<Rightarrow> expression option \<Rightarrow> expression list \<Rightarrow> nat list \<Rightarrow> nat set \<Rightarrow> (nat \<times> nat) list \<Rightarrow>
     join_config \<times> hash_config option" where
  "join_configs k on conjuncts applicable left_tables slices =
     (let predicate = (if is_outer k then on else inner_predicate conjuncts applicable);
          nested = (\<lambda>p. \<lparr>jc_predicate = p, jc_slices = slices, jc_preserve_left = preserves_left k,
                         jc_preserve_right = preserves_right k\<rparr>)
      in (case predicate of
            None \<Rightarrow> (nested (Literal (PyBool True) None), None)
          | Some p \<Rightarrow>
              (nested p,
               (case (if is_outer k then outer_equijoin_keys p left_tables
                      else equijoin_keys applicable conjuncts left_tables) of
                  None \<Rightarrow> None
                | Some (build_key, probe_key, hashed) \<Rightarrow>
                    Some \<lparr>hc_join = nested p, hc_build_key = build_key, hc_probe_key = probe_key,
                          hc_residual =
                            (if is_outer k
                             then residual_of (split_conjunction p) [0..<length (split_conjunction p)] hashed
                             else residual_of conjuncts applicable hashed)\<rparr>))))"

section \<open>Conjunctions\<close>

definition holds :: "expression \<Rightarrow> row \<Rightarrow> bool" where
  "holds e row \<longleftrightarrow> evaluate e row = Inr (PyBool True)"

lemma matches_holds: "matches p row = Inr True \<longleftrightarrow> holds p row"
proof -
  have "is_true v = Inr True \<longleftrightarrow> v = PyBool True" for v by (cases v rule: is_true.cases) auto
  then show ?thesis by (simp add: matches_def holds_def bind_res_Inr)
qed

lemma evaluate_and_true: "evaluate_and a b = Inr (PyBool True) \<longleftrightarrow> a = Inr (PyBool True) \<and> b = Inr (PyBool True)"
  by (cases a rule: truth_operand_cases; cases b rule: truth_operand_cases) (auto simp: evaluate_connective_ill)

lemma holds_and: "holds (BinaryOp AND_OP p q) row \<longleftrightarrow> holds p row \<and> holds q row"
  by (simp add: holds_def evaluate_binary_def evaluate_and_true)

lemma holds_foldl_and: "holds (foldl (BinaryOp AND_OP) t ts) row \<longleftrightarrow> (\<forall>u\<in>set (t # ts). holds u row)"
  by (induction ts arbitrary: t) (auto simp: holds_and)

lemma holds_rebuild: "rebuild_conjunction terms = Some p \<Longrightarrow> holds p row \<longleftrightarrow> (\<forall>t\<in>set terms. holds t row)"
  by (cases terms) (auto simp: rebuild_conjunction_def holds_foldl_and)

lemma holds_split: "holds p row \<longleftrightarrow> (\<forall>t\<in>set (split_conjunction p). holds t row)"
proof (induction p rule: split_conjunction.induct)
  case (1 op l r)
  then show ?case by (cases "op = AND_OP") (auto simp: holds_and)
qed simp_all

lemma split_nonempty: "split_conjunction p \<noteq> []"
  by (induction p rule: split_conjunction.induct) auto

lemma split_single: "split_conjunction p = [t] \<Longrightarrow> p = t"
  by (cases p) (auto simp: append_eq_Cons_conv split_nonempty split: if_splits)

lemma rebuild_None: "rebuild_conjunction terms = None \<longleftrightarrow> terms = []"
  by (cases terms) (simp_all add: rebuild_conjunction_def)

section \<open>Expressions on merged rows\<close>

definition reads :: "expression \<Rightarrow> bound_column set" where
  "reads e = {c. BoundColumnRef c \<in> set (walk_expression e)}"

lemma reads_simps [simp]:
  "reads (UnaryOp op e) = reads e" "reads (BinaryOp bop l r) = reads l \<union> reads r"
  "reads (IsNullTest e n) = reads e" "reads (InList e items n) = reads e \<union> (\<Union>x\<in>set items. reads x)"
  "reads (BoundColumnRef c) = {c}"
  by (auto simp: reads_def)

lemma evaluate_local:
  assumes "length row' = length row" and "\<And>c. c \<in> reads e \<Longrightarrow> column_index c < length row \<Longrightarrow> row' ! column_index c = row ! column_index c"
  shows "evaluate e row' = evaluate e row"
  using assms
proof (induction e)
  case (InList e items negated)
  then have "map (\<lambda>item. evaluate item row') items = map (\<lambda>item. evaluate item row) items" by auto
  with InList show ?case by (simp cong: list.map_cong)
qed (auto simp: guard_res_def)

definition in_slices :: "(nat \<times> nat) list \<Rightarrow> nat \<Rightarrow> bool" where
  "in_slices slices i \<longleftrightarrow> (\<exists>(offset, w)\<in>set slices. offset \<le> i \<and> i < offset + w)"

definition slices_fit :: "(nat \<times> nat) list \<Rightarrow> nat \<Rightarrow> bool" where
  "slices_fit slices n \<longleftrightarrow> (\<forall>(offset, w)\<in>set slices. offset + w \<le> n)"

lemma nth_slice_assign:
  assumes "offset + w \<le> length xs" and "length ys = w" and "i < length xs"
  shows "slice_assign xs offset (offset + w) ys ! i = (if offset \<le> i \<and> i < offset + w then ys ! (i - offset) else xs ! i)"
  using assms by (auto simp: slice_assign_def nth_append min_def)

lemma merge_rows_nth:
  assumes "length left = n" and "length right = n" and "slices_fit slices n"
  shows "length (merge_rows slices left right) = n \<and>
    (\<forall>i<n. merge_rows slices left right ! i = (if in_slices slices i then right ! i else left ! i))"
  using assms
proof (induction slices arbitrary: left)
  case (Cons s slices)
  obtain offset w where s: "s = (offset, w)" by force
  let ?left = "slice_assign left offset (offset + w) (slice right offset w)"
  have fit: "offset + w \<le> n" "slices_fit slices n" using Cons.prems by (auto simp: slices_fit_def s)
  have len: "length ?left = n" using Cons.prems fit by (simp add: slice_def)
  have "?left ! i = (if offset \<le> i \<and> i < offset + w then right ! i else left ! i)" if "i < n" for i
    using that Cons.prems fit by (subst nth_slice_assign) (auto simp: slice_def)
  with Cons.IH [OF len Cons.prems(2) fit(2)] show ?case
    by (auto simp: merge_rows_def s in_slices_def)
qed (simp add: merge_rows_def in_slices_def)

text \<open>
  Where the columns are: a column of one of the right side's tables is inside its slices, any other is
  outside. The binder gives every column its table's position and offset, and \<open>_join\<close> makes the slices
  of the same tables.
\<close>

definition columns_placed :: "nat set \<Rightarrow> (nat \<times> nat) list \<Rightarrow> expression \<Rightarrow> bool" where
  "columns_placed left_tables slices e \<longleftrightarrow>
     (\<forall>c\<in>reads e. \<exists>p. scan_position c = Some p \<and> (in_slices slices (column_index c) \<longleftrightarrow> p \<notin> left_tables))"

lemma set_map_filter: "set (List.map_filter f xs) = {y. \<exists>x\<in>set xs. f x = Some y}"
  by (induction xs) (auto simp: List.map_filter_simps split: option.splits)

lemma tables_of_reads: "c \<in> reads e \<Longrightarrow> scan_position c = Some p \<Longrightarrow> p \<in> tables_of e"
  unfolding tables_of_def reads_def by (force simp: set_map_filter)

lemma evaluate_left:
  assumes "columns_placed left_tables slices e" and "tables_of e \<subseteq> left_tables"
    and "length left = n" "length right = n" "slices_fit slices n"
  shows "evaluate e (merge_rows slices left right) = evaluate e left"
proof -
  note m = merge_rows_nth [OF assms(3-5)]
  show ?thesis using m assms(1-3) tables_of_reads [of _ e]
    by (intro evaluate_local) (fastforce simp: columns_placed_def)+
qed

lemma evaluate_right:
  assumes "columns_placed left_tables slices e" and "tables_of e \<inter> left_tables = {}"
    and "length left = n" "length right = n" "slices_fit slices n"
  shows "evaluate e (merge_rows slices left right) = evaluate e right"
proof -
  note m = merge_rows_nth [OF assms(3-5)]
  show ?thesis using m assms(1,2,4) tables_of_reads [of _ e]
    by (intro evaluate_local) (fastforce simp: columns_placed_def)+
qed

section \<open>One pair of rows\<close>

lemma equijoin_keys_Some:
  "equijoin_keys applicable conjuncts lt = Some (bk, pk, h) \<Longrightarrow>
     h \<in> set applicable \<and> (conjuncts ! h = BinaryOp EQ bk pk \<or> conjuncts ! h = BinaryOp EQ pk bk) \<and>
     tables_of bk \<subseteq> lt \<and> tables_of pk \<inter> lt = {}"
proof (induction applicable conjuncts lt rule: equijoin_keys.induct)
  case (2 index applicable conjuncts lt)
  show ?case
  proof (cases "conjuncts ! index")
    case (BinaryOp op l r)
    show ?thesis
    proof (cases "op = EQ")
      case True
      with 2 BinaryOp show ?thesis by (auto split: if_splits)
    next
      case False
      with 2 BinaryOp show ?thesis by (cases op) auto
    qed
  qed (use 2 in auto)
qed simp

lemma conjunction_error: "evaluate t row = Inl e \<Longrightarrow> evaluate (foldl (BinaryOp AND_OP) t ts) row = Inl e"
  by (induction ts arbitrary: t) (simp_all add: evaluate_binary_def)

text \<open>
  What both planners of a hash join guarantee: the predicate is the conjunction of the terms, one of them is
  the equality of the keys, and the residual is \<open>None\<close> only when there is no other.
\<close>

definition keyed :: "hash_config \<Rightarrow> nat set \<Rightarrow> expression list \<Rightarrow> bool" where
  "keyed hc left_tables terms \<longleftrightarrow>
     (\<exists>t\<in>set terms. (t = BinaryOp EQ (hc_build_key hc) (hc_probe_key hc) \<or>
                     t = BinaryOp EQ (hc_probe_key hc) (hc_build_key hc)) \<and>
        (hc_residual hc = None \<longrightarrow> (\<exists>ts. jc_predicate (hc_join hc) = foldl (BinaryOp AND_OP) t ts \<and> set ts \<subseteq> {t}))) \<and>
     tables_of (hc_build_key hc) \<subseteq> left_tables \<and> tables_of (hc_probe_key hc) \<inter> left_tables = {} \<and>
     (\<forall>row. holds (jc_predicate (hc_join hc)) row \<longleftrightarrow> (\<forall>t\<in>set terms. holds t row))"

definition join_terms :: "join_kind \<Rightarrow> expression option \<Rightarrow> expression list \<Rightarrow> nat list \<Rightarrow> expression list" where
  "join_terms k on conjuncts applicable =
     (if is_outer k then (case on of None \<Rightarrow> [] | Some p \<Rightarrow> split_conjunction p) else map ((!) conjuncts) applicable)"

lemma join_configs_Some:
  fixes slices :: "(nat \<times> nat) list"
  assumes "(if is_outer k then on else inner_predicate conjuncts applicable) = Some p"
  defines "cs \<equiv> if is_outer k then split_conjunction p else conjuncts"
    and "js \<equiv> if is_outer k then [0..<length (split_conjunction p)] else applicable"
    and "nc \<equiv> \<lparr>jc_predicate = p, jc_slices = slices, jc_preserve_left = preserves_left k, jc_preserve_right = preserves_right k\<rparr>"
  shows "join_configs k on conjuncts applicable lt slices =
    (nc, map_option (\<lambda>(bk, pk, h). \<lparr>hc_join = nc, hc_build_key = bk, hc_probe_key = pk, hc_residual = residual_of cs js h\<rparr>)
       (equijoin_keys js cs lt))"
proof (cases "is_outer k")
  case True
  with assms(1) have "on = Some p" by simp
  with True show ?thesis unfolding cs_def js_def nc_def
    by (cases "equijoin_keys [0..<length (split_conjunction p)] (split_conjunction p) lt")
      (auto simp: join_configs_def Let_def outer_equijoin_keys_def)
next
  case False
  with assms(1) have "inner_predicate conjuncts applicable = Some p" by simp
  with False show ?thesis unfolding cs_def js_def nc_def
    by (cases "equijoin_keys applicable conjuncts lt") (auto simp: join_configs_def Let_def)
qed

lemma join_configs_keyed:
  assumes "join_configs k on conjuncts applicable lt slices = (nc, Some hc)"
  shows "hc_join hc = nc \<and> jc_slices nc = slices \<and> keyed hc lt (join_terms k on conjuncts applicable)"
proof -
  let ?P = "if is_outer k then on else inner_predicate conjuncts applicable"
  from assms obtain p where p: "?P = Some p" by (cases ?P) (auto simp: join_configs_def Let_def)
  define cs where "cs = (if is_outer k then split_conjunction p else conjuncts)"
  define js where "js = (if is_outer k then [0..<length (split_conjunction p)] else applicable)"
  from assms p obtain bk pk h where keys: "equijoin_keys js cs lt = Some (bk, pk, h)"
    and nc: "nc = \<lparr>jc_predicate = p, jc_slices = slices, jc_preserve_left = preserves_left k, jc_preserve_right = preserves_right k\<rparr>"
    and hc: "hc = \<lparr>hc_join = nc, hc_build_key = bk, hc_probe_key = pk, hc_residual = residual_of cs js h\<rparr>"
    unfolding join_configs_Some [OF p] cs_def js_def by auto
  have terms: "join_terms k on conjuncts applicable = map ((!) cs) js"
    using p by (auto simp: join_terms_def cs_def js_def map_nth split: if_splits)
  note K = equijoin_keys_Some [OF keys]
  have all: "holds p row \<longleftrightarrow> (\<forall>t\<in>set (map ((!) cs) js). holds t row)" for row
  proof (cases "is_outer k")
    case True
    then have "map ((!) cs) js = split_conjunction p" by (simp add: cs_def js_def map_nth)
    with holds_split [of p row] show ?thesis by (simp only:)
  next
    case False
    with p have "rebuild_conjunction (map ((!) cs) js) = Some p" by (simp add: inner_predicate_def cs_def js_def)
    then show ?thesis by (rule holds_rebuild)
  qed
  have single: "\<exists>ts. p = foldl (BinaryOp AND_OP) (cs ! h) ts \<and> set ts \<subseteq> {cs ! h}" if "residual_of cs js h = None"
  proof -
    from that have same: "\<forall>i\<in>set js. i = h" by (auto simp: residual_of_def rebuild_None filter_empty_conv)
    show ?thesis
    proof (cases "is_outer k")
      case True
      then have same': "i < length (split_conjunction p) \<Longrightarrow> i = h" for i using same by (auto simp: js_def)
      from split_nonempty [of p] have "0 < length (split_conjunction p)" by simp
      with same' [of 0] same' [of 1] have "length (split_conjunction p) = 1" "h = 0" by linarith+
      then obtain t where "split_conjunction p = [t]" by (auto simp: length_Suc_conv)
      with split_single [OF this] \<open>is_outer k\<close> \<open>h = 0\<close> show ?thesis by (intro exI [of _ "[]"]) (simp add: cs_def)
    next
      case False
      with p same K show ?thesis
        by (cases js) (auto simp: inner_predicate_def rebuild_conjunction_def cs_def js_def intro!: exI [of _ "map ((!) conjuncts) (tl js)"])
    qed
  qed
  have "cs ! h \<in> set (map ((!) cs) js)" using K by auto
  with K single all show ?thesis unfolding keyed_def terms by (auto simp: hc nc)
qed

lemma strict_eq:
  "evaluate_strict EQ v w = (if v = PyNone \<or> w = PyNone then Inr PyNone
     else if kind v = kind w then Inr (PyBool (py_eq v w)) else Inl EvaluationError)"
  by (simp add: evaluate_strict_def require_comparable_def guard_res_def)

lemma keyed_pair:
  fixes hc :: hash_config and l r :: row
  defines "m \<equiv> merge_rows (jc_slices (hc_join hc)) l r"
  assumes hc: "keyed hc lt terms" and columns_placed: "\<forall>t\<in>set terms. columns_placed lt (jc_slices (hc_join hc)) t"
    and rows: "length l = n" "length r = n" "slices_fit (jc_slices (hc_join hc)) n"
    and kl: "evaluate (hc_build_key hc) l = Inr kl" and kr: "evaluate (hc_probe_key hc) r = Inr kr"
    and ok: "matches (jc_predicate (hc_join hc)) m = Inr b"
  shows "holds (jc_predicate (hc_join hc)) m \<longleftrightarrow>
    kl \<noteq> PyNone \<and> py_eq kl kr \<and> hj_matches hc m = Inr True"
proof -
  let ?bk = "hc_build_key hc" and ?pk = "hc_probe_key hc" and ?P = "jc_predicate (hc_join hc)"
  from hc obtain t where t: "t \<in> set terms" "t = BinaryOp EQ ?bk ?pk \<or> t = BinaryOp EQ ?pk ?bk"
    and single: "hc_residual hc = None \<longrightarrow> (\<exists>ts. ?P = foldl (BinaryOp AND_OP) t ts \<and> set ts \<subseteq> {t})"
    unfolding keyed_def by (elim conjE bexE)
  from hc have tables: "tables_of ?bk \<subseteq> lt" "tables_of ?pk \<inter> lt = {}"
    and all: "\<forall>row. holds ?P row \<longleftrightarrow> (\<forall>t\<in>set terms. holds t row)"
    by (simp_all add: keyed_def)
  from columns_placed t have pl: "columns_placed lt (jc_slices (hc_join hc)) ?bk" "columns_placed lt (jc_slices (hc_join hc)) ?pk"
    by (auto simp: columns_placed_def)
  have em: "evaluate ?bk m = Inr kl" "evaluate ?pk m = Inr kr"
    using evaluate_left [OF pl(1) tables(1) rows] evaluate_right [OF pl(2) tables(2) rows] kl kr by (simp_all add: m_def)
  moreover have "evaluate_strict EQ kr kl = evaluate_strict EQ kl kr"
    using mirrored_strict [of EQ kr kl] by simp
  ultimately have et: "evaluate t m = evaluate_strict EQ kl kr"
    using t(2) by (auto simp: evaluate_binary_def)
  have ht: "holds t m \<longleftrightarrow> kl \<noteq> PyNone \<and> kr \<noteq> PyNone \<and> kind kl = kind kr \<and> py_eq kl kr"
    by (simp add: holds_def et strict_eq)
  have null: "py_eq kl PyNone \<Longrightarrow> kl = PyNone" by (cases kl) (auto simp: py_eq_def)
  show ?thesis
  proof (cases "hc_residual hc")
    case (Some e)
    then have "hj_matches hc m = Inr True \<longleftrightarrow> holds ?P m" by (simp add: hj_matches_def matches_holds)
    with all t(1) ht show ?thesis by auto
  next
    case None
    from single None obtain ts where ts: "?P = foldl (BinaryOp AND_OP) t ts" "set ts \<subseteq> {t}" by blast
    then have P: "holds ?P m \<longleftrightarrow> holds t m" by (auto simp: holds_foldl_and)
    have "evaluate t m \<noteq> Inl EvaluationError"
      using conjunction_error [of t m EvaluationError ts] ok ts(1) by (auto simp: matches_def)
    then have "kl \<noteq> PyNone \<and> kr \<noteq> PyNone \<longrightarrow> kind kl = kind kr"
      by (auto simp: et strict_eq split: if_splits)
    with P ht null None show ?thesis by (auto simp: hj_matches_def)
  qed
qed

section \<open>Bags of rows\<close>

lemma sum_list_swap:
  fixes f :: "'a \<Rightarrow> 'b \<Rightarrow> 'c multiset"
  shows "(\<Sum>x\<leftarrow>xs. \<Sum>y\<leftarrow>ys. f x y) = (\<Sum>y\<leftarrow>ys. \<Sum>x\<leftarrow>xs. f x y)"
  by (induction xs) (simp_all add: sum_list_addf)

definition pair_bag :: "join_config \<Rightarrow> row list \<Rightarrow> row list \<Rightarrow> row multiset" where
  "pair_bag c ls rs = (\<Sum>l\<leftarrow>ls. \<Sum>r\<leftarrow>rs. if partners c l r then {#merge_rows (jc_slices c) l r#} else {#})"

text \<open>The rows of a join by SQL's definition: matching pairs, and the unmatched rows of the preserved sides.\<close>

definition join_bag :: "join_config \<Rightarrow> row list \<Rightarrow> row list \<Rightarrow> row multiset" where
  "join_bag c ls rs = pair_bag c ls rs +
     (if jc_preserve_left c then mset (filter (\<lambda>l. \<forall>r\<in>set rs. \<not> partners c l r) ls) else {#}) +
     (if jc_preserve_right c then mset (filter (\<lambda>r. \<forall>l\<in>set ls. \<not> partners c l r) rs) else {#})"

lemma mset_flat: "snd (flat_map f xs) = None \<Longrightarrow> mset (fst (flat_map f xs)) = (\<Sum>x\<leftarrow>xs. mset (fst (f x)))"
  by (simp add: flat_rows mset_concat o_def)

lemma mset_filter_sum: "mset (filter P xs) = (\<Sum>x\<leftarrow>xs. if P x then {#x#} else {#})"
  by (induction xs) auto

lemma pair_row_bag: "mset (fst (pair_row c l r)) = (if partners c l r then {#merge_rows (jc_slices c) l r#} else {#})"
  by (auto simp: pair_row_def filter_row_def partners_def split: sum.split)

lemma nested_loop_bag:
  assumes "nested_loop_spec c left rs = (out, None)"
  shows "snd left = None \<and> (\<forall>l\<in>set (fst left). \<forall>r\<in>set rs. \<exists>b. matches (jc_predicate c) (merge_rows (jc_slices c) l r) = Inr b) \<and>
    mset out = join_bag c (fst left) rs"
proof -
  let ?ls = "fst left" and ?tail = "if jc_preserve_right c then filter (\<lambda>r. \<not> (\<exists>l\<in>set (fst left). partners c l r)) rs else []"
  have "snd (nested_loop_spec c left rs) = None" using assms by simp
  then have ok: "snd (flat_map (left_block c rs) ?ls) = None" "snd left = None"
    by (auto simp: nested_loop_spec_def generated_def then_stream_ok)
  have blocks: "snd (flat_map (pair_row c l) rs) = None" if "l \<in> set ?ls" for l
    using ok(1) that by (auto simp: flat_ok left_block_def then_stream_ok)
  have block: "mset (fst (left_block c rs l)) =
      (\<Sum>r\<leftarrow>rs. if partners c l r then {#merge_rows (jc_slices c) l r#} else {#}) +
      (if jc_preserve_left c \<and> (\<forall>r\<in>set rs. \<not> partners c l r) then {#l#} else {#})" if "l \<in> set ?ls" for l
    using blocks [OF that] by (simp add: left_block_def then_stream_rows mset_flat pair_row_bag left_tail_def)
  have "out = fst (flat_map (left_block c rs) ?ls) @ ?tail"
    using assms ok by (auto simp: nested_loop_spec_def generated_def then_stream_def)
  then have "mset out = (\<Sum>l\<leftarrow>?ls. mset (fst (left_block c rs l))) + mset ?tail"
    by (simp add: mset_flat [OF ok(1)])
  also have "(\<Sum>l\<leftarrow>?ls. mset (fst (left_block c rs l))) = pair_bag c ?ls rs +
      (\<Sum>l\<leftarrow>?ls. if jc_preserve_left c \<and> (\<forall>r\<in>set rs. \<not> partners c l r) then {#l#} else {#})"
    unfolding pair_bag_def sum_list_addf [symmetric]
    by (rule arg_cong [where f = sum_list], rule map_cong) (simp_all add: block)
  also have "mset ?tail = (if jc_preserve_right c then mset (filter (\<lambda>r. \<forall>l\<in>set ?ls. \<not> partners c l r) rs) else {#})" by simp
  finally have "mset out = join_bag c ?ls rs"
    by (cases "jc_preserve_left c") (simp_all add: join_bag_def mset_filter_sum del: mset_filter)
  moreover have "\<exists>b. matches (jc_predicate c) (merge_rows (jc_slices c) l r) = Inr b" if "l \<in> set ?ls" "r \<in> set rs" for l r
    using blocks [OF that(1)] that(2) by (cases "matches (jc_predicate c) (merge_rows (jc_slices c) l r)") (auto simp: flat_ok pair_row_def filter_row_def)
  ultimately show ?thesis using ok(2) by blast
qed

lemma map_nth_upt: "map (\<lambda>i. f (xs ! i)) [0..<length xs] = map f xs"
  by (rule nth_equalityI) simp_all

text \<open>The stream of a hash join without an exception, as a bag, when its keys and its pairs agree.\<close>

lemma hash_join_bag:
  fixes hc :: hash_config and B ps :: "row list"
  defines "c \<equiv> hc_join hc"
  assumes out: "then_stream (generated (probe_block hc B keys) ps e) (build_tail hc (\<Union>p\<in>set ps. probe_hits hc B keys p) B 0) = (out, None)"
    and keys: "map (evaluate (hc_build_key hc)) B = map Inr keys"
    and pairs: "\<And>i p k. i < length B \<Longrightarrow> p \<in> set ps \<Longrightarrow> evaluate (hc_probe_key hc) p = Inr k \<Longrightarrow>
        keys ! i \<noteq> PyNone \<and> py_eq (keys ! i) k \<and> hj_hit hc B p i \<longleftrightarrow> partners c (B ! i) p"
  shows "mset out = join_bag c B ps"
proof -
  have len: "length keys = length B" using keys by (metis length_map)
  let ?block = "probe_block hc B keys"
  let ?tail = "build_tail hc (\<Union>p\<in>set ps. probe_hits hc B keys p) B 0"
  have "snd (then_stream (generated ?block ps e) ?tail) = None" using out by simp
  then have ok: "snd (flat_map ?block ps) = None" "e = None"
    by (auto simp: generated_def then_stream_ok)
  have block_ok: "snd (?block p) = None" if "p \<in> set ps" for p using ok(1) that by (simp add: flat_ok)
  have key: "\<exists>k. evaluate (hc_probe_key hc) p = Inr k" if "p \<in> set ps" for p
    using block_ok [OF that] by (cases "evaluate (hc_probe_key hc) p") (auto simp: probe_block_def)
  have hits: "probe_hits hc B keys p = {i. i < length B \<and> partners c (B ! i) p}" if "p \<in> set ps" for p
    using key [OF that] pairs [OF _ that] by (auto simp: probe_hits_def bucket_of_def len)
  have block: "mset (fst (?block p)) =
      (\<Sum>l\<leftarrow>B. if partners c l p then {#merge_rows (jc_slices c) l p#} else {#}) +
      (if jc_preserve_right c \<and> (\<forall>l\<in>set B. \<not> partners c l p) then {#p#} else {#})" if p: "p \<in> set ps" for p
  proof -
    obtain k where k: "evaluate (hc_probe_key hc) p = Inr k" using key [OF p] by blast
    let ?bucket = "bucket_of keys k"
    from block_ok [OF p] k have fl: "snd (flat_map (hj_row hc B p) ?bucket) = None"
      by (auto simp: probe_block_def then_stream_ok)
    have row: "mset (fst (hj_row hc B p i)) = (if hj_hit hc B p i then {#merge_rows (jc_slices c) (B ! i) p#} else {#})" for i
      by (auto simp: hj_row_def hj_hit_def hj_pair_def c_def split: sum.split)
    have "mset (fst (flat_map (hj_row hc B p) ?bucket)) =
        (\<Sum>i\<leftarrow>[0..<length B]. if keys ! i \<noteq> PyNone \<and> py_eq (keys ! i) k then mset (fst (hj_row hc B p i)) else {#})"
      unfolding mset_flat [OF fl] by (simp add: bucket_of_def sum_list_map_filter' len)
    also have "\<dots> = (\<Sum>i\<leftarrow>[0..<length B]. if partners c (B ! i) p then {#merge_rows (jc_slices c) (B ! i) p#} else {#})"
      by (rule arg_cong [where f = sum_list], rule map_cong) (use pairs [OF _ p k] in \<open>auto simp: row\<close>)
    also have "\<dots> = (\<Sum>l\<leftarrow>B. if partners c l p then {#merge_rows (jc_slices c) l p#} else {#})"
      by (rule arg_cong [where f = sum_list], rule map_nth_upt)
    finally have pairs_bag: "mset (fst (flat_map (hj_row hc B p) ?bucket)) = \<dots>" .
    have "(\<exists>i\<in>set ?bucket. hj_hit hc B p i) \<longleftrightarrow>
        (\<exists>i<length B. keys ! i \<noteq> PyNone \<and> py_eq (keys ! i) k \<and> hj_hit hc B p i)"
      by (auto simp: bucket_of_def len)
    also have "\<dots> \<longleftrightarrow> (\<exists>i<length B. partners c (B ! i) p)" using pairs [OF _ p k] by (simp cong: conj_cong)
    also have "\<dots> \<longleftrightarrow> (\<exists>l\<in>set B. partners c l p)" by (metis in_set_conv_nth)
    finally have "(\<exists>i\<in>set ?bucket. hj_hit hc B p i) \<longleftrightarrow> (\<exists>l\<in>set B. partners c l p)" .
    with pairs_bag fl k show ?thesis
      by (simp add: probe_block_def then_stream_rows probe_tail_def c_def)
  qed
  have left: "leftover (\<Union>p\<in>set ps. probe_hits hc B keys p) B 0 = filter (\<lambda>l. \<not> (\<exists>p\<in>set ps. partners c l p)) B"
    by (rule leftover_filter) (use hits in auto)
  have "out = fst (flat_map ?block ps) @ fst ?tail"
    using out ok by (auto simp: generated_def then_stream_def build_tail_def)
  then have "mset out = (\<Sum>p\<leftarrow>ps. mset (fst (?block p))) + mset (fst ?tail)" by (simp add: mset_flat [OF ok(1)])
  also have "(\<Sum>p\<leftarrow>ps. mset (fst (?block p))) = pair_bag c B ps +
      (\<Sum>p\<leftarrow>ps. if jc_preserve_right c \<and> (\<forall>l\<in>set B. \<not> partners c l p) then {#p#} else {#})"
    unfolding pair_bag_def sum_list_swap [of _ ps B] sum_list_addf [symmetric]
    by (rule arg_cong [where f = sum_list], rule map_cong) (simp_all add: block)
  also have "fst ?tail = (if jc_preserve_left c then filter (\<lambda>l. \<forall>p\<in>set ps. \<not> partners c l p) B else [])"
    by (simp add: build_tail_def left c_def)
  finally show ?thesis
    by (cases "jc_preserve_right c") (simp_all add: join_bag_def mset_filter_sum add_ac del: mset_filter)
qed

section \<open>The algorithms agree\<close>

lemma sane_ordinary: "sane v \<Longrightarrow> ordinary v"
  by (cases v) (simp_all add: sane_def ordinary_def)

lemma evaluate_ordinary: "evaluate e row = Inr v \<Longrightarrow> literals_sane e \<Longrightarrow> \<forall>x\<in>set row. sane x \<Longrightarrow> ordinary v"
  using evaluate_safe [of e row] sane_ordinary by simp

definition join_input_ok :: "nat \<Rightarrow> row list \<Rightarrow> bool" where
  "join_input_ok n rows \<longleftrightarrow> (\<forall>row\<in>set rows. length row = n \<and> (\<forall>v\<in>set row. sane v))"

text \<open>
  C8: whichever algorithm the planner takes for a join, the rows are the same bag: the matching pairs,
  merged, and the unmatched rows of the preserved sides. It holds for every kind of join, any residual
  condition, keys that are expressions, NULL keys and duplicate keys of mixed number types, whenever
  both runs end without an exception, on rows of the joined width with finite values, and for terms
  whose columns the binder has columns_placed.
\<close>

theorem hash_join_is_nested_loop:
  assumes cfg: "join_configs k on conjuncts applicable lt slices = (nc, Some hc)"
    and terms: "\<forall>t\<in>set (join_terms k on conjuncts applicable). columns_placed lt slices t \<and> literals_sane t"
    and rows: "join_input_ok n (fst l)" "join_input_ok n (fst r)" "slices_fit slices n"
    and nl: "nl_open l r = Inr s1" "drain (nl_produce nc) s1 = Some (out1, None)"
    and hj: "hj_open hc l r = Inr s2" "drain (hj_produce hc) s2 = Some (out2, None)"
  shows "mset out1 = join_bag nc (fst l) (fst r) \<and> mset out2 = join_bag nc (fst l) (fst r)"
proof -
  note K = join_configs_keyed [OF cfg]
  let ?T = "join_terms k on conjuncts applicable"
  from nl(1) obtain rs where r: "r = (rs, None)" by (cases r; cases "snd r") (auto simp: nl_open_def)
  from nested_loop_result [OF nl(1) [unfolded r]] nl(2) have "nested_loop_spec nc l rs = (out1, None)" by simp
  note N = nested_loop_bag [OF this]
  then obtain B where l: "l = (B, None)" by (cases l) simp
  from K obtain t where t: "t \<in> set ?T" "t = BinaryOp EQ (hc_build_key hc) (hc_probe_key hc) \<or> t = BinaryOp EQ (hc_probe_key hc) (hc_build_key hc)"
    unfolding keyed_def by blast
  with terms have lit: "literals_sane (hc_build_key hc)" "literals_sane (hc_probe_key hc)" by fastforce+
  have build_ord: "ordinary v" if "row \<in> set B" "evaluate (hc_build_key hc) row = Inr v" for row v
    using evaluate_ordinary [OF that(2) lit(1)] rows(1) that(1) by (simp add: join_input_ok_def l)
  have probe_ord: "ordinary v" if "row \<in> set rs" "evaluate (hc_probe_key hc) row = Inr v" for row v
    using evaluate_ordinary [OF that(2) lit(2)] rows(2) that(1) by (simp add: join_input_ok_def r)
  from hj(1) obtain table where table: "build_table (hc_build_key hc) 0 [] B = Inr table"
    and s2: "s2 = \<lparr>hj_right = r, hj_build = B, hj_table = table, hj_build_matched = {}, hj_bucket = [], hj_probe_row = [],
      hj_position = 0, hj_drain = 0, hj_draining = False, hj_probe_matched = False\<rparr>"
    by (auto simp: hj_open_def l bind_res_Inr)
  from build_table_ok [OF table_ok_Nil, of "hc_build_key hc" B table] table build_ord
  obtain keys where keys: "map (evaluate (hc_build_key hc)) B = map Inr keys" "table_ok table keys" by auto
  have "drain (hj_produce hc) s2 = Some (then_stream (generated (probe_block hc (hj_build s2) keys) rs None)
      (build_tail hc (hj_build_matched s2 \<union> (\<Union>p\<in>set rs. probe_hits hc (hj_build s2) keys p)) (hj_build s2) (hj_drain s2)))"
    by (rule drain_hash_join) (use probe_ord keys(2) in \<open>auto simp: s2 r settled_def\<close>)
  with hj(2) have out2: "then_stream (generated (probe_block hc B keys) rs None)
      (build_tail hc (\<Union>p\<in>set rs. probe_hits hc B keys p) B 0) = (out2, None)" by (simp add: s2)
  from K have keyed: "keyed hc lt ?T" and join: "hc_join hc = nc" "jc_slices nc = slices" by (simp_all only:)
  have all: "\<forall>l\<in>set B. \<forall>r\<in>set rs. \<exists>b. matches (jc_predicate nc) (merge_rows (jc_slices nc) l r) = Inr b"
    using N unfolding l fst_conv by (elim conjE)
  have pl: "\<forall>t\<in>set ?T. columns_placed lt (jc_slices (hc_join hc)) t" using terms unfolding join by blast
  have fit: "slices_fit (jc_slices (hc_join hc)) n" unfolding join by (rule rows(3))
  have "keys ! i \<noteq> PyNone \<and> py_eq (keys ! i) kp \<and> hj_hit hc B p i \<longleftrightarrow> partners (hc_join hc) (B ! i) p"
    if i: "i < length B" and p: "p \<in> set rs" and kp: "evaluate (hc_probe_key hc) p = Inr kp" for i p kp
  proof -
    have ki: "evaluate (hc_build_key hc) (B ! i) = Inr (keys ! i)" using keys(1) i by (metis length_map nth_map)
    have len: "length (B ! i) = n" "length p = n"
      using rows(1,2) nth_mem [OF i] p unfolding join_input_ok_def l r fst_conv by blast+
    obtain b where b: "matches (jc_predicate nc) (merge_rows (jc_slices nc) (B ! i) p) = Inr b"
      using bspec [OF bspec [OF all nth_mem [OF i]] p] ..
    note b = b [folded join(1)]
    have "holds (jc_predicate (hc_join hc)) (merge_rows (jc_slices (hc_join hc)) (B ! i) p) \<longleftrightarrow>
        keys ! i \<noteq> PyNone \<and> py_eq (keys ! i) kp \<and>
        hj_matches hc (merge_rows (jc_slices (hc_join hc)) (B ! i) p) = Inr True"
      by (rule keyed_pair [OF keyed pl len fit ki kp b])
    then show ?thesis unfolding partners_def matches_holds hj_hit_def hj_pair_def by blast
  qed
  from hash_join_bag [OF out2 keys(1) this] have "mset out2 = join_bag nc B rs" unfolding join .
  with N show ?thesis unfolding l r fst_conv by (elim conjE) (rule conjI)
qed

text \<open>Two tables of one column each, joined on \<open>a.x = b.y\<close> keeping the rows of \<open>a\<close>.\<close>

definition demo_on :: expression where
  "demo_on = BinaryOp EQ (demo_column 1 INTEGER) (demo_column 0 INTEGER)"

definition demo_left :: stream where
  "demo_left = ([[PyInt 7, PyNone], [PyNone, PyNone]], None)"

definition demo_right :: stream where
  "demo_right = ([[PyNone, PyInt 7]], None)"

theorem hash_join_is_nested_loop_witness:
  "\<exists>nc hc. join_configs LEFT (Some demo_on) [] [] {0} [(1, 1)] = (nc, Some hc) \<and>
     join_bag nc (fst demo_left) (fst demo_right) = {#[PyInt 7, PyInt 7], [PyNone, PyNone]#}"
proof -
  define nc where "nc = \<lparr>jc_predicate = demo_on, jc_slices = [(1, 1)], jc_preserve_left = True, jc_preserve_right = False\<rparr>"
  define hc where "hc = \<lparr>hc_join = nc, hc_build_key = demo_column 0 INTEGER, hc_probe_key = demo_column 1 INTEGER, hc_residual = None\<rparr>"
  note ev = demo_column_def demo_on_def tables_of_def List.map_filter_simps
  have cfg: "join_configs LEFT (Some demo_on) [] [] {0} [(1, 1)] = (nc, Some hc)"
    by (simp add: join_configs_def outer_equijoin_keys_def residual_of_def rebuild_conjunction_def ev nc_def hc_def)
  have step: "matches demo_on [PyInt 7, PyInt 7] = Inr True" "matches demo_on [PyNone, PyInt 7] = Inr False"
    by (simp_all add: matches_def ev evaluate_binary_def evaluate_strict_def require_comparable_def py_eq_def num_eq_def)
  have merge: "merge_rows [(Suc 0, Suc 0)] [x, PyNone] [PyNone, y] = [x, y]" for x y
    by (simp add: merge_rows_def slice_assign_def slice_def)
  obtain s1 where s1: "nl_open demo_left demo_right = Inr s1" by (simp add: nl_open_def demo_right_def)
  have nl: "drain (nl_produce nc) s1 = Some ([[PyInt 7, PyInt 7], [PyNone, PyNone]], None)"
    using nested_loop_result [of demo_left "[[PyNone, PyInt 7]]" s1 nc] s1
    by (simp add: demo_right_def demo_left_def nested_loop_spec_def generated_def left_block_def pair_row_def filter_row_def
        left_tail_def partners_def nc_def merge step)
  define s2 where "s2 = \<lparr>hj_right = demo_right, hj_build = fst demo_left, hj_table = [(PyInt 7, [0])], hj_build_matched = {}, hj_bucket = [],
      hj_probe_row = [], hj_position = 0, hj_drain = 0, hj_draining = False, hj_probe_matched = False\<rparr>"
  have s2: "hj_open hc demo_left demo_right = Inr s2"
    by (simp add: hj_open_def hc_def demo_left_def ev table_add_def s2_def)
  have ordinary: "ordinary k" if "row \<in> set (fst demo_left)" "evaluate (demo_column 0 INTEGER) row = Inr k" for row k
    using that by (auto simp: demo_left_def ev ordinary_def)
  have table: "table_ok [(PyInt 7, [0])] [PyInt 7, PyNone]"
    using build_table_ok [OF table_ok_Nil, of "demo_column 0 INTEGER" "fst demo_left" "[(PyInt 7, [0])]"] ordinary
    by (auto simp: demo_left_def ev table_add_def Cons_eq_map_conv)
  have sel: "hc_join hc = nc" "hc_build_key hc = demo_column 0 INTEGER" "hc_probe_key hc = demo_column 1 INTEGER"
    "hc_residual hc = None" "jc_predicate nc = demo_on" "jc_slices nc = [(Suc 0, Suc 0)]" "jc_preserve_left nc" "\<not> jc_preserve_right nc"
    by (simp_all add: hc_def nc_def)
  have column: "evaluate (demo_column i INTEGER) row = guard_res (i < length row) EvaluationError (Inr (row ! i))" for i row
    by (simp add: demo_column_def)
  have probe_ordinary: "ordinary k" if "p \<in> set [[PyNone, PyInt 7]]" "evaluate (hc_probe_key hc) p = Inr k" for p k
    using that by (auto simp: sel column ordinary_def)
  have "drain (hj_produce hc) s2 = Some (then_stream (generated (probe_block hc (fst demo_left) [PyInt 7, PyNone]) [[PyNone, PyInt 7]] None)
      (build_tail hc (\<Union>p\<in>set [[PyNone, PyInt 7]]. probe_hits hc (fst demo_left) [PyInt 7, PyNone] p) (fst demo_left) 0))"
    using drain_hash_join [of s2 "[[PyNone, PyInt 7]]" None hc "[PyInt 7, PyNone]", OF _ _ _ _ probe_ordinary] table
    by (simp add: s2_def demo_right_def settled_def)
  then have hj: "drain (hj_produce hc) s2 = Some ([[PyInt 7, PyInt 7], [PyNone, PyNone]], None)"
    by (simp add: probe_block_def build_tail_def probe_hits_def bucket_of_def leftover_def hj_row_def hj_hit_def hj_pair_def
        hj_matches_def probe_tail_def sel column demo_left_def py_eq_def num_eq_def merge)
  have "join_bag nc (fst demo_left) (fst demo_right) = mset [[PyInt 7, PyInt 7], [PyNone, PyNone]]"
    using hash_join_is_nested_loop [OF cfg _ _ _ _ s1 nl s2 hj, of 2]
    by (simp add: join_terms_def columns_placed_def in_slices_def slices_fit_def join_input_ok_def demo_left_def demo_right_def ev
        sane_def)
  with cfg show ?thesis by auto
qed

end
