(* ===== verification/OuterJoins.thy ===== *)
theory OuterJoins
  imports Physical ScanEquiv
begin

text \<open>
  The reduction of outer joins (\<open>_simplify_outer_joins\<close> in \<open>engine/optimizer/rules.py\<close>), and what it
  preserves. A logical plan is run without any of the planner's choices: heap scans, and nested loops in the
  order of the statement.
\<close>

section \<open>The rule\<close>

text \<open>One join of a left-deep chain, without the plan to its left.\<close>

record chain_join =
  cj_predicate :: expression
  cj_right :: logical_node
  cj_kind :: join_kind

fun written_order :: "logical_node \<Rightarrow> chain_join list" where
  "written_order (LogicalJoin predicate left right k) =
     written_order left @ [\<lparr>cj_predicate = predicate, cj_right = right, cj_kind = k\<rparr>]"
| "written_order _ = []"

fun leftmost :: "logical_node \<Rightarrow> logical_node" where
  "leftmost (LogicalJoin _ left _ _) = leftmost left"
| "leftmost node = node"

fun is_scan :: "logical_node \<Rightarrow> bool" where
  "is_scan (LogicalScan _) = True"
| "is_scan _ = False"

fun scan_node_of :: "logical_node \<Rightarrow> scan_node" where
  "scan_node_of (LogicalScan s) = s"
| "scan_node_of _ = undefined"

text \<open>What sits to the left of each join: the first table and every table joined before.\<close>

fun lefts_of :: "nat set \<Rightarrow> nat list \<Rightarrow> nat set list" where
  "lefts_of accumulated [] = []"
| "lefts_of accumulated (position # rights) = accumulated # lefts_of (insert position accumulated) rights"

definition witnesses_of :: "chain_join list \<Rightarrow> expression list \<Rightarrow> join_kind list \<Rightarrow> nat \<Rightarrow> expression list" where
  "witnesses_of joins filters kinds index =
     filters @ map (\<lambda>later. cj_predicate (joins ! later))
       (filter (\<lambda>later. \<not> preserves_left (kinds ! later)) [index + 1..<length joins])"

definition reduce_kind ::
  "chain_join list \<Rightarrow> nat list \<Rightarrow> nat set list \<Rightarrow> expression list \<Rightarrow> join_kind list \<Rightarrow> nat \<Rightarrow> join_kind list" where
  "reduce_kind joins rights lefts filters kinds index =
     (if \<not> is_outer (kinds ! index) then kinds
      else let witnesses = witnesses_of joins filters kinds index
           in kinds[index := join_kind_of
                (preserves_left (kinds ! index) \<and> \<not> rejects_nulls witnesses {rights ! index})
                (preserves_right (kinds ! index) \<and> \<not> rejects_nulls witnesses (lefts ! index))])"

definition reduced_kinds :: "chain_join list \<Rightarrow> nat \<Rightarrow> expression list \<Rightarrow> join_kind list" where
  "reduced_kinds joins first filters =
     (let rights = map (\<lambda>join. sn_position (scan_node_of (cj_right join))) joins
      in foldl (reduce_kind joins rights (lefts_of {first} rights) filters) (map cj_kind joins) (rev [0..<length joins]))"

definition rebuild_chain :: "logical_node \<Rightarrow> (chain_join \<times> join_kind) list \<Rightarrow> logical_node" where
  "rebuild_chain = foldl (\<lambda>node (join, k). LogicalJoin (cj_predicate join) node (cj_right join) k)"

definition reduce_join_chain :: "logical_node \<Rightarrow> expression list \<Rightarrow> logical_node" where
  "reduce_join_chain root filters =
     (let joins = written_order root
      in if \<not> list_ex (\<lambda>join. is_outer (cj_kind join)) joins then root
         else (case leftmost root of
                 LogicalScan s \<Rightarrow>
                   if \<not> list_all (\<lambda>join. is_scan (cj_right join)) joins then root
                   else (let kinds = reduced_kinds joins (sn_position s) filters
                         in if kinds = map cj_kind joins then root
                            else rebuild_chain (LogicalScan s) (zip joins kinds))
               | _ \<Rightarrow> root))"

fun simplify_outer_joins :: "logical_node \<Rightarrow> logical_node" where
  "simplify_outer_joins (LogicalJoin predicate left right k) =
     reduce_join_chain (LogicalJoin predicate left right k) []"
| "simplify_outer_joins (LogicalFilter predicate (LogicalJoin on left right k)) =
     LogicalFilter predicate (reduce_join_chain (LogicalJoin on left right k) [predicate])"
| "simplify_outer_joins (LogicalFilter predicate child) = LogicalFilter predicate (simplify_outer_joins child)"
| "simplify_outer_joins (LogicalProject projections columns child) =
     LogicalProject projections columns (simplify_outer_joins child)"
| "simplify_outer_joins (LogicalAggregate keys aggregates having child) =
     LogicalAggregate keys aggregates having (simplify_outer_joins child)"
| "simplify_outer_joins (LogicalSort keys child) = LogicalSort keys (simplify_outer_joins child)"
| "simplify_outer_joins (LogicalDistinct child) = LogicalDistinct (simplify_outer_joins child)"
| "simplify_outer_joins (LogicalLimit limit offset child) = LogicalLimit limit offset (simplify_outer_joins child)"
| "simplify_outer_joins (LogicalScan s) = LogicalScan s"

section \<open>Running a logical plan as it is written\<close>

definition written_layout :: "scan_node \<Rightarrow> row_layout" where
  "written_layout s = \<lparr>lay_offset = sn_offset s, lay_width = length (sn_schema s), lay_total = scan_width s\<rparr>"

definition slices_of :: "logical_node \<Rightarrow> (nat \<times> nat) list" where
  "slices_of node = map (\<lambda>n. (sn_offset (scan_node_of n), length (sn_schema (scan_node_of n)))) (filter is_scan (walk_logical node))"

fun written_plan :: "logical_node \<Rightarrow> physical_node" where
  "written_plan (LogicalScan s) = PhysicalSeqScan (sn_table s) (sn_schema s) (written_layout s)"
| "written_plan (LogicalFilter predicate child) = PhysicalFilter predicate (written_plan child)"
| "written_plan (LogicalProject projections columns child) = PhysicalProject projections columns (written_plan child)"
| "written_plan (LogicalJoin predicate left right k) =
     PhysicalNestedLoopJoin (join_of predicate (slices_of right) k) (written_plan left) (written_plan right)"
| "written_plan (LogicalAggregate keys aggregates having child) = PhysicalAggregate keys aggregates having (written_plan child)"
| "written_plan (LogicalSort keys child) = PhysicalSort keys (written_plan child)"
| "written_plan (LogicalDistinct child) = PhysicalDistinct (written_plan child)"
| "written_plan (LogicalLimit limit offset child) = PhysicalLimit limit offset (written_plan child)"

definition answer :: "database_view \<Rightarrow> logical_node \<Rightarrow> stream res option" where
  "answer db plan = run db (written_plan plan)"

definition raises_nothing :: "database_view \<Rightarrow> logical_node \<Rightarrow> bool" where
  "raises_nothing db plan \<longleftrightarrow> (\<forall>node\<in>set (walk_logical plan). \<exists>rows. answer db node = Some (Inr (rows, None)))"

definition rows_of :: "database_view \<Rightarrow> logical_node \<Rightarrow> row list" where
  "rows_of db plan = (case answer db plan of Some (Inr (rows, _)) \<Rightarrow> rows | _ \<Rightarrow> [])"

section \<open>Joins as functions on rows\<close>

definition partner_rows :: "join_config \<Rightarrow> row list \<Rightarrow> row \<Rightarrow> row list" where
  "partner_rows c rs l = map (merge_rows (jc_slices c) l) (filter (partners c l) rs)"

definition left_rows :: "join_config \<Rightarrow> row list \<Rightarrow> row \<Rightarrow> row list" where
  "left_rows c rs l = partner_rows c rs l @ (if jc_preserve_left c \<and> \<not> (\<exists>r\<in>set rs. partners c l r) then [l] else [])"

definition join_rows :: "join_config \<Rightarrow> row list \<Rightarrow> row list \<Rightarrow> row list" where
  "join_rows c ls rs = concat (map (left_rows c rs) ls) @
     (if jc_preserve_right c then filter (\<lambda>r. \<not> (\<exists>l\<in>set ls. partners c l r)) rs else [])"

lemma pair_rows:
  "snd (flat_map (pair_row c l) rs) = None \<Longrightarrow> fst (flat_map (pair_row c l) rs) = partner_rows c rs l"
proof (induction rs)
  case (Cons r rs)
  then have ok: "snd (pair_row c l r) = None" "snd (flat_map (pair_row c l) rs) = None" by (simp_all add: then_stream_ok)
  from ok(1) have "fst (pair_row c l r) = (if partners c l r then [merge_rows (jc_slices c) l r] else [])"
    by (auto simp: pair_row_def filter_row_def partners_def split: sum.splits)
  with Cons.IH [OF ok(2)] ok show ?case by (simp add: then_stream_rows partner_rows_def)
qed (simp add: partner_rows_def)

lemma nested_loop_rows:
  assumes "nested_loop_spec c left rs = (rows, None)"
  shows "snd left = None \<and> rows = join_rows c (fst left) rs"
proof -
  have "snd (nested_loop_spec c left rs) = None" using assms by simp
  then have ok: "snd (flat_map (left_block c rs) (fst left)) = None" "snd left = None"
    by (auto simp: nested_loop_spec_def generated_def then_stream_ok)
  have "fst (left_block c rs l) = left_rows c rs l" if "l \<in> set (fst left)" for l
  proof -
    have "snd (left_block c rs l) = None" using ok(1) that by (simp add: flat_ok)
    then show ?thesis by (simp add: left_block_def then_stream_ok then_stream_rows pair_rows left_rows_def left_tail_def)
  qed
  then have "concat (map (\<lambda>l. fst (left_block c rs l)) (fst left)) = concat (map (left_rows c rs) (fst left))"
    by (simp cong: map_cong)
  then show ?thesis using assms ok flat_rows [OF ok(1)]
    by (auto simp: nested_loop_spec_def generated_def then_stream_def join_rows_def)
qed

text \<open>Dropping rows that a filter would drop anyway, before or after a join.\<close>

lemma filter_concat_map: "filter P (concat (map f xs)) = concat (map (\<lambda>x. filter P (f x)) xs)"
  by (simp add: filter_concat o_def)

lemma concat_map_filter: "(\<And>x. x \<in> set xs \<Longrightarrow> \<not> P x \<Longrightarrow> f x = []) \<Longrightarrow> concat (map f (filter P xs)) = concat (map f xs)"
  by (induction xs) auto

text \<open>
  Two versions of the left input that agree on the rows with \<open>good\<close>. If the condition holds of no merged row
  whose left part is not good and the join does not keep unmatched left rows, the join does not see the
  difference; if it does see it, the rows it adds are not good either.
\<close>

lemma join_ignores:
  assumes "filter good ls = filter good ls'" and "\<not> jc_preserve_left c"
    and "\<And>l r. l \<in> set ls \<union> set ls' \<Longrightarrow> r \<in> set rs \<Longrightarrow> partners c l r \<Longrightarrow> good l"
  shows "join_rows c ls rs = join_rows c ls' rs"
proof -
  have block: "left_rows c rs l = []" if "l \<in> set ls \<union> set ls'" "\<not> good l" for l
    using assms(2,3) that by (auto simp: left_rows_def partner_rows_def filter_empty_conv)
  have "concat (map (left_rows c rs) ls) = concat (map (left_rows c rs) (filter good ls))"
    by (rule concat_map_filter [symmetric]) (use block in auto)
  also have "\<dots> = concat (map (left_rows c rs) ls')"
    unfolding assms(1) by (rule concat_map_filter) (use block in auto)
  finally have "concat (map (left_rows c rs) ls) = concat (map (left_rows c rs) ls')" .
  moreover have "(\<exists>l\<in>set ls. partners c l r) \<longleftrightarrow> (\<exists>l\<in>set ls'. partners c l r)" if "r \<in> set rs" for r
  proof -
    have "set (filter good ls) = set (filter good ls')" using assms(1) by simp
    then have "\<And>l. good l \<Longrightarrow> l \<in> set ls \<longleftrightarrow> l \<in> set ls'" by auto
    then show ?thesis using assms(3) [OF _ that] by (metis UnCI)
  qed
  then have "filter (\<lambda>r. \<not> (\<exists>l\<in>set ls. partners c l r)) rs = filter (\<lambda>r. \<not> (\<exists>l\<in>set ls'. partners c l r)) rs"
    by (intro filter_cong) auto
  ultimately show ?thesis by (simp add: join_rows_def)
qed

lemma join_keeps_agreement:
  assumes "filter good ls = filter good ls'"
    and "\<And>l r. l \<in> set ls \<union> set ls' \<Longrightarrow> r \<in> set rs \<Longrightarrow> good (merge_rows (jc_slices c) l r) \<longleftrightarrow> good l"
    and "\<And>r. r \<in> set rs \<Longrightarrow> \<not> good r"
  shows "filter good (join_rows c ls rs) = filter good (join_rows c ls' rs)"
proof -
  have block: "filter good (left_rows c rs l) = (if good l then left_rows c rs l else [])" if "l \<in> set ls \<union> set ls'" for l
  proof -
    have "filter (\<lambda>r. partners c l r \<and> good (merge_rows (jc_slices c) l r)) rs = (if good l then filter (partners c l) rs else [])"
      using assms(2) [OF that] by (induction rs) auto
    then show ?thesis by (simp add: left_rows_def partner_rows_def filter_map o_def conj_commute)
  qed
  have "filter good (concat (map (left_rows c rs) xs)) = concat (map (left_rows c rs) (filter good xs))"
    if "set xs \<subseteq> set ls \<union> set ls'" for xs
    using that by (induction xs) (auto simp: block)
  with assms(1,3) show ?thesis by (simp add: join_rows_def filter_empty_conv)
qed

lemma join_drops_preserved:
  assumes "c' = c\<lparr>jc_preserve_left := pl, jc_preserve_right := pr\<rparr>"
    and "pl \<noteq> jc_preserve_left c \<Longrightarrow> \<forall>l\<in>set ls. \<not> good l" and "pr \<noteq> jc_preserve_right c \<Longrightarrow> \<forall>r\<in>set rs. \<not> good r"
  shows "filter good (join_rows c ls rs) = filter good (join_rows c' ls rs)"
proof -
  have p: "partners c' = partners c" by (simp add: fun_eq_iff partners_def assms(1))
  have "jc_slices c' = jc_slices c" by (simp add: assms(1))
  then have "partner_rows c' = partner_rows c" by (intro ext) (simp add: partner_rows_def p)
  note same = p this
  have kept: "jc_preserve_left c' = pl" "jc_preserve_right c' = pr" by (simp_all add: assms(1))
  have "filter good (left_rows c rs l) = filter good (left_rows c' rs l)" if "l \<in> set ls" for l
    using assms(2) that by (auto simp: left_rows_def same kept)
  then have "filter good (concat (map (left_rows c rs) ls)) = filter good (concat (map (left_rows c' rs) ls))"
    unfolding filter_concat_map by (simp cong: map_cong)
  moreover have "filter good (filter P rs) = []" if "pr \<noteq> jc_preserve_right c" for P
    using assms(3) [OF that] by (simp add: filter_empty_conv)
  ultimately show ?thesis by (auto simp: join_rows_def same kept)
qed

section \<open>Chains of joins\<close>

definition cells :: "scan_node \<Rightarrow> nat set" where
  "cells s = {sn_offset s..<sn_offset s + length (sn_schema s)}"

text \<open>A row of the whole chain that has values only in some of its cells, or has none in them.\<close>

definition confined :: "nat \<Rightarrow> nat set \<Rightarrow> row \<Rightarrow> bool" where
  "confined n C row \<longleftrightarrow> length row = n \<and> (\<forall>i<n. i \<notin> C \<longrightarrow> row ! i = PyNone)"

definition all_null :: "nat \<Rightarrow> nat set \<Rightarrow> row \<Rightarrow> bool" where
  "all_null n C row \<longleftrightarrow> (\<forall>i<n. i \<in> C \<longrightarrow> row ! i = PyNone)"

type_synonym chain_step = "expression \<times> scan_node \<times> row list"

definition step_join :: "chain_step \<Rightarrow> join_kind \<Rightarrow> join_config" where
  "step_join step k = join_of (fst step) [(sn_offset (fst (snd step)), length (sn_schema (fst (snd step))))] k"

definition chain_rows :: "row list \<Rightarrow> chain_step list \<Rightarrow> join_kind list \<Rightarrow> row list" where
  "chain_rows ls steps kinds = foldl (\<lambda>rows (step, k). join_rows (step_join step k) rows (snd (snd step))) ls (zip steps kinds)"

definition step_ok :: "nat \<Rightarrow> chain_step \<Rightarrow> bool" where
  "step_ok n step \<longleftrightarrow> (case step of (p, s, rs) \<Rightarrow>
     sn_offset s + length (sn_schema s) \<le> n \<and> (\<forall>r\<in>set rs. confined n (cells s) r))"

lemma chain_rows_simps [simp]:
  "chain_rows ls [] kinds = ls" "chain_rows ls steps [] = ls"
  "chain_rows ls (step # steps) (k # kinds) = chain_rows (join_rows (step_join step k) ls (snd (snd step))) steps kinds"
  by (simp_all add: chain_rows_def)

lemma chain_rows_at:
  assumes "i < length steps" and "length kinds = length steps"
  shows "chain_rows ls steps kinds =
    chain_rows (join_rows (step_join (steps ! i) (kinds ! i)) (chain_rows ls (take i steps) (take i kinds)) (snd (snd (steps ! i))))
      (drop (Suc i) steps) (drop (Suc i) kinds)"
  using assms
proof (induction steps arbitrary: ls kinds i)
  case (Cons step steps)
  then obtain k ks where "kinds = k # ks" by (cases kinds) auto
  with Cons show ?case by (cases i) auto
qed simp

lemma merge_step:
  assumes "length l = n" and "step_ok n step" and "r \<in> set (snd (snd step))"
  shows "length (merge_rows (jc_slices (step_join step k)) l r) = n \<and>
    (\<forall>i<n. merge_rows (jc_slices (step_join step k)) l r ! i = (if i \<in> cells (fst (snd step)) then r ! i else l ! i))"
proof -
  obtain p s rs where step: "step = (p, s, rs)" by (cases step)
  then have "length r = n" "slices_fit [(sn_offset s, length (sn_schema s))] n"
    using assms by (auto simp: step_ok_def confined_def slices_fit_def)
  from merge_rows_nth [OF assms(1) this] show ?thesis
    by (simp add: step step_join_def join_of_def cells_def in_slices_def)
qed

lemma join_confined:
  assumes "\<forall>l\<in>set ls. confined n C l" and "step_ok n step"
  shows "\<forall>row\<in>set (join_rows (step_join step k) ls (snd (snd step))). confined n (C \<union> cells (fst (snd step))) row"
proof
  fix row assume "row \<in> set (join_rows (step_join step k) ls (snd (snd step)))"
  then consider l r where "l \<in> set ls" "r \<in> set (snd (snd step))" "row = merge_rows (jc_slices (step_join step k)) l r"
    | "row \<in> set ls" | "row \<in> set (snd (snd step))"
    by (auto simp: join_rows_def left_rows_def partner_rows_def split: if_splits)
  then show "confined n (C \<union> cells (fst (snd step))) row"
  proof cases
    case 1
    with assms(1) have "confined n C l" by blast
    with merge_step [OF _ assms(2) 1(2), of l k] 1(3) show ?thesis by (auto simp: confined_def)
  qed (use assms in \<open>auto simp: confined_def step_ok_def split: prod.splits\<close>)
qed

lemma chain_confined:
  assumes "\<forall>l\<in>set ls. confined n C l" and "\<forall>step\<in>set steps. step_ok n step" and "length kinds = length steps"
  shows "\<forall>row\<in>set (chain_rows ls steps kinds). confined n (C \<union> \<Union>(cells ` (fst \<circ> snd) ` set steps)) row"
  using assms
proof (induction steps arbitrary: ls kinds C)
  case (Cons step steps)
  then obtain k ks where kinds: "kinds = k # ks" by (cases kinds) auto
  from Cons.prems have "step_ok n step" by simp
  from Cons.IH [OF join_confined [OF Cons.prems(1) this, of k], of ks] Cons.prems kinds show ?case
    by (simp add: Un_assoc)
qed (auto simp: confined_def)

text \<open>
  Two inputs of a chain that agree on the rows with a value in the cells \<open>C\<close>, none of which the joins of the
  chain fill: their outputs agree on such rows, and are equal if one of the joins discards every row without.
\<close>

lemma chain_agrees:
  assumes "filter (\<lambda>row. \<not> all_null n C row) ls = filter (\<lambda>row. \<not> all_null n C row) ls'"
    and "\<forall>l\<in>set ls \<union> set ls'. length l = n" and "length kinds = length steps"
    and "\<forall>step\<in>set steps. step_ok n step \<and> cells (fst (snd step)) \<inter> C = {}"
  shows "filter (\<lambda>row. \<not> all_null n C row) (chain_rows ls steps kinds) =
      filter (\<lambda>row. \<not> all_null n C row) (chain_rows ls' steps kinds) \<and>
    ((\<exists>j<length steps. \<not> preserves_left (kinds ! j) \<and>
        (\<forall>row. length row = n \<longrightarrow> holds (fst (steps ! j)) row \<longrightarrow> \<not> all_null n C row)) \<longrightarrow>
      chain_rows ls steps kinds = chain_rows ls' steps kinds)"
  using assms
proof (induction steps arbitrary: ls ls' kinds)
  case (Cons step steps)
  then obtain k ks where kinds: "kinds = k # ks" "length ks = length steps" by (cases kinds) auto
  let ?join = "\<lambda>ls. join_rows (step_join step k) ls (snd (snd step))"
  let ?good = "\<lambda>row. \<not> all_null n C row"
  have ok: "step_ok n step" "cells (fst (snd step)) \<inter> C = {}" using Cons.prems by simp_all
  have merged: "length (merge_rows (jc_slices (step_join step k)) l r) = n \<and>
      (?good (merge_rows (jc_slices (step_join step k)) l r) \<longleftrightarrow> ?good l)"
    if "l \<in> set ls \<union> set ls'" "r \<in> set (snd (snd step))" for l r
  proof -
    from Cons.prems(2) that(1) have "length l = n" by blast
    from merge_step [OF this ok(1) that(2), of k] ok(2) show ?thesis by (auto simp: all_null_def)
  qed
  have right: "\<not> ?good r" "length r = n" if "r \<in> set (snd (snd step))" for r
  proof -
    have "confined n (cells (fst (snd step))) r" using ok(1) that by (cases step) (simp add: step_ok_def)
    with ok(2) show "\<not> ?good r" "length r = n" by (auto simp: confined_def all_null_def)
  qed
  have agree: "filter ?good (?join ls) = filter ?good (?join ls')"
    by (rule join_keeps_agreement [OF Cons.prems(1)]) (use merged right in auto)
  have len: "\<forall>l\<in>set (?join ls) \<union> set (?join ls'). length l = n"
    using Cons.prems(2) merged right(2) by (auto simp: join_rows_def left_rows_def partner_rows_def split: if_splits)
  have IH: "filter ?good (chain_rows (?join ls) steps ks) = filter ?good (chain_rows (?join ls') steps ks)"
    "(\<exists>j<length steps. \<not> preserves_left (ks ! j) \<and> (\<forall>row. length row = n \<longrightarrow> holds (fst (steps ! j)) row \<longrightarrow> ?good row)) \<longrightarrow>
      chain_rows (?join ls) steps ks = chain_rows (?join ls') steps ks"
    using Cons.IH [OF agree len kinds(2)] Cons.prems(4) by simp_all
  have here: "?join ls = ?join ls'" if "\<not> preserves_left k" "\<forall>row. length row = n \<longrightarrow> holds (fst step) row \<longrightarrow> ?good row"
  proof (rule join_ignores [OF Cons.prems(1)])
    show "\<not> jc_preserve_left (step_join step k)" using that(1) by (simp add: step_join_def join_of_def)
    fix l r assume lr: "l \<in> set ls \<union> set ls'" "r \<in> set (snd (snd step))" and "partners (step_join step k) l r"
    then have "holds (fst step) (merge_rows (jc_slices (step_join step k)) l r)"
      by (simp add: partners_def matches_holds) (simp add: step_join_def join_of_def)
    with merged [OF lr] that(2) show "?good l" by blast
  qed
  show ?case
  proof (intro conjI impI)
    show "filter ?good (chain_rows ls (step # steps) kinds) = filter ?good (chain_rows ls' (step # steps) kinds)"
      using IH(1) by (simp add: kinds)
    assume "\<exists>j<length (step # steps). \<not> preserves_left (kinds ! j) \<and>
        (\<forall>row. length row = n \<longrightarrow> holds (fst ((step # steps) ! j)) row \<longrightarrow> ?good row)"
    then obtain j where j: "j < Suc (length steps)" "\<not> preserves_left ((k # ks) ! j)"
      "\<forall>row. length row = n \<longrightarrow> holds (fst ((step # steps) ! j)) row \<longrightarrow> ?good row" by (auto simp: kinds)
    show "chain_rows ls (step # steps) kinds = chain_rows ls' (step # steps) kinds"
    proof (cases j)
      case 0
      with here j show ?thesis by (simp add: kinds)
    next
      case (Suc m)
      with IH(2) j show ?thesis by (auto simp: kinds)
    qed
  qed
qed simp

section \<open>One join of the chain\<close>

text \<open>
  What the binder gives every column: the position of its table in the statement, and an index among the
  cells of that table.
\<close>

definition columns_in :: "scan_node list \<Rightarrow> expression \<Rightarrow> bool" where
  "columns_in scans e \<longleftrightarrow> (\<forall>c\<in>reads e. \<exists>s\<in>set scans. scan_position c = Some (sn_position s) \<and> column_index c \<in> cells s)"

lemma reads_literal [simp]: "reads (Literal v t) = {}"
  by (simp add: reads_def)

definition cells_of :: "scan_node list \<Rightarrow> nat set \<Rightarrow> nat set" where
  "cells_of scans sources = \<Union>(cells ` {s \<in> set scans. sn_position s \<in> sources})"

lemma null_extendedI:
  assumes "distinct (map sn_position scans)" and "columns_in scans e" and "all_null (length row) (cells_of scans sources) row"
  shows "null_extended sources row e"
  using assms(2)
proof (induction e)
  case (BoundColumnRef c)
  then obtain s where s: "s \<in> set scans" "scan_position c = Some (sn_position s)" "column_index c \<in> cells s"
    by (auto simp: columns_in_def)
  then have "sn_position s \<in> sources \<Longrightarrow> column_index c \<in> cells_of scans sources" by (auto simp: cells_of_def)
  with s(2) assms(3) show ?case by (auto simp: in_sources_def all_null_def)
qed (auto simp: columns_in_def list_all_iff)

lemma rejects_one:
  assumes "rejects_nulls ps sources"
  shows "\<exists>p\<in>set ps. \<forall>row. lists_nonempty p \<longrightarrow> null_extended sources row p \<longrightarrow> \<not> holds p row"
proof -
  obtain p where p: "p \<in> set ps" "TV_TRUE \<notin> truth_of p sources"
    using assms conjoin_true [of ps sources "{TV_TRUE}"] by (auto simp: rejects_nulls_def)
  have "\<not> holds p row" if "lists_nonempty p" "null_extended sources row p" for row
    using truth_analysis_sound [of p sources row] that p(2) by (auto simp: holds_def dest!: spec [of _ TV_TRUE])
  with p(1) show ?thesis by blast
qed

text \<open>A chain the planner is given: tables that do not overlap, and conditions over their columns.\<close>

definition chain_ok :: "nat \<Rightarrow> scan_node list \<Rightarrow> expression list \<Rightarrow> bool" where
  "chain_ok n scans ps \<longleftrightarrow> distinct (map sn_position scans) \<and>
     (\<forall>i<length scans. \<forall>j<length scans. i \<noteq> j \<longrightarrow> cells (scans ! i) \<inter> cells (scans ! j) = {}) \<and>
     (\<forall>p\<in>set ps. columns_in scans p \<and> lists_nonempty p)"

definition passes_all :: "expression list \<Rightarrow> row \<Rightarrow> bool" where
  "passes_all filters row \<longleftrightarrow> (\<forall>p\<in>set filters. holds p row)"

lemma cells_of_only:
  assumes "chain_ok n scans ps" and "x \<in> cells_of scans sources" and "m < length scans" and "x \<in> cells (scans ! m)"
  shows "sn_position (scans ! m) \<in> sources"
proof -
  from assms(2) obtain m' where m': "m' < length scans" "x \<in> cells (scans ! m')" "sn_position (scans ! m') \<in> sources"
    by (auto simp: cells_of_def in_set_conv_nth)
  with assms have "m' = m" unfolding chain_ok_def by blast
  with m'(3) show ?thesis by simp
qed

lemma filter_through: "(\<And>x. x \<in> set xs \<Longrightarrow> P x \<Longrightarrow> Q x) \<Longrightarrow> filter P xs = filter P (filter Q xs)"
  by (induction xs) auto

lemma step_join_kept:
  "step_join step k' = (step_join step k)\<lparr>jc_preserve_left := preserves_left k', jc_preserve_right := preserves_right k'\<rparr>"
  "jc_preserve_left (step_join step k) = preserves_left k" "jc_preserve_right (step_join step k) = preserves_right k"
  by (simp_all add: step_join_def join_of_def)

lemma drop_step:
  assumes ok: "chain_ok n (s0 # map (fst \<circ> snd) steps) (filters @ map fst steps)" "\<forall>step\<in>set steps. step_ok n step"
      "\<forall>l\<in>set ls. confined n (cells s0) l"
    and len: "length kinds = length steps" "i < length steps"
    and rejects: "rejects_nulls (filters @ map (\<lambda>j. fst (steps ! j)) (filter (\<lambda>j. \<not> preserves_left (kinds ! j)) [i + 1..<length steps])) sources"
    and change: "preserves_left k \<noteq> preserves_left (kinds ! i) \<Longrightarrow> sources = {sn_position (fst (snd (steps ! i)))}"
      "preserves_right k \<noteq> preserves_right (kinds ! i) \<Longrightarrow> sources = set (map sn_position (s0 # map (fst \<circ> snd) (take i steps)))"
      "sources \<subseteq> set (map sn_position (s0 # map (fst \<circ> snd) (take (Suc i) steps)))"
  shows "filter (passes_all filters) (chain_rows ls steps (kinds[i := k])) = filter (passes_all filters) (chain_rows ls steps kinds)"
proof -
  let ?scans = "s0 # map (fst \<circ> snd) steps"
  let ?C = "cells_of ?scans sources"
  let ?good = "\<lambda>row. \<not> all_null n ?C row"
  let ?step = "steps ! i"
  let ?before = "chain_rows ls (take i steps) (take i kinds)"
  let ?join = "\<lambda>k. join_rows (step_join ?step k) ?before (snd (snd ?step))"
  let ?rest = "\<lambda>rows. chain_rows rows (drop (Suc i) steps) (drop (Suc i) kinds)"
  have dist: "distinct (map sn_position ?scans)" using ok(1) by (simp add: chain_ok_def)
  have at: "?scans ! Suc j = fst (snd (steps ! j))" if "j < length steps" for j using that by simp
  have step: "step_ok n ?step" using ok(2) len(2) by simp
  have position: "m = m'" if "m < length ?scans" "m' < length ?scans" "sn_position (?scans ! m) = sn_position (?scans ! m')" for m m'
    using nth_eq_iff_index_eq [OF dist, of m m'] that by (simp del: list.map)
  have sides: "chain_rows ls steps kinds = ?rest (?join (kinds ! i))" "chain_rows ls steps (kinds[i := k]) = ?rest (?join k)"
    using chain_rows_at [OF len(2,1), of ls] chain_rows_at [OF len(2), of "kinds[i := k]" ls] len by simp_all
  have before: "\<forall>row\<in>set ?before. confined n (cells s0 \<union> \<Union>(cells ` (fst \<circ> snd) ` set (take i steps))) row"
    by (rule chain_confined [OF ok(3)]) (use ok(2) len in \<open>auto dest: in_set_takeD\<close>)
  have prefix: "\<exists>m\<le>i. x \<in> cells (?scans ! m)" if "x \<in> cells s0 \<union> \<Union>(cells ` (fst \<circ> snd) ` set (take i steps))" for x
  proof -
    from that consider "x \<in> cells s0" | step' where "step' \<in> set (take i steps)" "x \<in> cells (fst (snd step'))" by auto
    then show ?thesis
    proof cases
      case 2
      then obtain j where "j < i" "step' = steps ! j" using len(2) by (auto simp: in_set_conv_nth)
      with 2 len(2) at [of j] show ?thesis by (intro exI [of _ "Suc j"]) auto
    qed auto
  qed
  have named: "\<exists>m\<le>j. x = sn_position (?scans ! m)"
    if "x \<in> set (map sn_position (s0 # map (fst \<circ> snd) (take j steps)))" "j \<le> length steps" for x j
  proof -
    have "s0 # map (fst \<circ> snd) (take j steps) = take (Suc j) ?scans" by (simp add: take_map)
    with that(1) obtain s where "s \<in> set (take (Suc j) ?scans)" "x = sn_position s" by auto
    moreover from this(1) obtain m where "m < Suc j" "s = ?scans ! m"
      by (metis in_set_conv_nth length_take min_less_iff_conj nth_take)
    ultimately show ?thesis by (auto intro!: exI [of _ m])
  qed
  have own: "sn_position (?scans ! m) \<in> sources" if "x \<in> ?C" "x \<in> cells (?scans ! m)" "m < length ?scans" for x m
    using cells_of_only [OF ok(1) that(1,3,2)] .
  have lefts: "\<forall>row\<in>set ?before. all_null n ?C row" if "preserves_left k \<noteq> preserves_left (kinds ! i)"
  proof (unfold all_null_def, intro ballI allI impI)
    fix row x assume row: "row \<in> set ?before" and x: "x < n" "x \<in> ?C"
    show "row ! x = PyNone"
    proof (rule ccontr)
      assume "row ! x \<noteq> PyNone"
      with before row x(1) prefix [of x] obtain m where m: "m \<le> i" "x \<in> cells (?scans ! m)" unfolding confined_def by blast
      with own [OF x(2) m(2)] change(1) [OF that] at [OF len(2)] len(2)
      have "sn_position (?scans ! m) = sn_position (?scans ! Suc i)" by simp
      from position [OF _ _ this] m(1) len(2) show False by simp
    qed
  qed
  have rights: "\<forall>row\<in>set (snd (snd ?step)). all_null n ?C row" if "preserves_right k \<noteq> preserves_right (kinds ! i)"
  proof (unfold all_null_def, intro ballI allI impI)
    fix row x assume row: "row \<in> set (snd (snd ?step))" and x: "x < n" "x \<in> ?C"
    show "row ! x = PyNone"
    proof (rule ccontr)
      assume "row ! x \<noteq> PyNone"
      then have c: "x \<in> cells (?scans ! Suc i)" using step row x(1) at [OF len(2)]
        by (cases ?step) (auto simp: step_ok_def confined_def)
      have "Suc i < length ?scans" using len(2) by simp
      from own [OF x(2) c this] change(2) [OF that] named [of "sn_position (?scans ! Suc i)" i] len(2)
      obtain m where m: "m \<le> i" "sn_position (?scans ! Suc i) = sn_position (?scans ! m)" by auto
      from position [OF _ _ m(2)] m(1) len(2) show False by simp
    qed
  qed
  have here: "filter ?good (?join (kinds ! i)) = filter ?good (?join k)"
    by (rule join_drops_preserved [where pl = "preserves_left k" and pr = "preserves_right k"])
      (use lefts rights step_join_kept in auto)
  have later: "\<forall>step\<in>set (drop (Suc i) steps). step_ok n step \<and> cells (fst (snd step)) \<inter> ?C = {}"
  proof
    fix step assume "step \<in> set (drop (Suc i) steps)"
    then obtain j where j: "i < j" "j < length steps" "step = steps ! j"
      by (auto simp: in_set_conv_nth) (metis add.commute less_add_Suc1 less_diff_conv add_Suc_right)
    have "x \<notin> ?C" if x: "x \<in> cells (?scans ! Suc j)" for x
    proof
      assume "x \<in> ?C"
      from own [OF this x] j(2) change(3) named [of "sn_position (?scans ! Suc j)" "Suc i"] len(2)
      obtain m where m: "m \<le> Suc i" "sn_position (?scans ! Suc j) = sn_position (?scans ! m)" by auto
      from position [OF _ _ m(2)] m(1) j len(2) show False by simp
    qed
    then show "step_ok n step \<and> cells (fst (snd step)) \<inter> ?C = {}" using ok(2) j at [OF j(2)] by auto
  qed
  have confined: "\<forall>row\<in>set (?join k). length row = n" for k
    using join_confined [OF before step, of k] by (simp add: confined_def)
  have lens: "\<forall>l\<in>set (?join (kinds ! i)) \<union> set (?join k). length l = n" using confined by blast
  have "length (drop (Suc i) kinds) = length (drop (Suc i) steps)" using len by simp
  note A = chain_agrees [OF here lens this later]
  obtain p where p: "p \<in> set filters \<or> (\<exists>j. i < j \<and> j < length steps \<and> \<not> preserves_left (kinds ! j) \<and> p = fst (steps ! j))"
    "\<forall>row. lists_nonempty p \<longrightarrow> null_extended sources row p \<longrightarrow> \<not> holds p row"
  proof -
    from rejects_one [OF rejects] obtain p where p: "p \<in> set (filters @ map (\<lambda>j. fst (steps ! j)) (filter (\<lambda>j. \<not> preserves_left (kinds ! j)) [i + 1..<length steps]))"
      "\<forall>row. lists_nonempty p \<longrightarrow> null_extended sources row p \<longrightarrow> \<not> holds p row" by blast
    from p(1) have "p \<in> set filters \<or> (\<exists>j. i < j \<and> j < length steps \<and> \<not> preserves_left (kinds ! j) \<and> p = fst (steps ! j))"
      by (auto simp: Suc_le_eq simp del: preserves_left.simps)
    from that [OF this p(2)] show thesis .
  qed
  then have "p \<in> set (filters @ map fst steps)" by auto
  with ok(1) have "columns_in ?scans p" "lists_nonempty p" unfolding chain_ok_def by blast+
  then have good: "?good row" if "length row = n" "holds p row" for row
    using null_extendedI [OF dist, of p row sources] p(2) that by auto
  show ?thesis
  proof (cases "p \<in> set filters")
    case True
    have all_rows: "\<forall>row\<in>set (?rest (?join k)). length row = n" for k
    proof -
      have "\<forall>row\<in>set (?rest (?join k)). confined n ((cells s0 \<union> \<Union>(cells ` (fst \<circ> snd) ` set (take i steps))) \<union>
          cells (fst (snd ?step)) \<union> \<Union>(cells ` (fst \<circ> snd) ` set (drop (Suc i) steps))) row"
        by (rule chain_confined [OF join_confined [OF before step]]) (use later len in auto)
      then show ?thesis by (simp add: confined_def)
    qed
    have drop: "filter (passes_all filters) (?rest (?join k)) = filter (passes_all filters) (filter ?good (?rest (?join k)))" for k
      by (rule filter_through) (use True all_rows good in \<open>auto simp: passes_all_def\<close>)
    show ?thesis unfolding sides by (subst (1 2) drop) (simp only: A [THEN conjunct1])
  next
    case False
    with p(1) obtain j where j: "i < j" "j < length steps" "\<not> preserves_left (kinds ! j)" "p = fst (steps ! j)" by blast
    then have "\<exists>m<length (drop (Suc i) steps). \<not> preserves_left (drop (Suc i) kinds ! m) \<and>
        (\<forall>row. length row = n \<longrightarrow> holds (fst (drop (Suc i) steps ! m)) row \<longrightarrow> ?good row)"
      using good len by (intro exI [of _ "j - Suc i"]) auto
    from A [THEN conjunct2, THEN mp, OF this] show ?thesis unfolding sides by simp
  qed
qed

section \<open>The kinds the rule computes\<close>

lemma join_kind_of_laws:
  "preserves_left (join_kind_of a b) = a" "preserves_right (join_kind_of a b) = b"
  "join_kind_of (preserves_left k) (preserves_right k) = k"
proof -
  show "preserves_left (join_kind_of a b) = a" "preserves_right (join_kind_of a b) = b"
    by (cases a; cases b; simp)+
  show "join_kind_of (preserves_left k) (preserves_right k) = k" by (cases k) simp_all
qed

lemma lefts_of_nth: "i < length rights \<Longrightarrow> lefts_of acc rights ! i = acc \<union> set (take i rights)"
  by (induction rights arbitrary: acc i) (auto simp: nth_Cons' take_Cons')

definition chain_given :: "nat \<Rightarrow> scan_node \<Rightarrow> chain_step list \<Rightarrow> expression list \<Rightarrow> row list \<Rightarrow> bool" where
  "chain_given n s0 steps filters ls \<longleftrightarrow> chain_ok n (s0 # map (fst \<circ> snd) steps) (filters @ map fst steps) \<and>
     (\<forall>step\<in>set steps. step_ok n step) \<and> (\<forall>l\<in>set ls. confined n (cells s0) l)"

definition positions :: "chain_step list \<Rightarrow> nat list" where
  "positions steps = map (\<lambda>step. sn_position (fst (snd step))) steps"

lemma reduce_kind_preserves:
  assumes given: "chain_given n s0 steps filters ls" and joins: "map cj_predicate joins = map fst steps"
    and len: "length kinds = length steps" "i < length steps"
  shows "filter (passes_all filters) (chain_rows ls steps
      (reduce_kind joins (positions steps) (lefts_of {sn_position s0} (positions steps)) filters kinds i)) =
    filter (passes_all filters) (chain_rows ls steps kinds)"
proof (cases "is_outer (kinds ! i)")
  case True
  let ?k = "kinds ! i" and ?right = "{positions steps ! i}" and ?left = "lefts_of {sn_position s0} (positions steps) ! i"
  let ?out = "\<lambda>kinds. filter (passes_all filters) (chain_rows ls steps kinds)"
  define w where "w = witnesses_of joins filters kinds i"
  define k1 where "k1 = join_kind_of (preserves_left ?k \<and> \<not> rejects_nulls w ?right) (preserves_right ?k)"
  define k2 where "k2 = join_kind_of (preserves_left ?k \<and> \<not> rejects_nulls w ?right) (preserves_right ?k \<and> \<not> rejects_nulls w ?left)"
  note ok = given [unfolded chain_given_def, THEN conjunct1] given [unfolded chain_given_def, THEN conjunct2, THEN conjunct1]
    given [unfolded chain_given_def, THEN conjunct2, THEN conjunct2]
  have "length joins = length steps" using joins by (metis length_map)
  have named: "cj_predicate (joins ! j) = fst (steps ! j)" if "j < length steps" for j
    using joins that \<open>length joins = length steps\<close> by (metis nth_map)
  have w: "w = filters @ map (\<lambda>j. fst (steps ! j)) (filter (\<lambda>j. \<not> preserves_left (ks ! j)) [i + 1..<length steps])"
    if "\<forall>j>i. ks ! j = kinds ! j" for ks
  proof -
    have "filter (\<lambda>j. \<not> preserves_left (kinds ! j)) [i + 1..<length steps] = filter (\<lambda>j. \<not> preserves_left (ks ! j)) [i + 1..<length steps]"
      by (rule filter_cong) (use that in auto)
    with \<open>length joins = length steps\<close> named show ?thesis by (auto simp: w_def witnesses_of_def intro!: map_cong)
  qed
  have right: "?right = {sn_position (fst (snd (steps ! i)))}" using len(2) by (simp add: positions_def)
  have left: "?left = set (map sn_position (s0 # map (fst \<circ> snd) (take i steps)))"
    using len(2) by (simp add: lefts_of_nth positions_def take_map o_def)
  have within: "?right \<subseteq> set (map sn_position (s0 # map (fst \<circ> snd) (take (Suc i) steps)))"
      "?left \<subseteq> set (map sn_position (s0 # map (fst \<circ> snd) (take (Suc i) steps)))"
    unfolding right left using len(2) by (auto simp: take_Suc_conv_app_nth)
  have one: "?out (kinds[i := k1]) = ?out kinds"
  proof (cases "rejects_nulls w ?right")
    case True
    have ws: "w = filters @ map (\<lambda>j. fst (steps ! j)) (filter (\<lambda>j. \<not> preserves_left (kinds ! j)) [i + 1..<length steps])"
      by (rule w) simp
    show ?thesis
      by (rule drop_step [OF ok len True [unfolded ws]]) (use right within in \<open>simp_all add: k1_def join_kind_of_laws del: preserves_left.simps preserves_right.simps\<close>)
  next
    case False
    then have "k1 = ?k" by (simp add: k1_def join_kind_of_laws del: preserves_left.simps preserves_right.simps)
    then show ?thesis by simp
  qed
  have two: "?out (kinds[i := k1, i := k2]) = ?out (kinds[i := k1])"
  proof (cases "rejects_nulls w ?left")
    case True
    have ws: "w = filters @ map (\<lambda>j. fst (steps ! j)) (filter (\<lambda>j. \<not> preserves_left (kinds[i := k1] ! j)) [i + 1..<length steps])"
      by (rule w) simp
    show ?thesis
      by (rule drop_step [OF ok _ _ True [unfolded ws]])
        (use left within len in \<open>simp_all add: k1_def k2_def join_kind_of_laws del: preserves_left.simps preserves_right.simps\<close>)
  next
    case False
    then have "k2 = k1" by (simp add: k1_def k2_def)
    then show ?thesis by simp
  qed
  have "reduce_kind joins (positions steps) (lefts_of {sn_position s0} (positions steps)) filters kinds i = kinds[i := k2]"
    using True by (simp add: reduce_kind_def Let_def k2_def w_def)
  with one two show ?thesis by simp
qed (simp add: reduce_kind_def)

lemma reduce_all_preserves:
  assumes "chain_given n s0 steps filters ls" and "map cj_predicate joins = map fst steps"
    and "length kinds = length steps" and "\<forall>i\<in>set is. i < length steps"
  shows "filter (passes_all filters) (chain_rows ls steps
      (foldl (reduce_kind joins (positions steps) (lefts_of {sn_position s0} (positions steps)) filters) kinds is)) =
    filter (passes_all filters) (chain_rows ls steps kinds) \<and>
    length (foldl (reduce_kind joins (positions steps) (lefts_of {sn_position s0} (positions steps)) filters) kinds is) = length steps"
  using assms(3,4)
proof (induction "is" arbitrary: kinds)
  case (Cons i "is")
  let ?next = "reduce_kind joins (positions steps) (lefts_of {sn_position s0} (positions steps)) filters kinds i"
  have "length ?next = length steps" using Cons.prems(1) by (simp add: reduce_kind_def Let_def)
  from Cons.IH [OF this] reduce_kind_preserves [OF assms(1,2) Cons.prems(1), of i] Cons.prems(2) show ?case by simp
qed simp

section \<open>Plans\<close>

lemma decode_columns_length: "decode_columns raw i off cs = Inr (vs, e) \<Longrightarrow> length vs = length cs"
  by (induction raw i off cs arbitrary: vs e rule: decode_columns.induct) (auto simp: bind_res_Inr split: if_splits)

lemma decode_record_length: "decode_record cols raw = Inr vs \<Longrightarrow> length vs = length cols"
  by (auto simp: decode_record_def bind_res_Inr split: if_splits dest: decode_columns_length)

definition scan_fits :: "nat \<Rightarrow> scan_node \<Rightarrow> bool" where
  "scan_fits n s \<longleftrightarrow> scan_width s = n \<and> sn_offset s + length (sn_schema s) \<le> n"

lemma place_confined:
  assumes "scan_fits n s" and "length vs = length (sn_schema s)"
  shows "confined n (cells s) (place (Some (written_layout s)) vs)"
proof (cases "n = length (sn_schema s)")
  case True
  with assms show ?thesis by (auto simp: place_def written_layout_def scan_fits_def confined_def cells_def)
next
  case False
  with assms show ?thesis
    by (auto simp: place_def written_layout_def scan_fits_def confined_def cells_def blank_def nth_slice_assign
        intro!: length_slice_assign)
qed

lemma scan_rows_confined:
  assumes "scan_fits n s" and "answer db (LogicalScan s) = Some (Inr (rows, None))"
  shows "\<forall>row\<in>set rows. confined n (cells s) row"
proof -
  let ?c = "scan_of_table db (sn_schema s) (written_layout s)"
  from assms(2) have "generated (\<lambda>(rid, payload). visible_out (visible_row ?c payload))
      (left_over (dv_heap db (sn_table s))) (failure (dv_heap db (sn_table s))) = (rows, None)"
    by (simp add: answer_def run_scans)
  then have g: "snd (flat_map (\<lambda>(rid, payload). visible_out (visible_row ?c payload)) (left_over (dv_heap db (sn_table s)))) = None"
    "rows = fst (flat_map (\<lambda>(rid, payload). visible_out (visible_row ?c payload)) (left_over (dv_heap db (sn_table s))))"
    by (auto simp: generated_def then_stream_def split: option.splits)
  have "confined n (cells s) row" if "row \<in> set (fst (visible_out (visible_row ?c payload)))" for payload row
  proof -
    from that have "visible_row ?c payload = Inr (Some row)"
      by (auto simp: visible_out_def split: sum.splits option.splits)
    then obtain vs where "decode_record (sn_schema s) (strip_tuple_header payload) = Inr vs"
      "row = place (Some (written_layout s)) vs"
      by (auto simp: visible_row_def scan_of_table_def bind_res_Inr split: if_splits)
    with place_confined [OF assms(1)] decode_record_length show ?thesis by blast
  qed
  then show ?thesis unfolding g(2) flat_rows [OF g(1)] by auto
qed

lemma answer_filter:
  assumes "answer db child = Some (Inr (rows, None))" and "answer db (LogicalFilter p child) = Some (Inr (out, None))"
  shows "out = filter (holds p) rows"
proof -
  from assms have s: "stream_bind (filter_row p) (rows, None) = (out, None)"
    by (simp add: answer_def run_unary_def run_streaming)
  then have ok: "snd (flat_map (filter_row p) rows) = None" "out = fst (flat_map (filter_row p) rows)"
    by (auto simp: stream_bind_def then_stream_def split: option.splits)
  have "fst (flat_map (filter_row p) rows) = filter (holds p) rows" using ok(1)
  proof (induction rows)
    case (Cons row rows)
    then show ?case using matches_holds [of p row]
      by (auto simp: then_stream_ok then_stream_rows filter_row_def split: sum.splits)
  qed simp
  with ok(2) show ?thesis by simp
qed

lemma answer_join:
  assumes "answer db left = Some (Inr (ls, None))" and "answer db right = Some (Inr (rs, None))"
    and "answer db (LogicalJoin p left right k) = Some (Inr (out, None))"
  shows "out = join_rows (join_of p (slices_of right) k) ls rs"
proof -
  from assms have "nested_loop_spec (join_of p (slices_of right) k) (ls, None) rs = (out, None)"
    by (simp add: answer_def run_unary_def run_nested_loop nested_loop_out_def)
  with nested_loop_rows show ?thesis by fastforce
qed

lemma raises_nothing_simps:
  "raises_nothing db plan \<longleftrightarrow> answer db plan = Some (Inr (rows_of db plan, None)) \<and> (\<forall>child\<in>set (children plan). raises_nothing db child)"
  unfolding raises_nothing_def by (subst walk_logical.simps) (auto simp: rows_of_def)

lemma chain_rows_snoc:
  "length kinds = length steps \<Longrightarrow> chain_rows ls (steps @ [step]) (kinds @ [k]) =
     join_rows (step_join step k) (chain_rows ls steps kinds) (snd (snd step))"
  by (simp add: chain_rows_def)

definition steps_of :: "database_view \<Rightarrow> chain_join list \<Rightarrow> chain_step list" where
  "steps_of db = map (\<lambda>join. (cj_predicate join, scan_node_of (cj_right join), rows_of db (cj_right join)))"

lemma answer_chain:
  assumes "raises_nothing db plan" and "is_scan (leftmost plan)" and "\<forall>join\<in>set (written_order plan). is_scan (cj_right join)"
  shows "rows_of db plan = chain_rows (rows_of db (leftmost plan)) (steps_of db (written_order plan)) (map cj_kind (written_order plan))"
  using assms
proof (induction plan)
  case (LogicalJoin p left right k)
  have r: "raises_nothing db left" "raises_nothing db right" "is_scan right"
    using LogicalJoin.prems raises_nothing_simps [of db "LogicalJoin p left right k"] by simp_all
  then obtain s where s: "right = LogicalScan s" by (cases right) auto
  then have "slices_of right = [(sn_offset s, length (sn_schema s))]"
    by (simp add: slices_of_def) (simp add: walk_logical.simps)
  moreover have "rows_of db left = chain_rows (rows_of db (leftmost left)) (steps_of db (written_order left)) (map cj_kind (written_order left))"
    using LogicalJoin.prems r(1) by (intro LogicalJoin.IH) auto
  moreover have "rows_of db (LogicalJoin p left right k) = join_rows (join_of p (slices_of right) k) (rows_of db left) (rows_of db right)"
    using LogicalJoin.prems(1) r(1,2) raises_nothing_simps by (intro answer_join) blast+
  ultimately show ?case by (simp add: chain_rows_snoc steps_of_def step_join_def s)
qed (simp_all add: steps_of_def)

lemma rebuild_written:
  "written_order (rebuild_chain node xs) = written_order node @ map (\<lambda>(join, k). join\<lparr>cj_kind := k\<rparr>) xs"
  "leftmost (rebuild_chain node xs) = leftmost node"
  by (induction xs arbitrary: node) (auto simp: rebuild_chain_def)

definition tables_of_chain :: "logical_node \<Rightarrow> scan_node list" where
  "tables_of_chain root = scan_node_of (leftmost root) # map (\<lambda>join. scan_node_of (cj_right join)) (written_order root)"

text \<open>
  What the binder sees to: tables at distinct positions, side by side in rows of \<open>n\<close> cells, conditions over the
  columns of these tables, and no empty \<open>IN\<close> list.
\<close>

definition chain_fits :: "nat \<Rightarrow> expression list \<Rightarrow> logical_node \<Rightarrow> bool" where
  "chain_fits n filters root \<longleftrightarrow> chain_ok n (tables_of_chain root) (filters @ map cj_predicate (written_order root)) \<and>
     (\<forall>s\<in>set (tables_of_chain root). scan_fits n s)"

fun joins_fit :: "nat \<Rightarrow> logical_node \<Rightarrow> bool" where
  "joins_fit n (LogicalJoin predicate left right k) = chain_fits n [] (LogicalJoin predicate left right k)"
| "joins_fit n (LogicalFilter predicate (LogicalJoin on left right k)) = chain_fits n [predicate] (LogicalJoin on left right k)"
| "joins_fit n (LogicalFilter predicate child) = joins_fit n child"
| "joins_fit n (LogicalProject projections columns child) = joins_fit n child"
| "joins_fit n (LogicalAggregate keys aggregates having child) = joins_fit n child"
| "joins_fit n (LogicalSort keys child) = joins_fit n child"
| "joins_fit n (LogicalDistinct child) = joins_fit n child"
| "joins_fit n (LogicalLimit limit offset child) = joins_fit n child"
| "joins_fit n (LogicalScan s) = True"

lemma rows_of_scan:
  assumes "scan_fits n s" and "raises_nothing db (LogicalScan s)"
  shows "\<forall>row\<in>set (rows_of db (LogicalScan s)). confined n (cells s) row"
  using scan_rows_confined [OF assms(1)] raises_nothing_simps assms(2) by blast

lemma raises_nothing_chain:
  "raises_nothing db plan \<Longrightarrow> raises_nothing db (leftmost plan) \<and> (\<forall>join\<in>set (written_order plan). raises_nothing db (cj_right join))"
proof (induction plan)
  case (LogicalJoin p left right k)
  then show ?case using raises_nothing_simps [of db "LogicalJoin p left right k"] by auto
qed simp_all

lemma reduce_chain_rows:
  assumes fits: "chain_fits n filters root" and quiet: "raises_nothing db root" "raises_nothing db (reduce_join_chain root filters)"
  shows "filter (passes_all filters) (rows_of db (reduce_join_chain root filters)) = filter (passes_all filters) (rows_of db root)"
proof (cases "reduce_join_chain root filters = root")
  case False
  let ?joins = "written_order root"
  from False obtain s where s: "leftmost root = LogicalScan s" and scans: "list_all (\<lambda>join. is_scan (cj_right join)) ?joins"
    and new: "reduce_join_chain root filters = rebuild_chain (LogicalScan s) (zip ?joins (reduced_kinds ?joins (sn_position s) filters))"
    by (auto simp: reduce_join_chain_def Let_def split: logical_node.splits if_splits)
  let ?steps = "steps_of db ?joins" and ?ls = "rows_of db (LogicalScan s)" and ?kinds = "reduced_kinds ?joins (sn_position s) filters"
  have scans': "\<forall>join\<in>set ?joins. is_scan (cj_right join)" using scans by (simp add: list_all_iff)
  have fst_steps: "map fst ?steps = map cj_predicate ?joins" and
    snd_steps: "map (fst \<circ> snd) ?steps = map (\<lambda>join. scan_node_of (cj_right join)) ?joins"
    by (simp_all add: steps_of_def)
  note quiet_parts = raises_nothing_chain [OF quiet(1)]
  have "\<forall>step\<in>set ?steps. step_ok n step"
  proof
    fix step assume "step \<in> set ?steps"
    then obtain join where join: "join \<in> set ?joins" "step = (cj_predicate join, scan_node_of (cj_right join), rows_of db (cj_right join))"
      by (auto simp: steps_of_def)
    with scans' obtain t where t: "cj_right join = LogicalScan t" by (cases "cj_right join") auto
    have "scan_fits n t" using fits join(1) t unfolding chain_fits_def tables_of_chain_def by force
    with rows_of_scan [OF this] quiet_parts join t show "step_ok n step" by (auto simp: step_ok_def scan_fits_def)
  qed
  moreover have "\<forall>l\<in>set ?ls. confined n (cells s) l"
    using fits s quiet_parts by (intro rows_of_scan) (auto simp: chain_fits_def tables_of_chain_def)
  ultimately have given: "chain_given n s ?steps filters ?ls"
    using fits by (simp only: chain_given_def fst_steps snd_steps) (simp add: chain_fits_def tables_of_chain_def s)
  have len: "length (map cj_kind ?joins) = length ?steps" by (simp add: steps_of_def)
  have pos: "positions ?steps = map (\<lambda>join. sn_position (scan_node_of (cj_right join))) ?joins"
    by (simp add: positions_def steps_of_def)
  have lenj: "length ?steps = length ?joins" by (simp add: steps_of_def)
  have red: "?kinds = foldl (reduce_kind ?joins (positions ?steps) (lefts_of {sn_position s} (positions ?steps)) filters)
      (map cj_kind ?joins) (rev [0..<length ?joins])"
    by (simp only: reduced_kinds_def Let_def pos)
  have "\<forall>i\<in>set (rev [0..<length ?joins]). i < length ?steps" by (simp add: lenj)
  note R = reduce_all_preserves [OF given fst_steps [symmetric] len this, folded red]
  have kinds: "filter (passes_all filters) (chain_rows ?ls ?steps ?kinds) = filter (passes_all filters) (chain_rows ?ls ?steps (map cj_kind ?joins))"
    "length ?kinds = length ?joins"
    using R lenj by simp_all
  have old: "rows_of db root = chain_rows ?ls ?steps (map cj_kind ?joins)"
    using answer_chain [OF quiet(1)] s scans' by simp
  let ?new = "rebuild_chain (LogicalScan s) (zip ?joins ?kinds)"
  have written: "written_order ?new = map (\<lambda>(join, k). join\<lparr>cj_kind := k\<rparr>) (zip ?joins ?kinds)"
    by (simp add: rebuild_written)
  have parts: "map cj_kind (written_order ?new) = ?kinds" "steps_of db (written_order ?new) = ?steps"
    "\<forall>join\<in>set (written_order ?new). is_scan (cj_right join)"
  proof -
    show "map cj_kind (written_order ?new) = ?kinds" unfolding written
      using kinds(2) by (intro nth_equalityI) (auto split: prod.split)
    show "steps_of db (written_order ?new) = ?steps" unfolding written steps_of_def
      using kinds(2) by (intro nth_equalityI) (auto split: prod.split)
    show "\<forall>join\<in>set (written_order ?new). is_scan (cj_right join)" unfolding written
      using scans' by (auto dest: set_zip_leftD)
  qed
  have "rows_of db ?new = chain_rows ?ls ?steps ?kinds"
    using answer_chain [OF quiet(2) [unfolded new]] parts by (simp add: rebuild_written)
  with kinds(1) old new show ?thesis by simp
qed simp

lemma answer_cong:
  "answer db c = answer db c' \<Longrightarrow> answer db (LogicalFilter p c) = answer db (LogicalFilter p c')"
  "answer db c = answer db c' \<Longrightarrow> answer db (LogicalProject ps cs c) = answer db (LogicalProject ps cs c')"
  "answer db c = answer db c' \<Longrightarrow> answer db (LogicalAggregate ks as h c) = answer db (LogicalAggregate ks as h c')"
  "answer db c = answer db c' \<Longrightarrow> answer db (LogicalSort sk c) = answer db (LogicalSort sk c')"
  "answer db c = answer db c' \<Longrightarrow> answer db (LogicalDistinct c) = answer db (LogicalDistinct c')"
  "answer db c = answer db c' \<Longrightarrow> answer db (LogicalLimit m i c) = answer db (LogicalLimit m i c')"
  by (simp_all add: answer_def)

lemma raises_nothing_down:
  "raises_nothing db (LogicalFilter p c) \<Longrightarrow> raises_nothing db c"
  "raises_nothing db (LogicalProject ps cs c) \<Longrightarrow> raises_nothing db c"
  "raises_nothing db (LogicalAggregate ks as h c) \<Longrightarrow> raises_nothing db c"
  "raises_nothing db (LogicalSort sk c) \<Longrightarrow> raises_nothing db c"
  "raises_nothing db (LogicalDistinct c) \<Longrightarrow> raises_nothing db c"
  "raises_nothing db (LogicalLimit m i c) \<Longrightarrow> raises_nothing db c"
  by (subst (asm) raises_nothing_simps; simp)+

lemma simplified_answers:
  assumes "joins_fit n plan" and "raises_nothing db plan" and "raises_nothing db (simplify_outer_joins plan)"
  shows "answer db (simplify_outer_joins plan) = answer db plan"
  using assms
proof (induction plan)
  case (LogicalJoin predicate left right k)
  have all: "filter (passes_all []) rows = rows" for rows by (simp add: passes_all_def)
  from LogicalJoin.prems reduce_chain_rows [of n "[]" "LogicalJoin predicate left right k" db]
  have "rows_of db (simplify_outer_joins (LogicalJoin predicate left right k)) = rows_of db (LogicalJoin predicate left right k)"
    by (simp add: all)
  with LogicalJoin.prems(2,3) raises_nothing_simps show ?case by metis
next
  case (LogicalFilter predicate child)
  show ?case
  proof (cases "\<exists>on left right k. child = LogicalJoin on left right k")
    case True
    then obtain on left right k where j: "child = LogicalJoin on left right k" by blast
    let ?new = "reduce_join_chain child [predicate]"
    have new: "simplify_outer_joins (LogicalFilter predicate child) = LogicalFilter predicate ?new" by (simp add: j)
    have quiet: "raises_nothing db child" "raises_nothing db ?new"
      using LogicalFilter.prems(2,3) raises_nothing_down(1) unfolding new by blast+
    have pass: "passes_all [predicate] = holds predicate" by (simp add: passes_all_def fun_eq_iff)
    have rows: "rows_of db (LogicalFilter predicate c) = filter (holds predicate) (rows_of db c)"
      if "raises_nothing db (LogicalFilter predicate c)" for c
      using that raises_nothing_simps [of db "LogicalFilter predicate c"] raises_nothing_simps [of db c]
      by (intro answer_filter) auto
    have "chain_fits n [predicate] child" using LogicalFilter.prems(1) by (simp add: j)
    from reduce_chain_rows [OF this quiet] rows LogicalFilter.prems(2,3)
    have "rows_of db (LogicalFilter predicate ?new) = rows_of db (LogicalFilter predicate child)" unfolding new by (simp add: pass)
    with LogicalFilter.prems(2,3) raises_nothing_simps show ?thesis unfolding new by metis
  next
    case False
    then have "simplify_outer_joins (LogicalFilter predicate child) = LogicalFilter predicate (simplify_outer_joins child)"
      "joins_fit n (LogicalFilter predicate child) = joins_fit n child"
      by (cases child; simp)+
    with LogicalFilter show ?thesis by (metis answer_cong(1) raises_nothing_down(1))
  qed
next
  case (LogicalProject projections columns child)
  then have "answer db (simplify_outer_joins child) = answer db child" by (auto dest: raises_nothing_down)
  from answer_cong(2) [OF this] show ?case by simp
next
  case (LogicalAggregate keys aggregates having child)
  then have "answer db (simplify_outer_joins child) = answer db child" by (auto dest: raises_nothing_down)
  from answer_cong(3) [OF this] show ?case by simp
next
  case (LogicalSort keys child)
  then have "answer db (simplify_outer_joins child) = answer db child" by (auto dest: raises_nothing_down)
  from answer_cong(4) [OF this] show ?case by simp
next
  case (LogicalDistinct child)
  then have "answer db (simplify_outer_joins child) = answer db child" by (auto dest: raises_nothing_down)
  from answer_cong(5) [OF this] show ?case by simp
next
  case (LogicalLimit limit offset child)
  then have "answer db (simplify_outer_joins child) = answer db child" by (auto dest: raises_nothing_down)
  from answer_cong(6) [OF this] show ?case by simp
qed simp

text \<open>
  C10: reducing outer joins keeps the rows. A chain of joins of any kinds under a WHERE, with whatever is
  above it (projection, grouping, sorting, DISTINCT, LIMIT), returns the same rows in the same order after
  \<open>_simplify_outer_joins\<close>, when no operator of either plan raises. The removed rows are those that an ON
  further up or the WHERE drops, and dropping them earlier leaves behind only rows that are dropped too,
  even where a later RIGHT or FULL join keeps a row whose only partner was removed.
\<close>

theorem outer_join_reduction:
  assumes "joins_fit n plan" and "raises_nothing db plan" and "raises_nothing db (simplify_outer_joins plan)"
  shows "answer db (simplify_outer_joins plan) = answer db plan"
  using assms by (rule simplified_answers)

text \<open>Two tables of one BOOLEAN column with the rows TRUE and NULL, \<open>a LEFT JOIN b ON b.y = a.x WHERE b.y = TRUE\<close>.\<close>

definition demo_db :: database_view where
  "demo_db = \<lparr>dv_heap = (\<lambda>_. \<lparr>left_over = demo_records, failure = None\<rparr>), dv_get = (\<lambda>_ _. Inl RecordNotFoundError),
     dv_range = (\<lambda>_ _. \<lparr>left_over = [], failure = None\<rparr>), dv_snapshot = None\<rparr>"

definition demo_table :: "nat \<Rightarrow> scan_node" where
  "demo_table p = \<lparr>sn_table = [97], sn_schema = sc_schema demo_scan, sn_position = p, sn_offset = p, sn_total = 2\<rparr>"

definition demo_equal :: expression where
  "demo_equal = BinaryOp EQ (demo_column 1 BOOLEAN) (demo_column 0 BOOLEAN)"

definition demo_where :: expression where
  "demo_where = BinaryOp EQ (demo_column 1 BOOLEAN) (Literal (PyBool True) (Some BOOLEAN))"

definition demo_join :: "join_kind \<Rightarrow> logical_node" where
  "demo_join k = LogicalJoin demo_equal (LogicalScan (demo_table 0)) (LogicalScan (demo_table 1)) k"

lemma demo_scans:
  "answer demo_db (LogicalScan (demo_table 0)) = Some (Inr ([[PyBool True, PyNone], [PyNone, PyNone]], None))"
  "answer demo_db (LogicalScan (demo_table 1)) = Some (Inr ([[PyNone, PyBool True], [PyNone, PyNone]], None))"
  by (simp_all add: answer_def run_scans demo_db_def demo_table_def demo_records_def written_layout_def visible_row_def
      visible_out_def scan_of_table_def place_def blank_def slice_assign_def scan_width_def demo_scan_def read_tuple_header_def
      strip_tuple_header_def TUPLE_HEADER_SIZE_def decode_record_def null_bitmap_size_def is_null_def boolean_decode_def
      require_bytes_def)

lemma demo_evaluates:
  "matches demo_equal [PyBool True, PyBool True] = Inr True" "matches demo_equal [PyBool True, PyNone] = Inr False"
  "matches demo_equal [PyNone, PyBool True] = Inr False" "matches demo_equal [PyNone, PyNone] = Inr False"
  "matches demo_where [PyBool True, PyBool True] = Inr True" "matches demo_where [PyNone, PyNone] = Inr False"
  by (simp_all add: matches_def demo_equal_def demo_where_def demo_column_def evaluate_binary_def evaluate_strict_def
      require_comparable_def py_eq_def num_eq_def)

lemma demo_merge: "merge_rows [(Suc 0, Suc 0)] [x, y] [v, w] = [x, w]"
  by (simp add: merge_rows_def slice_assign_def slice_def)

lemma demo_joins:
  "answer demo_db (demo_join LEFT) = Some (Inr ([[PyBool True, PyBool True], [PyNone, PyNone]], None))"
  "answer demo_db (demo_join INNER) = Some (Inr ([[PyBool True, PyBool True]], None))"
proof -
  have slices: "slices_of (LogicalScan (demo_table 1)) = [(Suc 0, Suc 0)]"
    by (simp add: slices_of_def walk_logical.simps demo_table_def demo_scan_def)
  have run: "run demo_db (written_plan (LogicalScan (demo_table 0))) = Some (Inr ([[PyBool True, PyNone], [PyNone, PyNone]], None))"
    "run demo_db (written_plan (LogicalScan (demo_table 1))) = Some (Inr ([[PyNone, PyBool True], [PyNone, PyNone]], None))"
    using demo_scans by (simp_all only: answer_def)
  show "answer demo_db (demo_join LEFT) = Some (Inr ([[PyBool True, PyBool True], [PyNone, PyNone]], None))"
    "answer demo_db (demo_join INNER) = Some (Inr ([[PyBool True, PyBool True]], None))"
    unfolding answer_def demo_join_def written_plan.simps(4) run.simps run slices
    by (simp_all add: run_unary_def run_nested_loop nested_loop_out_def nested_loop_spec_def generated_def left_block_def
        pair_row_def filter_row_def left_tail_def partners_def join_of_def demo_merge demo_evaluates)
qed

lemma demo_filtered:
  "answer demo_db (LogicalFilter demo_where (demo_join LEFT)) = Some (Inr ([[PyBool True, PyBool True]], None))"
  "answer demo_db (LogicalFilter demo_where (demo_join INNER)) = Some (Inr ([[PyBool True, PyBool True]], None))"
  using demo_joins by (simp_all add: answer_def run_unary_def run_streaming stream_bind_def filter_row_def demo_evaluates)

lemma demo_quiet:
  "raises_nothing demo_db (LogicalFilter demo_where (demo_join LEFT))"
  "raises_nothing demo_db (LogicalFilter demo_where (demo_join INNER))"
  using demo_scans demo_joins demo_filtered
  by (simp_all add: raises_nothing_def walk_logical.simps [of "LogicalFilter p c" for p c] walk_logical.simps [of "LogicalScan s" for s]
      demo_join_def walk_logical.simps [of "LogicalJoin e l r k" for e l r k])

lemma demo_reduced:
  "simplify_outer_joins (LogicalFilter demo_where (demo_join LEFT)) = LogicalFilter demo_where (demo_join INNER)"
  by (simp add: demo_join_def reduce_join_chain_def reduced_kinds_def reduce_kind_def witnesses_of_def rejects_nulls_def
      demo_where_def demo_column_def demo_table_def in_sources_def combine_def rebuild_chain_def)

theorem outer_join_reduction_witness:
  "simplify_outer_joins (LogicalFilter demo_where (demo_join LEFT)) = LogicalFilter demo_where (demo_join INNER) \<and>
   answer demo_db (LogicalFilter demo_where (demo_join INNER)) = answer demo_db (LogicalFilter demo_where (demo_join LEFT))"
proof -
  have "joins_fit 2 (LogicalFilter demo_where (demo_join LEFT))"
    by (auto simp: demo_join_def chain_fits_def tables_of_chain_def chain_ok_def scan_fits_def scan_width_def demo_table_def demo_scan_def
        cells_def columns_in_def demo_where_def demo_equal_def demo_column_def less_Suc_eq nth_Cons')
  from outer_join_reduction [OF this demo_quiet(1)] demo_quiet(2) show ?thesis by (simp add: demo_reduced)
qed

end
