(* ===== verification/Rewrite.thy ===== *)
theory Rewrite
  imports Plan StreamLaws
begin

text \<open>
  What the rewrite rules of \<open>engine/optimizer/rules.py\<close> preserve: constant folding keeps the result of an
  expression on every row, exceptions included, and the rules on plans keep the stream of rows.
\<close>

section \<open>Constant folding\<close>

lemma map_res_Inr: "map_res f xs = Inr ys \<longleftrightarrow> map f xs = map Inr ys"
  by (induction xs arbitrary: ys) (auto simp: bind_res_Inr Cons_eq_map_conv)

lemma map_res_Inl: "map_res f xs = Inl e \<Longrightarrow> \<exists>x\<in>set xs. f x = Inl e"
  by (induction xs) (auto simp: bind_res_def split: sum.splits)

lemma constant_evaluate: "is_constant e \<Longrightarrow> evaluate e row = evaluate e row'"
proof (induction e)
  case (InList e items negated)
  then have "map (\<lambda>item. evaluate item row) items = map (\<lambda>item. evaluate item row') items"
    by (auto simp: list_all_iff)
  with InList show ?case by (simp cong: list.map_cong)
qed simp_all

lemma try_fold_evaluates:
  assumes "try_fold e = Inr e'"
  shows "evaluate e' row = evaluate e row"
proof (cases "is_literal e \<or> \<not> is_constant e")
  case False
  with assms constant_evaluate [of e row "[]"] show ?thesis
    by (auto simp: try_fold_def split: sum.splits if_splits)
qed (use assms in \<open>simp add: try_fold_def\<close>)

lemma fold_evaluates: "fold_constants_in e = Inr e' \<Longrightarrow> evaluate e' row = evaluate e row"
proof (induction e arbitrary: e')
  case (UnaryOp op e)
  then show ?case by (auto simp: bind_res_Inr dest!: try_fold_evaluates [where row = row])
next
  case (BinaryOp op l r)
  then show ?case by (auto simp: bind_res_Inr dest!: try_fold_evaluates [where row = row])
next
  case (InList e items negated)
  from InList.prems obtain f fs where f: "fold_constants_in e = Inr f" "map fold_constants_in items = map Inr fs"
    and e': "e' = InList f fs negated" by (auto simp: bind_res_Inr map_res_Inr)
  have "map (\<lambda>item. evaluate item row) fs = map (\<lambda>item. evaluate item row) items"
  proof (rule nth_equalityI)
    have len: "length fs = length items" using f(2) by (metis length_map)
    then show "length (map (\<lambda>item. evaluate item row) fs) = length (map (\<lambda>item. evaluate item row) items)" by simp
    fix i assume "i < length (map (\<lambda>item. evaluate item row) fs)"
    then have i: "i < length items" "i < length fs" using len by auto
    with f(2) have "fold_constants_in (items ! i) = Inr (fs ! i)" by (metis nth_map)
    with InList.IH(2) [of "items ! i"] i show "map (\<lambda>item. evaluate item row) fs ! i = map (\<lambda>item. evaluate item row) items ! i"
      by simp
  qed
  with InList.IH(1) [OF f(1)] e' show ?case by simp
qed (auto simp: bind_res_Inr)

lemma try_fold_safe: "literals_sane e \<Longrightarrow> \<exists>e'. try_fold e = Inr e' \<and> literals_sane e'"
  using evaluate_safe [of e "[]"] by (auto simp: try_fold_def safe_def split: sum.splits)

lemma fold_safe: "literals_sane e \<Longrightarrow> \<exists>e'. fold_constants_in e = Inr e' \<and> literals_sane e'"
proof (induction e)
  case (UnaryOp op e)
  then obtain f where "fold_constants_in e = Inr f" "literals_sane f" by auto
  with try_fold_safe [of "UnaryOp op f"] show ?case by simp
next
  case (BinaryOp op l r)
  then obtain f g where "fold_constants_in l = Inr f" "fold_constants_in r = Inr g" "literals_sane f" "literals_sane g" by auto
  with try_fold_safe [of "BinaryOp op f g"] show ?case by simp
next
  case (InList e items negated)
  from InList obtain f where f: "fold_constants_in e = Inr f" "literals_sane f" by auto
  have "\<forall>x\<in>set items. \<exists>x'. fold_constants_in x = Inr x' \<and> literals_sane x'"
    using InList by (auto simp: list_all_iff)
  then have "\<exists>fs. map fold_constants_in items = map Inr fs \<and> list_all literals_sane fs"
  proof (induction items)
    case (Cons a items)
    then obtain b fs where "fold_constants_in a = Inr b" "literals_sane b"
      "map fold_constants_in items = map Inr fs" "list_all literals_sane fs" by auto
    then show ?case by (intro exI [of _ "b # fs"]) simp
  qed simp
  with f show ?case by (auto simp: map_res_Inr [symmetric])
next
  case (IsNullTest e negated)
  then show ?case by auto
qed auto

text \<open>
  C14: Constant folding changes nothing that a query can observe. The folded expression evaluates to the same
  result on every row, an exception included, and over literals that fit 64 bits folding itself succeeds
  and leaves such literals, so planning a query raises nothing that running it would not have raised.
\<close>

theorem folding_preserves:
  "(fold_constants_in e = Inr e' \<longrightarrow> evaluate e' row = evaluate e row) \<and>
   (literals_sane e \<longrightarrow> (\<exists>e'. fold_constants_in e = Inr e' \<and> literals_sane e'))"
  using fold_evaluates fold_safe by blast

theorem folding_preserves_witness:
  "\<exists>e'. fold_constants_in (BinaryOp GT (demo_column 0 INTEGER) (BinaryOp MULTIPLY (Literal (PyInt 2) (Some INTEGER)) (Literal (PyInt 5) (Some INTEGER))))
       = Inr e' \<and> evaluate e' [PyInt 11] = Inr (PyBool True)"
proof -
  let ?e = "BinaryOp GT (demo_column 0 INTEGER) (BinaryOp MULTIPLY (Literal (PyInt 2) (Some INTEGER)) (Literal (PyInt 5) (Some INTEGER)))"
  have "literals_sane ?e" by (simp add: sane_def demo_column_def)
  with folding_preserves [of ?e] obtain e' where "fold_constants_in ?e = Inr e'" by blast
  moreover from this have "evaluate e' [PyInt 11] = evaluate ?e [PyInt 11]" using folding_preserves by blast
  moreover have "evaluate ?e [PyInt 11] = Inr (PyBool True)"
    by (simp add: demo_column_def evaluate_binary_def evaluate_strict_def range_checked_def require_number_def guard_res_def INT64_MIN_def INT64_MAX_def require_comparable_def py_ordered_def num_less_def)
  ultimately show ?thesis by auto
qed

end
