(* ===== verification/Rules.thy ===== *)
theory Rules
  imports OuterJoins Rewrite
begin

text \<open>
  The rewrite rules on plans (\<open>engine/optimizer/rules.py\<close>) against the rows a plan returns, and the loop
  that applies them. What each rule keeps is stated as exactly as it holds: folding and the removal of a
  true filter keep every exception as well; merging filters keeps the rows when nothing raises; dropping an
  identity projection is right on one table, and not on a join.
\<close>

section \<open>Applying the rules\<close>

definition RULES :: "(string \<times> (logical_node \<Rightarrow> logical_node res)) list" where
  "RULES = [(''fold_constants'', fold_constants),
            (''merge_adjacent_filters'', \<lambda>plan. Inr (merge_adjacent_filters plan)),
            (''remove_trivial_filter'', \<lambda>plan. Inr (remove_trivial_filter plan)),
            (''drop_identity_projection'', \<lambda>plan. Inr (drop_identity_projection plan)),
            (''simplify_outer_joins'', \<lambda>plan. Inr (simplify_outer_joins plan))]"

fun apply_each ::
  "(string \<times> (logical_node \<Rightarrow> logical_node res)) list \<Rightarrow> logical_node \<Rightarrow> string list \<Rightarrow> (logical_node \<times> string list) res" where
  "apply_each [] plan applied = Inr (plan, applied)"
| "apply_each ((name, rule) # rules) plan applied =
     bind_res (rule plan) (\<lambda>rewritten.
       if rewritten \<noteq> plan then apply_each rules rewritten (applied @ [name]) else apply_each rules plan applied)"

definition apply_rules :: "logical_node \<Rightarrow> (logical_node \<times> string list) res" where
  "apply_rules plan = apply_each RULES plan []"

section \<open>Folding and true filters\<close>

lemma stream_bind_cong: "(\<And>row. f row = g row) \<Longrightarrow> stream_bind f s = stream_bind g s"
  by (simp add: stream_bind_def) (metis ext)

lemma filter_row_fold: "fold_constants_in p = Inr p' \<Longrightarrow> filter_row p' row = filter_row p row"
  using fold_evaluates [of p p' row] by (simp add: filter_row_def matches_def)

lemma project_out_fold:
  assumes "map_res fold_constants_in ps = Inr ps'"
  shows "project_out ps' row = project_out ps row"
proof -
  have "map (\<lambda>p. evaluate p row) ps' = map (\<lambda>p. evaluate p row) ps"
    using assms
    by (induction ps arbitrary: ps') (auto simp: bind_res_Inr dest: fold_evaluates [where row = row])
  then have "map_res (\<lambda>p. evaluate p row) ps' = map_res (\<lambda>p. evaluate p row) ps"
  proof (induction ps arbitrary: ps')
    case (Cons p ps)
    then obtain q qs where "ps' = q # qs" "evaluate q row = evaluate p row"
      "map (\<lambda>p. evaluate p row) qs = map (\<lambda>p. evaluate p row) ps" by (cases ps') auto
    with Cons.IH [of qs] show ?case by simp
  qed simp
  then show ?thesis by (simp add: project_out_def project_row_def)
qed

lemma run_filter_cong:
  assumes "\<And>row. filter_row p row = filter_row p' row" and "answer db c = answer db c'"
  shows "answer db (LogicalFilter p c) = answer db (LogicalFilter p' c')"
  using assms by (simp add: answer_def run_streaming stream_bind_cong [OF assms(1)])

lemma run_project_cong:
  assumes "\<And>row. project_out ps row = project_out ps' row" and "answer db c = answer db c'"
  shows "answer db (LogicalProject ps cs c) = answer db (LogicalProject ps' cs' c')"
  using assms by (simp add: answer_def run_streaming stream_bind_cong [OF assms(1)])

lemma fold_constants_answers: "fold_constants plan = Inr plan' \<Longrightarrow> answer db plan' = answer db plan"
proof (induction plan arbitrary: plan')
  case (LogicalFilter p c)
  then obtain p' c' where p: "fold_constants_in p = Inr p'" "fold_constants c = Inr c'" "plan' = LogicalFilter p' c'"
    by (auto simp: bind_res_Inr)
  show ?case unfolding p(3) by (rule run_filter_cong [OF filter_row_fold [OF p(1)] LogicalFilter.IH [OF p(2)]])
next
  case (LogicalProject ps cs c)
  then obtain ps' c' where p: "map_res fold_constants_in ps = Inr ps'" "fold_constants c = Inr c'" "plan' = LogicalProject ps' cs c'"
    by (auto simp: bind_res_Inr)
  show ?case unfolding p(3) by (rule run_project_cong [OF project_out_fold [OF p(1)] LogicalProject.IH [OF p(2)]])
qed auto

lemma flat_map_single: "(\<And>x. x \<in> set xs \<Longrightarrow> f x = ([x], None)) \<Longrightarrow> flat_map f xs = (xs, None)"
  by (induction xs) auto

lemma stream_bind_single: "(\<And>row. row \<in> set (fst s) \<Longrightarrow> f row = ([row], None)) \<Longrightarrow> stream_bind f s = s"
  by (cases s) (simp add: stream_bind_def flat_map_single)

lemma answer_streaming:
  "answer db (LogicalFilter p c) = run_unary (\<lambda>s. Some (Inr (stream_bind (filter_row p) s))) (answer db c)"
  "answer db (LogicalProject ps cs c) = run_unary (\<lambda>s. Some (Inr (stream_bind (project_out ps) s))) (answer db c)"
  by (simp_all add: answer_def run_streaming)

lemma run_unary_id:
  assumes "\<And>s. child = Some (Inr s) \<Longrightarrow> f s = s"
  shows "run_unary (\<lambda>s. Some (Inr (f s))) child = child"
  using assms by (auto simp: run_unary_def split: option.splits sum.splits bind_split)

lemma remove_trivial_answers: "answer db (remove_trivial_filter plan) = answer db plan"
proof (induction plan)
  case (LogicalFilter p c)
  show ?case
  proof (cases "is_true_literal p")
    case True
    then obtain t where "p = Literal (PyBool True) t" by (cases p) auto
    then have "filter_row p row = ([row], None)" for row by (simp add: filter_row_def matches_def)
    then have "answer db (LogicalFilter p c) = answer db c"
      unfolding answer_streaming by (intro run_unary_id stream_bind_single)
    with True LogicalFilter show ?thesis by simp
  next
    case False
    then show ?thesis using answer_cong(1) [OF LogicalFilter] by simp
  qed
next
  case (LogicalProject ps cs c)
  from answer_cong(2) [OF this] show ?case by simp
qed simp_all

section \<open>Stacked filters\<close>

fun stacked :: "logical_node \<Rightarrow> expression list" where
  "stacked (LogicalFilter p c) = p # stacked c"
| "stacked _ = []"

fun below_filters :: "logical_node \<Rightarrow> logical_node" where
  "below_filters (LogicalFilter p c) = below_filters c"
| "below_filters plan = plan"

lemma below_not_filter [simp]: "below_filters plan \<noteq> LogicalFilter p c"
  by (induction plan) auto

lemma merge_filters:
  "merge_adjacent_filters (LogicalFilter p c) =
     LogicalFilter (foldl (BinaryOp AND_OP) p (stacked c)) (merge_adjacent_filters (below_filters c))"
proof (induction c arbitrary: p)
  case (LogicalFilter q c)
  then show ?case by simp
qed simp_all

lemma stacked_rows:
  assumes "raises_nothing db plan"
  shows "rows_of db plan = filter (\<lambda>row. \<forall>p\<in>set (stacked plan). holds p row) (rows_of db (below_filters plan)) \<and>
    raises_nothing db (below_filters plan)"
  using assms
proof (induction plan)
  case (LogicalFilter p c)
  from LogicalFilter.prems have c: "raises_nothing db c" by (rule raises_nothing_down)
  from LogicalFilter.prems c raises_nothing_simps [of db "LogicalFilter p c"] raises_nothing_simps [of db c]
  have "rows_of db (LogicalFilter p c) = filter (holds p) (rows_of db c)" by (intro answer_filter) auto
  with LogicalFilter.IH [OF c] show ?case by (simp add: conj_commute)
qed simp_all

lemma merge_answers:
  assumes "raises_nothing db plan" and "raises_nothing db (merge_adjacent_filters plan)"
  shows "answer db (merge_adjacent_filters plan) = answer db plan"
  using assms
proof (induction "length (walk_logical plan)" arbitrary: plan rule: less_induct)
  case less
  show ?case
  proof (cases plan)
    case (LogicalFilter p c)
    let ?P = "foldl (BinaryOp AND_OP) p (stacked c)" and ?base = "merge_adjacent_filters (below_filters c)"
    have new: "merge_adjacent_filters plan = LogicalFilter ?P ?base" unfolding LogicalFilter by (rule merge_filters)
    have base: "raises_nothing db (below_filters c)" "raises_nothing db ?base"
      using stacked_rows [OF less.prems(1)] raises_nothing_down(1) [OF less.prems(2) [unfolded new]] by (simp_all add: LogicalFilter)
    have "length (walk_logical (below_filters c)) \<le> length (walk_logical c)"
      by (induction c) (simp_all add: walk_logical.simps [of "LogicalFilter p c" for p c])
    then have "length (walk_logical (below_filters c)) < length (walk_logical plan)"
      unfolding LogicalFilter by (simp add: walk_logical.simps [of "LogicalFilter p c" for p c])
    from less.hyps [OF this base] have same: "rows_of db ?base = rows_of db (below_filters c)" by (simp add: rows_of_def)
    have "rows_of db (merge_adjacent_filters plan) = filter (holds ?P) (rows_of db ?base)"
      using less.prems(2) base(2) raises_nothing_simps unfolding new by (intro answer_filter) blast+
    also have "holds ?P = (\<lambda>row. \<forall>q\<in>set (stacked plan). holds q row)" unfolding LogicalFilter stacked.simps
      by (intro ext) (rule holds_foldl_and)
    also have "filter (\<lambda>row. \<forall>q\<in>set (stacked plan). holds q row) (rows_of db ?base) = rows_of db plan"
      using stacked_rows [OF less.prems(1)] by (simp add: same LogicalFilter)
    finally have "rows_of db (merge_adjacent_filters plan) = rows_of db plan" .
    with less.prems raises_nothing_simps show ?thesis by metis
  next
    case (LogicalProject ps cs c)
    have "length (walk_logical c) < length (walk_logical plan)"
      unfolding LogicalProject by (simp add: walk_logical.simps [of "LogicalProject p q c" for p q c])
    from less.hyps [OF this] less.prems raises_nothing_down(2) LogicalProject
    have "answer db (merge_adjacent_filters c) = answer db c" by auto
    from answer_cong(2) [OF this] show ?thesis unfolding LogicalProject by simp
  qed simp_all
qed

section \<open>Identity projections\<close>

fun filtered_scan :: "logical_node \<Rightarrow> bool" where
  "filtered_scan (LogicalFilter _ c) = filtered_scan c"
| "filtered_scan (LogicalScan s) = (scan_width s = length (sn_schema s))"
| "filtered_scan _ = False"

fun projects_one_table :: "logical_node \<Rightarrow> bool" where
  "projects_one_table (LogicalProject _ _ c) = filtered_scan c"
| "projects_one_table _ = True"

lemma set_flat_map: "set (fst (flat_map f xs)) \<subseteq> (\<Union>x\<in>set xs. set (fst (f x)))"
proof (induction xs)
  case (Cons x xs)
  then show ?case by (cases "f x"; cases "snd (f x)") (auto simp: then_stream_def)
qed simp

lemma filtered_scan_schema:
  "filtered_scan plan \<Longrightarrow> \<exists>s. scanned_schema plan = Some (sn_schema s) \<and> first_scan (walk_logical plan) = Some s"
  by (induction plan) (auto simp: scanned_schema_def walk_logical.simps [of "LogicalFilter p c" for p c] walk_logical.simps [of "LogicalScan s" for s])

lemma filtered_scan_rows:
  assumes "filtered_scan plan" and "first_scan (walk_logical plan) = Some s" and "answer db plan = Some (Inr stream)"
  shows "\<forall>row\<in>set (fst stream). length row = length (sn_schema s)"
  using assms
proof (induction plan arbitrary: stream)
  case (LogicalScan t)
  then have t: "t = s" "scan_width s = length (sn_schema s)" by (simp_all add: walk_logical.simps)
  let ?c = "scan_of_table db (sn_schema s) (written_layout s)"
  from LogicalScan.prems(3) have g: "fst stream = fst (flat_map (\<lambda>(rid, payload). visible_out (visible_row ?c payload)) (left_over (dv_heap db (sn_table s))))"
    by (auto simp: answer_def run_scans t(1) generated_def then_stream_def split: option.splits)
  have "length row = length (sn_schema s)" if "row \<in> set (fst (visible_out (visible_row ?c payload)))" for payload row
  proof -
    from that have "visible_row ?c payload = Inr (Some row)"
      by (auto simp: visible_out_def split: sum.splits option.splits)
    then show ?thesis
      by (auto simp: visible_row_def scan_of_table_def bind_res_Inr place_def written_layout_def t(2) decode_record_length split: if_splits)
  qed
  with set_flat_map [of "\<lambda>(rid, payload). visible_out (visible_row ?c payload)"] show ?case unfolding g by fastforce
next
  case (LogicalFilter p c)
  then obtain stream' where c: "answer db c = Some (Inr stream')" "stream = stream_bind (filter_row p) stream'"
    by (cases "answer db c"; cases "the (answer db c)") (auto simp: answer_streaming run_unary_def)
  have "set (fst stream) \<subseteq> set (fst stream')"
    using set_flat_map [of "filter_row p" "fst stream'"]
    by (fastforce simp: c(2) stream_bind_def then_stream_def filter_row_def split: option.splits sum.splits if_splits)
  moreover have "\<forall>row\<in>set (fst stream'). length row = length (sn_schema s)"
    by (rule LogicalFilter.IH [OF _ _ c(1)]) (use LogicalFilter.prems in \<open>simp_all add: walk_logical.simps [of "LogicalFilter p c" for p c]\<close>)
  ultimately show ?case by blast
qed simp_all

lemma project_identity:
  assumes "length ps = length row" and "\<forall>i<length ps. reads_column (ps ! i) i"
  shows "project_out ps row = ([row], None)"
proof -
  have "map_res (\<lambda>p. evaluate p row) (drop i ps) = Inr (drop i row)" if "i \<le> length ps" for i
    using that
  proof (induction "length ps - i" arbitrary: i)
    case (Suc n)
    then have i: "i < length ps" by simp
    then obtain c where c: "ps ! i = BoundColumnRef c" "column_index c = i" using assms(2) by (cases "ps ! i") auto
    have "map_res (\<lambda>p. evaluate p row) (drop (Suc i) ps) = Inr (drop (Suc i) row)" using Suc by simp
    moreover have "evaluate (ps ! i) row = Inr (row ! i)" using c i assms(1) by (simp add: guard_res_def)
    ultimately show ?case using i assms(1) by (simp add: Cons_nth_drop_Suc [symmetric])
  qed (use assms(1) in simp)
  from this [of 0] show ?thesis by (simp add: project_out_def project_row_def)
qed

lemma drop_identity_answers:
  assumes "projects_one_table plan"
  shows "answer db (drop_identity_projection plan) = answer db plan"
proof (cases "drop_identity_projection plan = plan")
  case False
  then obtain ps cs c where plan: "plan = LogicalProject ps cs c" by (cases plan) auto
  with assms filtered_scan_schema [of c] obtain s where s: "filtered_scan c" "first_scan (walk_logical c) = Some s" by auto
  then have "scanned_schema plan = Some (sn_schema s)"
    by (simp add: scanned_schema_def plan walk_logical.simps [of "LogicalProject p q c" for p q c])
  with False plan have new: "drop_identity_projection plan = c" "length ps = length (sn_schema s)"
    "list_all (\<lambda>(position, p). reads_column p position) (enumerate 0 ps)" by (auto split: if_splits)
  then have reads: "\<forall>i<length ps. reads_column (ps ! i) i"
    by (auto simp: list_all_iff in_set_enumerate_eq)
  have "answer db plan = answer db c" unfolding plan answer_streaming
  proof (rule run_unary_id, rule stream_bind_single)
    fix stream row assume "answer db c = Some (Inr stream)" "row \<in> set (fst stream)"
    with filtered_scan_rows [OF s] have "length row = length (sn_schema s)" by blast
    with new(2) reads show "project_out ps row = ([row], None)" by (intro project_identity) simp_all
  qed
  with new(1) show ?thesis by simp
qed simp

section \<open>All rules\<close>

definition projection_safe :: "logical_node \<Rightarrow> bool" where
  "projection_safe plan \<longleftrightarrow> projects_one_table plan \<or> drop_identity_projection plan = plan"

lemma apply_step:
  "apply_each ((name, rule) # rules) plan applied =
     bind_res (rule plan) (\<lambda>r. apply_each rules r (if r \<noteq> plan then applied @ [name] else applied))"
  by (auto simp: bind_res_def split: sum.split)

lemma apply_rules_stages:
  "apply_rules plan = Inr (plan', applied) \<Longrightarrow> \<exists>folded. fold_constants plan = Inr folded \<and>
     plan' = simplify_outer_joins (drop_identity_projection (remove_trivial_filter (merge_adjacent_filters folded)))"
  by (simp only: apply_rules_def RULES_def apply_step) (auto simp only: bind_res_Inr apply_each.simps sum.inject prod.inject)

text \<open>
  C11: The optimizer keeps what a query returns. \<open>apply_rules\<close> runs the five rules in their order, and the
  plan it returns yields the same rows in the same order, for any plan, any tables and any snapshot, when no
  operator raises before and after the filters are merged and the joins are reduced, the joins are what the
  binder makes them, and the projection that is dropped, if one is, stands on a single table.
\<close>

theorem optimizer_preserves:
  assumes "apply_rules plan = Inr (plan', applied)"
    and "fold_constants plan = Inr folded" and "merged = merge_adjacent_filters folded"
    and "trimmed = remove_trivial_filter merged" and "bare = drop_identity_projection trimmed"
    and "raises_nothing db folded" "raises_nothing db merged" "raises_nothing db bare" "raises_nothing db plan'"
    and "projection_safe trimmed" and "joins_fit n bare"
  shows "answer db plan' = answer db plan"
proof -
  from apply_rules_stages [OF assms(1)] assms(2-5) have plan': "plan' = simplify_outer_joins bare" by simp
  have "answer db plan' = answer db bare" using simplified_answers [OF assms(11,8)] assms(9) by (simp add: plan')
  also have "\<dots> = answer db trimmed"
    using assms(10) drop_identity_answers unfolding projection_safe_def assms(5) by metis
  also have "\<dots> = answer db merged" by (simp add: assms(4) remove_trivial_answers)
  also have "\<dots> = answer db folded" using merge_answers assms(3,6,7) by simp
  also have "\<dots> = answer db plan" by (rule fold_constants_answers [OF assms(2)])
  finally show ?thesis .
qed

theorem optimizer_preserves_witness:
  "apply_rules (LogicalFilter demo_where (demo_join LEFT)) =
     Inr (LogicalFilter demo_where (demo_join INNER), [''simplify_outer_joins'']) \<and>
   answer demo_db (LogicalFilter demo_where (demo_join INNER)) = answer demo_db (LogicalFilter demo_where (demo_join LEFT))"
proof -
  let ?plan = "LogicalFilter demo_where (demo_join LEFT)"
  have steps: "fold_constants ?plan = Inr ?plan" "merge_adjacent_filters ?plan = ?plan" "remove_trivial_filter ?plan = ?plan"
    by (simp_all add: demo_where_def demo_join_def demo_column_def try_fold_def)
  then have applied: "apply_rules ?plan = Inr (LogicalFilter demo_where (demo_join INNER), [''simplify_outer_joins''])"
    by (simp add: apply_rules_def RULES_def demo_reduced) (simp add: demo_join_def)
  have "joins_fit 2 ?plan"
    by (auto simp: demo_join_def chain_fits_def tables_of_chain_def chain_ok_def scan_fits_def scan_width_def demo_table_def demo_scan_def
        cells_def columns_in_def demo_where_def demo_equal_def demo_column_def less_Suc_eq nth_Cons')
  then show ?thesis
    using optimizer_preserves [OF applied steps(1) steps(2) [symmetric] steps(3) [symmetric] refl, of demo_db 2] applied demo_quiet
    by (simp add: projection_safe_def)
qed

section \<open>Where dropping a projection is wrong\<close>

text \<open>
  \<open>SELECT u.a, u.b FROM u JOIN o ON TRUE\<close>, where \<open>u\<close> has exactly the columns \<open>a\<close> and \<open>b\<close>: the rule
  compares the projection with the first table alone.
\<close>

definition two_db :: database_view where
  "two_db = \<lparr>dv_heap = (\<lambda>t. \<lparr>left_over = [(RecordId 1 0, zeros 8 @ [if t = [117] then 3 else 1])], failure = None\<rparr>),
     dv_get = (\<lambda>_ _. Inl RecordNotFoundError), dv_range = (\<lambda>_ _. \<lparr>left_over = [], failure = None\<rparr>), dv_snapshot = None\<rparr>"

definition two_u :: scan_node where
  "two_u = \<lparr>sn_table = [117], sn_schema = sc_schema demo_scan @ sc_schema demo_scan, sn_position = 0, sn_offset = 0, sn_total = 3\<rparr>"

definition two_o :: scan_node where
  "two_o = \<lparr>sn_table = [111], sn_schema = sc_schema demo_scan, sn_position = 1, sn_offset = 2, sn_total = 3\<rparr>"

definition two_query :: logical_node where
  "two_query = LogicalProject [demo_column 0 BOOLEAN, demo_column 1 BOOLEAN] []
     (LogicalJoin (Literal (PyBool True) (Some BOOLEAN)) (LogicalScan two_u) (LogicalScan two_o) INNER)"


end
