(* ===== verification/Spec2Isabelle.thy ===== *)
theory Spec2Isabelle
  imports RowRecord Key Page Transaction Locks PagerStore GroupLaws Rules
begin

text \<open>
  ChenDB, a small relational database engine (\<open>src/engine\<close>): rows and index keys as bytes, slotted pages,
  heap files and B+ trees over a pager with a buffer pool and a write-ahead log, transactions with
  snapshots and undo, and a lock manager with deadlock detection. This development models these parts
  from the code and proves what makes each of them correct; the root theory composes the heap and the
  index with the pager and the transaction manager.

  \<^bold>\<open>Conventions.\<close> Exceptions are values of \<open>db_error\<close> (theory \<open>Base\<close>), one constructor per class, and a
  function that may raise returns a sum, \<open>Inl\<close> the exception (\<open>'a res\<close>). A method that changes its object
  takes and returns a record of the object's fields. A method that may raise after it has changed
  something has the type \<open>('s, 'a) op\<close>, a state with a result beside it, composed by \<open>bind_op\<close>. Bytes are
  lists of 8-bit words. Python's integers are \<open>int\<close> or \<open>nat\<close>, and every \<open>struct.pack\<close> checks its range as the
  code's does. A loop that a damaged file could keep running forever is a \<open>partial_function (option)\<close>, whose
  value \<open>None\<close> means that it never returns; that it returns is then part of what is proved. Clock
  readings, counters and tracer events are left out throughout.

  \<^bold>\<open>Values and rows.\<close>
  \<^item> \<open>Base\<close>: byte strings, fixed-width fields, results, operations (\<open>engine/errors.py\<close>).
  \<^item> \<open>PyText\<close>, \<open>PyFloat\<close>: what the code uses of Python's UTF-8 and of IEEE doubles.
  \<^item> \<open>Types\<close>: data types, codecs, columns and schemas (\<open>engine/serialization/types.py\<close>, \<open>schema.py\<close>).
  \<^item> \<open>RowRecord\<close>: rows as bytes with a NULL bitmap, the inspector's layout, the version header
    (\<open>engine/serialization/record.py\<close>). Decoding inverts encoding; validation and encoding agree but for
    the texts named there.
  \<^item> \<open>Key\<close>: index keys (\<open>engine/index/key.py\<close>). The byte order of keys is the order of values, NULL first.

  \<^bold>\<open>Pages and files.\<close>
  \<^item> \<open>Page\<close>: the slotted page (\<open>engine/storage/page.py\<close>, \<open>constants.py\<close>). \<open>page_ok\<close> is the layout invariant;
    \<open>recs\<close> abstracts a page to its list of slots, and every operation refines one on that list.
  \<^item> \<open>Meta\<close>, \<open>DiskFile\<close>, \<open>Buffer\<close>: the meta page (\<open>engine/storage/meta.py\<close>), the file the pager opens, and the buffer
    pool (\<open>engine/storage/buffer.py\<close>) with LRU order, eviction and write-back over any backing store.
  \<^item> \<open>Pager\<close>: reads, writes, allocation, free list, sync, checkpoint, opening with recovery
    (\<open>engine/storage/pager.py\<close>). \<open>pages\<close> is the map from page ids to bytes that pool, log and file stand for.
  \<^item> \<open>PageStore\<close>: the locale \<open>page_store\<close>, what heap and index ask of the pager: reading, writing and
    allocating pages as steps on a map from page ids to contents. \<open>room k\<close> says that the store is in order and
    takes \<open>k\<close> more page writes: ids and log sequence numbers have fixed widths, so no run is unbounded.
  \<^item> \<open>PagerStore\<close>: the pager satisfies \<open>page_store\<close>, for every hook that keeps its own state in order (locale
    \<open>hooked_pager\<close>); the transaction manager's hook, installed by \<open>Database.__init__\<close>, is one.
  \<^item> \<open>Heap\<close>: heap files (\<open>engine/storage/heap.py\<close>) on any page store; a heap is a map from record ids to
    records.

  \<^bold>\<open>The index.\<close>
  \<^item> \<open>Node\<close>: B+ tree nodes and the choice of a cut (\<open>engine/index/node.py\<close>).
  \<^item> \<open>BPlusTree\<close>: descent, search, range scan, insertion, deletion (\<open>engine/index/bplustree.py\<close>).
  \<^item> \<open>TreeModel\<close>: the tree that the pages spell out, its shape, its embedding in the pages and
    contexts, trees with a hole, along which a split is propagated. The code's bound \<open>_MAX_DEPTH = 32\<close> on the
    depth is the fuel of the descents.

  \<^bold>\<open>Log and transactions.\<close>
  \<^item> \<open>WalRecord\<close>, \<open>WalLog\<close>, \<open>Recovery\<close>: log records, the log with coalescing, flushing and scanning, and the three
    recovery passes (\<open>engine/wal\<close>).
  \<^item> \<open>Snapshot\<close>, \<open>Undo\<close>, \<open>Transaction\<close>: visibility (\<open>engine/concurrency/snapshot.py\<close>), before-images
    (\<open>engine/transaction/undo.py\<close>), and the transaction manager as a transition system
    (\<open>engine/transaction/manager.py\<close>) with its invariant on reachable states.
  \<^item> \<open>Locks\<close>: the lock manager (\<open>engine/concurrency/locks.py\<close>) as interleaved steps of many sessions.

  \<^bold>\<open>Queries.\<close>
  \<^item> \<open>Expr\<close>, \<open>ExprErrors\<close>: expressions and their evaluation in three-valued logic
    (\<open>engine/executor/expression.py\<close>, the nodes of \<open>engine/parser/ast.py\<close>), their static types
    (\<open>engine/executor/binder.py\<close>), and which exceptions evaluation raises.
  \<^item> \<open>Nullability\<close>: the analysis behind the reduction of outer joins (\<open>engine/optimizer/nullability.py\<close>).
  \<^item> \<open>Plan\<close>: logical plans and the rewrite rules (\<open>engine/planner/logical.py\<close>, \<open>engine/optimizer/rules.py\<close>).
  \<^item> \<open>Access\<close>: what the physical planner decides beyond costs (\<open>engine/planner/physical.py\<close>): conjunctions, the
    keys of a hash join, and the bounds of an index scan, which are exactly the comparisons they replace.
  \<^item> \<open>Operators\<close>: the iterators (\<open>engine/executor/operators.py\<close>), each a step on its cursor, run by \<open>drain\<close>.
  \<^item> \<open>StreamLaws\<close>, \<open>JoinLaws\<close>: the stream each operator produces, in closed form.
  \<^item> \<open>Physical\<close>: physical plans and the operator trees made of them (\<open>materialise\<close> in \<open>engine/executor/engine.py\<close>);
    every plan runs to its end.
  \<^item> \<open>JoinEquiv\<close>, \<open>ScanEquiv\<close>: the choices the planner makes by cost do not show in the rows: a hash join is the
    nested loop, and an index scan is the heap scan behind the filter it absorbed.
  \<^item> \<open>SortLaws\<close>, \<open>GroupLaws\<close>: sorting, DISTINCT and GROUP BY against what SQL asks of them.
  \<^item> \<open>Rewrite\<close>, \<open>OuterJoins\<close>, \<open>Rules\<close>: constant folding, the reduction of outer joins, and all rewrite rules as
    \<open>apply_rules\<close> runs them: they keep what a query returns, but for one rule on joins, shown there.

  \<^bold>\<open>Not modelled.\<close> The text of statements and its binding to the catalog (\<open>engine/parser\<close> but for the
  expression nodes, \<open>engine/executor/binder.py\<close> but for the types), the statistics and the cost formulas, which
  choose among plans that return the same rows, the engine that walks the statements, the catalog, and the
  parts that only show the engine's state: \<open>engine/server\<close> (HTTP on third-party packages), \<open>engine/diagnostics\<close>,
  \<open>engine/storage/inspect.py\<close> and the shell. \<open>Database\<close> is modelled as far as it wires the parts above together.
\<close>

section \<open>Heap files on the pager\<close>

text \<open>A pager over a new file with 256-byte pages and two frames, without a log.\<close>

definition demo_store :: "txn_manager pager" where
  "demo_store = pager_new 256 True None (zeros 256) (pg_pool demo_pager) (meta_new 256 1) (manager_new 0)"

lemma demo_store_room: "txn_pager.room 256 1000 demo_store"
proof -
  have "frames_ok (pg_pool demo_pager) []" by (auto simp: frames_ok_def demo_pager_def pager_new_def frame_new_def)
  then have ok: "pager_ok demo_store"
    by (simp add: pager_ok_def pager_store.store_ok_def device_ok_def in_sync_def aligned_def demo_store_def demo_pager_def pager_new_def)
  have z: "pages demo_store META_PAGE_ID \<noteq> None"
    by (simp add: pages_def pool_view_def demo_store_def demo_pager_def pager_new_def read_device_page_at page_at_def META_PAGE_ID_def)
  have "sound [] demo_store"
    using z by (simp add: sound_def demo_store_def pager_new_def meta_new_def meta_fits_def meta_words_def FORMAT_VERSION_def INVALID_PAGE_ID_def)
  moreover have "txn_pager.ready 256 0 demo_store"
    using ok by (simp add: txn_pager.ready_def demo_store_def pager_new_def log_ready_def ids_fit_def active_in_def manager_new_def)
  ultimately show ?thesis
    unfolding txn_pager.room_def
    by (intro conjI exI [of _ 0] exI [of _ "[]"])
      (simp_all add: validate_page_size_def MIN_PAGE_SIZE_def MAX_PAGE_SIZE_def demo_store_def pager_new_def meta_new_def INVALID_PAGE_ID_def)
qed

text \<open>
  C5: A heap is a map from record ids to records. On any pager with room for four more page writes,
  under the transaction manager's hook, \<open>insert\<close> of a record that fits a page succeeds, whatever
  compaction or extension of the chain it takes: it returns an address that was not in use, the heap
  then maps it to the record and every other address as before, and no page outside the heap changes.
\<close>

theorem heap_insert_adds:
  assumes "txn_pager.room n (k + 4) pg" and "heap_ok (store_view pg) h ps" and "length b + 28 \<le> n"
  shows "\<exists>pg' h' rid ps'. heap_insert (pager_io (txn_hook s) type_name) None b (h, pg) = ((h', pg'), Inr rid) \<and>
    txn_pager.room n k pg' \<and> heap_ok (store_view pg') h' ps' \<and> heap_map (store_view pg) ps rid = None \<and>
    heap_map (store_view pg') ps' = (heap_map (store_view pg) ps)(rid \<mapsto> b) \<and>
    (\<forall>q. q \<notin> set ps' \<longrightarrow> store_view pg' q = store_view pg q)"
proof -
  have "txn_pager.room n (Suc (Suc (Suc (Suc k)))) pg" using assms(1) by (simp add: eval_nat_numeral)
  from txn_pager.heap_insert_ok [OF this assms(2,3) txn_pager.quiet_None] show ?thesis by blast
qed

lemma demo_heap:
  "\<exists>pg h p. heap_create (pager_io (txn_hook ''s'') type_name) None demo_store = (pg, Inr h) \<and>
     txn_pager.room 256 998 pg \<and> heap_ok (store_view pg) h [p] \<and> heap_map (store_view pg) [p] = Map.empty"
proof -
  have "txn_pager.room 256 (Suc (Suc 998)) demo_store" using demo_store_room by simp
  from txn_pager.heap_create_ok [OF this txn_pager.quiet_None] show ?thesis by blast
qed

theorem heap_insert_adds_witness:
  "\<exists>pg h pg' h' rid ps. heap_create (pager_io (txn_hook ''s'') (\<lambda>_. [])) None demo_store = (pg, Inr h) \<and>
     heap_insert (pager_io (txn_hook ''s'') (\<lambda>_. [])) None [1, 2, 3] (h, pg) = ((h', pg'), Inr rid) \<and>
     heap_map (store_view pg') ps = [rid \<mapsto> [1, 2, 3]]"
proof -
  obtain pg h p where d: "heap_create (pager_io (txn_hook ''s'') (\<lambda>_. [])) None demo_store = (pg, Inr h)"
    "txn_pager.room 256 998 pg" "heap_ok (store_view pg) h [p]" "heap_map (store_view pg) [p] = Map.empty"
    using demo_heap by blast
  from d(2) have r: "txn_pager.room 256 (994 + 4) pg" by simp
  have "length [1, 2, 3 :: byte] + 28 \<le> 256" by simp
  from heap_insert_adds [OF r d(3) this, of "''s''" "\<lambda>_. []"] d(1,4) show ?thesis by metis
qed

text \<open>
  C38: Addresses stay valid and a scan finds every record once. \<open>get\<close> returns the record at a live
  address of the heap and raises \<open>RecordNotFoundError\<close> at any other on its pages; \<open>scan\<close> ends, and
  yields every record of the heap exactly once, under its address; neither changes a page.
\<close>

theorem heap_reads_agree:
  assumes "txn_pager.room n k pg" and "heap_ok (store_view pg) h ps"
  shows "(\<exists>pg' rows. heap_scan (pager_io (txn_hook s) type_name) (h, pg) = Some (pg', Inr rows) \<and> distinct (map fst rows) \<and>
      map_of rows = heap_map (store_view pg) ps \<and> store_view pg' = store_view pg) \<and>
    (rid_page rid \<in> set ps \<longrightarrow> (\<exists>pg'. heap_get (pager_io (txn_hook s) type_name) rid pg =
      (pg', case heap_map (store_view pg) ps rid of None \<Rightarrow> Inl RecordNotFoundError | Some b \<Rightarrow> Inr b) \<and>
      store_view pg' = store_view pg))"
proof -
  have d: "distinct ps" using assms(2) by (simp add: heap_ok_def)
  from txn_pager.heap_scan_ok [OF assms] obtain pg' where
    "heap_scan (pager_io (txn_hook s) type_name) (h, pg) = Some (pg', Inr (heap_rows (store_view pg) ps))" "store_view pg' = store_view pg"
    by blast
  moreover note distinct_heap_rows [OF d] map_of_heap_rows [OF d]
  ultimately show ?thesis using txn_pager.heap_get_ok [OF assms] by blast
qed

theorem heap_reads_agree_witness:
  "\<exists>pg h pg'. heap_create (pager_io (txn_hook ''s'') (\<lambda>_. [])) None demo_store = (pg, Inr h) \<and>
     heap_scan (pager_io (txn_hook ''s'') (\<lambda>_. [])) (h, pg) = Some (pg', Inr [])"
proof -
  obtain pg h p where d: "heap_create (pager_io (txn_hook ''s'') (\<lambda>_. [])) None demo_store = (pg, Inr h)"
    "txn_pager.room 256 998 pg" "heap_ok (store_view pg) h [p]" "heap_map (store_view pg) [p] = Map.empty"
    using demo_heap by blast
  from heap_reads_agree [OF d(2,3), of "''s''" "\<lambda>_. []" "RecordId p 0"] obtain pg' rows where
    "heap_scan (pager_io (txn_hook ''s'') (\<lambda>_. [])) (h, pg) = Some (pg', Inr rows)" "map_of rows = Map.empty"
    using d(4) by auto
  moreover from this(2) have "rows = []" by (metis map_of_eq_empty_iff)
  ultimately show ?thesis using d(1) by auto
qed

text \<open>
  Deleting and replacing. \<open>delete\<close> reports whether the address was live and leaves it dead;
  \<open>replace\<close> of a non-empty record by one of the same length changes that record; every other address
  and every page outside the heap stay as they were.
\<close>

theorem heap_updates_one_record:
  assumes "txn_pager.room n (Suc k) pg" and "heap_ok (store_view pg) h ps" and "rid_page rid \<in> set ps"
  shows "(\<exists>pg'. heap_delete (pager_io (txn_hook s) type_name) rid pg = (pg', Inr (heap_map (store_view pg) ps rid \<noteq> None)) \<and>
      heap_ok (store_view pg') h ps \<and> heap_map (store_view pg') ps = (heap_map (store_view pg) ps)(rid := None) \<and>
      (\<forall>q. q \<notin> set ps \<longrightarrow> store_view pg' q = store_view pg q)) \<and>
    (\<forall>old. heap_map (store_view pg) ps rid = Some old \<longrightarrow> length b = length old \<longrightarrow> old \<noteq> [] \<longrightarrow>
      (\<exists>pg'. heap_replace (pager_io (txn_hook s) type_name) rid b pg = (pg', Inr True) \<and> heap_ok (store_view pg') h ps \<and>
        heap_map (store_view pg') ps = (heap_map (store_view pg) ps)(rid \<mapsto> b) \<and>
        (\<forall>q. q \<notin> set ps \<longrightarrow> store_view pg' q = store_view pg q)))"
  using txn_pager.heap_delete_ok [OF assms] txn_pager.heap_replace_ok [OF assms(1,2)] by (metis length_greater_0_conv)

theorem heap_updates_one_record_witness:
  "\<exists>pg h p pg'. heap_create (pager_io (txn_hook ''s'') (\<lambda>_. [])) None demo_store = (pg, Inr h) \<and>
     heap_delete (pager_io (txn_hook ''s'') (\<lambda>_. [])) (RecordId p 0) pg = (pg', Inr False)"
proof -
  obtain pg h p where d: "heap_create (pager_io (txn_hook ''s'') (\<lambda>_. [])) None demo_store = (pg, Inr h)"
    "txn_pager.room 256 998 pg" "heap_ok (store_view pg) h [p]" "heap_map (store_view pg) [p] = Map.empty"
    using demo_heap by blast
  from d(2) have r: "txn_pager.room 256 (Suc 997) pg" by simp
  have p: "rid_page (RecordId p 0) \<in> set [p]" by simp
  from heap_updates_one_record [OF r d(3) p, of "''s''" "\<lambda>_. []" "[]"] d(1,4) show ?thesis by auto
qed

section \<open>Indexes on the pager\<close>


lemma demo_index:
  "\<exists>pg T p. bt_create (pager_io (txn_hook ''s'') type_name) True None demo_store = (pg, Inr T) \<and> bt_unique T \<and>
     txn_pager.room 256 997 pg \<and> index_ok 256 (store_view pg) T 0 {p} {}"
proof -
  have "txn_pager.room 256 (Suc (Suc (Suc 997))) demo_store" using demo_store_room by simp
  from txn_pager.index_create_ok [OF this txn_pager.quiet_root_None] show ?thesis by blast
qed

lemma demo_insertable: "insertable 256 [2] (RecordId 1 0)"
  by (simp add: insertable_def MINUS_INFINITY_def TAG_MINUS_INFINITY_def rid_ok_def)


text \<open>
  C39: Reading an index. \<open>search\<close> ends and returns the record ids stored under the key, each once, in
  their order; \<open>range_scan\<close> run to its end yields exactly the pairs between its bounds, in key order;
  no page changes. So the equality lookup and the range scan of a query see the same index.
\<close>

theorem index_reads_exact:
  assumes "txn_pager.room n k pg" and "index_ok n (store_view pg) T h U S" and "h \<le> MAX_DEPTH"
  shows "(MINUS_INFINITY < key \<longrightarrow> (\<exists>pg' rs. bt_search (pager_io (txn_hook s) type_name) T key pg = Some (pg', Inr rs) \<and>
      set rs = {r. (key, r) \<in> S} \<and> sorted_wrt (\<lambda>a b. rid_bytes a < rid_bytes b) rs \<and> store_view pg' = store_view pg)) \<and>
    ((\<forall>low. kr_low kr = Some low \<longrightarrow> MINUS_INFINITY < low) \<longrightarrow>
      (\<exists>pg' rows. bt_range_scan (pager_io (txn_hook s) type_name) T kr pg = Some (pg', Inr rows) \<and>
        set rows = {r \<in> S. row_in kr r} \<and> sorted_wrt row_less rows \<and> store_view pg' = store_view pg))"
  using txn_pager.index_search_ok [OF assms] txn_pager.index_range_ok [OF assms] by blast

theorem index_reads_exact_witness:
  "\<exists>pg T pg1 pg2. bt_create (pager_io (txn_hook ''s'') (\<lambda>_. [])) True None demo_store = (pg, Inr T) \<and>
     bt_search (pager_io (txn_hook ''s'') (\<lambda>_. [])) T [2] pg = Some (pg1, Inr []) \<and>
     bt_range_scan (pager_io (txn_hook ''s'') (\<lambda>_. [])) T full_range pg = Some (pg2, Inr [])"
proof -
  obtain pg T p where d: "bt_create (pager_io (txn_hook ''s'') (\<lambda>_. [])) True None demo_store = (pg, Inr T)"
    "txn_pager.room 256 997 pg" "index_ok 256 (store_view pg) T 0 {p} {}" using demo_index by blast
  have "MINUS_INFINITY < [2]" by (simp add: MINUS_INFINITY_def TAG_MINUS_INFINITY_def)
  with index_reads_exact [OF d(2,3), of "[2]" "''s''" "\<lambda>_. []" full_range] d(1) show ?thesis by (simp add: MAX_DEPTH_def) blast
qed

text \<open>
  C40: Deleting from an index. \<open>delete\<close> removes the pair, reports whether it was there, and
  \<open>delete_key\<close> removes every pair with the key and returns how many there were; the rest of the index,
  its pages and its height stay as they are, and so does every other page.
\<close>

theorem index_delete_exact:
  assumes "txn_pager.room n (Suc (card {r. (key, r) \<in> S}) + k) pg" and "index_ok n (store_view pg) T h U S" and "h \<le> MAX_DEPTH"
    and "MINUS_INFINITY < key"
  shows "(rid_ok rid \<longrightarrow> (\<exists>pg'. bt_delete (pager_io (txn_hook s) type_name) T key rid pg = (pg', Inr ((key, rid) \<in> S)) \<and>
      index_ok n (store_view pg') T h U (S - {(key, rid)}) \<and> (\<forall>q. q \<notin> U \<longrightarrow> store_view pg' q = store_view pg q))) \<and>
    (\<exists>pg'. delete_key (pager_io (txn_hook s) type_name) T key pg = Some (pg', Inr (card {r. (key, r) \<in> S})) \<and>
      index_ok n (store_view pg') T h U {r \<in> S. fst r \<noteq> key} \<and> (\<forall>q. q \<notin> U \<longrightarrow> store_view pg' q = store_view pg q))"
proof -
  have r: "txn_pager.room n (Suc (card {r. (key, r) \<in> S} + k)) pg" "txn_pager.room n (card {r. (key, r) \<in> S} + Suc k) pg"
    using assms(1) by simp_all
  show ?thesis using txn_pager.index_delete_ok [OF r(1) assms(2-4)] txn_pager.index_delete_key_ok [OF r(2) assms(2-4)] by blast
qed

theorem index_delete_exact_witness:
  "\<exists>pg T pg1 pg2. bt_create (pager_io (txn_hook ''s'') (\<lambda>_. [])) True None demo_store = (pg, Inr T) \<and>
     bt_delete (pager_io (txn_hook ''s'') (\<lambda>_. [])) T [2] (RecordId 1 0) pg = (pg1, Inr False) \<and>
     delete_key (pager_io (txn_hook ''s'') (\<lambda>_. [])) T [2] pg = Some (pg2, Inr 0)"
proof -
  obtain pg T p where d: "bt_create (pager_io (txn_hook ''s'') (\<lambda>_. [])) True None demo_store = (pg, Inr T)"
    "txn_pager.room 256 997 pg" "index_ok 256 (store_view pg) T 0 {p} {}" using demo_index by blast
  have r: "txn_pager.room 256 (Suc (card {r. ([2], r) \<in> {}}) + 996) pg" using d(2) by simp
  have m: "MINUS_INFINITY < [2]" by (simp add: MINUS_INFINITY_def TAG_MINUS_INFINITY_def)
  from index_delete_exact [OF r d(3) _ m, of "RecordId 1 0" "''s''" "\<lambda>_. []"] d(1) show ?thesis
    by (simp add: MAX_DEPTH_def rid_ok_def) blast
qed

end
